(* ===== verification/Prelude.thy ===== *)
theory Prelude
  imports Main "HOL-Library.Word" "HOL-Library.Monad_Syntax"
begin

text \<open>
  Shared ground of the development: the C integer types as words, checked array
  accesses (\<^verbatim>\<open>None\<close> is undefined behaviour), bit strings read most significant
  bit first, and the lexicographic order of \<^verbatim>\<open>memcmp\<close>.
\<close>

unbundle bit_operations_syntax

section \<open>C types\<close>

type_synonym uByte = "8 word"
type_synonym Unit = "16 word"
type_synonym uInt = "32 word"

named_theorems ctable \<open>evaluation of the constant tables of the source\<close>
named_theorems bitstr \<open>bit strings of words\<close>

section \<open>Checked memory accesses\<close>

definition peek :: "'a list \<Rightarrow> nat \<Rightarrow> 'a option" where
  "peek m i = (if i < length m then Some (m ! i) else None)"

definition poke :: "'a list \<Rightarrow> nat \<Rightarrow> 'a \<Rightarrow> 'a list option" where
  "poke m i v = (if i < length m then Some (m[i := v]) else None)"

lemma peek_in [simp]: "i < length m \<Longrightarrow> peek m i = Some (m ! i)"
  by (simp add: peek_def)

lemma peek_out [simp]: "length m \<le> i \<Longrightarrow> peek m i = None"
  by (simp add: peek_def)

lemma poke_in [simp]: "i < length m \<Longrightarrow> poke m i v = Some (m[i := v])"
  by (simp add: poke_def)

lemma poke_out [simp]: "length m \<le> i \<Longrightarrow> poke m i v = None"
  by (simp add: poke_def)

lemma peek_SomeD: "peek m i = Some v \<Longrightarrow> i < length m \<and> v = m ! i"
  by (auto simp: peek_def split: if_splits)

lemma poke_SomeD: "poke m i v = Some m' \<Longrightarrow> i < length m \<and> m' = m[i := v]"
  by (auto simp: poke_def split: if_splits)

lemma list_all_replicate [simp]: "list_all P (replicate k x) \<longleftrightarrow> k = 0 \<or> P x"
  by (induction k) auto

lemma concat_replicate_replicate: "concat (replicate k (replicate m b)) = replicate (m * k) b"
  by (induction k) (auto simp: replicate_add)

section \<open>Bit strings, most significant bit first\<close>

definition low_bits :: "nat \<Rightarrow> 'a::semiring_bit_operations \<Rightarrow> bool list" where
  "low_bits n x = map (\<lambda>i. bit x (n - 1 - i)) [0..<n]"

lemma length_low_bits [simp]: "length (low_bits n x) = n"
  by (simp add: low_bits_def)

lemma nth_low_bits [simp]: "i < n \<Longrightarrow> low_bits n x ! i = bit x (n - 1 - i)"
  by (simp add: low_bits_def)

lemma low_bits_0 [simp]: "low_bits 0 x = []"
  by (simp add: low_bits_def)

lemma low_bits_append [bitstr]:
  "low_bits (m + n) x = low_bits m (drop_bit n x) @ low_bits n x"
  by (rule nth_equalityI) (auto simp: nth_append bit_drop_bit_eq add.commute)

lemma low_bits_Suc: "low_bits (Suc n) x = bit x n # low_bits n x"
  using low_bits_append [of 1 n x] by (simp add: low_bits_def bit_drop_bit_eq)

lemma low_bits_cong: "(\<And>i. i < n \<Longrightarrow> bit x i = bit y i) \<Longrightarrow> low_bits n x = low_bits n y"
  by (rule nth_equalityI) auto

lemma low_bits_ucast [bitstr]:
  "n \<le> LENGTH('b) \<Longrightarrow> low_bits n (ucast x :: 'b::len word) = low_bits n (x :: 'a::len word)"
  by (rule nth_equalityI) (auto simp: bit_simps)

lemma low_bits_not [bitstr]:
  "n \<le> LENGTH('a) \<Longrightarrow> low_bits n (NOT x) = map Not (low_bits n (x :: 'a::len word))"
  by (rule nth_equalityI) (auto simp: bit_simps)

lemma low_bits_unat [bitstr]: "low_bits n (unat x) = low_bits n x"
  by (rule nth_equalityI) (auto simp: bit_simps)

lemma low_bits_int: "low_bits n (int k) = low_bits n k"
  by (rule nth_equalityI) (auto simp: bit_simps)

lemma low_bits_mask: "n \<le> m \<Longrightarrow> low_bits n (mask m :: nat) = replicate n True"
  by (rule nth_equalityI) (auto simp: bit_simps)

lemma low_bits_inj: "low_bits LENGTH('a) (x :: 'a::len word) = low_bits LENGTH('a) y \<Longrightarrow> x = y"
proof (rule bit_word_eqI)
  fix i assume e: "low_bits LENGTH('a) x = low_bits LENGTH('a) y" and i: "i < LENGTH('a)"
  have "low_bits LENGTH('a) x ! (LENGTH('a) - 1 - i) = low_bits LENGTH('a) y ! (LENGTH('a) - 1 - i)"
    by (simp add: e)
  then show "bit x i = bit y i" using i by simp
qed

lemma byte_bits_inj: "low_bits 8 (x :: uByte) = low_bits 8 y \<longleftrightarrow> x = y"
  using low_bits_inj [of x y] by auto

lemma and_pow2: "a AND 2 ^ n = (if bit a n then 2 ^ n else (0 :: 'a::len word))"
  by (rule bit_word_eqI) (auto simp: bit_simps)

lemma and_byte_tests [bitstr]:
  fixes b :: uByte
  shows "b AND 0x10 = (if bit b 4 then 0x10 else 0)" and "b AND 0x20 = (if bit b 5 then 0x20 else 0)"
    and "b AND 0x40 = (if bit b 6 then 0x40 else 0)" and "b AND 0x80 = (if bit b 7 then 0x80 else 0)"
  using and_pow2 [of b 4] and_pow2 [of b 5] and_pow2 [of b 6] and_pow2 [of b 7] by simp_all

definition bytes_bits :: "uByte list \<Rightarrow> bool list" where
  "bytes_bits bs = concat (map (low_bits 8) bs)"

lemma bytes_bits_simps [simp]:
  "bytes_bits [] = []"
  "bytes_bits (b # bs) = low_bits 8 b @ bytes_bits bs"
  "bytes_bits (as @ bs) = bytes_bits as @ bytes_bits bs"
  by (simp_all add: bytes_bits_def)

lemma length_bytes_bits [simp]: "length (bytes_bits bs) = 8 * length bs"
  by (induction bs) auto

lemma nth_bytes_bits:
  "j < 8 * length bs \<Longrightarrow> bytes_bits bs ! j = bit (bs ! (j div 8)) (7 - j mod 8)"
proof (induction bs arbitrary: j)
  case Nil
  then show ?case by simp
next
  case (Cons b bs)
  show ?case
  proof (cases "j < 8")
    case True
    then show ?thesis by (simp add: nth_append)
  next
    case False
    with Cons.prems have "bytes_bits bs ! (j - 8) = bit (bs ! ((j - 8) div 8)) (7 - (j - 8) mod 8)"
      by (intro Cons.IH) auto
    with False show ?thesis by (simp add: nth_append nth_Cons' le_div_geq le_mod_geq)
  qed
qed

lemma nth_bytes_bits_at:
  "i < length bs \<Longrightarrow> r < 8 \<Longrightarrow> bytes_bits bs ! (8 * i + r) = bit (bs ! i) (7 - r)"
  by (subst nth_bytes_bits) auto

lemma take_bytes_bits: "take (8 * n) (bytes_bits bs) = bytes_bits (take n bs)"
proof (cases "n \<le> length bs")
  case True
  have "take (8 * n) (bytes_bits (take n bs @ drop n bs)) = bytes_bits (take n bs)"
    using True by (simp only: bytes_bits_simps) (simp add: min_def)
  then show ?thesis by simp
qed simp

lemma bytes_bits_Cons_drop: "i < length bs \<Longrightarrow> bytes_bits (drop i bs) = low_bits 8 (bs ! i) @ bytes_bits (drop (Suc i) bs)"
  by (simp flip: Cons_nth_drop_Suc)

lemma drop_bytes_bits: "drop (8 * n) (bytes_bits bs) = bytes_bits (drop n bs)"
proof (induction n arbitrary: bs)
  case (Suc n)
  then show ?case by (cases bs) simp_all
qed simp

section \<open>Runs of equal bits\<close>

definition run :: "bool \<Rightarrow> bool list \<Rightarrow> nat" where
  "run v xs = length (takeWhile (\<lambda>x. x = v) xs)"

lemma run_le: "run v xs \<le> length xs"
  by (simp add: run_def length_takeWhile_le)

lemma run_Nil [simp]: "run v [] = 0"
  by (simp add: run_def)

lemma run_Cons [simp]: "run v (x # xs) = (if x = v then Suc (run v xs) else 0)"
  by (simp add: run_def)

lemma run_replicate [simp]: "run v (replicate k v @ xs) = k + run v xs"
  by (induction k) auto

lemma run_append: "run v (xs @ ys) = (if run v xs = length xs then length xs + run v ys else run v xs)"
  by (induction xs) auto

lemma run_full_iff: "run v xs = length xs \<longleftrightarrow> xs = replicate (length xs) v"
  by (induction xs) auto

lemma run_less_split:
  "run v xs < length xs \<Longrightarrow> xs = replicate (run v xs) v @ (\<not> v) # drop (Suc (run v xs)) xs"
  by (induction xs) (auto split: if_splits)

lemma run_drop: "k \<le> run v xs \<Longrightarrow> run v (drop k xs) = run v xs - k"
proof (induction xs arbitrary: k)
  case (Cons x xs)
  then show ?case by (cases k) (auto split: if_splits)
qed simp

section \<open>The number a bit string stands for\<close>

definition bits_val :: "bool list \<Rightarrow> nat" where
  "bits_val xs = foldl (\<lambda>a b. 2 * a + of_bool b) 0 xs"

lemma foldl_bits_val: "foldl (\<lambda>a b. 2 * a + of_bool b) k xs = k * 2 ^ length xs + bits_val xs"
proof (induction xs rule: rev_induct)
  case (snoc x xs)
  then show ?case by (simp add: bits_val_def algebra_simps)
qed (simp add: bits_val_def)

lemma bits_val_Nil [simp]: "bits_val [] = 0"
  by (simp add: bits_val_def)

lemma bits_val_Cons [simp]: "bits_val (x # xs) = of_bool x * 2 ^ length xs + bits_val xs"
  using foldl_bits_val [of "of_bool x" xs] by (simp add: bits_val_def)

lemma bits_val_append: "bits_val (xs @ ys) = bits_val xs * 2 ^ length ys + bits_val ys"
  by (induction xs) (auto simp: power_add algebra_simps)

lemma bits_val_zeros [simp]: "bits_val (replicate k False) = 0"
  by (induction k) auto

lemma bits_val_less: "bits_val xs < 2 ^ length xs"
  by (induction xs) auto

lemma bits_val_low_bits: "bits_val (low_bits n (k :: nat)) = k mod 2 ^ n"
proof (induction n)
  case (Suc n)
  have "k mod 2 ^ Suc n = of_bool (bit k n) * 2 ^ n + k mod 2 ^ n"
    using take_bit_Suc_from_most [of n k] by (simp add: take_bit_eq_mod mult.commute)
  with Suc show ?case by (simp add: low_bits_Suc)
qed simp

lemma bits_val_word: "bits_val (low_bits LENGTH('a) (w :: 'a::len word)) = unat w"
  using bits_val_low_bits [of "LENGTH('a)" "unat w"] unsigned_less [of w]
  by (simp add: low_bits_unat)

lemma bits_val_eq_iff: "length xs = length ys \<Longrightarrow> bits_val xs = bits_val ys \<longleftrightarrow> xs = ys"
proof (induction xs ys rule: list_induct2)
  case (Cons x xs y ys)
  then show ?case using bits_val_less [of xs] bits_val_less [of ys] by (cases x; cases y) auto
qed simp

lemma low_bits_bits_val: "low_bits (length xs) (bits_val xs) = xs"
  using bits_val_low_bits [of "length xs" "bits_val xs"] bits_val_less [of xs]
  by (subst bits_val_eq_iff [symmetric]) simp_all

end
