(* ===== verification/DecContext.thy ===== *)
theory DecContext
  imports Prelude
begin

text \<open>
  The decimal context of the decNumber library (\<^verbatim>\<open>decContext.h\<close>, \<^verbatim>\<open>decContext.c\<close>): precision,
  exponent range, rounding mode, trap enablers and status flags.  A \<^verbatim>\<open>raise(SIGFPE)\<close> is a flag
  in the result; the program's handler (\<^verbatim>\<open>signalHandler\<close> of \<^verbatim>\<open>impl_decinfinite.c\<close>) returns at once.
\<close>

section \<open>Data\<close>

datatype rounding =
    DEC_ROUND_CEILING
  | DEC_ROUND_UP
  | DEC_ROUND_HALF_UP
  | DEC_ROUND_HALF_EVEN
  | DEC_ROUND_HALF_DOWN
  | DEC_ROUND_DOWN
  | DEC_ROUND_FLOOR
  | DEC_ROUND_05UP
  | DEC_ROUND_MAX

record decContext =
  ctx_digits :: int
  emax :: int
  emin :: int
  ctx_round :: rounding
  traps :: uInt
  status :: uInt
  clamp :: uByte

definition DEC_MAX_DIGITS :: int where "DEC_MAX_DIGITS = 999999999"
definition DEC_MIN_DIGITS :: int where "DEC_MIN_DIGITS = 1"
definition DEC_MAX_EMAX :: int where "DEC_MAX_EMAX = 999999999"
definition DEC_MIN_EMAX :: int where "DEC_MIN_EMAX = 0"
definition DEC_MAX_EMIN :: int where "DEC_MAX_EMIN = 0"
definition DEC_MIN_EMIN :: int where "DEC_MIN_EMIN = - 999999999"

lemmas dec_limits = DEC_MAX_DIGITS_def DEC_MIN_DIGITS_def DEC_MAX_EMAX_def DEC_MIN_EMAX_def DEC_MAX_EMIN_def DEC_MIN_EMIN_def

definition DEC_Conversion_syntax :: uInt where "DEC_Conversion_syntax = 0x00000001"
definition DEC_Division_by_zero :: uInt where "DEC_Division_by_zero = 0x00000002"
definition DEC_Division_impossible :: uInt where "DEC_Division_impossible = 0x00000004"
definition DEC_Division_undefined :: uInt where "DEC_Division_undefined = 0x00000008"
definition DEC_Insufficient_storage :: uInt where "DEC_Insufficient_storage = 0x00000010"
definition DEC_Inexact :: uInt where "DEC_Inexact = 0x00000020"
definition DEC_Invalid_context :: uInt where "DEC_Invalid_context = 0x00000040"
definition DEC_Invalid_operation :: uInt where "DEC_Invalid_operation = 0x00000080"
definition DEC_Overflow :: uInt where "DEC_Overflow = 0x00000200"
definition DEC_Clamped :: uInt where "DEC_Clamped = 0x00000400"
definition DEC_Rounded :: uInt where "DEC_Rounded = 0x00000800"
definition DEC_Subnormal :: uInt where "DEC_Subnormal = 0x00001000"
definition DEC_Underflow :: uInt where "DEC_Underflow = 0x00002000"

lemmas dec_flags = DEC_Conversion_syntax_def DEC_Division_by_zero_def DEC_Division_impossible_def
  DEC_Division_undefined_def DEC_Insufficient_storage_def DEC_Inexact_def DEC_Invalid_context_def
  DEC_Invalid_operation_def DEC_Overflow_def DEC_Clamped_def DEC_Rounded_def DEC_Subnormal_def DEC_Underflow_def

definition DEC_IEEE_754_Invalid_operation :: uInt where
  "DEC_IEEE_754_Invalid_operation = DEC_Conversion_syntax OR DEC_Division_impossible OR DEC_Division_undefined OR
     DEC_Insufficient_storage OR DEC_Invalid_context OR DEC_Invalid_operation"

definition DEC_Errors :: uInt where
  "DEC_Errors = DEC_Division_by_zero OR DEC_IEEE_754_Invalid_operation OR DEC_Overflow OR DEC_Underflow"

definition DEC_NaNs :: uInt where
  "DEC_NaNs = DEC_IEEE_754_Invalid_operation"

definition DEC_Information :: uInt where
  "DEC_Information = DEC_Clamped OR DEC_Rounded OR DEC_Inexact"

definition DEC_INIT_BASE :: int where "DEC_INIT_BASE = 0"
definition DEC_INIT_DECIMAL32 :: int where "DEC_INIT_DECIMAL32 = 32"
definition DEC_INIT_DECIMAL64 :: int where "DEC_INIT_DECIMAL64 = 64"
definition DEC_INIT_DECIMAL128 :: int where "DEC_INIT_DECIMAL128 = 128"

lemmas dec_inits = DEC_INIT_BASE_def DEC_INIT_DECIMAL32_def DEC_INIT_DECIMAL64_def DEC_INIT_DECIMAL128_def

definition DECPOWERS :: "uInt list" where
  "DECPOWERS = [1, 10, 100, 1000, 10000, 100000, 1000000, 10000000, 100000000, 1000000000]"

section \<open>Operations\<close>

definition decContextClearStatus :: "decContext \<Rightarrow> uInt \<Rightarrow> decContext" where
  "decContextClearStatus context msk = context\<lparr>status := status context AND NOT msk\<rparr>"

definition decContextSetStatus :: "decContext \<Rightarrow> uInt \<Rightarrow> decContext \<times> bool" where
  "decContextSetStatus context st = (context\<lparr>status := status context OR st\<rparr>, st AND traps context \<noteq> 0)"

definition decContextSetStatusQuiet :: "decContext \<Rightarrow> uInt \<Rightarrow> decContext" where
  "decContextSetStatusQuiet context st = context\<lparr>status := status context OR st\<rparr>"

definition decContextDefault :: "decContext \<Rightarrow> int \<Rightarrow> decContext \<times> bool" where
  "decContextDefault context kind =
     (let context = context\<lparr>ctx_digits := 9, emax := DEC_MAX_EMAX, emin := DEC_MIN_EMIN,
            ctx_round := DEC_ROUND_HALF_UP, traps := DEC_Errors, status := 0, clamp := 0\<rparr>
      in if kind = DEC_INIT_BASE then (context, False)
         else if kind = DEC_INIT_DECIMAL32 then
           (context\<lparr>ctx_digits := 7, emax := 96, emin := - 95, ctx_round := DEC_ROUND_HALF_EVEN, traps := 0, clamp := 1\<rparr>, False)
         else if kind = DEC_INIT_DECIMAL64 then
           (context\<lparr>ctx_digits := 16, emax := 384, emin := - 383, ctx_round := DEC_ROUND_HALF_EVEN, traps := 0, clamp := 1\<rparr>, False)
         else if kind = DEC_INIT_DECIMAL128 then
           (context\<lparr>ctx_digits := 34, emax := 6144, emin := - 6143, ctx_round := DEC_ROUND_HALF_EVEN, traps := 0, clamp := 1\<rparr>, False)
         else decContextSetStatus context DEC_Invalid_operation)"

definition decContextGetRounding :: "decContext \<Rightarrow> rounding" where
  "decContextGetRounding context = ctx_round context"

definition decContextGetStatus :: "decContext \<Rightarrow> uInt" where
  "decContextGetStatus context = status context"

definition decContextRestoreStatus :: "decContext \<Rightarrow> uInt \<Rightarrow> uInt \<Rightarrow> decContext" where
  "decContextRestoreStatus context newstatus msk =
     (let context = context\<lparr>status := status context AND NOT msk\<rparr>
      in context\<lparr>status := status context OR (msk AND newstatus)\<rparr>)"

definition decContextSaveStatus :: "decContext \<Rightarrow> uInt \<Rightarrow> uInt" where
  "decContextSaveStatus context msk = status context AND msk"

definition decContextSetRounding :: "decContext \<Rightarrow> rounding \<Rightarrow> decContext" where
  "decContextSetRounding context newround = context\<lparr>ctx_round := newround\<rparr>"

text \<open>The chain of comparisons of the two readers of a condition's name.\<close>

definition conditionFlag :: "string \<Rightarrow> uInt option" where
  "conditionFlag s =
     (if s = ''Conversion syntax'' then Some DEC_Conversion_syntax
      else if s = ''Division by zero'' then Some DEC_Division_by_zero
      else if s = ''Division impossible'' then Some DEC_Division_impossible
      else if s = ''Division undefined'' then Some DEC_Division_undefined
      else if s = ''Inexact'' then Some DEC_Inexact
      else if s = ''Insufficient storage'' then Some DEC_Insufficient_storage
      else if s = ''Invalid context'' then Some DEC_Invalid_context
      else if s = ''Invalid operation'' then Some DEC_Invalid_operation
      else if s = ''Overflow'' then Some DEC_Overflow
      else if s = ''Clamped'' then Some DEC_Clamped
      else if s = ''Rounded'' then Some DEC_Rounded
      else if s = ''Subnormal'' then Some DEC_Subnormal
      else if s = ''Underflow'' then Some DEC_Underflow
      else None)"

text \<open>Both readers return \<^verbatim>\<open>NULL\<close> (\<open>None\<close>) for an unknown name and leave the context alone for \<open>No status\<close>.\<close>

definition decContextSetStatusFromString :: "decContext \<Rightarrow> string \<Rightarrow> (decContext \<times> bool) option" where
  "decContextSetStatusFromString context s =
     (case conditionFlag s of
        Some f \<Rightarrow> Some (decContextSetStatus context f)
      | None \<Rightarrow> if s = ''No status'' then Some (context, False) else None)"

definition decContextSetStatusFromStringQuiet :: "decContext \<Rightarrow> string \<Rightarrow> decContext option" where
  "decContextSetStatusFromStringQuiet context s =
     (case conditionFlag s of
        Some f \<Rightarrow> Some (decContextSetStatusQuiet context f)
      | None \<Rightarrow> if s = ''No status'' then Some context else None)"

definition decContextStatusToString :: "decContext \<Rightarrow> string" where
  "decContextStatusToString context =
     (let st = status context in
      if st = DEC_Invalid_operation then ''Invalid operation''
      else if st = DEC_Division_by_zero then ''Division by zero''
      else if st = DEC_Overflow then ''Overflow''
      else if st = DEC_Underflow then ''Underflow''
      else if st = DEC_Inexact then ''Inexact''
      else if st = DEC_Division_impossible then ''Division impossible''
      else if st = DEC_Division_undefined then ''Division undefined''
      else if st = DEC_Rounded then ''Rounded''
      else if st = DEC_Clamped then ''Clamped''
      else if st = DEC_Subnormal then ''Subnormal''
      else if st = DEC_Conversion_syntax then ''Conversion syntax''
      else if st = DEC_Insufficient_storage then ''Insufficient storage''
      else if st = DEC_Invalid_context then ''Invalid context''
      else if st = 0 then ''No status''
      else ''Multiple status'')"

definition decContextTestEndian :: "bool \<Rightarrow> bool \<Rightarrow> int" where
  "decContextTestEndian LITEND DECLITEND =
     (if LITEND \<noteq> DECLITEND then of_bool LITEND - of_bool DECLITEND else 0)"

definition decContextTestSavedStatus :: "uInt \<Rightarrow> uInt \<Rightarrow> bool" where
  "decContextTestSavedStatus oldstatus msk \<longleftrightarrow> oldstatus AND msk \<noteq> 0"

definition decContextTestStatus :: "decContext \<Rightarrow> uInt \<Rightarrow> bool" where
  "decContextTestStatus context msk \<longleftrightarrow> status context AND msk \<noteq> 0"

definition decContextZeroStatus :: "decContext \<Rightarrow> decContext" where
  "decContextZeroStatus context = context\<lparr>status := 0\<rparr>"

section \<open>Well-formed contexts\<close>

definition context_ok :: "decContext \<Rightarrow> bool" where
  "context_ok c \<longleftrightarrow> DEC_MIN_DIGITS \<le> ctx_digits c \<and> ctx_digits c \<le> DEC_MAX_DIGITS \<and>
     DEC_MIN_EMAX \<le> emax c \<and> emax c \<le> DEC_MAX_EMAX \<and> DEC_MIN_EMIN \<le> emin c \<and> emin c \<le> DEC_MAX_EMIN \<and>
     ctx_round c \<noteq> DEC_ROUND_MAX"

lemma context_ok_status [simp]:
  "context_ok (c\<lparr>status := s\<rparr>) = context_ok c" "context_ok (c\<lparr>traps := s\<rparr>) = context_ok c"
  by (simp_all add: context_ok_def)

lemma context_ok_default: "context_ok (fst (decContextDefault c kind))"
  by (simp add: decContextDefault_def Let_def context_ok_def dec_limits decContextSetStatus_def)

section \<open>Flags and their names\<close>

definition all_flags :: "uInt list" where
  "all_flags = [DEC_Conversion_syntax, DEC_Division_by_zero, DEC_Division_impossible, DEC_Division_undefined,
     DEC_Insufficient_storage, DEC_Inexact, DEC_Invalid_context, DEC_Invalid_operation, DEC_Overflow, DEC_Clamped,
     DEC_Rounded, DEC_Subnormal, DEC_Underflow]"

lemma conditionFlag_name:
  "list_all (\<lambda>f. conditionFlag (decContextStatusToString \<lparr>ctx_digits = d, emax = x, emin = m, ctx_round = r, traps = t, status = f, clamp = c\<rparr>) = Some f) all_flags"
  by (simp add: all_flags_def decContextStatusToString_def conditionFlag_def dec_flags)

lemma conditionFlag_status:
  assumes "status c \<in> set all_flags"
  shows "conditionFlag (decContextStatusToString c) = Some (status c)"
  using conditionFlag_name assms by (cases c) (auto simp: list_all_iff)

lemma status_name_other:
  assumes "status c \<notin> set all_flags"
  shows "decContextStatusToString c = (if status c = 0 then ''No status'' else ''Multiple status'')"
  using assms by (simp add: all_flags_def decContextStatusToString_def Let_def)

lemma conditionFlag_none: "conditionFlag ''No status'' = None" "conditionFlag ''Multiple status'' = None"
  by (simp_all add: conditionFlag_def)

section \<open>Properties\<close>

text \<open>
  C29: the name of a status reads back as the status.  Setting the status of a context from the name that
  \<^verbatim>\<open>decContextStatusToString\<close> gives for another context adds that context's flag if exactly one flag is set, changes nothing if
  none is, and is refused if several are.
\<close>

theorem status_name_round_trip:
  "decContextSetStatusFromStringQuiet c (decContextStatusToString d) =
     (if status d \<in> set all_flags then Some (c\<lparr>status := status c OR status d\<rparr>)
      else if status d = 0 then Some c else None)"
  using conditionFlag_status [of d] status_name_other [of d] conditionFlag_none
  by (auto simp: decContextSetStatusFromStringQuiet_def decContextSetStatusQuiet_def)

text \<open>
  C30: restoring saved status bits.  After flags were saved under a mask and anything happened to the
  context, restoring them under the mask gives exactly the saved flags inside the mask and leaves the flags outside as they are.
\<close>

theorem save_restore_status:
  "let saved = decContextSaveStatus c msk; d' = decContextRestoreStatus d saved msk in
     status d' AND msk = status c AND msk \<and> status d' AND NOT msk = status d AND NOT msk \<and> d'\<lparr>status := status d\<rparr> = d"
proof -
  have "(status d AND NOT msk OR msk AND (status c AND msk)) AND msk = status c AND msk"
    by (rule bit_word_eqI) (auto simp: bit_simps)
  moreover have "(status d AND NOT msk OR msk AND (status c AND msk)) AND NOT msk = status d AND NOT msk"
    by (rule bit_word_eqI) (auto simp: bit_simps)
  ultimately show ?thesis
    by (simp add: decContextRestoreStatus_def decContextSaveStatus_def Let_def)
qed

end
