(* ===== verification/DecNumber.thy ===== *)
theory DecNumber
  imports Prelude
begin

text \<open>
  The data model of the decNumber library (\<^verbatim>\<open>decNumber.h\<close>, \<^verbatim>\<open>decNumberLocal.h\<close>) as this
  program builds it: three decimal digits per unit, and numbers of up to \<^verbatim>\<open>DECNUMDIGITS\<close> = 39
  digits (\<^verbatim>\<open>decInfinite.h\<close>).  Units are 16-bit words, least significant unit first.
\<close>

section \<open>Numbers\<close>

record decNumber =
  digits :: int
  exponent :: int
  bits :: uByte
  lsu :: "Unit list"

definition DECNEG :: uByte where "DECNEG = 0x80"
definition DECINF :: uByte where "DECINF = 0x40"
definition DECNAN :: uByte where "DECNAN = 0x20"
definition DECSNAN :: uByte where "DECSNAN = 0x10"
definition DECSPECIAL :: uByte where "DECSPECIAL = DECINF OR DECNAN OR DECSNAN"

lemmas dec_bits [simp] = DECNEG_def DECINF_def DECNAN_def DECSNAN_def DECSPECIAL_def

definition DECNUMDIGITS :: nat where "DECNUMDIGITS = 39"
definition DECNUMUNITS :: nat where "DECNUMUNITS = (DECNUMDIGITS + 3 - 1) div 3"

lemma DECNUMUNITS_eq [simp]: "DECNUMUNITS = 13"
  by (simp add: DECNUMUNITS_def DECNUMDIGITS_def)

definition decNumberIsFinite :: "decNumber \<Rightarrow> bool" where
  "decNumberIsFinite dn \<longleftrightarrow> bits dn AND DECSPECIAL = 0"

definition decNumberIsInfinite :: "decNumber \<Rightarrow> bool" where
  "decNumberIsInfinite dn \<longleftrightarrow> bits dn AND DECINF \<noteq> 0"

definition decNumberIsNaN :: "decNumber \<Rightarrow> bool" where
  "decNumberIsNaN dn \<longleftrightarrow> bits dn AND (DECNAN OR DECSNAN) \<noteq> 0"

definition decNumberIsNegative :: "decNumber \<Rightarrow> bool" where
  "decNumberIsNegative dn \<longleftrightarrow> bits dn AND DECNEG \<noteq> 0"

definition decNumberIsQNaN :: "decNumber \<Rightarrow> bool" where
  "decNumberIsQNaN dn \<longleftrightarrow> bits dn AND DECNAN \<noteq> 0"

definition decNumberIsSNaN :: "decNumber \<Rightarrow> bool" where
  "decNumberIsSNaN dn \<longleftrightarrow> bits dn AND DECSNAN \<noteq> 0"

definition decNumberIsSpecial :: "decNumber \<Rightarrow> bool" where
  "decNumberIsSpecial dn \<longleftrightarrow> bits dn AND DECSPECIAL \<noteq> 0"

definition decNumberIsZero :: "decNumber \<Rightarrow> bool" where
  "decNumberIsZero dn \<longleftrightarrow> lsu dn ! 0 = 0 \<and> digits dn = 1 \<and> bits dn AND DECSPECIAL = 0"

definition decNumberZero :: "decNumber \<Rightarrow> decNumber" where
  "decNumberZero dn = dn\<lparr>bits := 0, exponent := 0, digits := 1, lsu := (lsu dn)[0 := 0]\<rparr>"

section \<open>Digits and units\<close>

definition d2utable :: "nat list" where
  "d2utable = [0,1,1,1,2,2,2,3,3,3,4,4,4,5,5,5,6,6,6,7,7,7,
     8,8,8,9,9,9,10,10,10,11,11,11,12,12,12,13,13,
     13,14,14,14,15,15,15,16,16,16,17]"

definition D2U :: "int \<Rightarrow> nat" where
  "D2U d = (if d \<le> 49 then d2utable ! nat d else nat ((d + 3 - 1) div 3))"

definition MSUDIGITS :: "int \<Rightarrow> int" where
  "MSUDIGITS d = d - (int (D2U d) - 1) * 3"

definition X10 :: "Unit \<Rightarrow> Unit" where
  "X10 i = push_bit 1 i + push_bit 3 i"

definition X100 :: "Unit \<Rightarrow> Unit" where
  "X100 i = push_bit 2 i + push_bit 5 i + push_bit 6 i"

definition multies :: "uInt list" where
  "multies = [131073, 26215, 5243, 1049, 210]"

definition QUOT10 :: "Unit \<Rightarrow> nat \<Rightarrow> uInt" where
  "QUOT10 u n = drop_bit 17 (drop_bit n (ucast u) * multies ! n)"

lemma D2U_eq: "0 \<le> d \<Longrightarrow> D2U d = nat ((d + 2) div 3)"
proof (cases "d \<le> 49")
  case True
  have "list_all (\<lambda>n. d2utable ! n = (n + 2) div 3) [0..<50]"
    by (simp add: d2utable_def upt_rec)
  moreover assume "0 \<le> d"
  ultimately have "d2utable ! nat d = (nat d + 2) div 3" using True by (auto simp: list_all_iff)
  with True \<open>0 \<le> d\<close> show ?thesis by (simp add: D2U_def nat_div_distrib nat_add_distrib)
qed (simp add: D2U_def)

lemma X10_eq: "X10 i = 10 * i"
  by (simp add: X10_def push_bit_eq_mult)

lemma X100_eq: "X100 i = 100 * i"
  by (simp add: X100_def push_bit_eq_mult flip: distrib_left)

lemma unat_mult_small: "k * unat u < 65536 \<Longrightarrow> unat (of_nat k * u :: Unit) = k * unat u"
  by (simp add: unat_word_ariths unat_of_nat mod_mult_left_eq)

lemma unat_X10: "unat u < 1000 \<Longrightarrow> unat (X10 u) = 10 * unat u"
  using unat_mult_small [of 10 u] by (simp add: X10_eq)

lemma unat_X100: "unat u < 600 \<Longrightarrow> unat (X100 u) = 100 * unat u"
  using unat_mult_small [of 100 u] by (simp add: X100_eq)

lemma unat_ucast_uInt: "unat (ucast (u :: Unit) :: uInt) = unat u"
proof -
  have "unat u < 2 ^ 32" using unsigned_less [of u, where 'a = nat] by simp
  then show ?thesis by (simp add: unsigned_ucast_eq take_bit_eq_mod)
qed

lemma quot_5:
  fixes y :: nat
  assumes "y = 5 * q + r" "r \<le> 4" "q < 100"
  shows "y * 26215 div 131072 = q"
proof (rule div_nat_eqI)
  show "131072 * q \<le> y * 26215" using assms by linarith
  have "y * 26215 < 131072 * q + 131072" using assms by linarith
  then show "y * 26215 < 131072 * Suc q" by simp
qed

lemma quot_25:
  fixes y :: nat
  assumes "y = 25 * q + r" "r \<le> 24" "q < 10"
  shows "y * 5243 div 131072 = q"
proof (rule div_nat_eqI)
  show "131072 * q \<le> y * 5243" using assms by linarith
  have "y * 5243 < 131072 * q + 131072" using assms by linarith
  then show "y * 5243 < 131072 * Suc q" by simp
qed

lemma QUOT10_1: "unat u < 1000 \<Longrightarrow> unat (QUOT10 u 1) = unat u div 10"
proof -
  assume u: "unat u < 1000"
  let ?x = "unat u"
  have "unat (drop_bit 1 (ucast u :: uInt) * 26215) = ?x div 2 * 26215"
  proof -
    have "unat (drop_bit 1 (ucast u :: uInt)) = ?x div 2"
      by (simp add: unat_drop_bit_eq unat_ucast_uInt drop_bit_eq_div [where 'a = nat])
    moreover have "?x div 2 * 26215 < 2 ^ 32" using u by simp
    ultimately show ?thesis by (simp add: unat_word_ariths)
  qed
  then have "unat (QUOT10 u 1) = ?x div 2 * 26215 div 131072"
    by (simp add: QUOT10_def multies_def unat_drop_bit_eq drop_bit_eq_div [where 'a = nat])
  also have "\<dots> = ?x div 2 div 5"
    using quot_5 [of "?x div 2" "?x div 2 div 5" "?x div 2 mod 5"] u by simp
  also have "\<dots> = ?x div 10" by (simp flip: div_mult2_eq)
  finally show ?thesis .
qed

lemma QUOT10_2: "unat u < 1000 \<Longrightarrow> unat (QUOT10 u 2) = unat u div 100"
proof -
  assume u: "unat u < 1000"
  let ?x = "unat u"
  have "unat (drop_bit 2 (ucast u :: uInt) * 5243) = ?x div 4 * 5243"
  proof -
    have "unat (drop_bit 2 (ucast u :: uInt)) = ?x div 4"
      by (simp add: unat_drop_bit_eq unat_ucast_uInt drop_bit_eq_div [where 'a = nat])
    moreover have "?x div 4 * 5243 < 2 ^ 32" using u by simp
    ultimately show ?thesis by (simp add: unat_word_ariths)
  qed
  then have "unat (QUOT10 u 2) = ?x div 4 * 5243 div 131072"
    by (simp add: QUOT10_def multies_def unat_drop_bit_eq drop_bit_eq_div [where 'a = nat])
  also have "\<dots> = ?x div 4 div 25"
    using quot_25 [of "?x div 4" "?x div 4 div 25" "?x div 4 mod 25"] u by simp
  also have "\<dots> = ?x div 100" by (simp flip: div_mult2_eq)
  finally show ?thesis .
qed

section \<open>The number a list of units stands for\<close>

primrec units_val :: "Unit list \<Rightarrow> nat" where
  "units_val [] = 0"
| "units_val (u # us) = unat u + 1000 * units_val us"

definition units_ok :: "Unit list \<Rightarrow> bool" where
  "units_ok us \<longleftrightarrow> (\<forall>u \<in> set us. unat u < 1000)"

lemma units_ok_simps [simp]:
  "units_ok []"
  "units_ok (u # us) \<longleftrightarrow> unat u < 1000 \<and> units_ok us"
  "units_ok (us @ vs) \<longleftrightarrow> units_ok us \<and> units_ok vs"
  "units_ok (rev us) \<longleftrightarrow> units_ok us"
  by (auto simp: units_ok_def)

lemma units_ok_nth: "units_ok us \<Longrightarrow> i < length us \<Longrightarrow> unat (us ! i) < 1000"
  by (simp add: units_ok_def)

lemma units_ok_take: "units_ok us \<Longrightarrow> units_ok (take n us)"
  by (auto simp: units_ok_def dest: in_set_takeD)

lemma units_ok_dropWhile: "units_ok us \<Longrightarrow> units_ok (dropWhile P us)"
  by (auto simp: units_ok_def dest: set_dropWhileD)

lemma units_val_append: "units_val (us @ vs) = units_val us + 1000 ^ length us * units_val vs"
  by (induction us) (auto simp: algebra_simps)

lemma units_val_less: "units_ok us \<Longrightarrow> units_val us < 1000 ^ length us"
  by (induction us) auto

lemma units_val_take_Suc:
  "r < length us \<Longrightarrow> units_val (take (Suc r) us) = units_val (take r us) + 1000 ^ r * unat (us ! r)"
  by (simp add: take_Suc_conv_app_nth units_val_append)

lemma units_val_inj:
  "length us = length vs \<Longrightarrow> units_ok us \<Longrightarrow> units_ok vs \<Longrightarrow> units_val us = units_val vs \<Longrightarrow> us = vs"
proof (induction us vs rule: list_induct2)
  case (Cons u us v vs)
  have "unat u = unat v"
    using arg_cong [OF Cons.prems(3), of "\<lambda>x. x mod 1000"] Cons.prems by simp
  with Cons show ?case by (simp add: word_unat_eq_iff)
qed simp

section \<open>Well-formed numbers\<close>

text \<open>
  The coefficient of a number is the value of its units in use.  A well-formed finite number has at
  least one digit, units for all its digits, no unit above 999, and no leading zeros unless it is zero.
\<close>

definition coeff :: "decNumber \<Rightarrow> nat" where
  "coeff dn = units_val (take (D2U (digits dn)) (lsu dn))"

definition dn_ok :: "decNumber \<Rightarrow> bool" where
  "dn_ok dn \<longleftrightarrow> 1 \<le> digits dn \<and> D2U (digits dn) \<le> length (lsu dn) \<and>
     units_ok (take (D2U (digits dn)) (lsu dn)) \<and>
     coeff dn < 10 ^ nat (digits dn) \<and> (digits dn = 1 \<or> 10 ^ (nat (digits dn) - 1) \<le> coeff dn)"

lemma dn_ok_leading: "dn_ok dn \<Longrightarrow> coeff dn \<noteq> 0 \<Longrightarrow> 10 ^ (nat (digits dn) - 1) \<le> coeff dn"
  by (auto simp: dn_ok_def)

lemma dn_ok_zero: "dn_ok dn \<Longrightarrow> (lsu dn ! 0 = 0 \<and> digits dn = 1) = (coeff dn = 0)"
proof -
  assume ok: "dn_ok dn"
  have pos: "digits dn = 1" if "coeff dn = 0" using ok that by (auto simp: dn_ok_def)
  have "coeff dn = unat (lsu dn ! 0)" if d: "digits dn = 1"
  proof -
    have D: "D2U (digits dn) = 1" using d by (simp add: D2U_eq)
    then show ?thesis using ok by (cases "lsu dn") (auto simp: coeff_def dn_ok_def)
  qed
  then show ?thesis using pos by (auto simp: unat_eq_0)
qed

lemma digits_split:
  assumes "1 \<le> d"
  obtains r m where "D2U d = Suc r" "1 \<le> m" "m \<le> 3" "d = int (3 * r + m)"
proof
  define r where "r = nat ((d - 1) div 3)"
  define m where "m = nat ((d - 1) mod 3) + 1"
  have r: "int r = (d - 1) div 3" using assms by (simp add: r_def)
  have m: "int m = (d - 1) mod 3 + 1" by (simp add: m_def)
  have "(d + 2) div 3 = (d - 1) div 3 + 1" by presburger
  then show "D2U d = Suc r" using assms r by (simp add: D2U_eq nat_add_distrib)
  show "1 \<le> m" by (simp add: m_def)
  have "(d - 1) mod 3 < 3" by simp
  then show "m \<le> 3" using m by linarith
  have "d - 1 = 3 * ((d - 1) div 3) + (d - 1) mod 3" by simp
  then show "d = int (3 * r + m)" using r m by simp
qed

lemma pow10_3: "(10 :: nat) ^ (3 * r) = 1000 ^ r"
  by (simp add: power_mult)

lemma msu_bounds:
  assumes "low < 1000 ^ r" "low + 1000 ^ r * u < 10 ^ (3 * r + m)" "10 ^ (3 * r + m - 1) \<le> low + 1000 ^ r * u" "1 \<le> m"
  shows "10 ^ (m - 1) \<le> u" and "u < (10 :: nat) ^ m"
proof -
  have p: "(10 :: nat) ^ (3 * r + k) = 1000 ^ r * 10 ^ k" for k by (simp add: power_add pow10_3)
  have "3 * r + m - 1 = 3 * r + (m - 1)" using assms(4) by simp
  then have "1000 ^ r * 10 ^ (m - 1) \<le> low + 1000 ^ r * u" using assms(3) p by simp
  also have "\<dots> < 1000 ^ r * Suc u" using assms(1) by simp
  finally have "10 ^ (m - 1) < Suc u" by (simp only: mult_less_cancel1)
  then show "10 ^ (m - 1) \<le> u" by simp
  have "1000 ^ r * u < 1000 ^ r * 10 ^ m" using le_less_trans [OF le_add2 assms(2)] p by simp
  then show "u < 10 ^ m" by simp
qed

end
