(* ===== verification/SqlApi.thy ===== *)
theory SqlApi
  imports Prelude
begin

text \<open>
  What the extension uses of the SQLite interface: values with their types, result codes, and the result of an SQL function.
  Conversions of a value to an integer or a text are the database's; they are parameters of the definitions that use them.
\<close>

datatype sqlite3_value =
    SQLITE_INTEGER int
  | SQLITE_FLOAT
  | SQLITE_TEXT string
  | SQLITE_BLOB "uByte list"
  | SQLITE_NULL

definition is_null :: "sqlite3_value \<Rightarrow> bool" where
  "is_null v \<longleftrightarrow> v = SQLITE_NULL"

lemma is_null_simps [simp]:
  "is_null SQLITE_NULL" "\<not> is_null (SQLITE_INTEGER n)" "\<not> is_null SQLITE_FLOAT" "\<not> is_null (SQLITE_TEXT s)"
  "\<not> is_null (SQLITE_BLOB b)"
  by (simp_all add: is_null_def)

datatype rc = SQLITE_OK | SQLITE_ERROR | SQLITE_NOMEM

datatype sql_result =
    result_null
  | result_int int
  | result_text string
  | result_blob "uByte list"
  | result_error string
  | result_error_nomem

text \<open>The memory \<^verbatim>\<open>sqlite3_malloc\<close> returns: none, or memory with arbitrary contents.\<close>

datatype 'a alloc = NoMem | Mem 'a

end
