(* ===== verification/SqlContext.thy ===== *)
theory SqlContext
  imports DecContext DecNumber SqlApi
begin

text \<open>
  The shared decimal context as SQL sees it (\<^verbatim>\<open>impl_decinfinite.c\<close>): its creation, the settings behind the virtual table
  \<^verbatim>\<open>decContext\<close>, the names of the rounding modes, and the flags behind \<^verbatim>\<open>decStatus\<close> and \<^verbatim>\<open>decTraps\<close>.  A setter returns
  \<open>Inl\<close> the message it leaves in \<^verbatim>\<open>zErrMsg\<close> together with \<^verbatim>\<open>SQLITE_ERROR\<close>, or \<open>Inr\<close> the context.
\<close>

section \<open>Creating a context\<close>

definition initDefaultContext :: "decContext \<Rightarrow> decContext" where
  "initDefaultContext context =
     (let context = fst (decContextDefault context DEC_INIT_BASE);
          context = context\<lparr>ctx_digits := int DECNUMDIGITS\<rparr>
      in context\<lparr>traps := traps context OR (DEC_Conversion_syntax OR DEC_Division_by_zero OR DEC_Division_undefined OR
           DEC_Division_impossible OR DEC_Insufficient_storage OR DEC_Invalid_context OR DEC_Invalid_operation)\<rparr>)"

text \<open>The argument is the memory \<^verbatim>\<open>sqlite3_malloc\<close> returns, \<open>NoMem\<close> when there is none: it is written without a check.\<close>

definition decimalContextCreate :: "decContext alloc \<Rightarrow> decContext option" where
  "decimalContextCreate m = (case m of NoMem \<Rightarrow> None | Mem context \<Rightarrow> Some (initDefaultContext context))"

definition decimalInitSystem :: "decContext alloc \<Rightarrow> decContext option" where
  "decimalInitSystem m = decimalContextCreate m"

definition decimalContextCopy :: "decContext \<Rightarrow> decContext \<Rightarrow> decContext" where
  "decimalContextCopy target source = source"

section \<open>Precision and exponents\<close>

definition decimalPrecision :: "decContext \<Rightarrow> int" where
  "decimalPrecision c = ctx_digits c"

definition decimalMaxExp :: "decContext \<Rightarrow> int" where
  "decimalMaxExp c = emax c"

definition decimalMinExp :: "decContext \<Rightarrow> int" where
  "decimalMinExp c = emin c"

definition decimalSetPrecision :: "decContext \<Rightarrow> int \<Rightarrow> string + decContext" where
  "decimalSetPrecision c new_prec =
     (if new_prec \<le> 0 then Inl ''Precision must be positive''
      else if new_prec > int DECNUMDIGITS then Inl ''Maximum allowed precision is 39\<newline>''
      else if new_prec mod 3 \<noteq> 0 then Inl ''Precision must be a multiple of three''
      else Inr (c\<lparr>ctx_digits := new_prec\<rparr>))"

definition decimalSetMaxExp :: "decContext \<Rightarrow> int \<Rightarrow> string + decContext" where
  "decimalSetMaxExp c new_exp =
     (if new_exp \<le> 0 \<or> new_exp > 999999999 then Inl ''Exponent value out of range''
      else Inr (c\<lparr>emax := new_exp\<rparr>))"

definition decimalSetMinExp :: "decContext \<Rightarrow> int \<Rightarrow> string + decContext" where
  "decimalSetMinExp c new_exp =
     (if new_exp \<ge> 0 \<or> new_exp < - 999999999 then Inl ''Exponent value out of range''
      else Inr (c\<lparr>emin := new_exp\<rparr>))"

section \<open>Rounding modes\<close>

definition rounding_mode :: "(rounding \<times> string) list" where
  "rounding_mode = [
     (DEC_ROUND_CEILING, ''ROUND_CEILING''),
     (DEC_ROUND_UP, ''ROUND_UP''),
     (DEC_ROUND_HALF_UP, ''ROUND_HALF_UP''),
     (DEC_ROUND_HALF_EVEN, ''ROUND_HALF_EVEN''),
     (DEC_ROUND_HALF_DOWN, ''ROUND_HALF_DOWN''),
     (DEC_ROUND_DOWN, ''ROUND_DOWN''),
     (DEC_ROUND_FLOOR, ''ROUND_FLOOR''),
     (DEC_ROUND_05UP, ''ROUND_05UP'')]"

text \<open>The number an enumerator of \<^verbatim>\<open>enum rounding\<close> stands for.\<close>

fun rounding_index :: "rounding \<Rightarrow> nat" where
  "rounding_index DEC_ROUND_CEILING = 0"
| "rounding_index DEC_ROUND_UP = 1"
| "rounding_index DEC_ROUND_HALF_UP = 2"
| "rounding_index DEC_ROUND_HALF_EVEN = 3"
| "rounding_index DEC_ROUND_HALF_DOWN = 4"
| "rounding_index DEC_ROUND_DOWN = 5"
| "rounding_index DEC_ROUND_FLOOR = 6"
| "rounding_index DEC_ROUND_05UP = 7"
| "rounding_index DEC_ROUND_MAX = 8"

definition roundingModeToString :: "rounding \<Rightarrow> string option" where
  "roundingModeToString r = map_option snd (peek rounding_mode (rounding_index r))"

text \<open>\<^verbatim>\<open>strncmp(s, name, strlen(name)) == 0\<close>\<close>

definition starts_with :: "string \<Rightarrow> string \<Rightarrow> bool" where
  "starts_with s name \<longleftrightarrow> take (length name) s = name"

definition roundingModeToEnum :: "string \<Rightarrow> rounding" where
  "roundingModeToEnum s =
     (if starts_with s ''DEFAULT'' then DEC_ROUND_HALF_UP
      else case find (\<lambda>(v, name). starts_with s name) rounding_mode of Some (v, name) \<Rightarrow> v | None \<Rightarrow> DEC_ROUND_MAX)"

definition decimalRoundingMode :: "decContext \<Rightarrow> string option" where
  "decimalRoundingMode c = roundingModeToString (decContextGetRounding c)"

definition decimalSetRoundingMode :: "decContext \<Rightarrow> string \<Rightarrow> string + decContext" where
  "decimalSetRoundingMode c new_mode =
     (let mode = roundingModeToEnum new_mode in
      if mode = DEC_ROUND_MAX then Inl ''Invalid rounding mode''
      else Inr (decContextSetRounding c mode))"

section \<open>Flags\<close>

definition FLAGS_MAX :: nat where "FLAGS_MAX = 13"

definition extended_flags :: "(uInt \<times> string) list" where
  "extended_flags = [
     (DEC_Clamped, ''Clamped''),
     (DEC_Conversion_syntax, ''Conversion syntax''),
     (DEC_Division_by_zero, ''Division by zero''),
     (DEC_Division_impossible, ''Division impossible''),
     (DEC_Division_undefined, ''Division undefined''),
     (DEC_Inexact, ''Inexact result''),
     (DEC_Insufficient_storage, ''Out of memory''),
     (DEC_Invalid_context, ''Invalid context''),
     (DEC_Invalid_operation, ''Invalid operation''),
     (DEC_Overflow, ''Overflow''),
     (DEC_Rounded, ''Rounded result''),
     (DEC_Subnormal, ''Subnormal''),
     (DEC_Underflow, ''Underflow'')]"

definition flag_string_to_int :: "string \<Rightarrow> uInt" where
  "flag_string_to_int s =
     (case find (\<lambda>(f, name). starts_with s name) extended_flags of Some (f, name) \<Rightarrow> f | None \<Rightarrow> of_nat FLAGS_MAX)"

definition decimalClearFlag :: "decContext \<Rightarrow> string \<Rightarrow> string + decContext" where
  "decimalClearFlag c flag =
     (let st = flag_string_to_int flag in
      if st = of_nat FLAGS_MAX then Inl (''Invalid flag: '' @ flag)
      else Inr (decContextClearStatus c st))"

definition decimalSetFlag :: "decContext \<Rightarrow> string \<Rightarrow> string + decContext" where
  "decimalSetFlag c flag =
     (let st = flag_string_to_int flag in
      if st = of_nat FLAGS_MAX then Inl (''Invalid flag: '' @ flag)
      else Inr (decContextSetStatusQuiet c st))"

text \<open>The loop of \<^verbatim>\<open>decimalGetFlag\<close> and \<^verbatim>\<open>decimalGetTrap\<close>, which count \<open>k\<close> down over the flags that are set.\<close>

fun nthFlag :: "uInt \<Rightarrow> (uInt \<times> string) list \<Rightarrow> nat \<Rightarrow> string option" where
  "nthFlag w [] k = None"
| "nthFlag w ((f, name) # fs) k =
     (let k = (if w AND f \<noteq> 0 then k - 1 else k) in if k = 0 then Some name else nthFlag w fs k)"

definition decimalGetFlag :: "decContext \<Rightarrow> nat \<Rightarrow> string option" where
  "decimalGetFlag c n = nthFlag (status c) extended_flags (n + 1)"

definition decimalClearTrap :: "decContext \<Rightarrow> string \<Rightarrow> string + decContext" where
  "decimalClearTrap c flag =
     (let st = flag_string_to_int flag in
      if st = of_nat FLAGS_MAX then Inl (''Invalid flag: '' @ flag)
      else Inr (c\<lparr>traps := traps c AND NOT st\<rparr>))"

definition decimalSetTrap :: "decContext \<Rightarrow> string \<Rightarrow> string + decContext" where
  "decimalSetTrap c flag =
     (let st = flag_string_to_int flag in
      if st = of_nat FLAGS_MAX then Inl (''Invalid flag: '' @ flag)
      else Inr (c\<lparr>traps := traps c OR st\<rparr>))"

definition decimalGetTrap :: "decContext \<Rightarrow> nat \<Rightarrow> string option" where
  "decimalGetTrap c n = nthFlag (traps c) extended_flags (n + 1)"

section \<open>Tables of names\<close>

lemma starts_with_refl [simp]: "starts_with s s"
  by (simp add: starts_with_def)

lemma rounding_names:
  "list_all (\<lambda>(v, name). roundingModeToString v = Some name \<and> roundingModeToEnum name = v) rounding_mode"
  by code_simp

lemma rounding_mode_complete: "r \<noteq> DEC_ROUND_MAX \<Longrightarrow> r \<in> set (map fst rounding_mode)"
  by (cases r) (simp_all add: rounding_mode_def)

lemma roundingModeToEnum_name: "roundingModeToString r = Some s \<Longrightarrow> roundingModeToEnum s = r"
proof -
  assume s: "roundingModeToString r = Some s"
  then have "r \<noteq> DEC_ROUND_MAX" by (auto simp: roundingModeToString_def rounding_mode_def peek_def)
  then show ?thesis using rounding_mode_complete [of r] rounding_names s by (auto simp: list_all_iff)
qed

lemma roundingModeToString_defined: "r \<noteq> DEC_ROUND_MAX \<Longrightarrow> \<exists>s. roundingModeToString r = Some s"
  by (cases r) (simp_all add: roundingModeToString_def rounding_mode_def)

lemma flag_names:
  "list_all (\<lambda>(f, name). flag_string_to_int name = f \<and> f \<noteq> of_nat FLAGS_MAX \<and> f \<noteq> 0) extended_flags"
  by code_simp

lemma flag_string_to_int_cases:
  "flag_string_to_int s = of_nat FLAGS_MAX \<or> (\<exists>name. (flag_string_to_int s, name) \<in> set extended_flags \<and> starts_with s name)"
proof (cases "find (\<lambda>(f, name). starts_with s name) extended_flags")
  case None
  then show ?thesis by (simp add: flag_string_to_int_def)
next
  case (Some a)
  obtain f name where a: "a = (f, name)" by fastforce
  have "(f, name) \<in> set extended_flags \<and> starts_with s name"
    using Some by (auto simp: a find_Some_iff in_set_conv_nth)
  moreover have "flag_string_to_int s = f" using Some by (simp add: a flag_string_to_int_def)
  ultimately show ?thesis by blast
qed

text \<open>The flags of the table are pairwise disjoint single bits, with distinct names.\<close>

lemma flags_disjoint:
  "list_all (\<lambda>p. list_all (\<lambda>q. fst p AND fst q = (if fst p = fst q then fst p else 0) \<and> (snd p = snd q) = (fst p = fst q))
     extended_flags \<and> fst p \<noteq> 0) extended_flags"
  by code_simp

lemma flag_pair:
  assumes "(f, a) \<in> set extended_flags" "(g, b) \<in> set extended_flags"
  shows "f AND g = (if f = g then f else 0)" "a = b \<longleftrightarrow> f = g" "f AND g \<noteq> 0 \<longleftrightarrow> f = g"
proof -
  have "f AND g = (if f = g then f else 0) \<and> (a = b) = (f = g) \<and> f \<noteq> 0"
    using bspec [OF bspec [OF flags_disjoint [unfolded list_all_iff], OF assms(1), THEN conjunct1] assms(2)]
      bspec [OF flags_disjoint [unfolded list_all_iff], OF assms(1), THEN conjunct2]
    by (simp only: fst_conv snd_conv) blast
  then show "f AND g = (if f = g then f else 0)" "a = b \<longleftrightarrow> f = g" "f AND g \<noteq> 0 \<longleftrightarrow> f = g"
    by (simp_all split: if_splits)
qed

lemma nthFlag_nth:
  "nthFlag w fs (Suc n) = (let names = map snd (filter (\<lambda>(f, name). w AND f \<noteq> 0) fs)
     in if n < length names then Some (names ! n) else None)"
proof (induction fs arbitrary: n)
  case (Cons a fs)
  obtain f name where a: "a = (f, name)" by fastforce
  show ?case by (cases n) (auto simp: a Cons Let_def)
qed simp

section \<open>The contract of a register of flags\<close>

text \<open>
  The virtual tables \<^verbatim>\<open>decStatus\<close> and \<^verbatim>\<open>decTraps\<close> show a word of flags as a set of names: a row for each flag that
  is set, in the order of the table.  Setting, clearing and listing rows is the same contract for both.
\<close>

definition flag_rows :: "uInt \<Rightarrow> string list" where
  "flag_rows w = map snd (filter (\<lambda>(f, name). w AND f \<noteq> 0) extended_flags)"

text \<open>
  The row a text stands for: the flag name of the table that the text starts with.  No name of the table starts with
  another one, so there is at most one.
\<close>

definition row_name :: "string \<Rightarrow> string \<Rightarrow> bool" where
  "row_name s name \<longleftrightarrow> name \<in> set (map snd extended_flags) \<and> starts_with s name"

lemma starts_with_both: "starts_with s a \<Longrightarrow> starts_with s b \<Longrightarrow> length a \<le> length b \<Longrightarrow> starts_with b a"
  unfolding starts_with_def by (metis take_take min_absorb1)

lemma names_prefix_free:
  "list_all (\<lambda>a. list_all (\<lambda>b. starts_with a b \<longrightarrow> a = b) (map snd extended_flags)) (map snd extended_flags)"
  by code_simp

lemma row_name_unique: "row_name s a \<Longrightarrow> row_name s b \<Longrightarrow> a = b"
  using starts_with_both [of s a b] starts_with_both [of s b a] names_prefix_free
  unfolding row_name_def list_all_iff by (metis linear)

definition flag_known :: "string \<Rightarrow> bool" where
  "flag_known s \<longleftrightarrow> flag_string_to_int s \<noteq> of_nat FLAGS_MAX"

lemma flag_known_name: "flag_known s \<Longrightarrow> \<exists>name. (flag_string_to_int s, name) \<in> set extended_flags \<and> row_name s name"
  using flag_string_to_int_cases [of s] by (force simp: flag_known_def row_name_def)

lemma row_name_known: "row_name s name \<Longrightarrow> flag_known s"
proof -
  assume r: "row_name s name"
  then have "find (\<lambda>(f, name). starts_with s name) extended_flags \<noteq> None"
    by (auto simp: row_name_def find_None_iff) blast
  then obtain a where a: "find (\<lambda>(f, name). starts_with s name) extended_flags = Some a" by auto
  then have "a \<in> set extended_flags" by (auto simp: find_Some_iff in_set_conv_nth)
  then show ?thesis using a flag_names by (auto simp: flag_known_def flag_string_to_int_def list_all_iff)
qed

definition listed :: "(nat \<Rightarrow> 'a option) \<Rightarrow> 'a set" where
  "listed get = {s. \<exists>n. get n = Some s}"

locale flag_register =
  fixes flags :: "'c \<Rightarrow> uInt"
    and set_flag :: "'c \<Rightarrow> string \<Rightarrow> string + 'c"
    and clear_flag :: "'c \<Rightarrow> string \<Rightarrow> string + 'c"
    and get_flag :: "'c \<Rightarrow> nat \<Rightarrow> string option"
  assumes set_known: "flag_known s \<Longrightarrow> \<exists>c'. set_flag c s = Inr c' \<and> flags c' = flags c OR flag_string_to_int s"
    and set_unknown: "\<not> flag_known s \<Longrightarrow> set_flag c s = Inl (''Invalid flag: '' @ s)"
    and clear_known: "flag_known s \<Longrightarrow> \<exists>c'. clear_flag c s = Inr c' \<and> flags c' = flags c AND NOT (flag_string_to_int s)"
    and clear_unknown: "\<not> flag_known s \<Longrightarrow> clear_flag c s = Inl (''Invalid flag: '' @ s)"
    and get_nth: "get_flag c n = (if n < length (flag_rows (flags c)) then Some (flag_rows (flags c) ! n) else None)"
begin

lemma rows_eq: "listed (get_flag c) = set (flag_rows (flags c))"
proof -
  let ?rs = "flag_rows (flags c)"
  have "get_flag c n = Some s \<longleftrightarrow> n < length ?rs \<and> ?rs ! n = s" for n s by (simp add: get_nth)
  then show ?thesis unfolding listed_def set_conv_nth by auto
qed

lemma rows_flag: "(f, s) \<in> set extended_flags \<Longrightarrow> s \<in> listed (get_flag c) \<longleftrightarrow> flags c AND f \<noteq> 0"
proof -
  assume f: "(f, s) \<in> set extended_flags"
  have e: "s \<in> listed (get_flag c) \<longleftrightarrow> (\<exists>g. (g, s) \<in> set extended_flags \<and> flags c AND g \<noteq> 0)"
    by (auto simp: rows_eq flag_rows_def image_iff)
  have "g = f" if "(g, s) \<in> set extended_flags" for g using flag_pair(2) [OF f that] by simp
  then show ?thesis using f unfolding e by blast
qed

lemma rows_known: "s \<in> listed (get_flag c) \<Longrightarrow> \<exists>f. (f, s) \<in> set extended_flags"
  by (auto simp: rows_eq flag_rows_def)

lemma set_rows:
  assumes "set_flag c s = Inr c'"
  shows "\<exists>name. row_name s name \<and> listed (get_flag c') = insert name (listed (get_flag c))"
proof -
  have k: "flag_known s" using assms set_unknown [of s c] by (cases "flag_known s") auto
  then obtain name where n: "(flag_string_to_int s, name) \<in> set extended_flags" "row_name s name"
    using flag_known_name by blast
  have f: "flags c' = flags c OR flag_string_to_int s" using set_known [OF k, of c] assms by auto
  have "x \<in> listed (get_flag c') \<longleftrightarrow> x = name \<or> x \<in> listed (get_flag c)" for x
  proof (cases "\<exists>g. (g, x) \<in> set extended_flags")
    case True
    then obtain g where g: "(g, x) \<in> set extended_flags" by blast
    have "(flags c OR flag_string_to_int s) AND g \<noteq> 0 \<longleftrightarrow> flags c AND g \<noteq> 0 \<or> flag_string_to_int s AND g \<noteq> 0"
      by (simp add: bit.conj_disj_distrib2 or_eq_0_iff)
    then show ?thesis using flag_pair(2,3) [OF n(1) g] by (auto simp: rows_flag [OF g] f)
  next
    case False
    then show ?thesis using n(1) rows_known by blast
  qed
  then show ?thesis using n(2) by blast
qed

lemma clear_rows:
  assumes "clear_flag c s = Inr c'"
  shows "\<exists>name. row_name s name \<and> listed (get_flag c') = listed (get_flag c) - {name}"
proof -
  have k: "flag_known s" using assms clear_unknown [of s c] by (cases "flag_known s") auto
  then obtain name where n: "(flag_string_to_int s, name) \<in> set extended_flags" "row_name s name"
    using flag_known_name by blast
  have f: "flags c' = flags c AND NOT (flag_string_to_int s)" using clear_known [OF k, of c] assms by auto
  have "x \<in> listed (get_flag c') \<longleftrightarrow> x \<noteq> name \<and> x \<in> listed (get_flag c)" for x
  proof (cases "\<exists>g. (g, x) \<in> set extended_flags")
    case True
    then obtain g where g: "(g, x) \<in> set extended_flags" by blast
    let ?f = "flag_string_to_int s"
    have "flags c AND NOT ?f AND g = (if ?f = g then 0 else flags c AND g)"
    proof (cases "?f = g")
      case True
      then show ?thesis by (auto intro!: bit_word_eqI simp: bit_simps)
    next
      case False
      then have z: "?f AND g = 0" using flag_pair(1) [OF n(1) g] by simp
      have "\<not> (bit ?f i \<and> bit g i)" for i
        using arg_cong [OF z, of "\<lambda>w. bit w i"] by (simp add: bit_and_iff)
      then show ?thesis using False by (auto intro!: bit_word_eqI simp: bit_simps)
    qed
    then show ?thesis using flag_pair(2) [OF n(1) g] by (auto simp: rows_flag [OF g] f and.assoc)
  next
    case False
    then show ?thesis using rows_known by blast
  qed
  then show ?thesis using n(2) by blast
qed

end

interpretation status_flags: flag_register status decimalSetFlag decimalClearFlag decimalGetFlag
  by unfold_locales
    (auto simp: flag_known_def decimalSetFlag_def decimalClearFlag_def decimalGetFlag_def nthFlag_nth flag_rows_def
      decContextSetStatusQuiet_def decContextClearStatus_def Let_def)

interpretation trap_flags: flag_register traps decimalSetTrap decimalClearTrap decimalGetTrap
  by unfold_locales
    (auto simp: flag_known_def decimalSetTrap_def decimalClearTrap_def decimalGetTrap_def nthFlag_nth flag_rows_def Let_def)

lemma flag_frames:
  "decimalSetFlag c s = Inr c' \<Longrightarrow> c'\<lparr>status := status c\<rparr> = c" "decimalClearFlag c s = Inr c' \<Longrightarrow> c'\<lparr>status := status c\<rparr> = c"
  "decimalSetTrap c s = Inr c' \<Longrightarrow> c'\<lparr>traps := traps c\<rparr> = c" "decimalClearTrap c s = Inr c' \<Longrightarrow> c'\<lparr>traps := traps c\<rparr> = c"
  by (auto simp: decimalSetFlag_def decimalClearFlag_def decimalSetTrap_def decimalClearTrap_def decContextSetStatusQuiet_def
      decContextClearStatus_def Let_def split: if_splits)

section \<open>The context as a state machine\<close>

text \<open>The changes SQL can make to the shared context: the settings, the flags and the traps.\<close>

inductive ctx_step :: "decContext \<Rightarrow> decContext \<Rightarrow> bool" where
  set_precision: "decimalSetPrecision c n = Inr c' \<Longrightarrow> ctx_step c c'"
| set_max_exp: "decimalSetMaxExp c n = Inr c' \<Longrightarrow> ctx_step c c'"
| set_min_exp: "decimalSetMinExp c n = Inr c' \<Longrightarrow> ctx_step c c'"
| set_rounding: "decimalSetRoundingMode c s = Inr c' \<Longrightarrow> ctx_step c c'"
| set_flag: "decimalSetFlag c s = Inr c' \<Longrightarrow> ctx_step c c'"
| clear_flag: "decimalClearFlag c s = Inr c' \<Longrightarrow> ctx_step c c'"
| set_trap: "decimalSetTrap c s = Inr c' \<Longrightarrow> ctx_step c c'"
| clear_trap: "decimalClearTrap c s = Inr c' \<Longrightarrow> ctx_step c c'"
| clear_status: "ctx_step c (decContextZeroStatus c)"
| raise_status: "ctx_step c (fst (decContextSetStatus c st))"
| lower_status: "ctx_step c (decContextClearStatus c st)"

inductive_cases ctx_stepE: "ctx_step c c'"

inductive ctx_reachable :: "decContext \<Rightarrow> bool" where
  create: "decimalInitSystem m = Some c \<Longrightarrow> ctx_reachable c"
| step: "ctx_reachable c \<Longrightarrow> ctx_step c c' \<Longrightarrow> ctx_reachable c'"

definition sql_context_ok :: "decContext \<Rightarrow> bool" where
  "sql_context_ok c \<longleftrightarrow> 0 < ctx_digits c \<and> ctx_digits c \<le> int DECNUMDIGITS \<and> ctx_digits c mod 3 = 0 \<and>
     0 < emax c \<and> emax c \<le> 999999999 \<and> - 999999999 \<le> emin c \<and> emin c < 0 \<and> ctx_round c \<noteq> DEC_ROUND_MAX"

lemma sql_context_ok_update [simp]:
  "sql_context_ok (c\<lparr>status := w\<rparr>) = sql_context_ok c" "sql_context_ok (c\<lparr>traps := w\<rparr>) = sql_context_ok c"
  by (simp_all add: sql_context_ok_def)

lemma sql_context_ok_context_ok: "sql_context_ok c \<Longrightarrow> context_ok c"
  by (simp add: sql_context_ok_def context_ok_def dec_limits DECNUMDIGITS_def)

lemmas ctx_ops = decimalSetPrecision_def decimalSetMaxExp_def decimalSetMinExp_def decimalSetRoundingMode_def
  decimalSetFlag_def decimalClearFlag_def decimalSetTrap_def decimalClearTrap_def decContextSetStatusQuiet_def
  decContextClearStatus_def decContextSetStatus_def decContextZeroStatus_def decContextSetRounding_def

lemma ctx_step_ok: "ctx_step c c' \<Longrightarrow> sql_context_ok c \<Longrightarrow> sql_context_ok c'"
  by (erule ctx_stepE) (auto simp: ctx_ops Let_def sql_context_ok_def split: if_splits)

lemma initDefaultContext_ok: "sql_context_ok (initDefaultContext c)"
  by (simp add: initDefaultContext_def decContextDefault_def Let_def dec_inits sql_context_ok_def dec_limits DECNUMDIGITS_def)

lemma ctx_reachable_ok: "ctx_reachable c \<Longrightarrow> sql_context_ok c"
proof (induction rule: ctx_reachable.induct)
  case (create m c)
  then show ?case by (cases m) (auto simp: decimalInitSystem_def decimalContextCreate_def initDefaultContext_ok)
qed (rule ctx_step_ok)

section \<open>Properties\<close>

text \<open>
  C20: the settings stay valid.  In every context that can be reached from a new one by changing settings, flags and
  traps, the precision is a positive multiple of three of at most 39 digits, the exponent limits are within nine digits and of the right
  sign, and the rounding mode is one of the eight modes, so its name can be read without leaving the table.
\<close>

theorem context_invariant:
  assumes "ctx_reachable c"
  shows "sql_context_ok c \<and> context_ok c \<and> (\<exists>s. decimalRoundingMode c = Some s)"
  using ctx_reachable_ok [OF assms] sql_context_ok_context_ok roundingModeToString_defined [of "ctx_round c"]
  by (auto simp: decimalRoundingMode_def decContextGetRounding_def sql_context_ok_def)

definition blank_context :: decContext where
  "blank_context = \<lparr>ctx_digits = 0, emax = 0, emin = 0, ctx_round = DEC_ROUND_MAX, traps = 0, status = 0, clamp = 0\<rparr>"

theorem context_invariant_witness:
  "sql_context_ok (initDefaultContext blank_context) \<and> context_ok (initDefaultContext blank_context) \<and>
   (\<exists>s. decimalRoundingMode (initDefaultContext blank_context) = Some s)"
  by (rule context_invariant) (auto intro!: ctx_reachable.create [of "Mem blank_context"]
      simp: decimalInitSystem_def decimalContextCreate_def)

text \<open>
  C31: a setting that is accepted reads back as it was set and leaves every other setting alone; one that is refused
  has a message.  A precision is accepted exactly when it is one of 3, 6, ..., 39.
\<close>

theorem settings_read_back:
  "case decimalSetPrecision c n of
     Inr c' \<Rightarrow> n \<in> set (map (\<lambda>k. 3 * k) [1..13]) \<and> decimalPrecision c' = n \<and> c'\<lparr>ctx_digits := ctx_digits c\<rparr> = c
   | Inl msg \<Rightarrow> n \<notin> set (map (\<lambda>k. 3 * k) [1..13]) \<and> msg \<noteq> []"
proof -
  have "n \<in> set (map (\<lambda>k. 3 * k) [1..13]) \<longleftrightarrow> 0 < n \<and> n \<le> 39 \<and> n mod 3 = 0"
    by (auto simp: image_iff intro!: bexI [of _ "n div 3"])
  then show ?thesis
    by (auto simp: decimalSetPrecision_def decimalPrecision_def DECNUMDIGITS_def)
qed

text \<open>
  C32: a rounding mode set by the name the context shows is the mode of the context, and nothing else changes.
\<close>

theorem rounding_name_round_trip:
  assumes "decimalRoundingMode c = Some s"
  shows "decimalSetRoundingMode d s = Inr (d\<lparr>ctx_round := ctx_round c\<rparr>)"
proof -
  have s: "roundingModeToString (ctx_round c) = Some s"
    using assms by (simp add: decimalRoundingMode_def decContextGetRounding_def)
  then have "ctx_round c \<noteq> DEC_ROUND_MAX" by (auto simp: roundingModeToString_def rounding_mode_def peek_def)
  then show ?thesis
    using roundingModeToEnum_name [OF s] by (simp add: decimalSetRoundingMode_def decContextSetRounding_def Let_def)
qed

theorem rounding_name_round_trip_witness:
  "decimalSetRoundingMode blank_context ''ROUND_HALF_UP'' = Inr (blank_context\<lparr>ctx_round := DEC_ROUND_HALF_UP\<rparr>)"
  using rounding_name_round_trip [of "initDefaultContext blank_context" "''ROUND_HALF_UP''" blank_context]
  by (simp add: decimalRoundingMode_def decContextGetRounding_def initDefaultContext_def decContextDefault_def Let_def
      dec_inits roundingModeToString_def rounding_mode_def)


section \<open>Deviations\<close>

text \<open>
  Names are compared up to the length of the name in the table, so that a longer text is accepted; the name \<open>Inexact\<close>, which the
  error messages use for a flag, is not a name of the table; and a context for which there is no memory is written all the same.
\<close>

lemma flag_name_prefix: "decimalSetFlag c ''Overflowing'' = Inr (c\<lparr>status := status c OR DEC_Overflow\<rparr>)"
  by (simp add: decimalSetFlag_def flag_string_to_int_def extended_flags_def starts_with_def decContextSetStatusQuiet_def
      FLAGS_MAX_def dec_flags)

lemma inexact_unknown: "decimalSetTrap c ''Inexact'' = Inl ''Invalid flag: Inexact''"
  by (simp add: decimalSetTrap_def flag_string_to_int_def extended_flags_def starts_with_def)

lemma create_without_memory: "decimalInitSystem NoMem = None"
  by (simp add: decimalInitSystem_def decimalContextCreate_def)

end
