(* ===== verification/VTab.thy ===== *)
theory VTab
  imports SqlContext
begin

text \<open>
  The virtual tables \<^verbatim>\<open>decContext\<close>, \<^verbatim>\<open>decStatus\<close> and \<^verbatim>\<open>decTraps\<close> (\<^verbatim>\<open>decimal.c\<close>), through which SQL reads and changes
  the shared decimal context: connecting, scanning, updating, and transactions.  The macros that generate a method for each of
  the three tables are definitions here.
\<close>

section \<open>Connecting\<close>

record decimalContextVTab =
  oldCtx :: "decContext option"
  vtab_name :: "string option"

text \<open>Arguments: the result of \<^verbatim>\<open>sqlite3_declare_vtab\<close>, the memory for the table, and the name \<^verbatim>\<open>sqlite3_mprintf\<close> returns.\<close>

definition decimalConnect :: "rc \<Rightarrow> decimalContextVTab alloc \<Rightarrow> string option \<Rightarrow> rc \<times> decimalContextVTab option" where
  "decimalConnect rc m name =
     (if rc = SQLITE_OK then
        (case m of NoMem \<Rightarrow> (SQLITE_NOMEM, None) | Mem _ \<Rightarrow> (rc, Some \<lparr>oldCtx = None, vtab_name = name\<rparr>))
      else (rc, None))"

definition decimalRename :: "(string \<Rightarrow> string option) \<Rightarrow> decimalContextVTab \<Rightarrow> string \<Rightarrow> rc \<times> decimalContextVTab" where
  "decimalRename mprintf p zNew =
     (let p = p\<lparr>vtab_name := mprintf zNew\<rparr> in
      if vtab_name p = None then (SQLITE_NOMEM, p) else (SQLITE_OK, p))"

section \<open>Transactions\<close>

text \<open>\<open>decCtx\<close> is the context the three tables share.\<close>

definition decimalBegin :: "decContext alloc \<Rightarrow> decContext \<Rightarrow> decimalContextVTab \<Rightarrow> (rc \<times> decimalContextVTab) option" where
  "decimalBegin m decCtx p = do {
     c \<leftarrow> decimalContextCreate m;
     let p = p\<lparr>oldCtx := Some (decimalContextCopy c decCtx)\<rparr>;
     Some (SQLITE_OK, p)
   }"

definition decimalCommit :: "decimalContextVTab \<Rightarrow> rc \<times> decimalContextVTab" where
  "decimalCommit p = (SQLITE_OK, p\<lparr>oldCtx := None\<rparr>)"

definition decimalRollback :: "decContext \<Rightarrow> decimalContextVTab \<Rightarrow> (rc \<times> decContext \<times> decimalContextVTab) option" where
  "decimalRollback decCtx p = do {
     c \<leftarrow> oldCtx p;
     let decCtx = decimalContextCopy decCtx c;
     Some (SQLITE_OK, decCtx, p\<lparr>oldCtx := None\<rparr>)
   }"

section \<open>Cursors\<close>

record decimalContextCursor =
  row :: nat

definition decimalOpen :: "decimalContextCursor alloc \<Rightarrow> rc \<times> decimalContextCursor option" where
  "decimalOpen m = (case m of NoMem \<Rightarrow> (SQLITE_NOMEM, None) | Mem _ \<Rightarrow> (SQLITE_OK, Some \<lparr>row = 0\<rparr>))"

definition decimalNext :: "decimalContextCursor \<Rightarrow> rc \<times> decimalContextCursor" where
  "decimalNext cur = (SQLITE_OK, cur\<lparr>row := row cur + 1\<rparr>)"

definition decimalRowid :: "decimalContextCursor \<Rightarrow> rc \<times> nat" where
  "decimalRowid cur = (SQLITE_OK, row cur)"

definition decimalFilter :: "decimalContextCursor \<Rightarrow> rc \<times> decimalContextCursor" where
  "decimalFilter cur = (SQLITE_OK, cur)"

definition decimalContextEof :: "decContext \<Rightarrow> decimalContextCursor \<Rightarrow> bool" where
  "decimalContextEof c cur \<longleftrightarrow> row cur = 1"

text \<open>A column: the result the method sets, \<open>None\<close> for an access outside the table of rounding modes.\<close>

definition decimalContextColumn :: "decContext \<Rightarrow> decimalContextCursor \<Rightarrow> nat \<Rightarrow> sql_result option" where
  "decimalContextColumn c cur i =
     (if i = 0 then Some (result_int (decimalPrecision c))
      else if i = 1 then Some (result_int (decimalMaxExp c))
      else if i = 2 then Some (result_int (decimalMinExp c))
      else if i = 3 then do { mode \<leftarrow> decimalRoundingMode c; Some (result_text mode) }
      else Some result_null)"

definition decimalStatusEof :: "decContext \<Rightarrow> decimalContextCursor \<Rightarrow> bool" where
  "decimalStatusEof c cur \<longleftrightarrow> decimalGetFlag c (row cur) = None"

definition text_or_null :: "string option \<Rightarrow> sql_result" where
  "text_or_null s = (case s of Some t \<Rightarrow> result_text t | None \<Rightarrow> result_null)"

definition decimalStatusColumn :: "decContext \<Rightarrow> decimalContextCursor \<Rightarrow> nat \<Rightarrow> sql_result option" where
  "decimalStatusColumn c cur i =
     (if i = 0 then Some (text_or_null (decimalGetFlag c (row cur))) else Some result_null)"

definition decimalTrapsEof :: "decContext \<Rightarrow> decimalContextCursor \<Rightarrow> bool" where
  "decimalTrapsEof c cur \<longleftrightarrow> decimalGetTrap c (row cur) = None"

definition decimalTrapsColumn :: "decContext \<Rightarrow> decimalContextCursor \<Rightarrow> nat \<Rightarrow> sql_result option" where
  "decimalTrapsColumn c cur i =
     (if i = 0 then Some (text_or_null (decimalGetTrap c (row cur))) else Some result_null)"

section \<open>Updates\<close>

text \<open>
  An update returns the code, the message left in \<^verbatim>\<open>zErrMsg\<close> and the shared context.  The conversions of values are parameters.
\<close>

type_synonym update = "rc \<times> string option \<times> decContext"

definition update_code :: "decContext \<Rightarrow> string + decContext \<Rightarrow> update" where
  "update_code c r = (case r of Inl msg \<Rightarrow> (SQLITE_ERROR, Some msg, c) | Inr c' \<Rightarrow> (SQLITE_OK, None, c'))"

text \<open>\<^verbatim>\<open>sqlite3_mprintf\<close> prints a null pointer as the empty string.\<close>

definition vtab_text :: "decimalContextVTab \<Rightarrow> string" where
  "vtab_text p = (case vtab_name p of Some s \<Rightarrow> s | None \<Rightarrow> [])"

definition decimalContextUpdate ::
  "(sqlite3_value \<Rightarrow> int) \<Rightarrow> (sqlite3_value \<Rightarrow> string) \<Rightarrow> decimalContextVTab \<Rightarrow> decContext \<Rightarrow> sqlite3_value list \<Rightarrow> update option" where
  "decimalContextUpdate value_int value_text p c argv =
     (if length argv = 1 then
        Some (SQLITE_ERROR, Some (''Deleting from '' @ vtab_text p @ '' is not allowed''), c)
      else do {
        v0 \<leftarrow> peek argv 0;
        if is_null v0 then
          Some (SQLITE_ERROR, Some (''Inserting into '' @ vtab_text p @ '' is not allowed''), c)
        else if length argv < 3 then Some (SQLITE_ERROR, None, c)
        else if list_ex is_null (drop 2 argv) then Some (SQLITE_ERROR, Some ''Value cannot be NULL'', c)
        else do {
          prec \<leftarrow> peek argv 2;
          case decimalSetPrecision c (value_int prec) of
            Inl msg \<Rightarrow> Some (SQLITE_ERROR, Some msg, c)
          | Inr c \<Rightarrow> do {
              mx \<leftarrow> peek argv 3;
              case decimalSetMaxExp c (value_int mx) of
                Inl msg \<Rightarrow> Some (SQLITE_ERROR, Some msg, c)
              | Inr c \<Rightarrow> do {
                  mn \<leftarrow> peek argv 4;
                  case decimalSetMinExp c (value_int mn) of
                    Inl msg \<Rightarrow> Some (SQLITE_ERROR, Some msg, c)
                  | Inr c \<Rightarrow> do {
                      rd \<leftarrow> peek argv 5;
                      Some (update_code c (decimalSetRoundingMode c (value_text rd)))
                    }
                }
            }
        }
      })"

definition decimalStatusUpdate ::
  "(sqlite3_value \<Rightarrow> string) \<Rightarrow> decContext \<Rightarrow> sqlite3_value list \<Rightarrow> update option" where
  "decimalStatusUpdate value_text c argv =
     (if length argv = 1 then Some (update_code c (decimalClearFlag c (value_text (argv ! 0))))
      else if length argv < 3 then Some (SQLITE_ERROR, None, c)
      else if is_null (argv ! 2) then Some (SQLITE_ERROR, Some ''Value cannot be NULL'', c)
      else if is_null (argv ! 0) then Some (update_code c (decimalSetFlag c (value_text (argv ! 2))))
      else case decimalClearFlag c (value_text (argv ! 0)) of
        Inr c \<Rightarrow> Some (update_code c (decimalSetFlag c (value_text (argv ! 2))))
      | Inl msg \<Rightarrow> Some (SQLITE_ERROR, Some msg, c))"

definition decimalTrapsUpdate ::
  "(sqlite3_value \<Rightarrow> string) \<Rightarrow> decContext \<Rightarrow> sqlite3_value list \<Rightarrow> update option" where
  "decimalTrapsUpdate value_text c argv =
     (if length argv = 1 then Some (update_code c (decimalClearTrap c (value_text (argv ! 0))))
      else if length argv < 3 then Some (SQLITE_ERROR, None, c)
      else if is_null (argv ! 2) then Some (SQLITE_ERROR, Some ''Value cannot be NULL'', c)
      else if is_null (argv ! 0) then
        (case decimalClearFlag c (value_text (argv ! 2)) of
           Inr c \<Rightarrow> Some (update_code c (decimalSetTrap c (value_text (argv ! 2))))
         | Inl msg \<Rightarrow> Some (SQLITE_ERROR, Some msg, c))
      else case decimalClearTrap c (value_text (argv ! 0)) of
        Inr c \<Rightarrow> (case decimalClearFlag c (value_text (argv ! 2)) of
           Inr c \<Rightarrow> Some (update_code c (decimalSetTrap c (value_text (argv ! 2))))
         | Inl msg \<Rightarrow> Some (SQLITE_ERROR, Some msg, c))
      | Inl msg \<Rightarrow> Some (SQLITE_ERROR, Some msg, c))"

section \<open>Updates are sequences of context changes\<close>

lemma ctx_steps_flag: "decimalClearFlag c s = Inr c' \<Longrightarrow> ctx_step\<^sup>*\<^sup>* c c'" "decimalSetFlag c s = Inr c' \<Longrightarrow> ctx_step\<^sup>*\<^sup>* c c'"
  "decimalClearTrap c s = Inr c' \<Longrightarrow> ctx_step\<^sup>*\<^sup>* c c'" "decimalSetTrap c s = Inr c' \<Longrightarrow> ctx_step\<^sup>*\<^sup>* c c'"
  "decimalSetPrecision c n = Inr c' \<Longrightarrow> ctx_step\<^sup>*\<^sup>* c c'" "decimalSetMaxExp c n = Inr c' \<Longrightarrow> ctx_step\<^sup>*\<^sup>* c c'"
  "decimalSetMinExp c n = Inr c' \<Longrightarrow> ctx_step\<^sup>*\<^sup>* c c'" "decimalSetRoundingMode c s = Inr c' \<Longrightarrow> ctx_step\<^sup>*\<^sup>* c c'"
  by (blast intro: ctx_step.intros)+

lemma update_code_eq: "update_code c r = (SQLITE_OK, None, c') \<longleftrightarrow> r = Inr c'"
  by (auto simp: update_code_def split: sum.splits)

lemma decimalStatusUpdate_steps: "decimalStatusUpdate vt c argv = Some (code, msg, c') \<Longrightarrow> ctx_step\<^sup>*\<^sup>* c c'"
  by (auto simp: decimalStatusUpdate_def update_code_def split: if_splits sum.splits
      dest!: ctx_steps_flag intro: rtranclp_trans)

lemma decimalTrapsUpdate_steps: "decimalTrapsUpdate vt c argv = Some (code, msg, c') \<Longrightarrow> ctx_step\<^sup>*\<^sup>* c c'"
  by (auto simp: decimalTrapsUpdate_def update_code_def split: if_splits sum.splits
      dest!: ctx_steps_flag intro: rtranclp_trans)

lemma bind_peek_Some: "(do { x \<leftarrow> peek xs i; f x }) = Some y \<longleftrightarrow> i < length xs \<and> f (xs ! i) = Some y"
  by (auto simp: peek_def)

lemma decimalContextUpdate_steps: "decimalContextUpdate vi vt p c argv = Some (code, msg, c') \<Longrightarrow> ctx_step\<^sup>*\<^sup>* c c'"
  by (auto simp: decimalContextUpdate_def bind_peek_Some update_code_def split: if_splits sum.splits
      dest!: ctx_steps_flag intro: rtranclp_trans)

section \<open>Scanning a table\<close>

text \<open>How the database reads a table: from the position of a cursor, the columns of a row and then the next row, until the end.\<close>

fun scan :: "nat \<Rightarrow> (decimalContextCursor \<Rightarrow> bool) \<Rightarrow> (decimalContextCursor \<Rightarrow> 'r option) \<Rightarrow> decimalContextCursor \<Rightarrow>
    ('r list \<times> decimalContextCursor) option" where
  "scan 0 eof get cur = None"
| "scan (Suc k) eof get cur =
     (if eof cur then Some ([], cur)
      else do { r \<leftarrow> get cur; (rs, cur) \<leftarrow> scan k eof get (snd (decimalNext cur)); Some (r # rs, cur) })"

locale row_cursor =
  fixes rows :: "'c \<Rightarrow> 'r list"
    and eof :: "'c \<Rightarrow> decimalContextCursor \<Rightarrow> bool"
    and get :: "'c \<Rightarrow> decimalContextCursor \<Rightarrow> 'r option"
    and ok :: "'c \<Rightarrow> bool"
  assumes eof_end: "n \<le> length (rows c) \<Longrightarrow> eof c \<lparr>row = n\<rparr> \<longleftrightarrow> n = length (rows c)"
    and get_row: "ok c \<Longrightarrow> n < length (rows c) \<Longrightarrow> get c \<lparr>row = n\<rparr> = Some (rows c ! n)"
begin

lemma scan_from:
  "ok c \<Longrightarrow> n \<le> length (rows c) \<Longrightarrow> length (rows c) - n < k \<Longrightarrow>
   scan k (eof c) (get c) \<lparr>row = n\<rparr> = Some (drop n (rows c), \<lparr>row = length (rows c)\<rparr>)"
proof (induction k arbitrary: n)
  case (Suc k)
  show ?case
  proof (cases "n = length (rows c)")
    case True
    then show ?thesis using eof_end [of n c] by simp
  next
    case False
    then have n: "n < length (rows c)" using Suc.prems by simp
    have "scan k (eof c) (get c) \<lparr>row = Suc n\<rparr> = Some (drop (Suc n) (rows c), \<lparr>row = length (rows c)\<rparr>)"
      using Suc n by simp
    then show ?thesis
      using n Suc.prems eof_end [of n c] get_row [of c n] by (simp add: decimalNext_def Cons_nth_drop_Suc)
  qed
qed simp

lemma scan_all:
  "ok c \<Longrightarrow> length (rows c) < k \<Longrightarrow> scan k (eof c) (get c) \<lparr>row = 0\<rparr> = Some (rows c, \<lparr>row = length (rows c)\<rparr>)"
  using scan_from [of c 0 k] by simp

lemma rescan_empty:
  "0 < k \<Longrightarrow> scan k (eof c) (get c) (snd (decimalFilter \<lparr>row = length (rows c)\<rparr>)) = Some ([], \<lparr>row = length (rows c)\<rparr>)"
  using eof_end [of "length (rows c)" c] by (cases k) (simp_all add: decimalFilter_def)

end

definition context_row :: "decContext \<Rightarrow> sql_result list list" where
  "context_row c = [[result_int (ctx_digits c), result_int (emax c), result_int (emin c),
     result_text (case decimalRoundingMode c of Some s \<Rightarrow> s | None \<Rightarrow> [])]]"

definition all_columns :: "nat \<Rightarrow> (nat \<Rightarrow> sql_result option) \<Rightarrow> sql_result list option" where
  "all_columns n col = those (map col [0..<n])"

interpretation context_rows: row_cursor context_row decimalContextEof
  "\<lambda>c cur. all_columns 4 (decimalContextColumn c cur)" "\<lambda>c. ctx_round c \<noteq> DEC_ROUND_MAX"
proof
  show "n \<le> length (context_row c) \<Longrightarrow> decimalContextEof c \<lparr>row = n\<rparr> \<longleftrightarrow> n = length (context_row c)" for n c
    by (auto simp: context_row_def decimalContextEof_def)
  show "ctx_round c \<noteq> DEC_ROUND_MAX \<Longrightarrow> n < length (context_row c) \<Longrightarrow>
      all_columns 4 (decimalContextColumn c \<lparr>row = n\<rparr>) = Some (context_row c ! n)" for n c
    using roundingModeToString_defined [of "ctx_round c"]
    by (auto simp: context_row_def all_columns_def decimalContextColumn_def decimalPrecision_def decimalMaxExp_def
        decimalMinExp_def decimalRoundingMode_def decContextGetRounding_def upt_rec)
qed

interpretation status_rows: row_cursor "\<lambda>c. map result_text (flag_rows (status c))" decimalStatusEof
  "\<lambda>c cur. decimalStatusColumn c cur 0" "\<lambda>_. True"
  by unfold_locales (auto simp: decimalStatusEof_def decimalStatusColumn_def status_flags.get_nth text_or_null_def)

interpretation trap_rows: row_cursor "\<lambda>c. map result_text (flag_rows (traps c))" decimalTrapsEof
  "\<lambda>c cur. decimalTrapsColumn c cur 0" "\<lambda>_. True"
  by unfold_locales (auto simp: decimalTrapsEof_def decimalTrapsColumn_def trap_flags.get_nth text_or_null_def)

lemma length_flag_rows: "length (flag_rows w) \<le> FLAGS_MAX"
  using length_filter_le [of _ extended_flags] by (simp add: flag_rows_def FLAGS_MAX_def extended_flags_def del: length_filter_le)

section \<open>Sequences of updates\<close>

datatype vtab_module = decimalContextModule | decimalStatusModule | decimalTrapsModule

text \<open>The update method of a module, and a sequence of updates, each of which may succeed or fail.\<close>

fun xUpdate :: "(sqlite3_value \<Rightarrow> int) \<Rightarrow> (sqlite3_value \<Rightarrow> string) \<Rightarrow> decimalContextVTab \<Rightarrow> vtab_module \<Rightarrow> decContext \<Rightarrow>
    sqlite3_value list \<Rightarrow> update option" where
  "xUpdate vi vt p decimalContextModule c argv = decimalContextUpdate vi vt p c argv"
| "xUpdate vi vt p decimalStatusModule c argv = decimalStatusUpdate vt c argv"
| "xUpdate vi vt p decimalTrapsModule c argv = decimalTrapsUpdate vt c argv"

fun run_updates :: "(sqlite3_value \<Rightarrow> int) \<Rightarrow> (sqlite3_value \<Rightarrow> string) \<Rightarrow> decimalContextVTab \<Rightarrow>
    (vtab_module \<times> sqlite3_value list) list \<Rightarrow> decContext \<Rightarrow> decContext option" where
  "run_updates vi vt p [] c = Some c"
| "run_updates vi vt p ((m, argv) # us) c = do { (code, msg, c) \<leftarrow> xUpdate vi vt p m c argv; run_updates vi vt p us c }"

lemma xUpdate_steps: "xUpdate vi vt p m c argv = Some (code, msg, c') \<Longrightarrow> ctx_step\<^sup>*\<^sup>* c c'"
  by (cases m) (auto dest: decimalContextUpdate_steps decimalStatusUpdate_steps decimalTrapsUpdate_steps)

lemma ctx_steps_ok: "ctx_step\<^sup>*\<^sup>* c c' \<Longrightarrow> sql_context_ok c \<Longrightarrow> sql_context_ok c'"
  by (induction rule: rtranclp_induct) (auto intro: ctx_step_ok)

lemma run_updates_ok: "run_updates vi vt p us c = Some c' \<Longrightarrow> sql_context_ok c \<Longrightarrow> sql_context_ok c'"
proof (induction us arbitrary: c)
  case (Cons u us)
  obtain m argv where u: "u = (m, argv)" by fastforce
  with Cons show ?case by (auto simp: bind_eq_Some_conv dest: xUpdate_steps ctx_steps_ok)
qed simp

lemma xUpdate_defined: "6 \<le> length argv \<Longrightarrow> xUpdate vi vt p m c argv \<noteq> None"
proof -
  assume "6 \<le> length argv"
  then have "peek argv i = Some (argv ! i)" if "i \<le> 5" for i using that by simp
  then show ?thesis
    by (cases m) (simp_all add: decimalContextUpdate_def decimalStatusUpdate_def decimalTrapsUpdate_def
        split: sum.split del: not_None_eq)
qed

section \<open>Transactions over the tables\<close>

text \<open>
  The three tables of a connection share one context, and each has a copy of its own while it takes part in a transaction.  The
  database calls the transaction methods and the updates of the tables; an event is one such call.  \<^verbatim>\<open>xRollback\<close> of a table that has
  no copy reads through a null pointer, which is \<open>None\<close>.
\<close>

record vtab_state =
  shared_ctx :: decContext
  vtabs :: "vtab_module \<Rightarrow> decimalContextVTab"

datatype vtab_event = XBegin vtab_module "decContext alloc" | XUpdate vtab_module "sqlite3_value list"
  | XCommit vtab_module | XRollback vtab_module

fun vtab_step :: "(sqlite3_value \<Rightarrow> int) \<Rightarrow> (sqlite3_value \<Rightarrow> string) \<Rightarrow> vtab_event \<Rightarrow> vtab_state \<Rightarrow> vtab_state option" where
  "vtab_step vi vt (XBegin t m) s = do {
     (code, p) \<leftarrow> decimalBegin m (shared_ctx s) (vtabs s t);
     Some (s\<lparr>vtabs := (vtabs s)(t := p)\<rparr>)
   }"
| "vtab_step vi vt (XUpdate t argv) s = do {
     (code, msg, c) \<leftarrow> xUpdate vi vt (vtabs s t) t (shared_ctx s) argv;
     Some (s\<lparr>shared_ctx := c\<rparr>)
   }"
| "vtab_step vi vt (XCommit t) s = (let (code, p) = decimalCommit (vtabs s t) in Some (s\<lparr>vtabs := (vtabs s)(t := p)\<rparr>))"
| "vtab_step vi vt (XRollback t) s = do {
     (code, c, p) \<leftarrow> decimalRollback (shared_ctx s) (vtabs s t);
     Some \<lparr>shared_ctx = c, vtabs = (vtabs s)(t := p)\<rparr>
   }"

fun vtab_run :: "(sqlite3_value \<Rightarrow> int) \<Rightarrow> (sqlite3_value \<Rightarrow> string) \<Rightarrow> vtab_event list \<Rightarrow> vtab_state \<Rightarrow> vtab_state option" where
  "vtab_run vi vt [] s = Some s"
| "vtab_run vi vt (e # es) s = do { s \<leftarrow> vtab_step vi vt e s; vtab_run vi vt es s }"

text \<open>The events after which the copy of a table is what it was: all but the transaction methods of the table itself.\<close>

fun keeps_copy :: "vtab_module \<Rightarrow> vtab_event \<Rightarrow> bool" where
  "keeps_copy t (XBegin u m) \<longleftrightarrow> u \<noteq> t"
| "keeps_copy t (XUpdate u argv) \<longleftrightarrow> True"
| "keeps_copy t (XCommit u) \<longleftrightarrow> u \<noteq> t"
| "keeps_copy t (XRollback u) \<longleftrightarrow> u \<noteq> t"

definition drop_copies :: "vtab_module set \<Rightarrow> (vtab_module \<Rightarrow> decimalContextVTab) \<Rightarrow> vtab_module \<Rightarrow> decimalContextVTab" where
  "drop_copies ts ps = (\<lambda>u. if u \<in> ts then (ps u)\<lparr>oldCtx := None\<rparr> else ps u)"

lemma vtab_step_copy: "vtab_step vi vt e s = Some s' \<Longrightarrow> keeps_copy t e \<Longrightarrow> vtabs s' t = vtabs s t"
  by (cases e) (auto simp: bind_eq_Some_conv Let_def split: prod.splits)

lemma vtab_run_copy: "vtab_run vi vt es s = Some s' \<Longrightarrow> list_all (keeps_copy t) es \<Longrightarrow> vtabs s' t = vtabs s t"
  by (induction es arbitrary: s) (auto simp: bind_eq_Some_conv dest: vtab_step_copy)

lemma drop_copies_more [simp]:
  "drop_copies ts (ps(t := (ps t)\<lparr>oldCtx := None\<rparr>)) = drop_copies (insert t ts) ps"
  "drop_copies ts (\<lambda>a. if a = t then (ps t)\<lparr>oldCtx := None\<rparr> else ps a) = drop_copies (insert t ts) ps"
  by (auto simp: drop_copies_def)

lemma begin_copies:
  "decimalBegin m c p = Some (code, p') \<longleftrightarrow> code = SQLITE_OK \<and> (\<exists>d. m = Mem d) \<and> p' = p\<lparr>oldCtx := Some c\<rparr>"
  by (cases m) (auto simp: decimalBegin_def decimalContextCreate_def decimalContextCopy_def)

lemma rollback_copies: "oldCtx p = Some c \<Longrightarrow> decimalRollback d p = Some (SQLITE_OK, c, p\<lparr>oldCtx := None\<rparr>)"
  by (simp add: decimalRollback_def decimalContextCopy_def)

lemma rollback_all:
  "distinct ts \<Longrightarrow> \<forall>u \<in> set ts. oldCtx (vtabs s u) \<noteq> None \<Longrightarrow>
   vtab_run vi vt (map XRollback ts) s =
     Some \<lparr>shared_ctx = (if ts = [] then shared_ctx s else the (oldCtx (vtabs s (last ts)))), vtabs = drop_copies (set ts) (vtabs s)\<rparr>"
proof (induction ts arbitrary: s)
  case (Cons t ts)
  then obtain c where c: "oldCtx (vtabs s t) = Some c" by auto
  let ?s = "\<lparr>shared_ctx = c, vtabs = (vtabs s)(t := (vtabs s t)\<lparr>oldCtx := None\<rparr>)\<rparr>"
  have ne: "u \<noteq> t" if "u \<in> set ts" for u using that Cons.prems(1) by auto
  have "vtab_run vi vt (map XRollback ts) ?s =
      Some \<lparr>shared_ctx = (if ts = [] then c else the (oldCtx (vtabs ?s (last ts)))), vtabs = drop_copies (set ts) (vtabs ?s)\<rparr>"
    using Cons.IH [of ?s] Cons.prems ne by simp
  then show ?case using c ne last_in_set [of ts] by (simp add: rollback_copies)
qed (simp add: drop_copies_def)

lemma commit_all: "vtab_run vi vt (map XCommit ts) s = Some (s\<lparr>vtabs := drop_copies (set ts) (vtabs s)\<rparr>)"
  by (induction ts arbitrary: s) (simp_all add: decimalCommit_def, simp add: drop_copies_def)

section \<open>Properties\<close>

text \<open>
  C26: whatever sequence of updates, insertions and deletions SQL sends to the three tables, successful or not, and
  however the database converts the values, the shared context stays valid: its precision is one of 3, 6, ..., 39, its exponent limits
  are within nine digits, and its rounding mode is one of the eight.
\<close>

theorem updates_keep_context:
  assumes "sql_context_ok c" "run_updates vi vt p us c = Some c'"
  shows "sql_context_ok c'"
  by (rule run_updates_ok [OF assms(2,1)])

definition demo_int :: "sqlite3_value \<Rightarrow> int" where
  "demo_int v = (case v of SQLITE_INTEGER n \<Rightarrow> n | _ \<Rightarrow> 0)"

definition demo_text :: "sqlite3_value \<Rightarrow> string" where
  "demo_text v = (case v of SQLITE_TEXT s \<Rightarrow> s | _ \<Rightarrow> [])"

definition demo_vtab :: decimalContextVTab where
  "demo_vtab = \<lparr>oldCtx = None, vtab_name = Some ''decContext''\<rparr>"

definition demo_update :: "int \<Rightarrow> int \<Rightarrow> sqlite3_value list" where
  "demo_update prec mx = [SQLITE_INTEGER 0, SQLITE_INTEGER 0, SQLITE_INTEGER prec, SQLITE_INTEGER mx, SQLITE_INTEGER (- 99),
     SQLITE_TEXT ''ROUND_DOWN'']"

lemma demo_run:
  "run_updates demo_int demo_text demo_vtab [(decimalContextModule, demo_update 12 99)] (initDefaultContext blank_context) =
   Some ((initDefaultContext blank_context)\<lparr>ctx_digits := 12, emax := 99, emin := - 99, ctx_round := DEC_ROUND_DOWN\<rparr>)"
  by code_simp

theorem updates_keep_context_witness:
  "sql_context_ok ((initDefaultContext blank_context)\<lparr>ctx_digits := 12, emax := 99, emin := - 99, ctx_round := DEC_ROUND_DOWN\<rparr>)"
  by (rule updates_keep_context [OF initDefaultContext_ok demo_run])

text \<open>
  C25: transactions over the three tables and their one context.  After \<^verbatim>\<open>xBegin\<close> of a table come any updates of any
  tables, failed ones included, and any begins, commits and rollbacks of the other tables.  If then the table and others that take
  part in the transaction are rolled back, this table last, the shared context is the one at its \<^verbatim>\<open>xBegin\<close>; if they are committed, the
  shared context is what the events left.  Both drop the copies of these tables and nothing else.  (When another table is rolled back
  last, its copy decides: see \<open>rollback_of_two_tables\<close>.)
\<close>

theorem rollback_restores:
  assumes "vtab_run vi vt (XBegin t m # es) s = Some s'" "list_all (keeps_copy t) es"
    and "distinct (ts @ [t])" "\<forall>u \<in> set ts. oldCtx (vtabs s' u) \<noteq> None"
  shows "vtab_run vi vt (map XRollback (ts @ [t])) s' =
      Some \<lparr>shared_ctx = shared_ctx s, vtabs = drop_copies (set (ts @ [t])) (vtabs s')\<rparr> \<and>
    vtab_run vi vt (map XCommit (ts @ [t])) s' = Some \<lparr>shared_ctx = shared_ctx s', vtabs = drop_copies (set (ts @ [t])) (vtabs s')\<rparr>"
proof -
  obtain s1 where s1: "vtab_step vi vt (XBegin t m) s = Some s1" "vtab_run vi vt es s1 = Some s'"
    using assms(1) by (auto simp: bind_eq_Some_conv)
  have "oldCtx (vtabs s1 t) = Some (shared_ctx s)" using s1(1) by (auto simp: bind_eq_Some_conv begin_copies)
  then have c: "oldCtx (vtabs s' t) = Some (shared_ctx s)" using vtab_run_copy [OF s1(2) assms(2)] by simp
  then show ?thesis
    using rollback_all [OF assms(3), of s' vi vt] commit_all [of vi vt "ts @ [t]" s'] assms(4) by simp
qed

definition demo_state :: vtab_state where
  "demo_state = \<lparr>shared_ctx = initDefaultContext blank_context, vtabs = (\<lambda>_. demo_vtab)\<rparr>"

text \<open>The context changes and then, in the table of traps, one more flag is trapped; both are undone.\<close>

definition demo_events :: "vtab_event list" where
  "demo_events = [XBegin decimalTrapsModule (Mem blank_context), XUpdate decimalContextModule (demo_update 12 99),
     XUpdate decimalTrapsModule [SQLITE_NULL, SQLITE_NULL, SQLITE_TEXT ''Overflow'']]"

definition demo_changed :: decContext where
  "demo_changed = (initDefaultContext blank_context)\<lparr>ctx_digits := 12, emax := 99, emin := - 99, ctx_round := DEC_ROUND_DOWN,
     traps := traps (initDefaultContext blank_context) OR DEC_Overflow\<rparr>"

definition demo_joined :: "vtab_module list \<Rightarrow> vtab_module \<Rightarrow> decimalContextVTab" where
  "demo_joined ts = (\<lambda>u. if u \<in> set ts then demo_vtab\<lparr>oldCtx := Some (initDefaultContext blank_context)\<rparr> else demo_vtab)"

lemma demo_updates:
  "xUpdate demo_int demo_text p decimalContextModule (initDefaultContext blank_context) (demo_update 12 99) =
     Some (SQLITE_OK, None, (initDefaultContext blank_context)\<lparr>ctx_digits := 12, emax := 99, emin := - 99, ctx_round := DEC_ROUND_DOWN\<rparr>)"
  "xUpdate demo_int demo_text p decimalTrapsModule
     ((initDefaultContext blank_context)\<lparr>ctx_digits := 12, emax := 99, emin := - 99, ctx_round := DEC_ROUND_DOWN\<rparr>)
     [SQLITE_NULL, SQLITE_NULL, SQLITE_TEXT ''Overflow''] = Some (SQLITE_OK, None, demo_changed)"
proof -
  have "decimalContextUpdate demo_int demo_text p c (demo_update 12 99) =
      decimalContextUpdate demo_int demo_text demo_vtab c (demo_update 12 99)" for c
    by (simp add: decimalContextUpdate_def demo_update_def)
  moreover have "decimalContextUpdate demo_int demo_text demo_vtab (initDefaultContext blank_context) (demo_update 12 99) =
     Some (SQLITE_OK, None, (initDefaultContext blank_context)\<lparr>ctx_digits := 12, emax := 99, emin := - 99, ctx_round := DEC_ROUND_DOWN\<rparr>)"
    by code_simp
  ultimately show "xUpdate demo_int demo_text p decimalContextModule (initDefaultContext blank_context) (demo_update 12 99) =
     Some (SQLITE_OK, None, (initDefaultContext blank_context)\<lparr>ctx_digits := 12, emax := 99, emin := - 99, ctx_round := DEC_ROUND_DOWN\<rparr>)"
    by simp
  have "decimalTrapsUpdate demo_text
     ((initDefaultContext blank_context)\<lparr>ctx_digits := 12, emax := 99, emin := - 99, ctx_round := DEC_ROUND_DOWN\<rparr>)
     [SQLITE_NULL, SQLITE_NULL, SQLITE_TEXT ''Overflow''] = Some (SQLITE_OK, None, demo_changed)"
    by code_simp
  then show "xUpdate demo_int demo_text p decimalTrapsModule
     ((initDefaultContext blank_context)\<lparr>ctx_digits := 12, emax := 99, emin := - 99, ctx_round := DEC_ROUND_DOWN\<rparr>)
     [SQLITE_NULL, SQLITE_NULL, SQLITE_TEXT ''Overflow''] = Some (SQLITE_OK, None, demo_changed)"
    by simp
qed

lemma demo_transaction:
  "vtab_run demo_int demo_text demo_events demo_state = Some \<lparr>shared_ctx = demo_changed, vtabs = demo_joined [decimalTrapsModule]\<rparr>"
proof -
  have "(\<lambda>_. demo_vtab)(decimalTrapsModule := demo_vtab\<lparr>oldCtx := Some (initDefaultContext blank_context)\<rparr>) = demo_joined [decimalTrapsModule]"
    by (auto simp: demo_joined_def)
  then show ?thesis
    by (simp add: demo_events_def demo_state_def demo_updates decimalBegin_def decimalContextCreate_def decimalContextCopy_def
        del: xUpdate.simps)
qed

theorem rollback_restores_witness:
  "vtab_run demo_int demo_text (map XRollback ([] @ [decimalTrapsModule])) \<lparr>shared_ctx = demo_changed, vtabs = demo_joined [decimalTrapsModule]\<rparr> =
     Some \<lparr>shared_ctx = initDefaultContext blank_context, vtabs = drop_copies {decimalTrapsModule} (demo_joined [decimalTrapsModule])\<rparr> \<and>
   vtab_run demo_int demo_text (map XCommit ([] @ [decimalTrapsModule])) \<lparr>shared_ctx = demo_changed, vtabs = demo_joined [decimalTrapsModule]\<rparr> =
     Some \<lparr>shared_ctx = demo_changed, vtabs = drop_copies {decimalTrapsModule} (demo_joined [decimalTrapsModule])\<rparr>"
  using rollback_restores [OF demo_transaction [unfolded demo_events_def], of "[]"] by (simp add: demo_state_def)

text \<open>
  C27: scanning a table with a new cursor terminates and gives its rows: one row with the four settings for
  \<^verbatim>\<open>decContext\<close>, one row for each flag that is set for \<^verbatim>\<open>decStatus\<close> and for \<^verbatim>\<open>decTraps\<close>, in the order of the flags' table and without
  repetition.
\<close>

theorem tables_list_context:
  assumes "ctx_round c \<noteq> DEC_ROUND_MAX" "decimalOpen (Mem m) = (code, Some cur)"
  shows "map_option fst (scan 2 (decimalContextEof c) (\<lambda>cur. all_columns 4 (decimalContextColumn c cur)) cur) = Some (context_row c) \<and>
    map_option fst (scan (FLAGS_MAX + 1) (decimalStatusEof c) (\<lambda>cur. decimalStatusColumn c cur 0) cur) = Some (map result_text (flag_rows (status c))) \<and>
    map_option fst (scan (FLAGS_MAX + 1) (decimalTrapsEof c) (\<lambda>cur. decimalTrapsColumn c cur 0) cur) = Some (map result_text (flag_rows (traps c))) \<and>
    distinct (flag_rows (status c))"
proof -
  have cur: "cur = \<lparr>row = 0\<rparr>" using assms(2) by (simp add: decimalOpen_def)
  have "distinct (map snd extended_flags)" by code_simp
  then have "distinct (flag_rows (status c))" unfolding flag_rows_def by (rule distinct_map_filter)
  then show ?thesis
    using context_rows.scan_all [of c 2] status_rows.scan_all [of c "FLAGS_MAX + 1"] trap_rows.scan_all [of c "FLAGS_MAX + 1"]
      length_flag_rows [of "status c"] length_flag_rows [of "traps c"] assms(1)
    by (simp add: cur context_row_def)
qed

theorem tables_list_context_witness:
  "let c = initDefaultContext blank_context; cur = \<lparr>row = 0\<rparr> in
    map_option fst (scan 2 (decimalContextEof c) (\<lambda>cur. all_columns 4 (decimalContextColumn c cur)) cur) = Some (context_row c) \<and>
    map_option fst (scan (FLAGS_MAX + 1) (decimalStatusEof c) (\<lambda>cur. decimalStatusColumn c cur 0) cur) = Some (map result_text (flag_rows (status c))) \<and>
    map_option fst (scan (FLAGS_MAX + 1) (decimalTrapsEof c) (\<lambda>cur. decimalTrapsColumn c cur 0) cur) = Some (map result_text (flag_rows (traps c))) \<and>
    distinct (flag_rows (status c))"
  unfolding Let_def
  by (rule tables_list_context [of _ "\<lparr>row = 5\<rparr>" SQLITE_OK])
    (simp_all add: decimalOpen_def initDefaultContext_def decContextDefault_def dec_inits Let_def)

text \<open>
  C28: a successful insertion into \<^verbatim>\<open>decTraps\<close> is of a text that starts with a flag name.  It adds the row of that
  name to \<^verbatim>\<open>decTraps\<close> and removes the row of the same name from \<^verbatim>\<open>decStatus\<close>, so that a flag raised before it was trapped does not make
  the next operation fail.  Every other row of the two tables stays, and so do the settings.
\<close>

theorem trap_insert_clears_status:
  assumes "decimalTrapsUpdate vt c [SQLITE_NULL, v1, v2] = Some (SQLITE_OK, msg, c')"
  shows "\<exists>name. row_name (vt v2) name \<and> listed (decimalGetTrap c') = insert name (listed (decimalGetTrap c)) \<and>
    listed (decimalGetFlag c') = listed (decimalGetFlag c) - {name} \<and> c'\<lparr>status := status c, traps := traps c\<rparr> = c"
proof -
  obtain d where d: "decimalClearFlag c (vt v2) = Inr d" "decimalSetTrap d (vt v2) = Inr c'"
    using assms by (auto simp: decimalTrapsUpdate_def update_code_def split: if_splits sum.splits)
  note fr = flag_frames(2) [OF d(1)] flag_frames(3) [OF d(2)]
  have "traps d = traps c" using arg_cong [OF fr(1), of traps] by simp
  then have t: "listed (decimalGetTrap d) = listed (decimalGetTrap c)" by (simp add: trap_flags.rows_eq)
  have "status c' = status d" using arg_cong [OF fr(2), of status] by simp
  then have s: "listed (decimalGetFlag c') = listed (decimalGetFlag d)" by (simp add: status_flags.rows_eq)
  have "c'\<lparr>status := status c, traps := traps c\<rparr> = c" by (subst (3) fr(1) [symmetric], subst fr(2) [symmetric]) (simp add: \<open>traps d = traps c\<close>)
  then show ?thesis
    using status_flags.clear_rows [OF d(1)] trap_flags.set_rows [OF d(2)] row_name_unique unfolding t s by blast
qed

theorem trap_insert_clears_status_witness:
  "\<exists>name. row_name (demo_text (SQLITE_TEXT ''Overflow'')) name \<and>
    listed (decimalGetTrap (blank_context\<lparr>traps := 0x200\<rparr>)) = insert name (listed (decimalGetTrap (blank_context\<lparr>status := 0x200\<rparr>))) \<and>
    listed (decimalGetFlag (blank_context\<lparr>traps := 0x200\<rparr>)) = listed (decimalGetFlag (blank_context\<lparr>status := 0x200\<rparr>)) - {name} \<and>
    blank_context\<lparr>traps := 0x200, status := 0x200, traps := 0\<rparr> = blank_context\<lparr>status := 0x200\<rparr>"
proof -
  have "decimalTrapsUpdate demo_text (blank_context\<lparr>status := 0x200\<rparr>) [SQLITE_NULL, SQLITE_NULL, SQLITE_TEXT ''Overflow''] =
      Some (SQLITE_OK, None, blank_context\<lparr>traps := 0x200\<rparr>)"
    by code_simp
  from trap_insert_clears_status [OF this] show ?thesis by (simp add: blank_context_def)
qed

section \<open>Deviations\<close>

text \<open>
  A second scan with the same cursor, as the database does for the inner table of a join, finds nothing: \<^verbatim>\<open>xFilter\<close> does not go back
  to the first row.
\<close>

lemma second_scan_empty:
  "ctx_round c \<noteq> DEC_ROUND_MAX \<Longrightarrow>
   \<exists>rs cur. scan 2 (decimalContextEof c) (\<lambda>cur. all_columns 4 (decimalContextColumn c cur)) \<lparr>row = 0\<rparr> = Some (rs, cur) \<and> rs \<noteq> [] \<and>
     scan 2 (decimalContextEof c) (\<lambda>cur. all_columns 4 (decimalContextColumn c cur)) (snd (decimalFilter cur)) = Some ([], cur)"
  using context_rows.scan_all [of c 2] context_rows.rescan_empty [of 2 c] by (auto simp: context_row_def)

text \<open>
  Two tables in one transaction: the table that joins the transaction second keeps a copy of the context that has the change made
  through the first, so that rolling back the tables in the order they joined leaves that change in place.
\<close>

lemma rollback_of_two_tables:
  assumes "vtab_run vi vt (XBegin t m # XUpdate t argv # XBegin u m' # es) s = Some s'"
    and "xUpdate vi vt ((vtabs s t)\<lparr>oldCtx := Some (shared_ctx s)\<rparr>) t (shared_ctx s) argv = Some (code, msg, c)"
    and "t \<noteq> u" "list_all (keeps_copy t) es" "list_all (keeps_copy u) es"
  shows "\<exists>ps. vtab_run vi vt (map XRollback [t, u]) s' = Some \<lparr>shared_ctx = c, vtabs = ps\<rparr>"
proof -
  obtain s1 where s1: "vtab_run vi vt [XBegin t m, XUpdate t argv, XBegin u m'] s = Some s1" "vtab_run vi vt es s1 = Some s'"
    using assms(1) by (auto simp: bind_eq_Some_conv)
  have "oldCtx (vtabs s1 t) = Some (shared_ctx s)" "oldCtx (vtabs s1 u) = Some c"
    using s1(1) assms(2,3) by (auto simp: bind_eq_Some_conv begin_copies)
  then have "oldCtx (vtabs s' t) = Some (shared_ctx s)" "oldCtx (vtabs s' u) = Some c"
    using vtab_run_copy [OF s1(2)] assms(4,5) by simp_all
  then show ?thesis using rollback_all [of "[t, u]" s' vi vt] assms(3) by simp
qed

text \<open>An update of \<^verbatim>\<open>decContext\<close> that fails at a later column has changed the earlier ones.\<close>

lemma failed_update_changes_context:
  "decimalContextUpdate demo_int demo_text demo_vtab (initDefaultContext blank_context) (demo_update 12 0) =
   Some (SQLITE_ERROR, Some ''Exponent value out of range'', (initDefaultContext blank_context)\<lparr>ctx_digits := 12\<rparr>)"
  by code_simp

end
