(* ===== verification/BitStream.thy ===== *)
theory BitStream
  imports Prelude
begin

text \<open>
  The bit stream of \<^verbatim>\<open>decInfinite.c\<close>: the table \<^verbatim>\<open>MASK\<close>, the position \<^verbatim>\<open>bitPos\<close>, and
  \<^verbatim>\<open>pack\<close> and \<^verbatim>\<open>unpack\<close>, which write and read up to eight bits at any bit offset of a
  byte array.  A position is an index into the array; an access outside it is \<^verbatim>\<open>None\<close>.
\<close>

section \<open>Operations\<close>

definition MASK :: "uInt list" where
  "MASK = [
    0x00000000,
    0x00000001, 0x00000003, 0x00000007, 0x0000000F, 0x0000001F, 0x0000003F, 0x0000007F, 0x000000FF,
    0x000001FF, 0x000003FF, 0x000007FF, 0x00000FFF, 0x00001FFF, 0x00003FFF, 0x00007FFF, 0x0000FFFF,
    0x0001FFFF, 0x0003FFFF, 0x0007FFFF, 0x000FFFFF, 0x001FFFFF, 0x003FFFFF, 0x007FFFFF, 0x00FFFFFF,
    0x01FFFFFF, 0x03FFFFFF, 0x07FFFFFF, 0x0FFFFFFF, 0x1FFFFFFF, 0x3FFFFFFF, 0x7FFFFFFF, 0xFFFFFFFF]"

record bitPos =
  pos :: nat
  free :: nat

type_synonym sink = "uByte list \<times> bitPos"

definition pack :: "sink \<Rightarrow> uByte \<Rightarrow> nat \<Rightarrow> sink option" where
  "pack s bits n = do {
     let (buf, p) = s;
     (buf, p) \<leftarrow>
       (if free p = 0 then do {
          buf \<leftarrow> poke buf (pos p + 1) 0;
          Some (buf, \<lparr>pos = pos p + 1, free = 8\<rparr>)
        } else Some (buf, p));
     let msk = ucast (MASK ! free p);
     if free p < n then do {
       let n = n - free p;
       b \<leftarrow> peek buf (pos p);
       buf \<leftarrow> poke buf (pos p) (b OR (drop_bit n bits AND msk));
       let p = \<lparr>pos = pos p + 1, free = 8 - n\<rparr>;
       buf \<leftarrow> poke buf (pos p) 0;
       b \<leftarrow> peek buf (pos p);
       buf \<leftarrow> poke buf (pos p) (b OR push_bit (free p) bits);
       Some (buf, p)
     } else do {
       let p = p\<lparr>free := free p - n\<rparr>;
       b \<leftarrow> peek buf (pos p);
       buf \<leftarrow> poke buf (pos p) (b OR (push_bit (free p) bits AND msk));
       Some (buf, p)
     }
   }"

definition unpack :: "uByte list \<Rightarrow> bitPos \<Rightarrow> nat \<Rightarrow> (uByte \<times> bitPos) option" where
  "unpack buf p n = do {
     let p = (if free p = 0 then \<lparr>pos = pos p + 1, free = 8\<rparr> else p);
     let msk = ucast (MASK ! n);
     if free p < n then do {
       let n = n - free p;
       b \<leftarrow> peek buf (pos p);
       let bits = push_bit n b AND msk;
       let p = p\<lparr>pos := pos p + 1\<rparr>;
       b \<leftarrow> peek buf (pos p);
       let bits = bits OR drop_bit (8 - n) b;
       Some (bits, p\<lparr>free := 8 - n\<rparr>)
     } else do {
       let p = p\<lparr>free := free p - n\<rparr>;
       b \<leftarrow> peek buf (pos p);
       Some (drop_bit (free p) b AND msk, p)
     }
   }"

section \<open>The table of masks\<close>

lemma MASK_nth [ctable]: "n \<le> 32 \<Longrightarrow> MASK ! n = mask n"
proof -
  have "list_all (\<lambda>n. MASK ! n = mask n) [0..<33]"
    by code_simp
  then show "n \<le> 32 \<Longrightarrow> MASK ! n = mask n"
    by (auto simp: list_all_iff)
qed

lemma MASK_byte [ctable]: "n \<le> 8 \<Longrightarrow> (ucast (MASK ! n) :: uByte) = mask n"
  by (rule bit_word_eqI) (auto simp: MASK_nth bit_simps)

section \<open>What a position means\<close>

text \<open>The number of bits before a position, and the two readings of a position: the bits
  written so far (those still free are zero), and the next bit to be read.\<close>

definition bit_index :: "bitPos \<Rightarrow> nat" where
  "bit_index p = 8 * (pos p + 1) - free p"

definition written :: "uByte list \<Rightarrow> bitPos \<Rightarrow> bool list \<Rightarrow> bool" where
  "written buf p bs \<longleftrightarrow>
     pos p < length buf \<and> free p \<le> 8 \<and>
     bs = take (bit_index p) (bytes_bits buf) \<and> (\<forall>i < free p. \<not> bit (buf ! pos p) i)"

lemma written_length: "written buf p bs \<Longrightarrow> length bs = bit_index p"
  by (auto simp: written_def bit_index_def)

lemma written_bits:
  assumes "written buf p bs"
  shows "bytes_bits (take (pos p + 1) buf) = bs @ replicate (free p) False"
proof (rule nth_equalityI)
  have len: "pos p < length buf" "free p \<le> 8" and l: "length bs = 8 * (pos p + 1) - free p"
    using assms written_length by (auto simp: written_def bit_index_def)
  then show "length (bytes_bits (take (pos p + 1) buf)) = length (bs @ replicate (free p) False)"
    by simp
  fix j assume "j < length (bytes_bits (take (pos p + 1) buf))"
  then have j: "j < 8 * (pos p + 1)" using len by simp
  show "bytes_bits (take (pos p + 1) buf) ! j = (bs @ replicate (free p) False) ! j"
  proof (cases "j < length bs")
    case True
    with assms len j show ?thesis
      by (simp add: nth_append written_def nth_bytes_bits take_bytes_bits [symmetric])
  next
    case False
    define r where "r = j - 8 * pos p"
    have r: "j = 8 * pos p + r" "r < 8" "7 - r < free p"
      using j l len False unfolding r_def by auto
    have d: "j div 8 = pos p" and m: "7 - j mod 8 < free p" using r by auto
    have "bytes_bits (take (pos p + 1) buf) ! j = bit (buf ! pos p) (7 - j mod 8)"
      using j len d by (subst nth_bytes_bits) auto
    with assms m j False l len show ?thesis
      by (simp add: nth_append written_def)
  qed
qed

section \<open>Writing\<close>

text \<open>A byte that is not full takes the next bits in its free part.\<close>

lemma take_bytes_bits_update:
  assumes "written buf p bs" "0 < m" "m \<le> free p"
    and "\<And>i. free p \<le> i \<Longrightarrow> i < 8 \<Longrightarrow> bit c i = bit (buf ! pos p) i"
  shows "take (bit_index p + m) (bytes_bits (buf[pos p := c])) =
         bs @ low_bits m (drop_bit (free p - m) c)"
proof (rule nth_equalityI)
  note w = assms(1) [unfolded written_def bit_index_def]
  let ?k = "bit_index p"
  have k: "?k = 8 * pos p + (8 - free p)" "length bs = ?k" and f: "free p \<le> 8"
    using w written_length [OF assms(1)] by (auto simp: bit_index_def)
  have km: "?k + m \<le> 8 * length buf"
    using w assms(3) k(1) by (simp; linarith)
  show "length (take (?k + m) (bytes_bits (buf[pos p := c]))) =
      length (bs @ low_bits m (drop_bit (free p - m) c))"
    using km k(2) by simp
  fix j assume "j < length (take (?k + m) (bytes_bits (buf[pos p := c])))"
  then have j: "j < ?k + m" and jl: "j < 8 * length buf" by auto
  show "take (?k + m) (bytes_bits (buf[pos p := c])) ! j =
      (bs @ low_bits m (drop_bit (free p - m) c)) ! j"
  proof (cases "j < ?k")
    case True
    have "bit (buf[pos p := c] ! (j div 8)) (7 - j mod 8) = bit (buf ! (j div 8)) (7 - j mod 8)"
    proof (cases "j div 8 = pos p")
      case dj: True
      have "j = 8 * pos p + j mod 8" using mult_div_mod_eq [of 8 j] dj by simp
      then have "free p \<le> 7 - j mod 8" using True k f by linarith
      then show ?thesis using dj w assms(4) by simp
    qed simp
    then show ?thesis
      using True k jl w by (simp add: nth_append nth_bytes_bits bit_index_def)
  next
    case False
    define r where "r = j - 8 * pos p"
    have r: "j = 8 * pos p + r" "r < 8" "8 - free p \<le> r" "r < 8 - free p + m"
      using False j k f assms(3) unfolding r_def by auto
    have "take (?k + m) (bytes_bits (buf[pos p := c])) ! j = bit c (7 - r)"
      using j jl w r by (simp add: nth_bytes_bits_at)
    moreover have "(bs @ low_bits m (drop_bit (free p - m) c)) ! j = bit c (7 - r)"
    proof -
      have "free p - m + (m - Suc (j - ?k)) = 7 - r" using r k f assms(3) by linarith
      moreover have "j - ?k < m" using j False by linarith
      ultimately show ?thesis
        using False k(2) by (simp add: nth_append bit_drop_bit_eq)
    qed
    ultimately show ?thesis by simp
  qed
qed

lemma pack_open:
  assumes "written buf p bs" "free p = 0" "pos p + 1 < length buf"
  shows "written (buf[pos p + 1 := 0]) \<lparr>pos = pos p + 1, free = 8\<rparr> bs"
proof -
  have "bs = bytes_bits (take (pos p + 1) buf)"
    using written_bits [OF assms(1)] assms(2) by simp
  moreover have "take (8 * (pos p + 1)) (bytes_bits (buf[pos p + 1 := 0])) = bytes_bits (take (pos p + 1) buf)"
    by (simp only: take_bytes_bits) simp
  ultimately show ?thesis
    using assms by (simp add: written_def bit_index_def)
qed

lemma pack_fits:
  assumes "written buf p bs" "0 < n" "n \<le> free p"
    and c: "c = (buf ! pos p) OR (push_bit (free p - n) bits AND mask (free p))"
  shows "written (buf[pos p := c]) (p\<lparr>free := free p - n\<rparr>) (bs @ low_bits n bits)"
proof -
  have f: "free p \<le> 8" "pos p < length buf" and z: "\<And>i. i < free p \<Longrightarrow> \<not> bit (buf ! pos p) i"
    using assms(1) by (auto simp: written_def)
  have cb: "bit c i = (if i < free p then free p - n \<le> i \<and> bit bits (i - (free p - n))
      else bit (buf ! pos p) i)" if "i < 8" for i
    using that z f by (auto simp: c bit_simps)
  have "take (bit_index p + n) (bytes_bits (buf[pos p := c])) = bs @ low_bits n (drop_bit (free p - n) c)"
    using assms(1-3) by (rule take_bytes_bits_update) (simp add: cb)
  moreover have "low_bits n (drop_bit (free p - n) c) = low_bits n bits"
    by (rule low_bits_cong) (use cb f assms(3) in \<open>auto simp: bit_drop_bit_eq\<close>)
  moreover have "bit_index (p\<lparr>free := free p - n\<rparr>) = bit_index p + n"
    using f assms(2,3) by (simp add: bit_index_def)
  ultimately show ?thesis
    using f cb assms(3) by (auto simp: written_def)
qed

text \<open>
  \<^verbatim>\<open>pack\<close> appends the \<^verbatim>\<open>n\<close> low bits of its argument, most significant first, to the
  bits written so far; it stays inside the buffer when the buffer has room for them.
\<close>

lemma pack_written:
  assumes w: "written buf p bs" and n: "0 < n" "n \<le> 8" and room: "length bs + n \<le> 8 * length buf"
  shows "\<exists>buf' p'. pack (buf, p) bits n = Some (buf', p') \<and> written buf' p' (bs @ low_bits n bits) \<and>
           free p' < 8 \<and> length buf' = length buf"
proof -
  have base: "\<exists>buf' p'. pack (buf, p) bits n = Some (buf', p') \<and> written buf' p' (bs @ low_bits n bits) \<and>
           free p' < 8 \<and> length buf' = length buf"
    if w: "written buf p bs" and f0: "free p \<noteq> 0" and room: "length bs + n \<le> 8 * length buf" for buf p
  proof (cases "free p < n")
    case False
    then have le: "n \<le> free p" by simp
    have pb: "pos p < length buf" "free p \<le> 8" using w by (auto simp: written_def)
    have "pack (buf, p) bits n = Some (buf[pos p := (buf ! pos p) OR (push_bit (free p - n) bits AND mask (free p))],
        p\<lparr>free := free p - n\<rparr>)"
      using False f0 pb by (simp add: pack_def MASK_byte Let_def)
    then show ?thesis
      using pack_fits [OF w n(1) le refl, of bits] pb n by auto
  next
    case True
    have pb: "pos p < length buf" "free p \<le> 8" using w by (auto simp: written_def)
    have k: "length bs = 8 * pos p + (8 - free p)" using written_length [OF w] pb by (simp add: bit_index_def)
    then have p1: "pos p + 1 < length buf" using room True pb by linarith
    let ?f = "free p" and ?r = "n - free p"
    let ?c = "(buf ! pos p) OR (push_bit (?f - ?f) (drop_bit ?r bits) AND mask ?f)"
    let ?b1 = "buf[pos p := ?c]" and ?p1 = "p\<lparr>free := 0\<rparr>"
    let ?b2 = "?b1[pos p + 1 := 0]" and ?p2 = "\<lparr>pos = pos p + 1, free = 8\<rparr> :: bitPos"
    have w1: "written ?b1 ?p1 (bs @ low_bits ?f (drop_bit ?r bits))"
      using pack_fits [OF w _ order_refl refl, of "drop_bit ?r bits"] f0 by simp
    then have w2: "written ?b2 ?p2 (bs @ low_bits ?f (drop_bit ?r bits))"
      using pack_open [of ?b1 ?p1] p1 by simp
    have "push_bit (8 - ?r) bits AND mask 8 = push_bit (8 - ?r) bits"
      by (rule bit_word_eqI) (auto simp: bit_simps)
    then have w3: "written (?b2[pos p + 1 := push_bit (8 - ?r) bits]) (?p2\<lparr>free := 8 - ?r\<rparr>)
        (bs @ low_bits ?f (drop_bit ?r bits) @ low_bits ?r bits)"
      using pack_fits [OF w2 _ _ refl, of ?r bits] True n p1 by (simp add: pack_fits)
    have "low_bits ?f (drop_bit ?r bits) @ low_bits ?r bits = low_bits n bits"
      using low_bits_append [of ?f ?r bits] True by simp
    moreover have "pack (buf, p) bits n =
        Some (?b2[pos p + 1 := push_bit (8 - ?r) bits], \<lparr>pos = pos p + 1, free = 8 - ?r\<rparr>)"
      using True f0 pb p1 by (simp add: pack_def MASK_byte Let_def)
    ultimately show ?thesis
      using w3 True n by (auto simp: pb)
  qed
  show ?thesis
  proof (cases "free p = 0")
    case False
    then show ?thesis using base w room by blast
  next
    case True
    have k: "length bs = 8 * (pos p + 1)"
      using written_length [OF w] True by (simp add: bit_index_def)
    then have p1: "pos p + 1 < length buf" using room n by presburger
    let ?b = "buf[pos p + 1 := 0]" and ?p = "\<lparr>pos = pos p + 1, free = 8\<rparr> :: bitPos"
    have "pack (buf, p) bits n = pack (?b, ?p) bits n"
      using True p1 by (simp add: pack_def)
    then show ?thesis
      using base [OF pack_open [OF w True p1]] room by simp
  qed
qed

section \<open>The contract of a bit sink\<close>

text \<open>
  Clients of \<^verbatim>\<open>pack\<close> rely only on this: a put of \<^verbatim>\<open>n\<close> bits into a sink with room for them
  succeeds and appends them.  Everything the encoder writes in several puts follows from it.
\<close>

fun put_all :: "('s \<Rightarrow> uByte \<Rightarrow> nat \<Rightarrow> 's option) \<Rightarrow> 's \<Rightarrow> (uByte \<times> nat) list \<Rightarrow> 's option" where
  "put_all put s [] = Some s"
| "put_all put s ((x, n) # xs) = do { s \<leftarrow> put s x n; put_all put s xs }"

locale bit_sink =
  fixes put :: "'s \<Rightarrow> uByte \<Rightarrow> nat \<Rightarrow> 's option"
    and holds :: "'s \<Rightarrow> bool list \<Rightarrow> bool"
    and room :: "'s \<Rightarrow> nat"
  assumes put_holds:
    "holds s bs \<Longrightarrow> 0 < n \<Longrightarrow> n \<le> 8 \<Longrightarrow> length bs + n \<le> room s \<Longrightarrow>
     \<exists>s'. put s x n = Some s' \<and> holds s' (bs @ low_bits n x) \<and> room s' = room s"
begin

lemma put_all_holds:
  assumes "holds s bs" "list_all (\<lambda>(x, n). 0 < n \<and> n \<le> 8) xs"
    and "length bs + sum_list (map snd xs) \<le> room s"
  shows "\<exists>s'. put_all put s xs = Some s' \<and>
           holds s' (bs @ concat (map (\<lambda>(x, n). low_bits n x) xs)) \<and> room s' = room s"
  using assms
proof (induction xs arbitrary: s bs)
  case Nil
  then show ?case by simp
next
  case (Cons a xs)
  obtain x n where a: "a = (x, n)" by fastforce
  obtain s' where s': "put s x n = Some s'" "holds s' (bs @ low_bits n x)" "room s' = room s"
    using put_holds [of s bs n x] Cons.prems a by auto
  have "\<exists>s''. put_all put s' xs = Some s'' \<and>
      holds s'' ((bs @ low_bits n x) @ concat (map (\<lambda>(x, n). low_bits n x) xs)) \<and> room s'' = room s'"
    using Cons.prems a s' by (intro Cons.IH) auto
  then show ?case using s' a by auto
qed

end

definition sink_holds :: "sink \<Rightarrow> bool list \<Rightarrow> bool" where
  "sink_holds s bs \<longleftrightarrow> written (fst s) (snd s) bs \<and> free (snd s) < 8"

definition sink_room :: "sink \<Rightarrow> nat" where
  "sink_room s = 8 * length (fst s)"

interpretation packer: bit_sink pack sink_holds sink_room
proof
  fix s bs n and x :: uByte
  assume h: "sink_holds s bs" "0 < n" "n \<le> 8" "length bs + n \<le> sink_room s"
  obtain buf p where s: "s = (buf, p)" by fastforce
  with h show "\<exists>s'. pack s x n = Some s' \<and> sink_holds s' (bs @ low_bits n x) \<and> sink_room s' = sink_room s"
    using pack_written [of buf p bs n x] by (auto simp: sink_holds_def sink_room_def)
qed

lemma put_all_append:
  "put_all put s (xs @ ys) = do { s \<leftarrow> put_all put s xs; put_all put s ys }"
  by (induction xs arbitrary: s) (auto split: bind_splits)

section \<open>Reading\<close>

text \<open>
  \<^verbatim>\<open>unpack\<close> returns the next \<^verbatim>\<open>n\<close> bits of the stream as a number and moves the position
  past them; it reads inside the buffer when that many bits are left.
\<close>

definition readable :: "uByte list \<Rightarrow> bitPos \<Rightarrow> bool" where
  "readable buf p \<longleftrightarrow> pos p < length buf \<and> free p \<le> 8"

lemma unpack_read:
  assumes p: "readable buf p" and n: "0 < n" "n \<le> 8" and left: "bit_index p + n \<le> 8 * length buf"
  shows "\<exists>v p'. unpack buf p n = Some (v, p') \<and> low_bits 8 v =
           replicate (8 - n) False @ take n (drop (bit_index p) (bytes_bits buf)) \<and>
           readable buf p' \<and> free p' < 8 \<and> bit_index p' = bit_index p + n"
proof -
  have base: "\<exists>v p'. unpack buf p n = Some (v, p') \<and>
      (\<forall>i < 8. bit v i \<longleftrightarrow> i < n \<and> bytes_bits buf ! (bit_index p + (n - 1 - i))) \<and>
      readable buf p' \<and> free p' < 8 \<and> bit_index p' = bit_index p + n"
    if p: "readable buf p" "free p \<noteq> 0" and left: "bit_index p + n \<le> 8 * length buf" for p
  proof (cases "free p < n")
    case False
    have pb: "pos p < length buf" "free p \<le> 8" using p by (auto simp: readable_def)
    have "bytes_bits buf ! (bit_index p + (n - 1 - i)) = bit (buf ! pos p) (free p - n + i)" if "i < n" for i
    proof -
      have "bit_index p + (n - 1 - i) = 8 * pos p + (8 - free p + (n - 1 - i))"
        using pb by (simp add: bit_index_def)
      moreover have "7 - (8 - free p + (n - 1 - i)) = free p - n + i" "8 - free p + (n - 1 - i) < 8"
        using False that pb by auto
      ultimately show ?thesis using pb by (simp only: nth_bytes_bits_at)
    qed
    then have "bit (drop_bit (free p - n) (buf ! pos p) AND mask n) i \<longleftrightarrow>
        i < n \<and> bytes_bits buf ! (bit_index p + (n - 1 - i))" if "i < 8" for i
      using that by (auto simp: bit_simps)
    moreover have "unpack buf p n = Some (drop_bit (free p - n) (buf ! pos p) AND mask n, p\<lparr>free := free p - n\<rparr>)"
      using False pb p n by (simp add: unpack_def MASK_byte Let_def)
    moreover have "free p - n < 8" "8 * (pos p + 1) - (free p - n) = 8 * (pos p + 1) - free p + n"
      using False pb n by auto
    ultimately show ?thesis
      using pb by (simp add: readable_def bit_index_def)
  next
    case True
    have pb: "pos p < length buf" "free p \<le> 8" using p by (auto simp: readable_def)
    have k: "bit_index p = 8 * pos p + (8 - free p)" using pb by (simp add: bit_index_def)
    then have p1: "pos p + 1 < length buf" using left True pb by linarith
    have hi: "bytes_bits buf ! (bit_index p + (n - 1 - i)) = bit (buf ! pos p) (i - (n - free p))"
      if "i < n" "n - free p \<le> i" for i
    proof -
      have "bit_index p + (n - 1 - i) = 8 * pos p + (8 - free p + (n - 1 - i))" using k by simp
      moreover have "7 - (8 - free p + (n - 1 - i)) = i - (n - free p)" "8 - free p + (n - 1 - i) < 8"
        using True that pb p(2) by auto
      ultimately show ?thesis using pb by (simp only: nth_bytes_bits_at)
    qed
    have lo: "bytes_bits buf ! (bit_index p + (n - 1 - i)) = bit (buf ! (pos p + 1)) (8 - (n - free p) + i)"
      if "i < n - free p" for i
    proof -
      have "bit_index p + (n - 1 - i) = 8 * (pos p + 1) + (n - free p - 1 - i)"
        using True that pb by (simp add: bit_index_def)
      moreover have "7 - (n - free p - 1 - i) = 8 - (n - free p) + i" "n - free p - 1 - i < 8"
        using True that n by auto
      ultimately show ?thesis using p1 by (simp only: nth_bytes_bits_at)
    qed
    have "bit (push_bit (n - free p) (buf ! pos p) AND mask n OR drop_bit (8 - (n - free p)) (buf ! (pos p + 1))) i \<longleftrightarrow>
        i < n \<and> bytes_bits buf ! (bit_index p + (n - 1 - i))" if "i < 8" for i
      using that True n hi lo bit_imp_le_length [of "buf ! (pos p + 1)"]
      by (cases "i < n - free p"; fastforce simp: bit_simps)
    then show ?thesis
      using True pb p1 p n by (auto simp: unpack_def MASK_byte Let_def readable_def bit_index_def)
  qed
  have "\<exists>v p'. unpack buf p n = Some (v, p') \<and>
      (\<forall>i < 8. bit v i \<longleftrightarrow> i < n \<and> bytes_bits buf ! (bit_index p + (n - 1 - i))) \<and>
      readable buf p' \<and> free p' < 8 \<and> bit_index p' = bit_index p + n"
  proof (cases "free p = 0")
    case True
    let ?p = "\<lparr>pos = pos p + 1, free = 8\<rparr> :: bitPos"
    have "unpack buf p n = unpack buf ?p n" "bit_index ?p = bit_index p"
      using True by (simp_all add: unpack_def bit_index_def)
    moreover have "pos p + 1 < length buf"
      using left n True by (simp add: bit_index_def; presburger)
    ultimately show ?thesis
      using base [of ?p] left by (simp add: readable_def)
  next
    case False
    with base p left show ?thesis by blast
  qed
  then obtain v p' where v: "unpack buf p n = Some (v, p')"
      "\<And>i. i < 8 \<Longrightarrow> bit v i \<longleftrightarrow> i < n \<and> bytes_bits buf ! (bit_index p + (n - 1 - i))"
      "readable buf p'" "free p' < 8" "bit_index p' = bit_index p + n"
    by blast
  have "low_bits 8 v = replicate (8 - n) False @ take n (drop (bit_index p) (bytes_bits buf))"
  proof (rule nth_equalityI)
    fix j assume "j < length (low_bits 8 v)"
    then show "low_bits 8 v ! j = (replicate (8 - n) False @ take n (drop (bit_index p) (bytes_bits buf))) ! j"
      using v(2) [of "7 - j"] left n by (auto simp: nth_append add.commute)
  qed (use n left in auto)
  with v show ?thesis by blast
qed

end
