(* ===== verification/Exponent.thy ===== *)
theory Exponent
  imports BitStream
begin

text \<open>
  The exponent field of the decimalInfinite format (\<^verbatim>\<open>decInfinite.c\<close>): the integer
  logarithm, the look-up tables for tiny and small exponents, \<^verbatim>\<open>decInfinitePackExponent\<close>,
  the two readers of the unary prefix and \<^verbatim>\<open>decInfiniteUnpackExponent\<close>.  The specification
  is the modified Gamma code of the format's description: with \<open>N\<close> the number of bits of
  \<open>E + 2\<close>, the code of \<open>E\<close> is \<open>N - 1\<close> ones, a zero and the \<open>N - 1\<close> low bits of \<open>E + 2\<close>,
  complemented when the sign bit \<open>T\<close> is zero.
\<close>

section \<open>Encoding\<close>

definition LT :: "int \<Rightarrow> int list" where
  "LT n = [n, n, n, n, n, n, n, n, n, n, n, n, n, n, n, n]"

definition LogTable256 :: "int list" where
  "LogTable256 =
    [-1, 0, 1, 1, 2, 2, 2, 2, 3, 3, 3, 3, 3, 3, 3, 3] @
    LT 4 @ LT 5 @ LT 5 @ LT 6 @ LT 6 @ LT 6 @ LT 6 @
    LT 7 @ LT 7 @ LT 7 @ LT 7 @ LT 7 @ LT 7 @ LT 7 @ LT 7"

text \<open>The result is stored in a \<^verbatim>\<open>uCount\<close>, an eight-bit count.\<close>

definition ilog2 :: "uInt \<Rightarrow> nat" where
  "ilog2 v = nat ((let tt = drop_bit 16 v in
     if tt \<noteq> 0 then (let t = drop_bit 8 tt in
        if t \<noteq> 0 then 24 + LogTable256 ! unat t else 16 + LogTable256 ! unat tt)
     else (let t = drop_bit 8 v in
        if t \<noteq> 0 then 8 + LogTable256 ! unat t else LogTable256 ! unat v)) mod 256)"

definition TINY_C_EXP :: "uByte list" where
  "TINY_C_EXP = [
    12, 8, 7, 6, 5, 4]"

definition TINY_EXP :: "uByte list" where
  "TINY_EXP = [
    16, 20, 24, 25, 26, 27]"

definition TINY_FREE :: "nat list" where
  "TINY_FREE = [
    2, 2, 0, 0, 0, 0]"

definition SMALL_C_EXP :: "Unit list" where
  "SMALL_C_EXP = [
    0, 0, 0, 0, 0, 0,
    960, 896, 832, 768, 704, 640, 576, 512, 496, 480, 464, 448,
    432, 416, 400, 384, 368, 352, 336, 320, 304, 288, 272, 256,
    252, 248, 244, 240, 236, 232, 228, 224, 220, 216, 212, 208,
    204, 200, 196, 192, 188, 184, 180, 176, 172, 168, 164, 160,
    156, 152, 148, 144, 140, 136, 132, 128, 127, 126, 125, 124,
    123, 122, 121, 120, 119, 118, 117, 116, 115, 114, 113, 112,
    111, 110, 109, 108, 107, 106, 105, 104, 103, 102, 101, 100,
    99, 98, 97, 96, 95, 94, 93, 92, 91, 90, 89, 88,
    87, 86, 85, 84, 83, 82, 81, 80, 79, 78, 77, 76,
    75, 74, 73, 72, 71, 70, 69, 68, 67, 66, 65, 64]"

definition SMALL_EXP :: "Unit list" where
  "SMALL_EXP = [
    0, 0, 0, 0, 0, 0,
    7168, 7232, 7296, 7360, 7424, 7488, 7552, 7616, 7680, 7696, 7712, 7728,
    7744, 7760, 7776, 7792, 7808, 7824, 7840, 7856, 7872, 7888, 7904, 7920,
    7936, 7940, 7944, 7948, 7952, 7956, 7960, 7964, 7968, 7972, 7976, 7980,
    7984, 7988, 7992, 7996, 8000, 8004, 8008, 8012, 8016, 8020, 8024, 8028,
    8032, 8036, 8040, 8044, 8048, 8052, 8056, 8060, 8064, 8065, 8066, 8067,
    8068, 8069, 8070, 8071, 8072, 8073, 8074, 8075, 8076, 8077, 8078, 8079,
    8080, 8081, 8082, 8083, 8084, 8085, 8086, 8087, 8088, 8089, 8090, 8091,
    8092, 8093, 8094, 8095, 8096, 8097, 8098, 8099, 8100, 8101, 8102, 8103,
    8104, 8105, 8106, 8107, 8108, 8109, 8110, 8111, 8112, 8113, 8114, 8115,
    8116, 8117, 8118, 8119, 8120, 8121, 8122, 8123, 8124, 8125, 8126, 8127]"

definition SMALL_FREE :: "nat list" where
  "SMALL_FREE = [
    0, 0, 0, 0, 0, 0,
    6, 6, 6, 6, 6, 6, 6, 6, 4, 4, 4, 4,
    4, 4, 4, 4, 4, 4, 4, 4, 4, 4, 4, 4,
    2, 2, 2, 2, 2, 2, 2, 2, 2, 2, 2, 2,
    2, 2, 2, 2, 2, 2, 2, 2, 2, 2, 2, 2,
    2, 2, 2, 2, 2, 2, 2, 2, 0, 0, 0, 0,
    0, 0, 0, 0, 0, 0, 0, 0, 0, 0, 0, 0,
    0, 0, 0, 0, 0, 0, 0, 0, 0, 0, 0, 0,
    0, 0, 0, 0, 0, 0, 0, 0, 0, 0, 0, 0,
    0, 0, 0, 0, 0, 0, 0, 0, 0, 0, 0, 0,
    0, 0, 0, 0, 0, 0, 0, 0, 0, 0, 0, 0]"

text \<open>The two bytes of a \<^verbatim>\<open>dUnit\<close>.\<close>

definition DECLET_HI :: "Unit \<Rightarrow> uByte" where
  "DECLET_HI u = ucast (drop_bit 8 u)"

definition DECLET_LO :: "Unit \<Rightarrow> uByte" where
  "DECLET_LO u = ucast u"

text \<open>The loop that writes the unary prefix eight bits at a time.\<close>

fun packUnary :: "sink \<Rightarrow> uByte \<Rightarrow> nat \<Rightarrow> (sink \<times> nat) option" where
  "packUnary s pad1 n2 = do {
     s \<leftarrow> pack s pad1 8;
     if n2 - 8 \<ge> 8 then packUnary s pad1 (n2 - 8) else Some (s, n2 - 8)
   }"

declare packUnary.simps [simp del]

definition decInfinitePackExponent :: "uInt \<Rightarrow> bool \<Rightarrow> sink \<Rightarrow> sink option" where
  "decInfinitePackExponent exp T s = (let (buf, p) = s in
     if exp < 6 then do {
       b \<leftarrow> peek buf (pos p);
       buf \<leftarrow> poke buf (pos p) (b OR (if T then TINY_EXP ! unat exp else TINY_C_EXP ! unat exp));
       Some (buf, p\<lparr>free := TINY_FREE ! unat exp\<rparr>)
     }
     else if exp < 126 then do {
       let u = (if T then SMALL_EXP ! unat exp else SMALL_C_EXP ! unat exp);
       b \<leftarrow> peek buf (pos p);
       buf \<leftarrow> poke buf (pos p) (b OR DECLET_HI u);
       let p = p\<lparr>pos := pos p + 1\<rparr>;
       buf \<leftarrow> poke buf (pos p) (DECLET_LO u);
       Some (buf, p\<lparr>free := SMALL_FREE ! unat exp\<rparr>)
     }
     else (let
         exp = exp + 2;
         n = ilog2 exp;
         pad1 = 0xff;
         pad2 = 0xfe;
         (pad1, pad2, exp) = (if \<not> T then (NOT pad1, NOT pad2, NOT exp) else (pad1, pad2, exp))
       in
         if n < 8 then do {
           s \<leftarrow> pack s pad2 (n + 1);
           pack s (ucast exp) n
         }
         else do {
           (s, n2) \<leftarrow> packUnary s pad1 n;
           s \<leftarrow> pack s pad2 (n2 + 1);
           if n = 8 then pack s (ucast exp) n
           else if n \<le> 16 then do {
             s \<leftarrow> pack s (ucast (drop_bit 8 exp)) (n - 8);
             pack s (ucast exp) 8
           }
           else if n \<le> 24 then do {
             s \<leftarrow> pack s (ucast (drop_bit 16 exp)) (n - 16);
             s \<leftarrow> pack s (ucast (drop_bit 8 exp)) 8;
             pack s (ucast exp) 8
           }
           else do {
             s \<leftarrow> pack s (ucast (drop_bit 24 exp)) (n - 24);
             s \<leftarrow> pack s (ucast (drop_bit 16 exp)) 8;
             s \<leftarrow> pack s (ucast (drop_bit 8 exp)) 8;
             pack s (ucast exp) 8
           }
         }))"

section \<open>Decoding\<close>

text \<open>A pointer result: \<^verbatim>\<open>Null\<close> reports a decoding error to the caller.\<close>

datatype 'a ret = Null | Ret 'a

definition DECINF_EXPSIZE :: nat where
  "DECINF_EXPSIZE = 30"

text \<open>
  The loops of the two readers.  The count \<open>n\<close> is a \<^verbatim>\<open>uCount\<close> (\<^verbatim>\<open>uint_fast8_t\<close>, eight bits):
  it wraps around at 256.  A run of bits that would leave the byte would decrement a zero
  count of free bits and shift by more than the width of the operand.
\<close>

function skipBytes :: "uByte \<Rightarrow> uByte list \<Rightarrow> nat \<Rightarrow> nat \<Rightarrow> nat \<times> nat" where
  "skipBytes v bytes n i =
     (if i < length bytes \<and> bytes ! i = v then skipBytes v bytes ((n + 8) mod 256) (i + 1) else (n, i))"
  by pat_completeness auto
termination
  by (relation "measure (\<lambda>(v, bytes, n, i). length bytes - i)") auto

fun countBits :: "bool \<Rightarrow> uByte \<Rightarrow> nat \<Rightarrow> nat \<Rightarrow> (nat \<times> nat) option" where
  "countBits v b n f =
     (if bit b f = v then (if f = 0 then None else countBits v b ((n + 1) mod 256) (f - 1))
      else Some (n, f))"

declare skipBytes.simps [simp del] countBits.simps [simp del]

definition decInfiniteReadUnaryPrefix1 :: "uByte list \<Rightarrow> bitPos \<Rightarrow> (nat \<times> bitPos) option" where
  "decInfiniteReadUnaryPrefix1 bytes p = do {
     b \<leftarrow> peek bytes (pos p);
     if b AND 0x1F = 0x1F then do {
       let (n, i) = skipBytes 0xFF bytes 5 (pos p + 1);
       if i = length bytes then Some (0, p\<lparr>pos := i\<rparr>)
       else do {
         b \<leftarrow> peek bytes i;
         (n, f) \<leftarrow> countBits True b n 7;
         Some (if n > DECINF_EXPSIZE then 0 else n, \<lparr>pos = i, free = f\<rparr>)
       }
     }
     else do {
       (n, f) \<leftarrow> countBits True b 1 3;
       Some (n, p\<lparr>free := f\<rparr>)
     }
   }"

definition decInfiniteReadUnaryPrefix0 :: "uByte list \<Rightarrow> bitPos \<Rightarrow> (nat \<times> bitPos) option" where
  "decInfiniteReadUnaryPrefix0 bytes p = do {
     b \<leftarrow> peek bytes (pos p);
     if b AND 0x1F = 0 then do {
       let (n, i) = skipBytes 0 bytes 5 (pos p + 1);
       if i = length bytes then Some (0, p\<lparr>pos := i\<rparr>)
       else do {
         b \<leftarrow> peek bytes i;
         (n, f) \<leftarrow> countBits False b n 7;
         Some (if n > DECINF_EXPSIZE then 0 else n, \<lparr>pos = i, free = f\<rparr>)
       }
     }
     else do {
       (n, f) \<leftarrow> countBits False b 1 3;
       Some (n, p\<lparr>free := f\<rparr>)
     }
   }"

text \<open>One byte of the exponent shifted into the accumulator.\<close>

definition unpackInto :: "uByte list \<Rightarrow> (uInt \<times> bitPos) \<Rightarrow> (uInt \<times> bitPos) option" where
  "unpackInto bytes ep = do {
     let (e, p) = ep;
     (byte, p) \<leftarrow> unpack bytes p 8;
     Some (push_bit 8 e OR ucast byte, p)
   }"

text \<open>The four branches that read an exponent of \<open>n\<close> bits.\<close>

definition unpackExponentBits :: "uByte list \<Rightarrow> bitPos \<Rightarrow> nat \<Rightarrow> (uInt \<times> bitPos) option" where
  "unpackExponentBits bytes p n =
     (if n \<le> 8 then do {
        (byte, p) \<leftarrow> unpack bytes p n;
        Some (ucast byte, p)
      }
      else if n \<le> 16 then do {
        (byte, p) \<leftarrow> unpack bytes p (n - 8);
        unpackInto bytes (ucast byte, p)
      }
      else if n \<le> 24 then do {
        (byte, p) \<leftarrow> unpack bytes p (n - 16);
        ep \<leftarrow> unpackInto bytes (ucast byte, p);
        unpackInto bytes ep
      }
      else do {
        (byte, p) \<leftarrow> unpack bytes p (n - 24);
        ep \<leftarrow> unpackInto bytes (ucast byte, p);
        ep \<leftarrow> unpackInto bytes ep;
        unpackInto bytes ep
      })"

definition decInfiniteUnpackExponent :: "uByte list \<Rightarrow> bitPos \<Rightarrow> (int \<times> bitPos) ret option" where
  "decInfiniteUnpackExponent bytes p = do {
     b \<leftarrow> peek bytes (pos p);
     let T = b AND 0x10;
     let esign = push_bit 3 T XOR (b AND 0x80);
     (n, p) \<leftarrow> (if T \<noteq> 0 then decInfiniteReadUnaryPrefix1 bytes p
               else decInfiniteReadUnaryPrefix0 bytes p);
     if n = 0 then Some Null
     else if 8 * (int (length bytes) - int (pos p)) - (8 - int (free p)) < int n then Some Null
     else do {
       (e, p) \<leftarrow> unpackExponentBits bytes p n;
       let e = (if T = 0 then NOT e AND MASK ! n else e);
       let e = (e OR push_bit n 1) - 2;
       if e > 999999999 then Some Null
       else Some (Ret (if esign \<noteq> 0 then - int (unat e) else int (unat e), p))
     }
   }"

section \<open>Specification: the modified Gamma code\<close>

fun nat_log2 :: "nat \<Rightarrow> nat" where
  "nat_log2 v = (if v < 2 then 0 else Suc (nat_log2 (v div 2)))"

declare nat_log2.simps [simp del]

definition gamma :: "nat \<Rightarrow> bool list" where
  "gamma E = (let n = nat_log2 (E + 2) in replicate n True @ False # low_bits n (E + 2))"

definition exp_bits :: "bool \<Rightarrow> nat \<Rightarrow> bool list" where
  "exp_bits T E = (if T then gamma E else map Not (gamma E))"

lemma nat_log2_bounds: "0 < v \<Longrightarrow> 2 ^ nat_log2 v \<le> v \<and> v < 2 ^ Suc (nat_log2 v)"
proof (induction v rule: nat_log2.induct)
  case (1 v)
  show ?case
  proof (cases "v < 2")
    case True
    with 1 show ?thesis by (simp add: nat_log2.simps [of v])
  next
    case False
    with 1 have "2 ^ nat_log2 (v div 2) \<le> v div 2 \<and> v div 2 < 2 ^ Suc (nat_log2 (v div 2))" by auto
    with False show ?thesis by (auto simp: nat_log2.simps [of v])
  qed
qed

lemma nat_log2_unique:
  assumes "2 ^ k \<le> v" "v < 2 ^ Suc k"
  shows "nat_log2 v = k"
proof -
  have "0 < v" using assms(1) by (rule less_le_trans [rotated]) simp
  then have b: "2 ^ nat_log2 v \<le> v" "v < 2 ^ Suc (nat_log2 v)" using nat_log2_bounds by auto
  have "nat_log2 v < Suc k" using b(1) assms(2)
    by (metis le_less_trans power_less_imp_less_exp one_less_numeral_iff semiring_norm(76))
  moreover have "k < Suc (nat_log2 v)" using b(2) assms(1)
    by (metis le_less_trans power_less_imp_less_exp one_less_numeral_iff semiring_norm(76))
  ultimately show ?thesis by simp
qed

lemma nat_log2_shift: "v div 2 ^ k \<noteq> 0 \<Longrightarrow> nat_log2 v = k + nat_log2 (v div 2 ^ k)"
proof (rule nat_log2_unique)
  assume "v div 2 ^ k \<noteq> 0"
  then have b: "2 ^ nat_log2 (v div 2 ^ k) \<le> v div 2 ^ k" "v div 2 ^ k < 2 ^ Suc (nat_log2 (v div 2 ^ k))"
    using nat_log2_bounds [of "v div 2 ^ k"] by auto
  show "2 ^ (k + nat_log2 (v div 2 ^ k)) \<le> v"
    using b(1) by (simp add: power_add less_eq_div_iff_mult_less_eq mult.commute)
  show "v < 2 ^ Suc (k + nat_log2 (v div 2 ^ k))"
    using b(2) by (simp add: power_add div_less_iff_less_mult mult.commute mult.left_commute)
qed

lemma nat_log2_mono: "u \<le> v \<Longrightarrow> nat_log2 u \<le> nat_log2 v"
proof (cases "0 < u")
  case True
  moreover assume "u \<le> v"
  ultimately have "2 ^ nat_log2 u < (2::nat) ^ Suc (nat_log2 v)"
    using nat_log2_bounds [of u] nat_log2_bounds [of v] by linarith
  then show ?thesis by (simp add: power_less_imp_less_exp less_Suc_eq_le del: power_Suc)
qed (simp add: nat_log2.simps)

lemma length_gamma: "length (gamma E) = 2 * nat_log2 (E + 2) + 1"
  by (simp add: gamma_def Let_def)

lemma length_exp_bits [simp]: "length (exp_bits T E) = 2 * nat_log2 (E + 2) + 1"
  by (simp add: exp_bits_def length_gamma)

section \<open>The integer logarithm\<close>

lemma LogTable256_runs:
  "LogTable256 = -1 # 0 # replicate 2 1 @ replicate 4 2 @ replicate 8 3 @ replicate 16 4 @
     replicate 32 5 @ replicate 64 6 @ replicate 128 7"
  by (simp add: LogTable256_def LT_def numeral_eq_Suc)

lemma LogTable256_nth:
  assumes "0 < i" "i < 256"
  shows "LogTable256 ! i = int (nat_log2 i)"
proof -
  have run: "nat_log2 i = k" if "2 ^ k \<le> i" "i < 2 ^ Suc k" for k
    using that by (rule nat_log2_unique)
  show ?thesis
    using assms run [of 0] run [of 1] run [of 2] run [of 3] run [of 4] run [of 5] run [of 6] run [of 7]
    by (auto simp: LogTable256_runs nth_Cons' nth_append split: if_splits)
qed

lemma ilog2_correct:
  assumes "v \<noteq> 0"
  shows "ilog2 v = nat_log2 (unat v)"
proof -
  have v: "unat v < 2 ^ 32" "0 < unat v"
    using unsigned_less [of v] assms by (simp_all add: unat_gt_0)
  have un: "unat (drop_bit k v) = unat v div 2 ^ k" for k
    by (simp only: unat_drop_bit_eq drop_bit_eq_div [where 'a = nat])
  have nz: "drop_bit k v \<noteq> 0 \<longleftrightarrow> unat v div 2 ^ k \<noteq> 0" for k
    by (simp only: un flip: unat_eq_0)
  have log: "nat ((int k + LogTable256 ! (unat v div 2 ^ k)) mod 256) = nat_log2 (unat v)"
    if "unat v div 2 ^ k \<noteq> 0" "unat v div 2 ^ k < 256" "k \<le> 24" for k
  proof -
    have "nat_log2 (unat v div 2 ^ k) \<le> nat_log2 255" using that(2) by (intro nat_log2_mono) simp
    also have "nat_log2 255 = 7" by (rule nat_log2_unique) simp_all
    finally show ?thesis
      using that LogTable256_nth [of "unat v div 2 ^ k"] nat_log2_shift [OF that(1)]
      by (simp flip: of_nat_add)
  qed
  have d: "drop_bit 8 (drop_bit 16 v) = drop_bit 24 v" by simp
  show ?thesis
    using log [of 24] log [of 16] log [of 8] log [of 0] v nz [of 16] nz [of 24] nz [of 8] un
    by (auto simp: ilog2_def Let_def d less_mult_imp_div_less)
qed

section \<open>Packing an exponent writes its code\<close>

subsection \<open>The tables\<close>

lemma tiny_table:
  assumes "E < 6"
  shows "TINY_FREE ! E \<le> 4"
    and "push_bit (TINY_FREE ! E) (drop_bit (TINY_FREE ! E) (TINY_EXP ! E)) AND mask 5 = TINY_EXP ! E"
    and "push_bit (TINY_FREE ! E) (drop_bit (TINY_FREE ! E) (TINY_C_EXP ! E)) AND mask 5 = TINY_C_EXP ! E"
    and "low_bits (5 - TINY_FREE ! E) (drop_bit (TINY_FREE ! E) (TINY_EXP ! E)) = exp_bits True E"
    and "low_bits (5 - TINY_FREE ! E) (drop_bit (TINY_FREE ! E) (TINY_C_EXP ! E)) = exp_bits False E"
proof -
  have "list_all (\<lambda>E. TINY_FREE ! E \<le> 4 \<and>
      push_bit (TINY_FREE ! E) (drop_bit (TINY_FREE ! E) (TINY_EXP ! E)) AND mask 5 = TINY_EXP ! E \<and>
      push_bit (TINY_FREE ! E) (drop_bit (TINY_FREE ! E) (TINY_C_EXP ! E)) AND mask 5 = TINY_C_EXP ! E \<and>
      low_bits (5 - TINY_FREE ! E) (drop_bit (TINY_FREE ! E) (TINY_EXP ! E)) = exp_bits True E \<and>
      low_bits (5 - TINY_FREE ! E) (drop_bit (TINY_FREE ! E) (TINY_C_EXP ! E)) = exp_bits False E) [0..<6]"
    by code_simp
  with assms show "TINY_FREE ! E \<le> 4"
    and "push_bit (TINY_FREE ! E) (drop_bit (TINY_FREE ! E) (TINY_EXP ! E)) AND mask 5 = TINY_EXP ! E"
    and "push_bit (TINY_FREE ! E) (drop_bit (TINY_FREE ! E) (TINY_C_EXP ! E)) AND mask 5 = TINY_C_EXP ! E"
    and "low_bits (5 - TINY_FREE ! E) (drop_bit (TINY_FREE ! E) (TINY_EXP ! E)) = exp_bits True E"
    and "low_bits (5 - TINY_FREE ! E) (drop_bit (TINY_FREE ! E) (TINY_C_EXP ! E)) = exp_bits False E"
    by (auto simp: list_all_iff)
qed

text \<open>What a pair of bytes \<open>u\<close> has to satisfy to stand for the bits \<open>xs\<close> when its high byte has
  \<open>k\<close> of them and its low byte the rest and \<open>f\<close> free bits.\<close>

definition two_byte_entry :: "nat \<Rightarrow> Unit \<Rightarrow> nat \<Rightarrow> bool list \<Rightarrow> bool" where
  "two_byte_entry k u f xs \<longleftrightarrow> f < 8 \<and> DECLET_HI u AND mask k = DECLET_HI u \<and>
     push_bit f (drop_bit f (DECLET_LO u)) = DECLET_LO u \<and>
     low_bits k (DECLET_HI u) @ low_bits (8 - f) (drop_bit f (DECLET_LO u)) = xs"

lemma small_table:
  assumes "6 \<le> E" "E < 126"
  shows "two_byte_entry 5 (SMALL_EXP ! E) (SMALL_FREE ! E) (exp_bits True E)"
    and "two_byte_entry 5 (SMALL_C_EXP ! E) (SMALL_FREE ! E) (exp_bits False E)"
proof -
  let ?ns = "replicate 8 3 @ replicate 16 4 @ replicate 32 5 @ replicate 64 (6 :: nat)"
  define ks where "ks = [8..127 :: int]"
  let ?tab = "zip (drop 6 SMALL_EXP) (zip (drop 6 SMALL_C_EXP) (zip (drop 6 SMALL_FREE) (zip ?ns ks)))"
  have check: "list_all (\<lambda>(u, c, f, n, k). let g = replicate n True @ False # low_bits n k in
      two_byte_entry 5 u f g \<and> two_byte_entry 5 c f (map Not g)) ?tab"
    unfolding ks_def by code_simp
  have len: "length SMALL_EXP = 126" "length SMALL_C_EXP = 126" "length SMALL_FREE = 126"
    by (simp_all add: SMALL_EXP_def SMALL_C_EXP_def SMALL_FREE_def)
  define i where "i = E - 6"
  have i: "i < 120" "E = i + 6" using assms by (simp_all add: i_def)
  have run: "nat_log2 (8 + i) = k" if "2 ^ k \<le> 8 + i" "8 + i < 2 ^ Suc k" for k
    using that by (rule nat_log2_unique)
  have n: "?ns ! i = nat_log2 (E + 2)"
    using i run [of 3] run [of 4] run [of 5] run [of 6] by (auto simp: nth_append)
  have k: "ks ! i = int (E + 2)" "length ks = 120"
    using i nth_upto [of 8 i 127] by (simp_all add: ks_def del: upto_rec_numeral)
  have "?tab ! i = (SMALL_EXP ! E, SMALL_C_EXP ! E, SMALL_FREE ! E, nat_log2 (E + 2), int (E + 2))"
    using i len n k by (simp add: add.commute)
  moreover have "i < length ?tab" using i len k by simp
  ultimately have "two_byte_entry 5 (SMALL_EXP ! E) (SMALL_FREE ! E) (gamma E) \<and>
      two_byte_entry 5 (SMALL_C_EXP ! E) (SMALL_FREE ! E) (map Not (gamma E))"
    using check [unfolded list_all_length, rule_format, of i] low_bits_int [of "nat_log2 (E + 2)" "E + 2"]
    by (simp add: gamma_def Let_def)
  then show "two_byte_entry 5 (SMALL_EXP ! E) (SMALL_FREE ! E) (exp_bits True E)"
    and "two_byte_entry 5 (SMALL_C_EXP ! E) (SMALL_FREE ! E) (exp_bits False E)"
    by (auto simp: exp_bits_def)
qed

lemma write_tiny:
  assumes "written buf p bs" "free p = 5" "f \<le> 4"
    and "push_bit f (drop_bit f t) AND mask 5 = t"
  shows "written (buf[pos p := (buf ! pos p) OR t]) (p\<lparr>free := f\<rparr>) (bs @ low_bits (5 - f) (drop_bit f t))"
  using pack_fits [OF assms(1) _ _ refl, of "5 - f" "drop_bit f t"] assms(2-4) by simp

lemma write_two_bytes:
  assumes w: "written buf p bs" and k: "free p = k" "0 < k" and p1: "pos p + 1 < length buf"
    and u: "two_byte_entry k u f xs"
  shows "written (buf[pos p := (buf ! pos p) OR DECLET_HI u, pos p + 1 := DECLET_LO u])
           \<lparr>pos = pos p + 1, free = f\<rparr> (bs @ xs)"
proof -
  note u = u [unfolded two_byte_entry_def]
  let ?b1 = "buf[pos p := (buf ! pos p) OR DECLET_HI u]"
  have "written ?b1 (p\<lparr>free := 0\<rparr>) (bs @ low_bits k (DECLET_HI u))"
    using pack_fits [OF w _ _ refl, of k "DECLET_HI u"] k u by simp
  then have "written (?b1[pos p + 1 := 0]) \<lparr>pos = pos p + 1, free = 8\<rparr> (bs @ low_bits k (DECLET_HI u))"
    using pack_open [of ?b1 "p\<lparr>free := 0\<rparr>"] p1 by simp
  moreover have "DECLET_LO u AND mask 8 = DECLET_LO u"
    by (rule bit_word_eqI) (auto simp: bit_simps)
  ultimately show ?thesis
    using pack_fits [OF _ _ _ refl, of "?b1[pos p + 1 := 0]" "\<lparr>pos = pos p + 1, free = 8\<rparr>"
        "bs @ low_bits k (DECLET_HI u)" "8 - f" "drop_bit f (DECLET_LO u)"] u p1
    by simp
qed

subsection \<open>Large exponents\<close>

lemma packUnary_put_all:
  "8 \<le> n \<Longrightarrow> packUnary s pad n =
     do { s \<leftarrow> put_all pack s (replicate (n div 8) (pad, 8)); Some (s, n mod 8) }"
proof (induction s pad n rule: packUnary.induct)
  case (1 s pad n)
  obtain m where n: "n = m + 8" using 1(2) by (metis le_add_diff_inverse2)
  show ?case
  proof (cases "8 \<le> m")
    case True
    have "(m + 8) div 8 = Suc (m div 8)" by simp
    with True show ?thesis
      using 1(1) n by (subst packUnary.simps) (auto split: bind_splits)
  next
    case False
    then have "(m + 8) div 8 = Suc 0" "(m + 8) mod 8 = m" by simp_all
    with False show ?thesis using n by (subst packUnary.simps) (auto split: bind_splits)
  qed
qed

definition exp_chunks :: "nat \<Rightarrow> uInt \<Rightarrow> (uByte \<times> nat) list" where
  "exp_chunks n e =
     (if n \<le> 8 then [(ucast e, n)]
      else if n \<le> 16 then [(ucast (drop_bit 8 e), n - 8), (ucast e, 8)]
      else if n \<le> 24 then [(ucast (drop_bit 16 e), n - 16), (ucast (drop_bit 8 e), 8), (ucast e, 8)]
      else [(ucast (drop_bit 24 e), n - 24), (ucast (drop_bit 16 e), 8), (ucast (drop_bit 8 e), 8), (ucast e, 8)])"

lemma exp_chunks_bits:
  "n \<le> 32 \<Longrightarrow> concat (map (\<lambda>(x, n). low_bits n x) (exp_chunks n e)) = low_bits n e"
  using low_bits_append [of "n - 8" 8 e] low_bits_append [of "n - 16" 16 e] low_bits_append [of "n - 24" 24 e]
    low_bits_append [of 8 8 e] low_bits_append [of 8 16 e]
  by (auto simp: exp_chunks_def low_bits_ucast)

lemma exp_chunks_ok:
  "0 < n \<Longrightarrow> n \<le> 32 \<Longrightarrow> list_all (\<lambda>(x, n). 0 < n \<and> n \<le> 8) (exp_chunks n e)"
  by (auto simp: exp_chunks_def)

lemma exp_chunks_size: "sum_list (map snd (exp_chunks n e)) = n"
  by (auto simp: exp_chunks_def)

text \<open>The pads and the exponent of a large exponent, complemented when \<open>T\<close> is zero.\<close>

definition large_puts :: "uInt \<Rightarrow> bool \<Rightarrow> (uByte \<times> nat) list" where
  "large_puts exp T = (let e = (if T then exp + 2 else NOT (exp + 2)); n = ilog2 (exp + 2) in
     replicate (n div 8) (if T then 0xff else NOT 0xff, 8) @ (if T then 0xfe else NOT 0xfe, n mod 8 + 1) # exp_chunks n e)"

lemma pack_large:
  assumes "126 \<le> exp" "exp < 0x7FFFFFFE"
  shows "decInfinitePackExponent exp T s = put_all pack s (large_puts exp T)"
proof -
  obtain buf p where s: "s = (buf, p)" by fastforce
  have e2: "unat (exp + 2) = unat exp + 2" "126 \<le> unat exp"
    using assms by (simp_all add: unat_word_ariths word_less_nat_alt word_le_nat_alt)
  then have "nat_log2 128 \<le> nat_log2 (unat exp + 2)" by (intro nat_log2_mono) simp
  moreover have "nat_log2 128 = 7" by (rule nat_log2_unique) simp_all
  moreover have "ilog2 (exp + 2) = nat_log2 (unat exp + 2)"
    using e2 by (subst ilog2_correct) (auto simp flip: unat_eq_0)
  ultimately have n: "7 \<le> ilog2 (exp + 2)" by simp
  have ge: "\<not> exp < 6" "\<not> exp < 126" using assms(1) by (auto simp: word_le_nat_alt word_less_nat_alt)
  show ?thesis
  proof (cases "ilog2 (exp + 2) < 8")
    case True
    with n have "ilog2 (exp + 2) = 7" by simp
    then show ?thesis
      using ge s by (simp add: decInfinitePackExponent_def large_puts_def exp_chunks_def Let_def)
  next
    case False
    then show ?thesis
      using ge s by (auto simp: decInfinitePackExponent_def large_puts_def exp_chunks_def Let_def
          packUnary_put_all put_all_append split: bind_splits)
  qed
qed

lemma low_bits_pad1 [bitstr]: "low_bits 8 (0xff :: uByte) = replicate 8 True"
  by code_simp

lemma low_bits_pad2 [bitstr]:
  assumes "m < 8"
  shows "low_bits (m + 1) (0xfe :: uByte) = replicate m True @ [False]"
proof -
  have "bit (NOT 1 :: uByte) j \<longleftrightarrow> 0 < j \<and> j < 8" for j
    by (auto simp: bit_not_iff bit_1_iff)
  moreover have "(0xfe :: uByte) = NOT 1" by simp
  ultimately have b: "bit (0xfe :: uByte) j \<longleftrightarrow> 0 < j \<and> j < 8" for j by metis
  show ?thesis
    using assms by (intro nth_equalityI) (auto simp: nth_append b simp del: bit_numeral_word_iff)
qed

lemma large_exponent:
  assumes "exp < 0x7FFFFFFE"
  shows "unat (exp + 2) = unat exp + 2" and "ilog2 (exp + 2) = nat_log2 (unat exp + 2)"
    and "0 < nat_log2 (unat exp + 2)" and "nat_log2 (unat exp + 2) \<le> 30"
proof -
  show e2: "unat (exp + 2) = unat exp + 2"
    using assms by (simp add: unat_word_ariths word_less_nat_alt)
  then show "ilog2 (exp + 2) = nat_log2 (unat exp + 2)"
    by (subst ilog2_correct) (auto simp flip: unat_eq_0)
  show "0 < nat_log2 (unat exp + 2)"
    by (simp add: nat_log2.simps [of "Suc (Suc (unat exp))"])
  have "nat_log2 (unat exp + 2) \<le> nat_log2 0x7FFFFFFF"
    using assms by (intro nat_log2_mono) (simp add: word_less_nat_alt)
  moreover have "nat_log2 0x7FFFFFFF = 30" by (rule nat_log2_unique) simp_all
  ultimately show "nat_log2 (unat exp + 2) \<le> 30" by simp
qed

lemma large_puts_ok:
  "exp < 0x7FFFFFFE \<Longrightarrow> list_all (\<lambda>(x, n). 0 < n \<and> n \<le> 8) (large_puts exp T)"
  using large_exponent [of exp] exp_chunks_ok by (simp add: large_puts_def Let_def)

lemma large_puts_bits:
  assumes "exp < 0x7FFFFFFE"
  shows "concat (map (\<lambda>(x, n). low_bits n x) (large_puts exp T)) = exp_bits T (unat exp)"
proof -
  let ?n = "nat_log2 (unat exp + 2)" and ?e = "if T then exp + 2 else NOT (exp + 2)"
  note n = large_exponent [OF assms]
  have "8 * (?n div 8) + ?n mod 8 = ?n" by simp
  then have run: "replicate (8 * (?n div 8)) b @ replicate (?n mod 8) b = replicate ?n b" for b :: bool
    by (simp only: flip: replicate_add)
  have pad1: "low_bits 8 (if T then 0xff else NOT 0xff :: uByte) = replicate 8 T"
    using low_bits_not [of 8 "0xff :: uByte"] by (simp add: low_bits_pad1)
  have "?n mod 8 < 8" by simp
  note p2 = low_bits_pad2 [OF this]
  have pad2: "low_bits (?n mod 8 + 1) (if T then 0xfe else NOT 0xfe :: uByte) = replicate (?n mod 8) T @ [\<not> T]"
    using p2 low_bits_not [of "?n mod 8 + 1" "0xfe :: uByte"] by (simp add: Suc_le_eq)
  have lows: "low_bits ?n ?e = (if T then low_bits ?n (unat exp + 2) else map Not (low_bits ?n (unat exp + 2)))"
    using low_bits_unat [of ?n "exp + 2"] n by (simp add: low_bits_not)
  have "concat (map (\<lambda>(x, n). low_bits n x) (large_puts exp T)) =
      concat (replicate (?n div 8) (low_bits 8 (if T then 0xff else NOT 0xff :: uByte))) @
      low_bits (?n mod 8 + 1) (if T then 0xfe else NOT 0xfe :: uByte) @ low_bits ?n ?e"
    using exp_chunks_bits [of ?n ?e] n(2,4) by (simp only: large_puts_def Let_def map_append concat_append
        map_replicate list.map concat.simps prod.case)
  also have "\<dots> = replicate ?n T @ (\<not> T) # low_bits ?n ?e"
    unfolding pad1 pad2 concat_replicate_replicate using run [of T] by simp
  also have "\<dots> = exp_bits T (unat exp)"
    unfolding lows by (simp add: exp_bits_def gamma_def Let_def)
  finally show ?thesis .
qed

text \<open>
  \<^verbatim>\<open>decInfinitePackExponent\<close> writes exactly the code of the exponent after the three bits of
  the sign and the pad, whichever of the tables or loops it goes through.
\<close>

lemma decInfinitePackExponent_holds:
  assumes h: "sink_holds (buf, p) bs" and f5: "free p = 5" and e: "exp < 0x7FFFFFFE"
    and room: "length bs + length (exp_bits T (unat exp)) \<le> sink_room (buf, p)"
  shows "\<exists>s'. decInfinitePackExponent exp T (buf, p) = Some s' \<and>
           sink_holds s' (bs @ exp_bits T (unat exp)) \<and> sink_room s' = sink_room (buf, p)"
proof -
  have w: "written buf p bs" and pl: "pos p < length buf"
    using h by (auto simp: sink_holds_def written_def)
  have lb: "length bs = 8 * pos p + 3" using written_length [OF w] f5 by (simp add: bit_index_def)
  consider (tiny) "exp < 6" | (small) "6 \<le> exp" "exp < 126" | (large) "126 \<le> exp" by fastforce
  then show ?thesis
  proof cases
    case tiny
    let ?E = "unat exp"
    have E: "?E < 6" using tiny by (simp add: word_less_nat_alt)
    note t = tiny_table [OF E]
    show ?thesis
      using tiny pl write_tiny [OF w f5 t(1) t(2)] write_tiny [OF w f5 t(1) t(3)] t
      by (auto simp: decInfinitePackExponent_def sink_holds_def sink_room_def)
  next
    case small
    let ?E = "unat exp"
    have E: "6 \<le> ?E" "?E < 126" using small by (simp_all add: word_less_nat_alt word_le_nat_alt)
    have "nat_log2 8 \<le> nat_log2 (?E + 2)" using E by (intro nat_log2_mono) simp
    moreover have "nat_log2 8 = 3" by (rule nat_log2_unique) simp_all
    ultimately have p1: "pos p + 1 < length buf" using room lb by (simp add: sink_room_def)
    have "\<not> exp < 6" using small by (simp add: word_less_nat_alt word_le_nat_alt)
    moreover have "SMALL_FREE ! ?E < 8" using small_table(1) [OF E] by (simp add: two_byte_entry_def)
    ultimately show ?thesis
      using small pl p1 write_two_bytes [OF w f5 _ p1 small_table(1) [OF E]]
        write_two_bytes [OF w f5 _ p1 small_table(2) [OF E]]
      by (cases p) (auto simp: decInfinitePackExponent_def sink_holds_def sink_room_def Let_def)
  next
    case large
    have "list_all (\<lambda>(x, n). 0 < n \<and> n \<le> 8) (large_puts exp T)" by (rule large_puts_ok [OF e])
    moreover have "sum_list (map snd (large_puts exp T)) = length (exp_bits T (unat exp))"
      unfolding large_puts_bits [OF e, symmetric] length_concat
      by (rule arg_cong [where f = sum_list]) (auto simp: comp_def)
    ultimately show ?thesis
      using packer.put_all_holds [OF h, of "large_puts exp T"] room pack_large [OF large e]
      by (simp add: large_puts_bits [OF e])
  qed
qed

end
