(* ===== verification/ExponentRead.thy ===== *)
theory ExponentRead
  imports Exponent
begin

text \<open>
  Reading an exponent back: what the readers of the unary prefix and
  \<^verbatim>\<open>decInfiniteUnpackExponent\<close> (\<^verbatim>\<open>decInfinite.c\<close>) return on every byte string, and the
  round trip with \<^verbatim>\<open>decInfinitePackExponent\<close>.
\<close>

section \<open>Reading the unary prefix\<close>

text \<open>Both readers are one reader, for runs of ones or of zeroes.\<close>

definition run_byte :: "bool \<Rightarrow> uByte" where
  "run_byte v = (if v then 0xFF else 0)"

definition read_prefix :: "bool \<Rightarrow> uByte list \<Rightarrow> bitPos \<Rightarrow> (nat \<times> bitPos) option" where
  "read_prefix v bytes p = (if v then decInfiniteReadUnaryPrefix1 bytes p else decInfiniteReadUnaryPrefix0 bytes p)"

lemma run_byte_bits: "low_bits 8 (run_byte v) = replicate 8 v"
  by (cases v) (simp_all add: run_byte_def low_bits_pad1, simp add: low_bits_def map_replicate_const)

lemma run_byte_iff: "b = run_byte v \<longleftrightarrow> run v (low_bits 8 b) = 8"
  using run_full_iff [of v "low_bits 8 b"] byte_bits_inj [of b "run_byte v"] by (simp add: run_byte_bits)

lemma low5_iff: "b AND 0x1F = (if v then 0x1F else 0) \<longleftrightarrow> run v (low_bits 5 (b :: uByte)) = 5"
proof -
  have m: "(0x1F :: uByte) = mask 5" by (simp add: mask_numeral)
  have "run v (low_bits 5 b) = 5 \<longleftrightarrow> low_bits 5 b = replicate 5 v"
    using run_full_iff [of v "low_bits 5 b"] by simp
  also have "\<dots> \<longleftrightarrow> (\<forall>i < 5. bit b i = v)"
  proof
    assume "low_bits 5 b = replicate 5 v"
    then have "low_bits 5 b ! (4 - i) = v" if "i < 5" for i using that by simp
    then show "\<forall>i < 5. bit b i = v" by fastforce
  qed (auto intro!: nth_equalityI)
  also have "\<dots> \<longleftrightarrow> b AND mask 5 = (if v then mask 5 else 0)"
  proof
    assume e: "b AND mask 5 = (if v then mask 5 else 0)"
    show "\<forall>i < 5. bit b i = v"
    proof (intro allI impI)
      fix i :: nat assume "i < 5"
      moreover have "bit (b AND mask 5) i = bit (if v then mask 5 else 0 :: uByte) i" by (simp add: e)
      ultimately show "bit b i = v" by (cases v) (auto simp: bit_simps)
    qed
  qed (auto intro!: bit_word_eqI simp: bit_simps)
  finally show ?thesis by (simp only: m)
qed

lemma read_prefix_unfold:
  "read_prefix v bytes p = do {
     b \<leftarrow> peek bytes (pos p);
     if run v (low_bits 5 b) = 5 then do {
       let (n, i) = skipBytes (run_byte v) bytes 5 (pos p + 1);
       if i = length bytes then Some (0, p\<lparr>pos := i\<rparr>)
       else do {
         b \<leftarrow> peek bytes i;
         (n, f) \<leftarrow> countBits v b n 7;
         Some (if n > DECINF_EXPSIZE then 0 else n, \<lparr>pos = i, free = f\<rparr>)
       }
     }
     else do {
       (n, f) \<leftarrow> countBits v b 1 3;
       Some (n, p\<lparr>free := f\<rparr>)
     }
   }"
  using low5_iff [of _ True] low5_iff [of _ False]
  unfolding read_prefix_def decInfiniteReadUnaryPrefix1_def decInfiniteReadUnaryPrefix0_def run_byte_def
  by (induction v) simp_all

lemma countBits_run:
  "run v (low_bits (Suc f) b) < Suc f \<Longrightarrow> n < 256 \<Longrightarrow>
   countBits v b n f = Some ((n + run v (low_bits (Suc f) b)) mod 256, f - run v (low_bits (Suc f) b))"
proof (induction f arbitrary: n)
  case 0
  then show ?case by (subst countBits.simps) (auto simp: low_bits_Suc split: if_splits)
next
  case (Suc f)
  show ?case
  proof (cases "bit b (Suc f) = v")
    case True
    then have "countBits v b n (Suc f) = countBits v b ((n + 1) mod 256) f"
      by (subst countBits.simps) simp
    also have "\<dots> = Some (((n + 1) mod 256 + run v (low_bits (Suc f) b)) mod 256, f - run v (low_bits (Suc f) b))"
      using Suc.prems True by (intro Suc.IH) (auto simp: low_bits_Suc [of "Suc f"])
    finally show ?thesis using True by (simp add: low_bits_Suc [of "Suc f"] mod_simps)
  next
    case False
    then show ?thesis using Suc.prems by (subst countBits.simps) (simp add: low_bits_Suc [of "Suc f"])
  qed
qed

lemma skipBytes_run:
  "i \<le> length bytes \<Longrightarrow> n < 256 \<Longrightarrow>
   skipBytes (run_byte v) bytes n i =
     ((n + 8 * (run v (bytes_bits (drop i bytes)) div 8)) mod 256, i + run v (bytes_bits (drop i bytes)) div 8)"
proof (induction "run_byte v" bytes n i rule: skipBytes.induct)
  case (1 bytes n i)
  show ?case
  proof (cases "i < length bytes \<and> bytes ! i = run_byte v")
    case True
    then have r: "run v (bytes_bits (drop i bytes)) = 8 + run v (bytes_bits (drop (i + 1) bytes))"
      by (simp add: bytes_bits_Cons_drop run_byte_bits)
    have "skipBytes (run_byte v) bytes n i = skipBytes (run_byte v) bytes ((n + 8) mod 256) (i + 1)"
      using True by (subst skipBytes.simps) simp
    moreover have "\<dots> = (((n + 8) mod 256 + 8 * (run v (bytes_bits (drop (i + 1) bytes)) div 8)) mod 256,
        i + 1 + run v (bytes_bits (drop (i + 1) bytes)) div 8)"
      using 1 True by auto
    moreover have "run v (bytes_bits (drop i bytes)) div 8 = Suc (run v (bytes_bits (drop (i + 1) bytes)) div 8)"
      unfolding r by simp
    ultimately show ?thesis by (simp add: mod_simps algebra_simps)
  next
    case False
    have "run v (bytes_bits (drop i bytes)) < 8"
    proof (cases "i < length bytes")
      case True
      with False have "run v (low_bits 8 (bytes ! i)) \<noteq> 8" by (simp add: run_byte_iff)
      then show ?thesis
        using run_le [of v "low_bits 8 (bytes ! i)"] True by (simp add: bytes_bits_Cons_drop run_append)
    qed simp
    with False show ?thesis using 1(3) by (subst skipBytes.simps) auto
  qed
qed

text \<open>
  The readers return the length of the run of bits equal to the sign bit of the exponent, modulo
  256, unless the run fills the string (or its length is too large): the position is then after
  the bit that ends the run.
\<close>

definition prefix_run :: "uByte list \<Rightarrow> nat" where
  "prefix_run bytes = run (bit (bytes ! 0) 4) (drop 3 (bytes_bits bytes))"

definition prefix_count :: "nat \<Rightarrow> nat" where
  "prefix_count m = (if 5 \<le> m \<and> m mod 256 > DECINF_EXPSIZE then 0 else m mod 256)"

lemma read_prefix_run:
  assumes "bytes \<noteq> []" "pos p = 0" "v = bit (bytes ! 0) 4"
  shows "prefix_run bytes = 8 * length bytes - 3 \<Longrightarrow> \<exists>p'. read_prefix v bytes p = Some (0, p')"
    and "prefix_run bytes < 8 * length bytes - 3 \<Longrightarrow> \<exists>p'. read_prefix v bytes p = Some (prefix_count (prefix_run bytes), p') \<and>
           readable bytes p' \<and> bit_index p' = prefix_run bytes + 4"
proof -
  obtain b bs where bytes: "bytes = b # bs" using assms(1) by (cases bytes) auto
  let ?m = "prefix_run bytes" and ?r = "run v (bytes_bits bs)"
  have low8: "low_bits 8 b = low_bits 3 (drop_bit 5 b) @ low_bits 5 b"
    using low_bits_append [of 3 5 b] by simp
  have low5: "low_bits 5 b = v # low_bits 4 b" using low_bits_Suc [of 4 b] assms(3) bytes by simp
  have m: "?m = run v (low_bits 5 b @ bytes_bits bs)"
    using assms(3) by (simp add: prefix_run_def bytes low8)
  consider (short) "run v (low_bits 5 b) < 5" | (long) "run v (low_bits 5 b) = 5"
    using run_le [of v "low_bits 5 b"] by fastforce
  then have "(?m = 8 * length bytes - 3 \<longrightarrow> (\<exists>p'. read_prefix v bytes p = Some (0, p'))) \<and>
    (?m < 8 * length bytes - 3 \<longrightarrow> (\<exists>p'. read_prefix v bytes p = Some (prefix_count ?m, p') \<and>
           readable bytes p' \<and> bit_index p' = ?m + 4))"
  proof cases
    case short
    then have ms: "?m = Suc (run v (low_bits 4 b))" "run v (low_bits 4 b) < 4"
      using m low5 by (simp_all add: run_append)
    then have "countBits v b 1 3 = Some (?m, 4 - ?m)"
      using countBits_run [of v 3 b 1] by simp
    then have "read_prefix v bytes p = Some (?m, p\<lparr>free := 4 - ?m\<rparr>)"
      using short assms(2) by (simp add: read_prefix_unfold bytes)
    then show ?thesis
      using ms assms(2) by (auto simp: bytes prefix_count_def readable_def bit_index_def)
  next
    case long
    then have ml: "?m = 5 + ?r" using m by (simp add: run_append)
    have skip: "skipBytes (run_byte v) bytes 5 1 = ((5 + 8 * (?r div 8)) mod 256, 1 + ?r div 8)"
      using skipBytes_run [of 1 bytes 5 v] by (simp add: bytes)
    have rl: "?r \<le> 8 * length bs" using run_le [of v "bytes_bits bs"] by simp
    show ?thesis
    proof (cases "?r = 8 * length bs")
      case True
      then have "read_prefix v bytes p = Some (0, p\<lparr>pos := length bytes\<rparr>)"
        using long skip assms(2) by (simp add: read_prefix_unfold bytes)
      then show ?thesis using True ml by (simp add: bytes)
    next
      case False
      let ?i = "1 + ?r div 8"
      have i: "?i < length bytes" using False rl by (simp add: bytes; linarith)
      have "8 * (?r div 8) \<le> ?r" by simp
      then have rm: "run v (bytes_bits (drop (?r div 8) bs)) = ?r mod 8"
        by (simp only: run_drop flip: drop_bytes_bits) (simp add: minus_mult_div_eq_mod)
      have "bytes_bits (drop (?r div 8) bs) = low_bits 8 (bytes ! ?i) @ bytes_bits (drop (Suc (?r div 8)) bs)"
        using i by (simp add: bytes bytes_bits_Cons_drop)
      then have r8: "run v (low_bits 8 (bytes ! ?i)) = ?r mod 8"
        using rm run_append [of v "low_bits 8 (bytes ! ?i)"] mod_less_divisor [of 8 ?r]
        by (simp split: if_splits)
      have cb: "countBits v (bytes ! ?i) ((5 + 8 * (?r div 8)) mod 256) 7 = Some (?m mod 256, 7 - ?r mod 8)"
        using countBits_run [of v 7 "bytes ! ?i"] r8 ml by (simp add: mod_simps add.assoc)
      have "read_prefix v bytes p = Some (prefix_count ?m, \<lparr>pos = ?i, free = 7 - ?r mod 8\<rparr>)"
        using long skip assms(2) i cb ml by (simp add: read_prefix_unfold prefix_count_def bytes)
      moreover have "8 * (?i + 1) - (7 - ?r mod 8) = ?m + 4"
        using ml mult_div_mod_eq [of 8 ?r] mod_less_divisor [of 8 ?r] by arith
      ultimately show ?thesis
        using i ml by (auto simp: readable_def bit_index_def bytes)
    qed
  qed
  then show "?m = 8 * length bytes - 3 \<Longrightarrow> \<exists>p'. read_prefix v bytes p = Some (0, p')"
    and "?m < 8 * length bytes - 3 \<Longrightarrow> \<exists>p'. read_prefix v bytes p = Some (prefix_count ?m, p') \<and>
           readable bytes p' \<and> bit_index p' = ?m + 4"
    by blast+
qed

section \<open>Reading the bits of the exponent\<close>

lemma low_bits_ucast_up: "low_bits 32 (ucast (b :: uByte) :: uInt) = replicate 24 False @ low_bits 8 b"
  by (rule nth_equalityI) (auto simp: nth_append bit_simps dest: bit_imp_le_length)

lemma low_bits_shift_in:
  "low_bits 32 (push_bit 8 e OR ucast (b :: uByte) :: uInt) = drop 8 (low_bits 32 e) @ low_bits 8 b"
  by (rule nth_equalityI) (auto simp: nth_append bit_simps dest: bit_imp_le_length)

text \<open>An accumulator that holds the bits \<open>xs\<close>, and the state of a reader after \<open>j\<close> more bits.\<close>

definition accumulated :: "uByte list \<Rightarrow> nat \<Rightarrow> nat \<Rightarrow> (uInt \<times> bitPos) option \<Rightarrow> bool" where
  "accumulated bytes k j r \<longleftrightarrow> (\<exists>e p. r = Some (e, p) \<and>
     low_bits 32 e = replicate (32 - j) False @ take j (drop k (bytes_bits bytes)) \<and>
     readable bytes p \<and> free p < 8 \<and> bit_index p = k + j)"

lemma accumulated_first:
  assumes "readable bytes p" "0 < n" "n \<le> 8" "bit_index p + n \<le> 8 * length bytes"
  shows "accumulated bytes (bit_index p) n (do { (byte, p) \<leftarrow> unpack bytes p n; Some (ucast byte, p) })"
proof -
  obtain v p' where v: "unpack bytes p n = Some (v, p')"
      "low_bits 8 v = replicate (8 - n) False @ take n (drop (bit_index p) (bytes_bits bytes))"
      "readable bytes p'" "free p' < 8" "bit_index p' = bit_index p + n"
    using unpack_read [OF assms] by blast
  have "replicate 24 False @ replicate (8 - n) False = replicate (32 - n) False"
    using assms(3) by (simp flip: replicate_add)
  with v show ?thesis by (simp add: accumulated_def low_bits_ucast_up flip: append_assoc)
qed

lemma accumulated_next:
  assumes r: "accumulated bytes k j r" and j: "j \<le> 24" "k + j + 8 \<le> 8 * length bytes"
  shows "accumulated bytes k (j + 8) (do { ep \<leftarrow> r; unpackInto bytes ep })"
proof -
  obtain e p where e: "r = Some (e, p)"
      "low_bits 32 e = replicate (32 - j) False @ take j (drop k (bytes_bits bytes))"
      "readable bytes p" "bit_index p = k + j"
    using r by (auto simp: accumulated_def)
  obtain v p' where v: "unpack bytes p 8 = Some (v, p')"
      "low_bits 8 v = take 8 (drop (k + j) (bytes_bits bytes))"
      "readable bytes p'" "free p' < 8" "bit_index p' = k + j + 8"
    using unpack_read [OF e(3), of 8] e(4) j by auto
  have "drop 8 (low_bits 32 e) = replicate (24 - j) False @ take j (drop k (bytes_bits bytes))"
    using e(2) j by simp
  moreover have "take j (drop k (bytes_bits bytes)) @ take 8 (drop (k + j) (bytes_bits bytes)) =
      take (j + 8) (drop k (bytes_bits bytes))"
    by (simp add: take_add add.commute)
  ultimately show ?thesis
    using v e(1) by (simp add: accumulated_def unpackInto_def low_bits_shift_in)
qed

lemma unpackExponentBits_read:
  assumes "readable bytes p" "0 < n" "n \<le> 32" "bit_index p + n \<le> 8 * length bytes"
  shows "accumulated bytes (bit_index p) n (unpackExponentBits bytes p n)"
proof -
  let ?a = "accumulated bytes (bit_index p)"
  let ?f = "\<lambda>n. do { (byte, p) \<leftarrow> unpack bytes p n; Some (ucast byte, p) }"
  have first: "?a j (?f j)" if "0 < j" "j \<le> 8" "j \<le> n" for j
    using accumulated_first [OF assms(1) that(1,2)] that(3) assms(4) by simp
  have step: "?a (j + 8) (do { ep \<leftarrow> r; unpackInto bytes ep })" if "?a j r" "j + 8 \<le> n" for j r
    using accumulated_next [OF that(1)] that(2) assms(3,4) by simp
  consider "n \<le> 8" | "8 < n" "n \<le> 16" | "16 < n" "n \<le> 24" | "24 < n" by linarith
  then show ?thesis
  proof cases
    case 1
    then show ?thesis using first [of n] assms(2) by (simp add: unpackExponentBits_def)
  next
    case 2
    then show ?thesis
      using step [OF first [of "n - 8"]] by (simp add: unpackExponentBits_def case_prod_beta' bind_assoc)
  next
    case 3
    then show ?thesis
      using step [OF step [OF first [of "n - 16"]]] by (simp add: unpackExponentBits_def case_prod_beta' bind_assoc)
  next
    case 4
    then show ?thesis
      using step [OF step [OF step [OF first [of "n - 24"]]]] assms(3)
      by (simp add: unpackExponentBits_def case_prod_beta' bind_assoc)
  qed
qed

section \<open>Unpacking an exponent\<close>

lemma restore_exponent:
  fixes e :: uInt
  assumes e: "low_bits 32 e = replicate (32 - n) False @ xs" "length xs = n" and n: "0 < n" "n \<le> 30"
  shows "unat (((if T then e else NOT e AND MASK ! n) OR push_bit n 1) - 2) =
           2 ^ n + bits_val (if T then xs else map Not xs) - 2"
proof -
  let ?ys = "if T then xs else map Not xs"
  let ?w = "(if T then e else NOT e AND MASK ! n) OR push_bit n 1"
  have be: "bit e i \<longleftrightarrow> i < n \<and> xs ! (n - 1 - i)" if "i < 32" for i
  proof -
    have "bit e i = low_bits 32 e ! (31 - i)" using that by simp
    also have "\<dots> \<longleftrightarrow> i < n \<and> xs ! (n - 1 - i)"
      using that n unfolding e(1) by (auto simp: nth_append)
    finally show ?thesis .
  qed
  have "low_bits 32 ?w = replicate (31 - n) False @ True # ?ys"
  proof (rule nth_equalityI)
    fix j assume "j < length (low_bits 32 ?w)"
    then have j: "j < 32" by simp
    have "bit ?w i \<longleftrightarrow> i = n \<or> i < n \<and> ?ys ! (n - 1 - i)" if "i < 32" for i
      using be [OF that] that n e(2) by (auto simp: bit_simps MASK_nth)
    then have w: "low_bits 32 ?w ! j \<longleftrightarrow> 31 - j = n \<or> 31 - j < n \<and> ?ys ! (n - 1 - (31 - j))"
      using j by simp
    have i1: "j - (31 - n) = 0 \<longleftrightarrow> 31 - j = n" if "31 - n \<le> j" using that j n by linarith
    have i2: "n - 1 - (31 - j) = j - (31 - n) - 1" if "31 - j < n" using that j n by linarith
    consider "j < 31 - n" | "31 - j = n" | "31 - j < n" by linarith
    then show "low_bits 32 ?w ! j = (replicate (31 - n) False @ True # ?ys) ! j"
      by cases (use w j n i1 i2 in \<open>auto simp: nth_append nth_Cons'\<close>)
  qed (use e n in auto)
  moreover have "length ?ys = n" using e(2) by simp
  moreover have "unat ?w = bits_val (low_bits 32 ?w)" using bits_val_word [of ?w] by simp
  ultimately have "unat ?w = 2 ^ n + bits_val ?ys"
    by (simp only: bits_val_append bits_val_zeros bits_val_Cons) simp
  moreover have "(2 :: nat) \<le> 2 ^ n" using power_increasing [of 1 n "2 :: nat"] n by simp
  ultimately show ?thesis by (subst unat_sub) (auto simp: word_le_nat_alt)
qed

text \<open>
  The value of an exponent field: the run of \<open>m\<close> prefix bits, then (after the bit that ends the
  run) the low bits of the offset exponent, complemented when the sign bit \<open>T\<close> is zero.
\<close>

definition exponent_field :: "uByte list \<Rightarrow> nat" where
  "exponent_field bytes =
     (let m = prefix_run bytes; n = prefix_count m; xs = take n (drop (m + 4) (bytes_bits bytes))
      in 2 ^ n + bits_val (if bit (bytes ! 0) 4 then xs else map Not xs) - 2)"

definition exponent_ok :: "uByte list \<Rightarrow> bool" where
  "exponent_ok bytes \<longleftrightarrow>
     (let m = prefix_run bytes; n = prefix_count m
      in m < 8 * length bytes - 3 \<and> 0 < n \<and> m + 4 + n \<le> 8 * length bytes \<and> exponent_field bytes \<le> 999999999)"

lemma prefix_count_le: "prefix_count m \<le> 30"
  by (auto simp: prefix_count_def DECINF_EXPSIZE_def)

lemma decInfiniteUnpackExponent_spec:
  assumes b: "bytes \<noteq> []" "pos p = 0"
  shows "exponent_ok bytes \<Longrightarrow>
      \<exists>p'. decInfiniteUnpackExponent bytes p =
          Some (Ret (if bit (bytes ! 0) 4 = bit (bytes ! 0) 7 then int (exponent_field bytes)
                     else - int (exponent_field bytes), p')) \<and>
        readable bytes p' \<and> free p' < 8 \<and>
        bit_index p' = prefix_run bytes + 4 + prefix_count (prefix_run bytes)"
    and "\<not> exponent_ok bytes \<Longrightarrow> decInfiniteUnpackExponent bytes p = Some Null"
proof -
  let ?b = "bytes ! 0" and ?m = "prefix_run bytes" and ?n = "prefix_count (prefix_run bytes)"
  let ?T = "bit ?b 4"
  have es: "push_bit 3 (?b AND 0x10) XOR (?b AND 0x80) \<noteq> 0 \<longleftrightarrow> ?T \<noteq> bit ?b 7"
    by (simp add: and_byte_tests)
  have tst: "?b AND 0x10 = 0 \<longleftrightarrow> \<not> ?T" by (simp add: and_byte_tests)
  have sw: "(if \<not> P then x else y) = (if P then y else x)" for P and x y :: uInt by simp
  have pk: "peek bytes (pos p) = Some ?b" using b by simp
  have unf: "decInfiniteUnpackExponent bytes p = do {
     (n, p) \<leftarrow> read_prefix ?T bytes p;
     if n = 0 then Some Null
     else if 8 * (int (length bytes) - int (pos p)) - (8 - int (free p)) < int n then Some Null
     else do {
       (e, p) \<leftarrow> unpackExponentBits bytes p n;
       let e = ((if ?T then e else NOT e AND MASK ! n) OR push_bit n 1) - 2;
       if e > 999999999 then Some Null
       else Some (Ret (if ?T \<noteq> bit ?b 7 then - int (unat e) else int (unat e), p))
     }
   }"
    unfolding decInfiniteUnpackExponent_def pk Let_def bind.bind_lunit es tst read_prefix_def not_not sw
    by (rule refl)
  have full: "decInfiniteUnpackExponent bytes p = Some Null" if "?m = 8 * length bytes - 3"
    using read_prefix_run(1) [OF b refl that] by (auto simp: unf)
  have ml: "?m \<le> 8 * length bytes - 3"
    using run_le [of ?T "drop 3 (bytes_bits bytes)"] by (simp add: prefix_run_def)
  have nz: "?m < 8 * length bytes - 3 \<Longrightarrow> \<exists>p'. read_prefix ?T bytes p = Some (?n, p') \<and>
      readable bytes p' \<and> bit_index p' = ?m + 4"
    using read_prefix_run(2) [OF b refl] by blast
  have main: "if exponent_ok bytes then \<exists>p'. decInfiniteUnpackExponent bytes p =
          Some (Ret (if ?T = bit ?b 7 then int (exponent_field bytes) else - int (exponent_field bytes), p')) \<and>
        readable bytes p' \<and> free p' < 8 \<and> bit_index p' = ?m + 4 + ?n
      else decInfiniteUnpackExponent bytes p = Some Null"
    if m: "?m < 8 * length bytes - 3" and n0: "0 < ?n" and room: "?m + 4 + ?n \<le> 8 * length bytes"
  proof -
    obtain p1 where p1: "read_prefix ?T bytes p = Some (?n, p1)" "readable bytes p1" "bit_index p1 = ?m + 4"
      using nz [OF m] by blast
    have "\<not> 8 * (int (length bytes) - int (pos p1)) - (8 - int (free p1)) < int ?n"
      using p1(2,3) room by (auto simp: readable_def bit_index_def)
    moreover obtain e p2 where e: "unpackExponentBits bytes p1 ?n = Some (e, p2)"
        "low_bits 32 e = replicate (32 - ?n) False @ take ?n (drop (?m + 4) (bytes_bits bytes))"
        "readable bytes p2" "free p2 < 8" "bit_index p2 = ?m + 4 + ?n"
      using unpackExponentBits_read [OF p1(2), of ?n] p1(3) n0 prefix_count_le [of ?m] room
      by (auto simp: accumulated_def)
    moreover have w: "unat (((if ?T then e else NOT e AND MASK ! ?n) OR push_bit ?n 1) - 2) = exponent_field bytes"
      using restore_exponent [OF e(2) _ n0 prefix_count_le, of ?T] room by (simp add: exponent_field_def Let_def)
    moreover have "uint (((if ?T then e else NOT e AND MASK ! ?n) OR push_bit ?n 1) - 2) = int (exponent_field bytes)"
      by (simp only: uint_nat w)
    ultimately show ?thesis
      using p1(1) n0 m room by (auto simp: unf exponent_ok_def Let_def word_less_nat_alt)
  qed
  have short: "decInfiniteUnpackExponent bytes p = Some Null"
    if m: "?m < 8 * length bytes - 3" and r: "?n = 0 \<or> 8 * length bytes < ?m + 4 + ?n"
  proof -
    obtain p1 where p1: "read_prefix ?T bytes p = Some (?n, p1)" "readable bytes p1" "bit_index p1 = ?m + 4"
      using nz [OF m] by blast
    have "8 * (int (length bytes) - int (pos p1)) - (8 - int (free p1)) < int ?n" if "?n \<noteq> 0"
      using p1(2,3) r that by (auto simp: readable_def bit_index_def)
    with p1(1) show ?thesis by (auto simp: unf)
  qed
  show "exponent_ok bytes \<Longrightarrow> \<exists>p'. decInfiniteUnpackExponent bytes p =
          Some (Ret (if ?T = bit ?b 7 then int (exponent_field bytes) else - int (exponent_field bytes), p')) \<and>
        readable bytes p' \<and> free p' < 8 \<and> bit_index p' = ?m + 4 + ?n"
    using main by (simp add: exponent_ok_def Let_def)
  show "\<not> exponent_ok bytes \<Longrightarrow> decInfiniteUnpackExponent bytes p = Some Null"
    using main full short ml by (metis gr0I le_neq_implies_less linorder_not_less)
qed

text \<open>
  Reading back what \<^verbatim>\<open>decInfinitePackExponent\<close> wrote: the exponent comes back, with the sign
  that the sign bits encode, and the position is the first bit of what follows.
\<close>

lemma exp_bits_split:
  "exp_bits T E = replicate (nat_log2 (E + 2)) T @ (\<not> T) #
     (if T then low_bits (nat_log2 (E + 2)) (E + 2) else map Not (low_bits (nat_log2 (E + 2)) (E + 2)))"
  by (simp add: exp_bits_def gamma_def Let_def)

lemma nat_log2_exponent: "E \<le> 999999999 \<Longrightarrow> 0 < nat_log2 (E + 2) \<and> nat_log2 (E + 2) \<le> 29"
proof -
  assume "E \<le> 999999999"
  then have "nat_log2 (E + 2) \<le> nat_log2 1000000001" by (intro nat_log2_mono) simp
  moreover have "nat_log2 1000000001 = 29" by (rule nat_log2_unique) simp_all
  ultimately show ?thesis by (simp add: nat_log2.simps [of "Suc (Suc E)"])
qed

lemma exp_bits_fields:
  assumes bits: "bytes_bits bytes = hd3 @ exp_bits T E @ rest" "length hd3 = 3" and E: "E \<le> 999999999"
  shows "exponent_ok bytes" "exponent_field bytes = E" "bit (bytes ! 0) 4 = T" "bit (bytes ! 0) 7 = hd hd3"
    "prefix_run bytes + 4 + prefix_count (prefix_run bytes) = 3 + length (exp_bits T E)"
proof -
  define v n where "v = E + 2" and "n = nat_log2 v"
  have n: "0 < n" "n \<le> 29" using nat_log2_exponent [OF E] by (auto simp: n_def v_def)
  have split: "exp_bits T E = replicate n T @ (\<not> T) # (if T then low_bits n v else map Not (low_bits n v))"
    unfolding n_def v_def by (rule exp_bits_split)
  then have lx: "length (exp_bits T E) = 2 * n + 1" by simp
  have len: "8 * length bytes = 4 + 2 * n + length rest"
    using arg_cong [OF bits(1), of length] bits(2) lx by simp
  then have ne: "bytes \<noteq> []" by auto
  have "bytes_bits bytes ! 3 = T"
    using n by (simp add: bits nth_append split)
  then show T: "bit (bytes ! 0) 4 = T" using nth_bytes_bits_at [of 0 bytes 3] ne by simp
  have "bytes_bits bytes ! 0 = hd hd3" using bits by (cases hd3) (auto simp: nth_append)
  then show "bit (bytes ! 0) 7 = hd hd3" using nth_bytes_bits_at [of 0 bytes 0] ne by simp
  have m: "prefix_run bytes = n"
    by (simp add: prefix_run_def T bits split)
  have pc: "prefix_count n = n" using n by (simp add: prefix_count_def DECINF_EXPSIZE_def)
  have "take n (drop (n + 4) (bytes_bits bytes)) = (if T then low_bits n v else map Not (low_bits n v))"
    by (simp add: bits split)
  moreover have "2 ^ n + v mod 2 ^ n = v"
  proof -
    have "2 ^ n \<le> v" "v < 2 * 2 ^ n" using nat_log2_bounds [of v] by (simp_all add: n_def v_def)
    then show ?thesis by (simp add: le_mod_geq)
  qed
  ultimately show f: "exponent_field bytes = E"
    by (simp add: exponent_field_def Let_def m pc T bits_val_low_bits comp_def) (simp add: v_def)
  then show "exponent_ok bytes"
    using n len E by (simp add: exponent_ok_def Let_def m pc)
  show "prefix_run bytes + 4 + prefix_count (prefix_run bytes) = 3 + length (exp_bits T E)"
    unfolding m pc lx by simp
qed

lemma decInfiniteUnpackExponent_exp_bits:
  assumes bits: "bytes_bits bytes = hd3 @ exp_bits T E @ rest" "length hd3 = 3"
    and E: "E \<le> 999999999" and p: "pos p = 0"
  shows "\<exists>p'. decInfiniteUnpackExponent bytes p =
           Some (Ret (if T = hd hd3 then int E else - int E, p')) \<and>
         readable bytes p' \<and> free p' < 8 \<and> bit_index p' = 3 + length (exp_bits T E)"
proof -
  note f = exp_bits_fields [OF bits E]
  have "bytes \<noteq> []" using arg_cong [OF bits(1), of length] bits(2) by auto
  from decInfiniteUnpackExponent_spec(1) [OF this p f(1)] show ?thesis
    unfolding f(2-5) .
qed

end
