(* ===== verification/Mantissa.thy ===== *)
theory Mantissa
  imports DecNumber ExponentRead
begin

text \<open>
  The significand of the decimalInfinite format (\<^verbatim>\<open>decInfinite.c\<close>): aligning the digits to
  the most significant unit, the ten's complement of the mantissa of a negative number, and the
  stream of ten-bit declets.
\<close>

section \<open>Operations\<close>

text \<open>
  One pass over the units below \<open>r\<close>, from the most significant one down: the quotient of a unit
  moves up into the unit above it and the remainder is scaled.  The source has the loop twice,
  for a shift by one digit (\<open>n = 2\<close>, \<^verbatim>\<open>X100\<close>, \<^verbatim>\<open>X10\<close>) and by two (\<open>n = 1\<close>, \<^verbatim>\<open>X10\<close>, \<^verbatim>\<open>X100\<close>).
\<close>

fun shiftUnits :: "nat \<Rightarrow> (Unit \<Rightarrow> Unit) \<Rightarrow> (Unit \<Rightarrow> Unit) \<Rightarrow> Unit list \<Rightarrow> nat \<Rightarrow> Unit list" where
  "shiftUnits n mulq mulr us 0 = us"
| "shiftUnits n mulq mulr us (Suc lp) =
     (let quot = ucast (QUOT10 (us ! lp) n);
          rem = us ! lp - mulq quot
      in shiftUnits n mulq mulr (us[Suc lp := us ! Suc lp + quot, lp := mulr rem]) lp)"

definition decShiftToMost :: "decNumber \<Rightarrow> decNumber option" where
  "decShiftToMost dn =
     (if D2U (digits dn) = 0 then None
      else do {
        let rp = D2U (digits dn) - 1;
        u \<leftarrow> peek (lsu dn) rp;
        if u > 99 then Some dn
        else if u > 9 then
          Some (dn\<lparr>digits := digits dn + 1, lsu := shiftUnits 2 X100 X10 ((lsu dn)[rp := X10 u]) rp\<rparr>)
        else
          Some (dn\<lparr>digits := digits dn + 2, lsu := shiftUnits 1 X10 X100 ((lsu dn)[rp := X100 u]) rp\<rparr>)
      })"

fun incUnits :: "Unit list \<Rightarrow> Unit list option" where
  "incUnits [] = None"
| "incUnits (u # us) = (if unat u + 1 > 999 then do { us \<leftarrow> incUnits us; Some (0 # us) } else Some ((u + 1) # us))"

definition decInfiniteComplementMantissa :: "decNumber \<Rightarrow> decNumber option" where
  "decInfiniteComplementMantissa dn =
     (let n = D2U (digits dn) in
      if length (lsu dn) < n then None
      else do {
        us \<leftarrow> incUnits (map (\<lambda>u. 999 - u) (take n (lsu dn)) @ drop n (lsu dn));
        Some (dn\<lparr>lsu := us\<rparr>)
      })"

definition packDeclet :: "sink \<Rightarrow> Unit \<Rightarrow> sink option" where
  "packDeclet s u = do {
     let (buf, p) = s;
     (buf, p) \<leftarrow>
       (if free p = 0 then do {
          buf \<leftarrow> poke buf (pos p + 1) 0;
          Some (buf, \<lparr>pos = pos p + 1, free = 8\<rparr>)
        } else Some (buf, p));
     if free p < 2 then None
     else do {
       let p = p\<lparr>free := free p - 2\<rparr>;
       let out = push_bit (free p) (u AND 0x03FF);
       b \<leftarrow> peek buf (pos p);
       buf \<leftarrow> poke buf (pos p) (b OR DECLET_HI out);
       let p = p\<lparr>pos := pos p + 1\<rparr>;
       buf \<leftarrow> poke buf (pos p) (DECLET_LO out);
       Some (buf, p)
     }
   }"

fun packDeclets :: "sink \<Rightarrow> Unit list \<Rightarrow> sink option" where
  "packDeclets s [] = Some s"
| "packDeclets s (u # us) = do { s \<leftarrow> packDeclet s u; packDeclets s us }"

definition decInfinitePackMantissa :: "decNumber \<Rightarrow> sink \<Rightarrow> sink option" where
  "decInfinitePackMantissa dn s =
     (let rp = D2U (digits dn) in
      if length (lsu dn) < rp then None
      else packDeclets s (rev (dropWhile (\<lambda>u. u = 0) (take rp (lsu dn)))))"

definition readDeclet :: "uByte list \<Rightarrow> bitPos \<Rightarrow> (Unit \<times> bitPos) option" where
  "readDeclet bytes p = do {
     let p = (if free p = 0 then \<lparr>pos = pos p + 1, free = 8\<rparr> else p);
     hi \<leftarrow> peek bytes (pos p);
     lo \<leftarrow> peek bytes (pos p + 1);
     if free p < 2 then None
     else do {
       let declet = push_bit 8 (ucast (hi AND ucast (MASK ! free p))) OR ucast lo;
       Some (drop_bit (free p - 2) declet, \<lparr>pos = pos p + 1, free = free p - 2\<rparr>)
     }
   }"

text \<open>
  The loop over the declets fills the units from \<open>k - 1\<close> down to \<open>0\<close>; the flag is false when it
  meets a declet greater than 999 and gives up.
\<close>

fun unpackDeclets :: "uByte list \<Rightarrow> bitPos \<Rightarrow> Unit list \<Rightarrow> nat \<Rightarrow> (bool \<times> Unit list) option" where
  "unpackDeclets bytes p us 0 = Some (True, us)"
| "unpackDeclets bytes p us (Suc k) = do {
     (out, p) \<leftarrow> readDeclet bytes p;
     if out > 999 then Some (False, us)
     else do { us \<leftarrow> poke us k out; unpackDeclets bytes p us k }
   }"

text \<open>Conversion of a \<^verbatim>\<open>size_t\<close> to a 32-bit signed integer.\<close>

definition int32 :: "nat \<Rightarrow> int" where
  "int32 k = sint (of_nat k :: 32 word)"

definition decInfiniteUnpackMantissa :: "decNumber \<Rightarrow> uByte list \<Rightarrow> bitPos \<Rightarrow> (nat \<times> decNumber) option" where
  "decInfiniteUnpackMantissa dn bytes p =
     (let n = (8 * (length bytes - pos p) - (8 - free p)) div 10 in
      if n = 1 then do {
        let dn = dn\<lparr>digits := 3\<rparr>;
        (out, p) \<leftarrow> readDeclet bytes p;
        if out = 0 \<or> out > 999 then Some (0, dn)
        else do {
          let out = (if decNumberIsNegative dn then 1000 - out else out);
          us \<leftarrow> poke (lsu dn) 0 out;
          Some (n, dn\<lparr>lsu := us\<rparr>)
        }
      }
      else do {
        let dn = dn\<lparr>digits := int32 (3 * n)\<rparr>;
        if digits dn > int DECNUMDIGITS then Some (0, dn)
        else do {
          (ok, us) \<leftarrow> unpackDeclets bytes p (lsu dn) n;
          let dn = dn\<lparr>lsu := us\<rparr>;
          if \<not> ok then Some (0, dn)
          else do {
            u \<leftarrow> peek us 0;
            if u = 0 then Some (0, dn)
            else if n = 0 then None
            else do {
              msu \<leftarrow> peek us (n - 1);
              if decNumberIsNegative dn then
                (if msu > 899 then Some (0, dn)
                 else do { dn \<leftarrow> decInfiniteComplementMantissa dn; Some (n, dn) })
              else if msu = 0 then Some (0, dn)
              else Some (n, dn)
            }
          }
        }
      })"

section \<open>Aligning the digits\<close>

text \<open>What one step of the shift does to a unit: with \<open>f * g = 1000\<close>, the quotient by \<open>g\<close> goes up
  and the remainder is multiplied by \<open>f\<close>.\<close>

definition shift_step :: "nat \<Rightarrow> (Unit \<Rightarrow> Unit) \<Rightarrow> (Unit \<Rightarrow> Unit) \<Rightarrow> nat \<Rightarrow> nat \<Rightarrow> bool" where
  "shift_step n mulq mulr f g \<longleftrightarrow> f * g = 1000 \<and>
     (\<forall>u. unat u < 1000 \<longrightarrow> unat (ucast (QUOT10 u n) :: Unit) = unat u div g \<and>
       unat (mulr (u - mulq (ucast (QUOT10 u n)))) = f * (unat u mod g))"

lemma unat_sub_mod: "unat w = g * (unat u div g) \<Longrightarrow> unat (u - w :: Unit) = unat u mod g"
  by (subst unat_sub) (auto simp: word_le_nat_alt minus_mult_div_eq_mod)

lemma unat_quot: "unat (q :: uInt) < 1000 \<Longrightarrow> unat (ucast q :: Unit) = unat q"
  by (simp add: unsigned_ucast_eq take_bit_eq_mod)

lemma shift_step_1: "shift_step 2 X100 X10 10 100"
proof -
  have "unat (ucast (QUOT10 u 2) :: Unit) = unat u div 100 \<and>
      unat (X10 (u - X100 (ucast (QUOT10 u 2)))) = 10 * (unat u mod 100)" if u: "unat u < 1000" for u
  proof -
    have q: "unat (ucast (QUOT10 u 2) :: Unit) = unat u div 100"
      using u by (subst unat_quot) (auto simp: QUOT10_2)
    then have "unat (X100 (ucast (QUOT10 u 2))) = 100 * (unat u div 100)"
      using u by (subst unat_X100) auto
    then have "unat (u - X100 (ucast (QUOT10 u 2))) = unat u mod 100" by (rule unat_sub_mod)
    then show ?thesis using q unat_X10 [of "u - X100 (ucast (QUOT10 u 2))"] by simp
  qed
  then show ?thesis by (auto simp: shift_step_def)
qed

lemma shift_step_2: "shift_step 1 X10 X100 100 10"
proof -
  have "unat (ucast (QUOT10 u 1) :: Unit) = unat u div 10 \<and>
      unat (X100 (u - X10 (ucast (QUOT10 u 1)))) = 100 * (unat u mod 10)" if u: "unat u < 1000" for u
  proof -
    have q: "unat (ucast (QUOT10 u 1) :: Unit) = unat u div 10"
      using u QUOT10_1 [OF u] by (subst unat_quot) (auto simp del: One_nat_def)
    then have "unat (X10 (ucast (QUOT10 u 1))) = 10 * (unat u div 10)"
      using u by (subst unat_X10) auto
    then have "unat (u - X10 (ucast (QUOT10 u 1))) = unat u mod 10" by (rule unat_sub_mod)
    then show ?thesis using q unat_X100 [of "u - X10 (ucast (QUOT10 u 1))"] by simp
  qed
  then show ?thesis by (auto simp: shift_step_def)
qed

lemma shift_room: "f * g = (1000 :: nat) \<Longrightarrow> f dvd a \<Longrightarrow> a < 1000 \<Longrightarrow> u < 1000 \<Longrightarrow> a + u div g < 1000"
proof -
  assume fg: "f * g = 1000" and a: "f dvd a" "a < 1000" and u: "u < 1000"
  obtain k where k: "a = f * k" using a by blast
  have "u div g < f" using u fg by (intro less_mult_imp_div_less) (simp add: mult.commute)
  moreover have "f * Suc k \<le> f * g"
  proof -
    have "f * k < f * g" using a k fg by simp
    then have "Suc k \<le> g" by simp
    then show ?thesis by (rule mult_le_mono2)
  qed
  ultimately show ?thesis using fg k by simp
qed

lemma shift_carry:
  fixes f u m d a P V :: nat
  assumes "f * u = f * m + 1000 * d"
  shows "f * V + P * (f * m) + 1000 * P * (a + d) = f * (V + P * u) + 1000 * P * a"
proof -
  have "f * (V + P * u) = f * V + P * (f * u)" by (simp add: algebra_simps)
  also have "\<dots> = f * V + P * (f * m + 1000 * d)" by (simp only: assms)
  finally show ?thesis by (simp add: algebra_simps)
qed

lemma shiftUnits_val:
  assumes s: "shift_step n mulq mulr f g"
  shows "r < length us \<Longrightarrow> units_ok (take r us) \<Longrightarrow> unat (us ! r) < 1000 \<Longrightarrow> f dvd unat (us ! r) \<Longrightarrow>
    us' = shiftUnits n mulq mulr us r \<Longrightarrow>
    length us' = length us \<and> drop (Suc r) us' = drop (Suc r) us \<and> units_ok (take (Suc r) us') \<and>
    units_val (take (Suc r) us') = f * units_val (take r us) + 1000 ^ r * unat (us ! r)"
proof (induction r arbitrary: us us')
  case 0
  then show ?case by (cases us) auto
next
  case (Suc r)
  have fg: "f * g = 1000" using s by (simp add: shift_step_def)
  define u where "u = us ! r"
  define q where "q = (ucast (QUOT10 u n) :: Unit)"
  define m where "m = mulr (u - mulq q)"
  have u: "unat u < 1000" using units_ok_nth [OF Suc.prems(2), of r] Suc.prems(1) by (simp add: u_def)
  have q: "unat q = unat u div g" and m: "unat m = f * (unat u mod g)"
    using s u by (auto simp: shift_step_def q_def m_def)
  have room: "unat (us ! Suc r) + unat q < 1000"
    unfolding q by (rule shift_room [OF fg Suc.prems(4,3) u])
  then have sum: "unat (us ! Suc r + q) = unat (us ! Suc r) + unat q"
    by (subst unat_word_ariths) simp
  define us1 where "us1 = us[Suc r := us ! Suc r + q, r := m]"
  have g0: "0 < g" "0 < f" using fg by (auto intro: Nat.gr0I)
  have m1000: "unat m < 1000" using m fg g0 mult_less_cancel1 [of f "unat u mod g" g] by simp
  have ok1: "units_ok (take r us1)"
    using Suc.prems(1,2) by (simp add: us1_def take_Suc_conv_app_nth)
  have us': "us' = shiftUnits n mulq mulr us1 r"
    using Suc.prems(5) by (simp add: us1_def u_def q_def m_def Let_def)
  have ih: "length us' = length us1 \<and> drop (Suc r) us' = drop (Suc r) us1 \<and> units_ok (take (Suc r) us') \<and>
      units_val (take (Suc r) us') = f * units_val (take r us1) + 1000 ^ r * unat (us1 ! r)"
    by (rule Suc.IH) (use Suc.prems ok1 m m1000 us' in \<open>auto simp: us1_def\<close>)
  have nth: "us' ! Suc r = us ! Suc r + q"
  proof -
    have l: "Suc r < length us'" "Suc r < length us1" using ih Suc.prems(1) by (simp_all add: us1_def)
    have "us' ! Suc r = hd (drop (Suc r) us')" using l(1) by (rule hd_drop_conv_nth [symmetric])
    also have "\<dots> = hd (drop (Suc r) us1)" using ih by simp
    also have "\<dots> = us1 ! Suc r" using l(2) by (rule hd_drop_conv_nth)
    finally show ?thesis using Suc.prems(1) by (simp add: us1_def)
  qed
  have len: "Suc r < length us'" "length us' = length us" using ih Suc.prems(1) by (simp_all add: us1_def)
  have "units_ok (take (Suc (Suc r)) us')"
    using ih len room nth sum by (simp add: take_Suc_conv_app_nth [of "Suc r"])
  moreover have "drop (Suc (Suc r)) us' = drop (Suc (Suc r)) us"
  proof -
    have "drop (Suc (Suc r)) us' = drop 1 (drop (Suc r) us')" by simp
    also have "\<dots> = drop 1 (drop (Suc r) us1)" using ih by simp
    finally show ?thesis by (simp add: us1_def)
  qed
  moreover have "units_val (take (Suc (Suc r)) us') =
      f * units_val (take (Suc r) us) + 1000 ^ Suc r * unat (us ! Suc r)"
  proof -
    have "units_val (take (Suc (Suc r)) us') =
        f * units_val (take r us) + 1000 ^ r * (f * (unat u mod g)) + 1000 ^ Suc r * (unat (us ! Suc r) + unat u div g)"
      using ih nth sum q m Suc.prems(1) units_val_take_Suc [OF len(1)] by (simp add: us1_def)
    moreover have "f * unat u = f * (unat u mod g) + 1000 * (unat u div g)"
    proof -
      have "f * unat u = f * (g * (unat u div g) + unat u mod g)" by simp
      also have "\<dots> = f * (unat u mod g) + (f * g) * (unat u div g)" by (simp only: algebra_simps)
      finally show ?thesis by (simp add: fg)
    qed
    moreover have "units_val (take (Suc r) us) = units_val (take r us) + 1000 ^ r * unat u"
      using Suc.prems(1) by (simp add: units_val_take_Suc u_def)
    ultimately show ?thesis using shift_carry [of f "unat u" "unat u mod g" "unat u div g"] by simp
  qed
  ultimately show ?case using len by simp
qed

lemma decShiftToMost_spec:
  assumes ok: "dn_ok dn" and nz: "coeff dn \<noteq> 0"
  defines "D \<equiv> D2U (digits dn)"
  shows "\<exists>us. decShiftToMost dn = Some (dn\<lparr>digits := 3 * int D, lsu := us\<rparr>) \<and>
           length us = length (lsu dn) \<and> units_ok (take D us) \<and>
           units_val (take D us) = coeff dn * 10 ^ (3 * D - nat (digits dn))"
proof -
  obtain r m where D: "D = Suc r" and m: "1 \<le> m" "m \<le> 3" and d: "digits dn = int (3 * r + m)"
    using digits_split [of "digits dn"] ok by (auto simp: dn_ok_def D_def)
  let ?us = "lsu dn" and ?low = "units_val (take r (lsu dn))"
  define u where "u = lsu dn ! r"
  have rl: "r < length ?us" using ok D by (auto simp: dn_ok_def D_def)
  have c: "coeff dn = ?low + 1000 ^ r * unat u"
    using D rl by (simp add: coeff_def units_val_take_Suc u_def flip: D_def)
  have uok: "units_ok (take r ?us)" "unat u < 1000"
    using ok D rl by (auto simp: dn_ok_def u_def take_Suc_conv_app_nth simp flip: D_def)
  have low: "?low < 1000 ^ r" using units_val_less [OF uok(1)] rl by simp
  have nd: "nat (digits dn) = 3 * r + m" using d by (simp only: nat_int)
  have "coeff dn < 10 ^ (3 * r + m)" "10 ^ (3 * r + m - 1) \<le> coeff dn"
    using ok dn_ok_leading [OF ok nz] by (simp_all only: dn_ok_def nd)
  then have b: "10 ^ (m - 1) \<le> unat u" "unat u < 10 ^ m"
    using msu_bounds [OF low, of "unat u" m] m c by simp_all
  have Dn: "D2U (digits dn) = Suc r" using D by (simp add: D_def)
  have gt: "99 < u \<longleftrightarrow> 99 < unat u" "9 < u \<longleftrightarrow> 9 < unat u" by (simp_all add: word_less_nat_alt)
  have shift: "length us' = length ?us \<and> units_ok (take D us') \<and> units_val (take D us') = coeff dn * f"
    if s: "shift_step n mulq mulr f g" and w: "unat w = f * unat u" "f * unat u < 1000"
      and us': "us' = shiftUnits n mulq mulr (?us[r := w]) r" for n mulq mulr f g w us'
    using shiftUnits_val [OF s, of r "?us[r := w]" us'] us' w rl uok(1) D c by (simp add: algebra_simps)
  have unf: "decShiftToMost dn = Some (if 99 < u then dn
      else if 9 < u then dn\<lparr>digits := digits dn + 1, lsu := shiftUnits 2 X100 X10 (?us[r := X10 u]) r\<rparr>
      else dn\<lparr>digits := digits dn + 2, lsu := shiftUnits 1 X10 X100 (?us[r := X100 u]) r\<rparr>)"
    using rl by (simp add: decShiftToMost_def Dn flip: u_def)
  have dD: "digits dn + (3 - int m) = 3 * int D" using d D by simp
  consider "m = 1" | "m = 2" | "m = 3" using m by linarith
  then show ?thesis
  proof cases
    case 1
    then have "decShiftToMost dn = Some (dn\<lparr>digits := 3 * int D, lsu := shiftUnits 1 X10 X100 (?us[r := X100 u]) r\<rparr>)"
      using b gt dD by (simp add: unf)
    moreover have "3 * D - nat (digits dn) = 2" using 1 D d by simp
    moreover have "100 * unat u < 1000" "unat (X100 u) = 100 * unat u" using b 1 by (simp_all add: unat_X100)
    ultimately show ?thesis using shift [OF shift_step_2 _ _ refl, of "X100 u"] by auto
  next
    case 2
    then have "decShiftToMost dn = Some (dn\<lparr>digits := 3 * int D, lsu := shiftUnits 2 X100 X10 (?us[r := X10 u]) r\<rparr>)"
      using b gt dD by (simp add: unf)
    moreover have "3 * D - nat (digits dn) = 1" using 2 D d by simp
    moreover have "10 * unat u < 1000" "unat (X10 u) = 10 * unat u" using b 2 by (simp_all add: unat_X10)
    ultimately show ?thesis using shift [OF shift_step_1 _ _ refl, of "X10 u"] by auto
  next
    case 3
    then have "decShiftToMost dn = Some dn"
      using b gt by (simp add: unf)
    moreover have "dn = dn\<lparr>digits := 3 * int D, lsu := ?us\<rparr>" using 3 d D by simp
    moreover have "3 * D - nat (digits dn) = 0" using 3 D d by simp
    ultimately show ?thesis using ok by (metis coeff_def D_def dn_ok_def mult_1_right power_0)
  qed
qed

section \<open>The ten's complement\<close>

lemma incUnits_val:
  "units_ok us \<Longrightarrow> units_val us + 1 < 1000 ^ length us \<Longrightarrow>
   \<exists>us'. incUnits (us @ zs) = Some (us' @ zs) \<and> length us' = length us \<and> units_ok us' \<and> units_val us' = units_val us + 1"
proof (induction us)
  case (Cons u us)
  show ?case
  proof (cases "unat u + 1 > 999")
    case True
    then have u: "unat u = 999" using Cons.prems by simp
    then obtain us' where "incUnits (us @ zs) = Some (us' @ zs)" "length us' = length us" "units_ok us'"
        "units_val us' = units_val us + 1"
      using Cons by auto
    then show ?thesis using u by (intro exI [of _ "0 # us'"]) simp
  next
    case False
    then have "unat (u + 1) = unat u + 1" by (subst unat_word_ariths) simp
    then show ?thesis using False Cons.prems by (intro exI [of _ "(u + 1) # us"]) simp
  qed
qed simp

lemma units_val_nines:
  "units_ok us \<Longrightarrow> units_ok (map (\<lambda>u. 999 - u) us) \<and>
     units_val (map (\<lambda>u. 999 - u) us) + units_val us + 1 = 1000 ^ length us"
proof (induction us)
  case (Cons u us)
  have "unat (999 - u) = 999 - unat u" using Cons.prems by (subst unat_sub) (simp_all add: word_le_nat_alt)
  then show ?case using Cons by auto
qed simp

lemma decInfiniteComplementMantissa_spec:
  assumes D: "D2U (digits dn) = D" "D \<le> length (lsu dn)" and ok: "units_ok (take D (lsu dn))"
    and nz: "units_val (take D (lsu dn)) \<noteq> 0"
  shows "\<exists>us. decInfiniteComplementMantissa dn = Some (dn\<lparr>lsu := us\<rparr>) \<and> length us = length (lsu dn) \<and>
           units_ok (take D us) \<and> units_val (take D us) = 1000 ^ D - units_val (take D (lsu dn))"
proof -
  let ?us = "take D (lsu dn)" and ?zs = "drop D (lsu dn)"
  note nines = units_val_nines [OF ok]
  have len: "length ?us = D" using D by simp
  obtain us' where us': "incUnits (map (\<lambda>u. 999 - u) ?us @ ?zs) = Some (us' @ ?zs)" "length us' = D" "units_ok us'"
      "units_val us' = units_val (map (\<lambda>u. 999 - u) ?us) + 1"
    using incUnits_val [of "map (\<lambda>u. 999 - u) ?us" ?zs] nines nz len by auto
  have "units_val us' = 1000 ^ D - units_val ?us" using us'(4) nines unfolding len by linarith
  then show ?thesis
    using us' D by (intro exI [of _ "us' @ ?zs"]) (auto simp: decInfiniteComplementMantissa_def Let_def)
qed

section \<open>Writing declets\<close>

definition declets :: "Unit list \<Rightarrow> bool list" where
  "declets us = concat (map (low_bits 10) us)"

lemma declets_simps [simp]:
  "declets [] = []" "declets (u # us) = low_bits 10 u @ declets us"
  "length (declets us) = 10 * length us"
  by (simp_all add: declets_def) (induction us, auto)

lemma declet_entry:
  assumes k: "2 \<le> k" "k \<le> 8"
  shows "two_byte_entry k (push_bit (k - 2) (u AND 0x03FF)) (k - 2) (low_bits 10 u)"
proof -
  define f where "f = k - 2"
  have k: "k = f + 2" "f \<le> 6" using k by (simp_all add: f_def)
  define out where "out = push_bit f (u AND 0x03FF)"
  have m: "(0x03FF :: Unit) = mask 10" by (simp add: mask_numeral)
  have o: "bit out i \<longleftrightarrow> f \<le> i \<and> i < f + 10 \<and> bit u (i - f)" if "i < 16" for i
    using that unfolding out_def m by (auto simp: bit_simps)
  have "DECLET_HI out AND mask k = DECLET_HI out"
    by (rule bit_word_eqI) (use o k in \<open>auto simp: DECLET_HI_def bit_simps\<close>)
  moreover have "push_bit f (drop_bit f (DECLET_LO out)) = DECLET_LO out"
    by (rule bit_word_eqI) (use o in \<open>auto simp: DECLET_LO_def bit_simps\<close>)
  moreover have "low_bits k (DECLET_HI out) @ low_bits (8 - f) (drop_bit f (DECLET_LO out)) = low_bits 10 u"
  proof -
    have "low_bits k (DECLET_HI out) = low_bits k (drop_bit (8 - f) u)"
      by (rule low_bits_cong) (use o k in \<open>auto simp: DECLET_HI_def bit_simps algebra_simps\<close>)
    moreover have "low_bits (8 - f) (drop_bit f (DECLET_LO out)) = low_bits (8 - f) u"
      by (rule low_bits_cong) (use o k in \<open>auto simp: DECLET_LO_def bit_simps\<close>)
    moreover have "k + (8 - f) = 10" using k by simp
    ultimately show ?thesis using low_bits_append [of k "8 - f" u] by simp
  qed
  ultimately show ?thesis using k by (simp add: two_byte_entry_def out_def flip: f_def)
qed

lemma packDeclet_open:
  assumes w: "written buf p bs" and f: "2 \<le> free p" and p1: "pos p + 1 < length buf"
  shows "\<exists>buf'. packDeclet (buf, p) u = Some (buf', \<lparr>pos = pos p + 1, free = free p - 2\<rparr>) \<and>
           written buf' \<lparr>pos = pos p + 1, free = free p - 2\<rparr> (bs @ low_bits 10 u) \<and> length buf' = length buf"
proof -
  have f8: "free p \<le> 8" "pos p < length buf" using w by (auto simp: written_def)
  note e = declet_entry [OF f f8(1), of u]
  show ?thesis
    using write_two_bytes [OF w refl _ p1 e] f f8 p1 by (simp add: packDeclet_def Let_def)
qed

lemma packDeclet_holds:
  assumes h: "sink_holds s bs" and ev: "even (length bs)" and room: "length bs + 10 \<le> sink_room s"
  shows "\<exists>s'. packDeclet s u = Some s' \<and> sink_holds s' (bs @ low_bits 10 u) \<and> sink_room s' = sink_room s"
proof -
  obtain buf p where s: "s = (buf, p)" by fastforce
  have w: "written buf p bs" and f8: "free p < 8" and pl: "pos p < length buf"
    using h by (auto simp: s sink_holds_def written_def)
  have k: "length bs = 8 * pos p + (8 - free p)" using written_length [OF w] f8 by (simp add: bit_index_def)
  have ef: "even (free p)" using ev f8 unfolding k by simp
  have p1: "pos p + 1 < length buf" using room k f8 by (simp add: s sink_room_def)
  show ?thesis
  proof (cases "free p = 0")
    case False
    then have "2 \<le> free p" using ef by presburger
    then show ?thesis using packDeclet_open [OF w _ p1, of u] f8 by (auto simp: s sink_holds_def sink_room_def)
  next
    case True
    let ?b = "buf[pos p + 1 := 0]" and ?p = "\<lparr>pos = pos p + 1, free = 8\<rparr> :: bitPos"
    have "packDeclet (buf, p) u = packDeclet (?b, ?p) u" using True p1 by (simp add: packDeclet_def)
    moreover have "pos ?p + 1 < length ?b" using room k True by (simp add: s sink_room_def)
    ultimately show ?thesis
      using packDeclet_open [OF pack_open [OF w True p1], of u] by (auto simp: s sink_holds_def sink_room_def)
  qed
qed

lemma packDeclets_holds:
  "sink_holds s bs \<Longrightarrow> even (length bs) \<Longrightarrow> length bs + 10 * length us \<le> sink_room s \<Longrightarrow>
   \<exists>s'. packDeclets s us = Some s' \<and> sink_holds s' (bs @ declets us) \<and> sink_room s' = sink_room s"
proof (induction us arbitrary: s bs)
  case (Cons u us)
  have "length bs + 10 \<le> sink_room s" using Cons.prems by simp
  then obtain s' where s': "packDeclet s u = Some s'" "sink_holds s' (bs @ low_bits 10 u)" "sink_room s' = sink_room s"
    using packDeclet_holds Cons.prems by blast
  then show ?case using Cons.IH [OF s'(2)] Cons.prems by auto
qed simp

section \<open>Reading declets\<close>

text \<open>The numbers in a stream of declets.\<close>

primrec chunks :: "nat \<Rightarrow> bool list \<Rightarrow> nat list" where
  "chunks 0 bs = []"
| "chunks (Suc k) bs = bits_val (take 10 bs) # chunks k (drop 10 bs)"

lemma length_chunks [simp]: "length (chunks k bs) = k"
  by (induction k arbitrary: bs) auto

lemma bits_val_low_bits_word: "n \<le> LENGTH('a) \<Longrightarrow> bits_val (low_bits n (w :: 'a::len word)) = unat w mod 2 ^ n"
  using bits_val_low_bits [of n "unat w"] by (simp add: low_bits_unat)

lemma chunks_declets: "units_ok us \<Longrightarrow> chunks (length us) (declets us @ bs) = map unat us"
  by (induction us) (auto simp: bits_val_low_bits_word)

lemma readDeclet_open:
  assumes p: "pos p + 1 < length bytes" "2 \<le> free p" "free p \<le> 8"
  shows "\<exists>v. readDeclet bytes p = Some (v, \<lparr>pos = pos p + 1, free = free p - 2\<rparr>) \<and>
    unat v = bits_val (take 10 (drop (bit_index p) (bytes_bits bytes)))"
proof -
  define f where "f = free p - 2"
  have f: "free p = f + 2" "f \<le> 6" using p by (simp_all add: f_def)
  let ?hi = "bytes ! pos p" and ?lo = "bytes ! (pos p + 1)"
  define v where "v = drop_bit f (push_bit 8 (ucast (?hi AND ucast (MASK ! free p)) :: Unit) OR ucast ?lo)"
  have bi: "bit_index p = 8 * pos p + (6 - f)" using f by (simp add: bit_index_def)
  have bv: "bit v i \<longleftrightarrow> (if i + f < 8 then bit ?lo (i + f) else i < 10 \<and> bit ?hi (i + f - 8))" if "i < 16" for i
  proof -
    have "\<not> bit ?lo j" if "8 \<le> j" for j using bit_imp_le_length [of ?lo j] that by auto
    then show ?thesis using that f p by (auto simp: v_def MASK_byte bit_simps algebra_simps)
  qed
  have bb: "bytes_bits bytes ! (bit_index p + j) = (if j < f + 2 then bit ?hi (f + 1 - j) else bit ?lo (7 + f + 2 - j))"
    if j: "j < 10" for j
  proof (cases "j < f + 2")
    case True
    have "bit_index p + j = 8 * pos p + (6 - f + j)" using bi by simp
    moreover have "6 - f + j < 8" "7 - (6 - f + j) = f + 1 - j" using True f by auto
    ultimately show ?thesis using True p by (simp only: nth_bytes_bits_at) simp
  next
    case False
    have "bit_index p + j = 8 * (pos p + 1) + (j - f - 2)" using bi False f by simp
    moreover have "j - f - 2 < 8" "7 - (j - f - 2) = 7 + f + 2 - j" using False f j by auto
    ultimately show ?thesis using False p by (simp only: nth_bytes_bits_at) simp
  qed
  have l: "bit_index p + 10 \<le> 8 * length bytes" using p bi by simp
  have "low_bits 16 v = replicate 6 False @ take 10 (drop (bit_index p) (bytes_bits bytes))"
  proof (rule nth_equalityI)
    fix j assume "j < length (low_bits 16 v)"
    then have j: "j < 16" by simp
    show "low_bits 16 v ! j = (replicate 6 False @ take 10 (drop (bit_index p) (bytes_bits bytes))) ! j"
    proof (cases "j < 6")
      case True
      then have "\<not> bit v (15 - j)" using bv [of "15 - j"] f by auto
      then show ?thesis using True by (simp add: nth_append)
    next
      case False
      define i where "i = j - 6"
      have i: "i < 10" "j = i + 6" using False j by (simp_all add: i_def)
      have "bit v (9 - i) \<longleftrightarrow> bytes_bits bytes ! (bit_index p + i)"
        unfolding bb [OF i(1)] using bv [of "9 - i"] i f by (auto simp: algebra_simps Suc_diff_le split: if_splits)
      then show ?thesis using i l by (simp add: nth_append)
    qed
  qed (use l in simp)
  then have "unat v = bits_val (take 10 (drop (bit_index p) (bytes_bits bytes)))"
    using bits_val_word [of v] by (simp add: bits_val_append)
  moreover have "readDeclet bytes p = Some (v, \<lparr>pos = pos p + 1, free = free p - 2\<rparr>)"
    using p f by (simp add: readDeclet_def v_def)
  ultimately show ?thesis by blast
qed

lemma readDeclet_spec:
  assumes p: "readable bytes p" "even (bit_index p)" and l: "bit_index p + 10 \<le> 8 * length bytes"
  shows "\<exists>v p'. readDeclet bytes p = Some (v, p') \<and> unat v = bits_val (take 10 (drop (bit_index p) (bytes_bits bytes))) \<and>
    readable bytes p' \<and> bit_index p' = bit_index p + 10"
proof (cases "free p = 0")
  case True
  let ?p = "\<lparr>pos = pos p + 1, free = 8\<rparr> :: bitPos"
  have "readDeclet bytes p = readDeclet bytes ?p" "bit_index ?p = bit_index p"
    using True by (simp_all add: readDeclet_def bit_index_def)
  moreover have "pos ?p + 1 < length bytes" using l True by (simp add: bit_index_def)
  ultimately show ?thesis
    using readDeclet_open [of ?p bytes] True by (auto simp: readable_def bit_index_def)
next
  case False
  have f: "free p \<le> 8" "pos p < length bytes" using p by (auto simp: readable_def)
  have k: "bit_index p = 8 * pos p + (8 - free p)" using f by (simp add: bit_index_def)
  have "even (free p)" using p(2) f unfolding k by simp
  then have f2: "2 \<le> free p" using False by presburger
  have p1: "pos p + 1 < length bytes" using l k f by simp
  have "8 * (pos p + 1 + 1) - (free p - 2) = 8 * (pos p + 1) - free p + 10" using f2 f by simp
  then show ?thesis
    using readDeclet_open [OF p1 f2 f(1)] f p1 by (auto simp: readable_def bit_index_def)
qed

lemma poke_drop: "k < length us \<Longrightarrow> xs @ drop k (us[k := v]) = (xs @ [v]) @ drop (Suc k) us"
  by (simp add: drop_update_swap flip: Cons_nth_drop_Suc)

lemma unpackDeclets_spec:
  "readable bytes p \<Longrightarrow> even (bit_index p) \<Longrightarrow> bit_index p + 10 * k \<le> 8 * length bytes \<Longrightarrow> k \<le> length us \<Longrightarrow>
   vs = chunks k (drop (bit_index p) (bytes_bits bytes)) \<Longrightarrow>
   if list_all (\<lambda>v. v \<le> 999) vs then unpackDeclets bytes p us k = Some (True, rev (map of_nat vs) @ drop k us)
   else \<exists>us'. unpackDeclets bytes p us k = Some (False, us') \<and> length us' = length us"
proof (induction k arbitrary: p us vs)
  case (Suc k)
  have "bit_index p + 10 \<le> 8 * length bytes" using Suc.prems(3) by simp
  then obtain v p' where v: "readDeclet bytes p = Some (v, p')"
      "unat v = bits_val (take 10 (drop (bit_index p) (bytes_bits bytes)))"
      and p': "readable bytes p'" "bit_index p' = bit_index p + 10"
    using readDeclet_spec Suc.prems(1,2) by blast
  let ?vs = "chunks k (drop (bit_index p') (bytes_bits bytes))"
  have vs: "vs = unat v # ?vs" using Suc.prems(5) v(2) p'(2) by (simp add: add.commute)
  have g: "v > 999 \<longleftrightarrow> \<not> unat v \<le> 999" by (simp add: word_less_nat_alt not_le)
  have k: "k < length us" using Suc.prems(4) by simp
  have ih: "if list_all (\<lambda>v. v \<le> 999) ?vs
      then unpackDeclets bytes p' (us[k := v]) k = Some (True, rev (map of_nat ?vs) @ drop k (us[k := v]))
      else \<exists>us'. unpackDeclets bytes p' (us[k := v]) k = Some (False, us') \<and> length us' = length (us[k := v])"
    by (rule Suc.IH) (use Suc.prems p' in auto)
  show ?case
  proof (cases "unat v \<le> 999")
    case True
    then have "unpackDeclets bytes p us (Suc k) = unpackDeclets bytes p' (us[k := v]) k"
      using v k g by simp
    then show ?thesis
      using ih True unfolding vs by (simp add: poke_drop [OF k] split: if_splits)
  next
    case False
    then show ?thesis using v k g unfolding vs by simp
  qed
qed simp

section \<open>Unpacking a significand\<close>

text \<open>The units a valid significand of \<open>n\<close> declets decodes to, least significant unit first.\<close>

definition stream_units :: "uByte list \<Rightarrow> bitPos \<Rightarrow> nat \<Rightarrow> Unit list" where
  "stream_units bytes p n = rev (map of_nat (chunks n (drop (bit_index p) (bytes_bits bytes))))"

definition mantissa_ok :: "bool \<Rightarrow> nat list \<Rightarrow> bool" where
  "mantissa_ok neg vs \<longleftrightarrow> list_all (\<lambda>v. v \<le> 999) vs \<and> last vs \<noteq> 0 \<and>
     (length vs = 1 \<or> (if neg then hd vs \<le> 899 else hd vs \<noteq> 0))"

definition declet_count :: "uByte list \<Rightarrow> bitPos \<Rightarrow> nat" where
  "declet_count bytes p = (8 * length bytes - bit_index p) div 10"

lemma declet_count_eq:
  "readable bytes p \<Longrightarrow> (8 * (length bytes - pos p) - (8 - free p)) div 10 = declet_count bytes p"
proof -
  assume r: "readable bytes p"
  then have "8 * (length bytes - pos p) - (8 - free p) = 8 * length bytes - bit_index p"
    by (auto simp: readable_def bit_index_def)
  then show ?thesis by (simp add: declet_count_def)
qed

lemma int32_id: "k < 2 ^ 31 \<Longrightarrow> int32 k = int k"
  by (simp add: int32_def signed_of_nat signed_take_bit_int_eq_self)

lemma units_val_stream: "list_all (\<lambda>v. v \<le> 999) vs \<Longrightarrow> units_ok (rev (map of_nat vs))"
  by (induction vs) (auto simp: unat_of_nat)

lemma decInfiniteUnpackMantissa_single:
  assumes p: "readable bytes p" "even (bit_index p)" and n: "declet_count bytes p = 1" and len: "length (lsu dn) = DECNUMUNITS"
    and vs: "vs = chunks 1 (drop (bit_index p) (bytes_bits bytes))" and V: "V = units_val (rev (map of_nat vs))"
  shows "if mantissa_ok (decNumberIsNegative dn) vs
    then \<exists>us. decInfiniteUnpackMantissa dn bytes p = Some (1, dn\<lparr>digits := 3, lsu := us\<rparr>) \<and>
      length us = length (lsu dn) \<and> units_ok (take 1 us) \<and>
      units_val (take 1 us) = (if decNumberIsNegative dn then 1000 - V else V)
    else decInfiniteUnpackMantissa dn bytes p = Some (0, dn\<lparr>digits := 3\<rparr>)"
proof -
  have "bit_index p + 10 \<le> 8 * length bytes" using n by (simp add: declet_count_def)
  then obtain v p' where v: "readDeclet bytes p = Some (v, p')"
      "unat v = bits_val (take 10 (drop (bit_index p) (bytes_bits bytes)))"
    using readDeclet_spec p by blast
  have vs: "vs = [unat v]" using vs v by simp
  have g: "v > 999 \<longleftrightarrow> 999 < unat v" "v = 0 \<longleftrightarrow> unat v = 0" by (simp_all add: word_less_nat_alt unat_eq_0)
  have neg: "decNumberIsNegative (dn\<lparr>digits := 3\<rparr>) = decNumberIsNegative dn" by (simp add: decNumberIsNegative_def)
  obtain u us where us: "lsu dn = u # us" using len by (cases "lsu dn") auto
  have unf: "decInfiniteUnpackMantissa dn bytes p = Some (if unat v = 0 \<or> 999 < unat v then (0, dn\<lparr>digits := 3\<rparr>)
      else (1, dn\<lparr>digits := 3, lsu := (if decNumberIsNegative dn then 1000 - v else v) # us\<rparr>))"
    using v g us by (simp add: decInfiniteUnpackMantissa_def declet_count_eq [OF p(1)] n neg)
  show ?thesis
  proof (cases "unat v = 0 \<or> 999 < unat v")
    case True
    then show ?thesis by (auto simp: unf mantissa_ok_def vs)
  next
    case False
    then have "unat (1000 - v) = 1000 - unat v" by (subst unat_sub) (simp_all add: word_le_nat_alt)
    moreover have "mantissa_ok (decNumberIsNegative dn) vs" using False by (auto simp: mantissa_ok_def vs)
    moreover have "V = unat v" by (simp add: V vs)
    ultimately show ?thesis
      using False us by (auto simp: unf)
  qed
qed

lemma decInfiniteUnpackMantissa_multiple:
  assumes p: "readable bytes p" "even (bit_index p)" and n: "declet_count bytes p = n" "2 \<le> n" "3 * n < 2 ^ 31"
    and len: "length (lsu dn) = DECNUMUNITS"
    and vs: "vs = chunks n (drop (bit_index p) (bytes_bits bytes))" and V: "V = units_val (rev (map of_nat vs))"
  shows "if n \<le> DECNUMUNITS \<and> mantissa_ok (decNumberIsNegative dn) vs
    then \<exists>us. decInfiniteUnpackMantissa dn bytes p = Some (n, dn\<lparr>digits := 3 * int n, lsu := us\<rparr>) \<and>
      length us = length (lsu dn) \<and> units_ok (take n us) \<and>
      units_val (take n us) = (if decNumberIsNegative dn then 1000 ^ n - V else V)
    else \<exists>dn'. decInfiniteUnpackMantissa dn bytes p = Some (0, dn')"
proof (cases "n \<le> DECNUMUNITS")
  case False
  have "int32 (3 * n) = 3 * int n" using int32_id [OF n(3)] by simp
  then show ?thesis
    using False n by (simp add: decInfiniteUnpackMantissa_def declet_count_eq [OF p(1)] DECNUMDIGITS_def Let_def)
next
  case True
  let ?dn = "dn\<lparr>digits := 3 * int n\<rparr>" and ?neg = "decNumberIsNegative dn"
  let ?us = "rev (map of_nat vs) :: Unit list" and ?zs = "drop n (lsu dn)"
  have d: "int32 (3 * n) = 3 * int n" using int32_id [OF n(3)] by simp
  have l: "bit_index p + 10 * n \<le> 8 * length bytes" using n(1,2) by (simp add: declet_count_def; linarith)
  have lv: "length vs = n" using vs by simp
  have neg: "decNumberIsNegative (dn\<lparr>digits := 3 * int n, lsu := us\<rparr>) = ?neg" for us
    by (simp add: decNumberIsNegative_def)
  note rd = unpackDeclets_spec [OF p l, of "lsu dn" vs] 
  show ?thesis
  proof (cases "list_all (\<lambda>v. v \<le> 999) vs")
    case False
    then obtain us' where "unpackDeclets bytes p (lsu dn) n = Some (False, us')" using rd vs True len by auto
    then show ?thesis
      using False True n d by (simp add: decInfiniteUnpackMantissa_def declet_count_eq [OF p(1)] mantissa_ok_def DECNUMDIGITS_def)
  next
    case all: True
    have rd: "unpackDeclets bytes p (lsu dn) n = Some (True, ?us @ ?zs)" using rd all vs True len by simp
    have small: "unat (of_nat v :: Unit) = v" if "v \<in> set vs" for v
      using that all by (auto simp: list_all_iff unat_of_nat)
    have ne: "vs \<noteq> []" using lv n(2) by auto
    have u0: "unat ((?us @ ?zs) ! 0) = last vs"
      using ne small [of "last vs"] by (simp add: nth_append rev_nth last_conv_nth)
    have un: "unat ((?us @ ?zs) ! (n - 1)) = hd vs"
      using ne lv n small [of "hd vs"] by (simp add: nth_append rev_nth hd_conv_nth)
    have D: "D2U (3 * int n) = n" by (simp add: D2U_eq)
    define ws where "ws = ?us @ ?zs"
    define dn1 where "dn1 = dn\<lparr>digits := 3 * int n, lsu := ws\<rparr>"
    have lw: "length ws = DECNUMUNITS" using lv True len by (simp add: ws_def)
    have w: "ws ! 0 = 0 \<longleftrightarrow> last vs = 0" "899 < ws ! (n - 1) \<longleftrightarrow> 899 < hd vs" "ws ! (n - 1) = 0 \<longleftrightarrow> hd vs = 0"
      using u0 un by (simp_all add: word_less_nat_alt unat_eq_0 [symmetric] flip: ws_def)
    have unf: "decInfiniteUnpackMantissa dn bytes p = (if last vs = 0 then Some (0, dn1)
        else if ?neg then (if hd vs > 899 then Some (0, dn1)
          else do { dn \<leftarrow> decInfiniteComplementMantissa dn1; Some (n, dn) })
        else if hd vs = 0 then Some (0, dn1) else Some (n, dn1))"
      using rd True n d lw w [unfolded One_nat_def] neg [of ws]
      by (simp add: decInfiniteUnpackMantissa_def declet_count_eq [OF p(1)] DECNUMDIGITS_def
          flip: ws_def dn1_def)
    have ok: "units_ok ?us" using units_val_stream [OF all] .
    show ?thesis
    proof (cases "mantissa_ok ?neg vs")
      case False
      then show ?thesis using all lv n unf by (auto simp: mantissa_ok_def split: if_splits)
    next
      case mok: True
      then have lz: "last vs \<noteq> 0" by (simp add: mantissa_ok_def)
      show ?thesis
      proof (cases ?neg)
        case False
        then show ?thesis using mok lv n unf ok True len lz
          by (auto simp: mantissa_ok_def V dn1_def ws_def)
      next
        case neg: True
        have t: "take n (lsu dn1) = ?us" using lv by (simp add: dn1_def ws_def)
        have "V \<noteq> 0"
        proof
          assume "V = 0"
          then have "unat (hd ?us) = 0" using ne by (cases vs rule: rev_cases) (auto simp: V)
          moreover have "hd ?us = (?us @ ?zs) ! 0" using ne by (simp add: hd_conv_nth nth_append)
          ultimately show False using u0 lz by simp
        qed
        then obtain us where us: "decInfiniteComplementMantissa dn1 = Some (dn1\<lparr>lsu := us\<rparr>)" "length us = length (lsu dn1)"
            "units_ok (take n us)" "units_val (take n us) = 1000 ^ n - V"
          using decInfiniteComplementMantissa_spec [of dn1 n] True lw D t ok by (auto simp: dn1_def V)
        then show ?thesis
          using neg mok lv n unf lw len True lz by (auto simp: mantissa_ok_def dn1_def)
      qed
    qed
  qed
qed

text \<open>
  With no declet at all the code reads the unit \<^verbatim>\<open>lsu[0]\<close>, which it has not set, and unless that
  is zero the unit before it.
\<close>

lemma decInfiniteUnpackMantissa_empty:
  assumes "readable bytes p" "declet_count bytes p = 0" "lsu dn \<noteq> []"
  shows "decInfiniteUnpackMantissa dn bytes p =
    (if lsu dn ! 0 = 0 then Some (0, dn\<lparr>digits := 0\<rparr>) else None)"
  using assms by (simp add: decInfiniteUnpackMantissa_def declet_count_eq int32_def)

end
