(* ===== verification/DecInfinite.thy ===== *)
theory DecInfinite
  imports Mantissa
begin

text \<open>
  The public interface of the decimalInfinite codec (\<^verbatim>\<open>decInfinite.c\<close>): encoding a number into
  a buffer, decoding a byte string, and the accessors for sign and exponent.
\<close>

section \<open>Operations\<close>

definition DECINF_MAXSIZE :: nat where
  "DECINF_MAXSIZE = 1 + (2 + 1 + (2 * DECINF_EXPSIZE - 1) + (10 * DECNUMDIGITS div 3) - 1) div 8"

lemma DECINF_MAXSIZE_eq [simp]: "DECINF_MAXSIZE = 24"
  by (simp add: DECINF_MAXSIZE_def DECINF_EXPSIZE_def DECNUMDIGITS_def)

definition in_int32 :: "int \<Rightarrow> bool" where
  "in_int32 x \<longleftrightarrow> - 2147483648 \<le> x \<and> x \<le> 2147483647"

text \<open>The encoder returns the size of the encoding, the buffer, and the number, which it modifies.\<close>

definition decInfiniteFromNumber :: "uByte list \<Rightarrow> decNumber \<Rightarrow> (nat \<times> uByte list \<times> decNumber) option" where
  "decInfiniteFromNumber result dn =
     (if decNumberIsSpecial dn then do {
        result \<leftarrow> poke result 0
          (if decNumberIsInfinite dn then (if decNumberIsNegative dn then 0x20 else 0xC0)
           else (if decNumberIsNegative dn then 0x00 else 0xE0));
        Some (1, result, dn)
      }
      else do {
        u \<leftarrow> peek (lsu dn) 0;
        if u = 0 \<and> digits dn = 1 then do {
          result \<leftarrow> poke result 0 (if decNumberIsNegative dn then 0x60 else 0x80);
          Some (1, result, dn)
        }
        else do {
          let adj_exp = exponent dn + digits dn - 1;
          if \<not> in_int32 (exponent dn + digits dn) \<or> \<not> in_int32 adj_exp then None
          else if decNumberIsNegative dn then do {
            result \<leftarrow> poke result 0 0x20;
            let T = (adj_exp < 0);
            s \<leftarrow> decInfinitePackExponent (word_of_int (if T then - adj_exp else adj_exp)) T (result, \<lparr>pos = 0, free = 5\<rparr>);
            dn \<leftarrow> decShiftToMost dn;
            dn \<leftarrow> decInfiniteComplementMantissa dn;
            (result, p) \<leftarrow> decInfinitePackMantissa dn s;
            Some (pos p + 1, result, dn)
          }
          else do {
            result \<leftarrow> poke result 0 0x80;
            let T = (adj_exp \<ge> 0);
            s \<leftarrow> decInfinitePackExponent (word_of_int (if T then adj_exp else - adj_exp)) T (result, \<lparr>pos = 0, free = 5\<rparr>);
            dn \<leftarrow> decShiftToMost dn;
            (result, p) \<leftarrow> decInfinitePackMantissa dn s;
            Some (pos p + 1, result, dn)
          }
        }
      })"

text \<open>The decoder returns whether it succeeded, and the number as it left it.\<close>

definition decInfiniteToNumber :: "uByte list \<Rightarrow> decNumber \<Rightarrow> (bool \<times> decNumber) option" where
  "decInfiniteToNumber bytes dn = do {
     b \<leftarrow> peek bytes 0;
     if length bytes = 1 then (let dn = decNumberZero dn in
       if b = 0x80 then Some (True, dn)
       else if b = 0x60 then Some (True, dn\<lparr>bits := DECNEG\<rparr>)
       else if b = 0x20 then Some (True, dn\<lparr>bits := DECNEG OR DECINF\<rparr>)
       else if b = 0xC0 then Some (True, dn\<lparr>bits := DECINF\<rparr>)
       else if b = 0x00 then Some (True, dn\<lparr>bits := DECNEG OR DECNAN\<rparr>)
       else if b = 0xE0 then Some (True, dn\<lparr>bits := DECNAN\<rparr>)
       else Some (False, dn))
     else if b AND 0xE0 \<noteq> 0x20 \<and> b AND 0xE0 \<noteq> 0x80 then Some (False, dn)
     else do {
       let dn = dn\<lparr>bits := (if b AND 0xE0 = 0x20 then DECNEG else 0)\<rparr>;
       if b AND 0xFC = 0x8C \<or> b AND 0xFC = 0x30 then Some (False, dn)
       else do {
         r \<leftarrow> decInfiniteUnpackExponent bytes \<lparr>pos = 0, free = 5\<rparr>;
         case r of Null \<Rightarrow> Some (False, dn)
         | Ret (e, p) \<Rightarrow> do {
             let dn = dn\<lparr>exponent := e\<rparr>;
             (n, dn) \<leftarrow> decInfiniteUnpackMantissa dn bytes p;
             if n \<noteq> 0 then Some (True, dn\<lparr>exponent := exponent dn - digits dn + 1\<rparr>)
             else Some (False, dn)
           }
       }
     }
   }"

definition decInfiniteIsSpecial :: "uByte list \<Rightarrow> bool" where
  "decInfiniteIsSpecial bytes \<longleftrightarrow>
     length bytes = 1 \<and> (bytes ! 0 = 0x00 \<or> bytes ! 0 = 0x20 \<or> bytes ! 0 = 0xC0 \<or> bytes ! 0 = 0xE0)"

definition decInfiniteSign :: "uByte list \<Rightarrow> int option" where
  "decInfiniteSign bytes = do { b \<leftarrow> peek bytes 0; Some (if b AND 0x80 \<noteq> 0 then 1 else - 1) }"

text \<open>Without a valid exponent in the string the code returns a variable it has not set.\<close>

definition decInfiniteExponent :: "uByte list \<Rightarrow> int option" where
  "decInfiniteExponent bytes =
     (if decInfiniteIsSpecial bytes then do { s \<leftarrow> decInfiniteSign bytes; Some (s * 2 ^ DECINF_EXPSIZE) }
      else do {
        b \<leftarrow> peek bytes 0;
        r \<leftarrow> decInfiniteUnpackExponent bytes \<lparr>pos = 0, free = 5\<rparr>;
        case r of Null \<Rightarrow> None | Ret (e, p) \<Rightarrow> Some e
      })"

definition advanceToMantissa :: "bitPos \<Rightarrow> uByte list \<Rightarrow> bitPos ret option" where
  "advanceToMantissa p bytes = do {
     b \<leftarrow> peek bytes (pos p);
     (n, p) \<leftarrow> (if b AND 0x10 \<noteq> 0 then decInfiniteReadUnaryPrefix1 bytes p else decInfiniteReadUnaryPrefix0 bytes p);
     if n \<noteq> 0 then (let offset = 3 + 2 * n - 1 in
       Some (Ret \<lparr>pos = offset div 8, free = offset mod 8\<rparr>))
     else Some Null
   }"

definition decInfiniteCoefficient :: "uByte list \<Rightarrow> string ret" where
  "decInfiniteCoefficient bytes = Null"

section \<open>Specification of the format\<close>

text \<open>
  An encoding of a finite number other than zero is the sign and the pad bit, the code of the adjusted
  exponent, and the declets of the significand; zeroes fill the last byte.  The significand is the
  coefficient with its first digit at the top of the most significant unit, or its ten's complement
  if the number is negative, without the zero units at the end.
\<close>

definition adjusted :: "decNumber \<Rightarrow> int" where
  "adjusted dn = exponent dn + digits dn - 1"

definition sign_bits :: "bool \<Rightarrow> bool list" where
  "sign_bits neg = (if neg then [False, False, True] else [True, False, False])"

definition exp_code :: "bool \<Rightarrow> int \<Rightarrow> bool list" where
  "exp_code neg A = exp_bits ((0 \<le> A) \<noteq> neg) (nat \<bar>A\<bar>)"

definition base_units :: "nat \<Rightarrow> nat \<Rightarrow> Unit list" where
  "base_units D V = map (\<lambda>i. of_nat (V div 1000 ^ i mod 1000)) [0..<D]"

definition aligned :: "decNumber \<Rightarrow> nat" where
  "aligned dn = coeff dn * 10 ^ (3 * D2U (digits dn) - nat (digits dn))"

definition mantissa_units :: "decNumber \<Rightarrow> Unit list" where
  "mantissa_units dn = (let D = D2U (digits dn) in
     rev (dropWhile (\<lambda>u. u = 0) (base_units D (if decNumberIsNegative dn then 1000 ^ D - aligned dn else aligned dn))))"

definition number_code :: "decNumber \<Rightarrow> bool list" where
  "number_code dn = sign_bits (decNumberIsNegative dn) @ exp_code (decNumberIsNegative dn) (adjusted dn) @
     declets (mantissa_units dn)"

function bits_bytes :: "bool list \<Rightarrow> uByte list" where
  "bits_bytes bs = (if bs = [] then [] else of_nat (bits_val (take 8 (bs @ replicate 7 False))) # bits_bytes (drop 8 bs))"
  by auto
termination by (relation "measure length") auto

declare bits_bytes.simps [simp del]

definition encode :: "decNumber \<Rightarrow> uByte list" where
  "encode dn =
     (if decNumberIsSpecial dn then
        [if decNumberIsInfinite dn then (if decNumberIsNegative dn then 0x20 else 0xC0)
         else (if decNumberIsNegative dn then 0x00 else 0xE0)]
      else if coeff dn = 0 then [if decNumberIsNegative dn then 0x60 else 0x80]
      else bits_bytes (number_code dn))"

text \<open>The numbers the encoder accepts: those of the decNumber library with at most 39 digits and an
  adjusted exponent of at most nine digits.\<close>

definition encodable :: "decNumber \<Rightarrow> bool" where
  "encodable dn \<longleftrightarrow> length (lsu dn) = DECNUMUNITS \<and>
     (decNumberIsSpecial dn \<or> dn_ok dn \<and> digits dn \<le> int DECNUMDIGITS \<and> \<bar>adjusted dn\<bar> \<le> 999999999)"

lemma bits_bytes_unique: "bytes_bits xs = bs @ replicate k False \<Longrightarrow> k < 8 \<Longrightarrow> xs = bits_bytes bs"
proof (induction xs arbitrary: bs)
  case Nil
  then show ?case by (simp add: bits_bytes.simps)
next
  case (Cons b xs)
  have len: "8 + 8 * length xs = length bs + k" using arg_cong [OF Cons.prems(1), of length] by simp
  then have ne: "bs \<noteq> []" using Cons.prems(2) by auto
  have "low_bits 8 b = take 8 (bs @ replicate k False)"
    using arg_cong [OF Cons.prems(1), of "take 8"] by simp
  also have "\<dots> = take 8 (bs @ replicate 7 False)"
    using len Cons.prems(2) ne by (cases "8 \<le> length bs") (auto simp: min_def Suc_le_eq)
  finally have "bits_val (take 8 (bs @ replicate 7 False)) = unat b"
    using bits_val_word [of b] by simp
  then have b: "of_nat (bits_val (take 8 (bs @ replicate 7 False))) = b" by simp
  have tl: "bytes_bits xs = drop 8 (bs @ replicate k False)"
    using arg_cong [OF Cons.prems(1), of "drop 8"] by simp
  have "xs = bits_bytes (drop 8 bs)"
  proof (cases "8 \<le> length bs")
    case True
    then show ?thesis using Cons.IH [of "drop 8 bs"] tl Cons.prems(2) by simp
  next
    case False
    then have "xs = []" using len Cons.prems(2) by (cases xs) auto
    then show ?thesis using False by (simp add: bits_bytes.simps)
  qed
  then show ?case using b ne by (subst bits_bytes.simps) simp
qed

lemma bytes_bits_bits_bytes: "\<exists>k < 8. bytes_bits (bits_bytes bs) = bs @ replicate k False"
proof (induction bs rule: bits_bytes.induct)
  case (1 bs)
  show ?case
  proof (cases "bs = []")
    case True
    then show ?thesis by (auto simp: bits_bytes.simps)
  next
    case False
    let ?xs = "take 8 (bs @ replicate 7 False)"
    have l8: "length ?xs = 8" using False by (cases bs) auto
    have "bits_val ?xs < 256" using bits_val_less [of ?xs] unfolding l8 by simp
    then have "unat (of_nat (bits_val ?xs) :: uByte) = bits_val ?xs" by (simp add: unat_of_nat)
    then have x: "low_bits 8 (of_nat (bits_val ?xs) :: uByte) = ?xs"
      using low_bits_bits_val [of ?xs] low_bits_unat [of 8 "of_nat (bits_val ?xs) :: uByte"] unfolding l8 by simp
    show ?thesis
    proof (cases "8 \<le> length bs")
      case True
      then show ?thesis using 1 False x by (auto simp: bits_bytes.simps [of bs])
    next
      case short: False
      then have "drop 8 bs = []" by simp
      then have "bytes_bits (bits_bytes bs) = ?xs"
        using False x by (simp add: bits_bytes.simps [of bs]) (simp add: bits_bytes.simps)
      also have "\<dots> = bs @ replicate (8 - length bs) False" using short False l8 by (simp add: min_def)
      finally show ?thesis using False by (intro exI [of _ "8 - length bs"]) (cases bs, auto)
    qed
  qed
qed

lemma base_units_Suc: "base_units (Suc D) V = of_nat (V mod 1000) # base_units D (V div 1000)"
  by (simp add: base_units_def upt_conv_Cons div_mult2_eq comp_def del: upt_Suc flip: map_Suc_upt)

lemma base_units_val:
  "length us = D \<Longrightarrow> units_ok us \<Longrightarrow> base_units D (units_val us) = us"
  by (induction us arbitrary: D) (auto simp: base_units_Suc, simp add: base_units_def)

lemma length_base_units [simp]: "length (base_units D V) = D"
  by (simp add: base_units_def)

lemma units_ok_base_units: "units_ok (base_units D V)"
  by (auto simp: base_units_def units_ok_def unat_of_nat)

lemma units_val_base_units: "V < 1000 ^ D \<Longrightarrow> units_val (base_units D V) = V"
proof (induction D arbitrary: V)
  case (Suc D)
  have "V div 1000 < 1000 ^ D" using Suc.prems by (simp add: less_mult_imp_div_less mult.commute)
  then show ?case using Suc.IH by (simp add: base_units_Suc unat_of_nat)
qed (simp add: base_units_def)

section \<open>The encoder writes the format\<close>

lemma in_range_adjusted: "\<bar>adjusted dn\<bar> \<le> 999999999 \<Longrightarrow> in_int32 (exponent dn + digits dn) \<and> in_int32 (exponent dn + digits dn - 1)"
  by (auto simp: adjusted_def in_int32_def)

lemma unat_abs_exponent:
  "\<bar>A\<bar> \<le> 999999999 \<Longrightarrow> unat (word_of_int \<bar>A\<bar> :: uInt) = nat \<bar>A\<bar> \<and> (word_of_int \<bar>A\<bar> :: uInt) < 0x7FFFFFFE"
proof -
  assume A: "\<bar>A\<bar> \<le> 999999999"
  define k where "k = nat \<bar>A\<bar>"
  have k: "\<bar>A\<bar> = int k" "k \<le> 999999999" using A by (simp_all add: k_def)
  have "unat (word_of_nat k :: uInt) = k" using k(2) by (simp add: unat_of_nat)
  then show ?thesis unfolding k(1) of_int_of_nat_eq using k(2) by (simp add: word_less_nat_alt)
qed

lemma sign_written:
  assumes "0 < length buf"
  shows "sink_holds (buf[0 := (if neg then 0x20 else 0x80)], \<lparr>pos = 0, free = 5\<rparr>) (sign_bits neg)"
proof -
  obtain b bs where buf: "buf = b # bs" using assms by (cases buf) auto
  let ?c = "(if neg then 0x20 else 0x80) :: uByte"
  have low8: "low_bits 8 ?c = low_bits 3 (drop_bit 5 ?c) @ low_bits 5 ?c"
    using low_bits_append [of 3 5 ?c] by simp
  have "low_bits 3 (drop_bit 5 ?c) = sign_bits neg"
    by (cases neg) (simp_all add: sign_bits_def low_bits_def numeral_3_eq_3 numeral_2_eq_2 bit_simps)
  moreover have "\<not> bit ?c i" if "i < 5" for i
  proof -
    have "?c = (if neg then 2 ^ 5 else 2 ^ 7)" by simp
    then show ?thesis using that by (simp only: bit_exp_iff split: if_split) simp
  qed
  ultimately show ?thesis
    unfolding buf sink_holds_def written_def bit_index_def by (simp add: low8 sign_bits_def)
qed

lemma even_exp_code: "odd (length (exp_code neg A))"
  by (simp add: exp_code_def)

lemma length_exp_code: "\<bar>A\<bar> \<le> 999999999 \<Longrightarrow> 3 \<le> length (exp_code neg A) \<and> length (exp_code neg A) \<le> 59"
  using nat_log2_exponent [of "nat \<bar>A\<bar>"] by (auto simp: exp_code_def Suc_le_eq nat_le_iff)

lemma pack_exponent_part:
  assumes A: "\<bar>A\<bar> \<le> 999999999" and buf: "8 \<le> length buf" and T: "T = ((0 \<le> A) \<noteq> neg)"
  shows "\<exists>s. decInfinitePackExponent (word_of_int \<bar>A\<bar>) T (buf[0 := (if neg then 0x20 else 0x80)], \<lparr>pos = 0, free = 5\<rparr>) = Some s \<and>
      sink_holds s (sign_bits neg @ exp_code neg A) \<and> sink_room s = 8 * length buf"
proof -
  note E = unat_abs_exponent [OF A]
  have x: "exp_bits T (unat (word_of_int \<bar>A\<bar> :: uInt)) = exp_code neg A" using E by (simp add: exp_code_def T)
  have l3: "length (sign_bits neg) = 3" by (simp add: sign_bits_def)
  let ?buf = "buf[0 := (if neg then 0x20 else 0x80)]"
  have "length (sign_bits neg) + length (exp_bits T (unat (word_of_int \<bar>A\<bar> :: uInt))) \<le> sink_room (?buf, \<lparr>pos = 0, free = 5\<rparr>)"
    unfolding x using length_exp_code [OF A, of neg] buf l3 by (simp add: sink_room_def)
  moreover have "buf \<noteq> []" using buf by auto
  ultimately show ?thesis
    using sign_written [of buf neg] E decInfinitePackExponent_holds [of ?buf "\<lparr>pos = 0, free = 5\<rparr>" "sign_bits neg" "word_of_int \<bar>A\<bar>" T]
    unfolding x by (auto simp: sink_room_def)
qed

lemma pack_mantissa_part:
  assumes s: "sink_holds s (sign_bits neg @ exp_code neg A)" and A: "\<bar>A\<bar> \<le> 999999999"
    and room: "8 * DECINF_MAXSIZE \<le> sink_room s" and D: "D2U (digits dn) = D" "D \<le> 13" "D \<le> length (lsu dn)"
    and us: "units_ok (take D (lsu dn))" "units_val (take D (lsu dn)) = V"
  shows "\<exists>buf p. decInfinitePackMantissa dn s = Some (buf, p) \<and> sink_room (buf, p) = sink_room s \<and>
      take (pos p + 1) buf = bits_bytes (sign_bits neg @ exp_code neg A @ declets (rev (dropWhile (\<lambda>u. u = 0) (base_units D V)))) \<and>
      pos p + 1 \<le> DECINF_MAXSIZE \<and> pos p + 1 = length (take (pos p + 1) buf)"
proof -
  let ?bs = "sign_bits neg @ exp_code neg A"
  let ?us = "rev (dropWhile (\<lambda>u. u = 0) (base_units D V))"
  have u: "take D (lsu dn) = base_units D V" using base_units_val [of "take D (lsu dn)" D] us D by simp
  have l3: "length (sign_bits neg) = 3" by (simp add: sign_bits_def)
  have lu: "length ?us \<le> 13" using length_dropWhile_le [of "\<lambda>u. u = 0" "base_units D V"] D(2) by simp
  have size: "length ?bs + 10 * length ?us \<le> 8 * DECINF_MAXSIZE"
    using length_exp_code [OF A, of neg] lu l3 by simp
  have ev: "even (length ?bs)" using even_exp_code [of neg A] l3 by simp
  obtain s' where s': "packDeclets s ?us = Some s'" "sink_holds s' (?bs @ declets ?us)" "sink_room s' = sink_room s"
    using packDeclets_holds [OF s ev, of ?us] size room by auto
  obtain buf p where bp: "s' = (buf, p)" by fastforce
  have w: "written buf p (?bs @ declets ?us)" "free p < 8" using s'(2) by (auto simp: bp sink_holds_def)
  have "pos p < length buf" using w(1) by (simp add: written_def)
  moreover have "take (pos p + 1) buf = bits_bytes (?bs @ declets ?us)"
    using bits_bytes_unique written_bits [OF w(1)] w(2) by blast
  moreover have "pos p + 1 \<le> DECINF_MAXSIZE"
    using written_length [OF w(1)] size w(2) by (simp add: bit_index_def)
  moreover have "decInfinitePackMantissa dn s = Some (buf, p)"
    using s' D u by (simp add: decInfinitePackMantissa_def bp Let_def)
  ultimately show ?thesis using s'(3) by (auto simp: bp)
qed

lemma aligned_bounds:
  assumes ok: "dn_ok dn" and nz: "coeff dn \<noteq> 0"
  shows "100 * 1000 ^ (D2U (digits dn) - 1) \<le> aligned dn" and "aligned dn < 1000 ^ D2U (digits dn)"
    and "0 < D2U (digits dn)"
proof -
  obtain r m where D: "D2U (digits dn) = Suc r" and m: "1 \<le> m" "m \<le> 3" and d: "digits dn = int (3 * r + m)"
    using digits_split [of "digits dn"] ok by (auto simp: dn_ok_def)
  have nd: "nat (digits dn) = 3 * r + m" using d by (simp only: nat_int)
  have a: "aligned dn = coeff dn * 10 ^ (3 - m)" using D nd by (simp add: aligned_def)
  have "10 ^ (3 * r + m - 1) \<le> coeff dn" "coeff dn < 10 ^ (3 * r + m)"
    using ok dn_ok_leading [OF ok nz] by (simp_all only: dn_ok_def nd)
  then have "10 ^ (3 * r + m - 1) * 10 ^ (3 - m) \<le> aligned dn" "aligned dn < 10 ^ (3 * r + m) * 10 ^ (3 - m)"
    unfolding a by simp_all
  moreover have "(10 :: nat) ^ (3 * r + m - 1) * 10 ^ (3 - m) = 100 * 1000 ^ r"
  proof -
    have "(3 * r + m - 1) + (3 - m) = 3 * r + 2" using m by auto
    then have "(10 :: nat) ^ (3 * r + m - 1) * 10 ^ (3 - m) = 10 ^ (3 * r + 2)" by (metis power_add)
    then show ?thesis by (simp add: power_add power_mult)
  qed
  moreover have "(10 :: nat) ^ (3 * r + m) * 10 ^ (3 - m) = 1000 ^ Suc r"
  proof -
    have "(3 * r + m) + (3 - m) = 3 * Suc r" using m by auto
    then have "(10 :: nat) ^ (3 * r + m) * 10 ^ (3 - m) = 10 ^ (3 * Suc r)" by (metis power_add)
    also have "\<dots> = 1000 ^ Suc r" by (simp only: power_mult) simp
    finally show ?thesis .
  qed
  ultimately show "100 * 1000 ^ (D2U (digits dn) - 1) \<le> aligned dn" "aligned dn < 1000 ^ D2U (digits dn)" "0 < D2U (digits dn)"
    by (simp_all add: D)
qed

lemma aligned_pos: "dn_ok dn \<Longrightarrow> coeff dn \<noteq> 0 \<Longrightarrow> 0 < aligned dn"
  by (rule less_le_trans [OF _ aligned_bounds(1)]) simp_all

lemma decInfiniteFromNumber_number:
  assumes e: "encodable dn" "\<not> decNumberIsSpecial dn" "coeff dn \<noteq> 0" and buf: "DECINF_MAXSIZE \<le> length result"
  shows "\<exists>n result' dn'. decInfiniteFromNumber result dn = Some (n, result', dn') \<and> length result' = length result \<and>
      take n result' = bits_bytes (number_code dn) \<and> n \<le> DECINF_MAXSIZE \<and> n = length (bits_bytes (number_code dn))"
proof -
  let ?neg = "decNumberIsNegative dn" and ?A = "adjusted dn"
  define D where "D = D2U (digits dn)"
  have ok: "dn_ok dn" and A: "\<bar>?A\<bar> \<le> 999999999" and d39: "digits dn \<le> 39" and len: "length (lsu dn) = 13"
    using e by (auto simp: encodable_def DECNUMDIGITS_def)
  have D: "D2U (3 * int D) = D" by (simp add: D2U_eq)
  have D13: "D \<le> 13" using d39 ok by (simp add: D_def D2U_eq dn_ok_def nat_le_iff)
  have z: "\<not> (lsu dn ! 0 = 0 \<and> digits dn = 1)" using dn_ok_zero [OF ok] e(3) by simp
  obtain us where us: "decShiftToMost dn = Some (dn\<lparr>digits := 3 * int D, lsu := us\<rparr>)" "length us = 13"
      "units_ok (take D us)" "units_val (take D us) = aligned dn"
    using decShiftToMost_spec [OF ok e(3)] len by (auto simp: D_def aligned_def)
  have r: "exponent dn + digits dn - 1 = ?A" by (simp add: adjusted_def)
  have rng: "in_int32 (exponent dn + digits dn)" "in_int32 ?A" using in_range_adjusted [OF A] r by simp_all
  have l8: "8 \<le> length result" using buf by simp
  obtain s where s: "decInfinitePackExponent (word_of_int \<bar>?A\<bar>) ((0 \<le> ?A) \<noteq> ?neg)
        (result[0 := (if ?neg then 0x20 else 0x80)], \<lparr>pos = 0, free = 5\<rparr>) = Some s"
      "sink_holds s (sign_bits ?neg @ exp_code ?neg ?A)" "sink_room s = 8 * length result"
    using pack_exponent_part [OF A l8 refl] by blast
  have room: "8 * DECINF_MAXSIZE \<le> sink_room s" using s(3) buf by simp
  have rm: "sink_room (b, p) = 8 * length b" for b p by (simp add: sink_room_def)
  have abs: "(if ?A < 0 then - ?A else ?A) = \<bar>?A\<bar>" "(if 0 \<le> ?A then ?A else - ?A) = \<bar>?A\<bar>"
    "(?A < 0) = (\<not> 0 \<le> ?A)" by auto
  have l0: "0 < length result" "0 < length (lsu dn)" using buf len by auto
  show ?thesis
  proof (cases ?neg)
    case False
    have code: "number_code dn = sign_bits ?neg @ exp_code ?neg ?A @ declets (rev (dropWhile (\<lambda>u. u = 0) (base_units D (aligned dn))))"
      using False by (simp add: number_code_def mantissa_units_def D_def Let_def)
    have "\<exists>buf' p. decInfinitePackMantissa (dn\<lparr>digits := 3 * int D, lsu := us\<rparr>) s = Some (buf', p) \<and>
        sink_room (buf', p) = sink_room s \<and> take (pos p + 1) buf' = bits_bytes (number_code dn) \<and>
        pos p + 1 \<le> DECINF_MAXSIZE \<and> pos p + 1 = length (take (pos p + 1) buf')"
      unfolding code by (rule pack_mantissa_part [OF s(2) A room]) (use us D D13 in auto)
    then obtain buf' p where bp: "decInfinitePackMantissa (dn\<lparr>digits := 3 * int D, lsu := us\<rparr>) s = Some (buf', p)"
        "sink_room (buf', p) = sink_room s" "take (pos p + 1) buf' = bits_bytes (number_code dn)"
        "pos p + 1 \<le> DECINF_MAXSIZE" "pos p + 1 = length (take (pos p + 1) buf')"
      by blast
    have "decInfiniteFromNumber result dn = Some (pos p + 1, buf', dn\<lparr>digits := 3 * int D, lsu := us\<rparr>)"
      unfolding decInfiniteFromNumber_def r Let_def abs
      using False s us bp z rng l0 e(2) by auto
    then show ?thesis using bp s(3) rm by auto
  next
    case True
    have V: "units_val (take D us) \<noteq> 0" "aligned dn < 1000 ^ D" using us aligned_pos [OF ok e(3)] aligned_bounds(2) [OF ok e(3)] by (auto simp: D_def)
    let ?dn1 = "dn\<lparr>digits := 3 * int D, lsu := us\<rparr>"
    obtain vs where vs: "decInfiniteComplementMantissa ?dn1 = Some (?dn1\<lparr>lsu := vs\<rparr>)" "length vs = 13"
      "units_ok (take D vs)" "units_val (take D vs) = 1000 ^ D - aligned dn"
      using decInfiniteComplementMantissa_spec [of ?dn1 D] us D D13 V by auto
    have code: "number_code dn = sign_bits ?neg @ exp_code ?neg ?A @ declets (rev (dropWhile (\<lambda>u. u = 0) (base_units D (1000 ^ D - aligned dn))))"
      using True by (simp add: number_code_def mantissa_units_def D_def Let_def)
    have "\<exists>buf' p. decInfinitePackMantissa (?dn1\<lparr>lsu := vs\<rparr>) s = Some (buf', p) \<and>
        sink_room (buf', p) = sink_room s \<and> take (pos p + 1) buf' = bits_bytes (number_code dn) \<and>
        pos p + 1 \<le> DECINF_MAXSIZE \<and> pos p + 1 = length (take (pos p + 1) buf')"
      unfolding code by (rule pack_mantissa_part [OF s(2) A room]) (use vs D D13 in auto)
    then obtain buf' p where bp: "decInfinitePackMantissa (?dn1\<lparr>lsu := vs\<rparr>) s = Some (buf', p)"
        "sink_room (buf', p) = sink_room s" "take (pos p + 1) buf' = bits_bytes (number_code dn)"
        "pos p + 1 \<le> DECINF_MAXSIZE" "pos p + 1 = length (take (pos p + 1) buf')"
      by blast
    have "decInfiniteFromNumber result dn = Some (pos p + 1, buf', ?dn1\<lparr>lsu := vs\<rparr>)"
      unfolding decInfiniteFromNumber_def r Let_def abs
      using True s us vs bp z rng l0 e(2) by auto
    then show ?thesis using bp s(3) rm by auto
  qed
qed

lemma decInfiniteFromNumber_encode:
  assumes e: "encodable dn" and buf: "DECINF_MAXSIZE \<le> length result"
  shows "\<exists>result' dn'. decInfiniteFromNumber result dn = Some (length (encode dn), result', dn') \<and>
      length result' = length result \<and> take (length (encode dn)) result' = encode dn \<and> length (encode dn) \<le> DECINF_MAXSIZE"
proof -
  obtain b bs where result: "result = b # bs" using buf by (cases result) auto
  consider "decNumberIsSpecial dn" | "\<not> decNumberIsSpecial dn" "coeff dn = 0" | "\<not> decNumberIsSpecial dn" "coeff dn \<noteq> 0"
    by blast
  then show ?thesis
  proof cases
    case 1
    then show ?thesis by (simp add: decInfiniteFromNumber_def encode_def result)
  next
    case 2
    then have ok: "dn_ok dn" and l: "0 < length (lsu dn)" using e by (auto simp: encodable_def)
    then show ?thesis
      using 2 dn_ok_zero [OF ok] by (simp add: decInfiniteFromNumber_def encode_def result)
  next
    case 3
    then show ?thesis using decInfiniteFromNumber_number [OF e 3 buf] by (auto simp: encode_def)
  qed
qed

text \<open>The bytes the encoder leaves in a buffer.\<close>

definition blob :: "uByte list \<Rightarrow> decNumber \<Rightarrow> uByte list option" where
  "blob result dn = do { (n, result, dn) \<leftarrow> decInfiniteFromNumber result dn; Some (take n result) }"

lemma blob_encode: "encodable dn \<Longrightarrow> DECINF_MAXSIZE \<le> length result \<Longrightarrow> blob result dn = Some (encode dn)"
  using decInfiniteFromNumber_encode [of dn result] by (auto simp: blob_def)

text \<open>A number of two units for the witnesses: \<open>-199.8\<close>, and its positive twin.\<close>

definition sample :: "bool \<Rightarrow> decNumber" where
  "sample neg = \<lparr>digits = 4, exponent = - 1, bits = (if neg then DECNEG else 0), lsu = [998, 1] @ replicate 11 0\<rparr>"

lemma sample_simps [simp]:
  "coeff (sample neg) = 1998" "decNumberIsNegative (sample neg) = neg" "\<not> decNumberIsSpecial (sample neg)"
  "length (lsu (sample neg)) = 13"
  by (cases neg; simp add: sample_def coeff_def D2U_eq decNumberIsNegative_def decNumberIsSpecial_def)+

lemma encodable_sample: "encodable (sample neg)"
  by (cases neg) (simp_all add: sample_def encodable_def dn_ok_def coeff_def adjusted_def D2U_eq decNumberIsSpecial_def
      DECNUMDIGITS_def)

section \<open>Properties\<close>

text \<open>
  C17: the encoder is safe and writes the format.  For every number of the decNumber library that has
  at most 39 digits and an adjusted exponent within nine digits, \<^verbatim>\<open>decInfiniteFromNumber\<close> returns, never accesses memory
  outside a buffer of \<^verbatim>\<open>DECINF_MAXSIZE\<close> bytes nor outside the units of the number, and reports a size of at most
  \<^verbatim>\<open>DECINF_MAXSIZE\<close>; for a finite number other than zero the bytes are the sign and pad bits, the code of the exponent
  and the declets of the significand, and fewer than eight zero bits.
\<close>

theorem encoder_writes_format:
  assumes "encodable dn" "DECINF_MAXSIZE \<le> length result"
  shows "\<exists>n result' dn'. decInfiniteFromNumber result dn = Some (n, result', dn') \<and> 1 \<le> n \<and> n \<le> DECINF_MAXSIZE \<and>
    length result' = length result \<and>
    (\<not> decNumberIsSpecial dn \<and> coeff dn \<noteq> 0 \<longrightarrow>
      (\<exists>k < 8. bytes_bits (take n result') = number_code dn @ replicate k False))"
proof -
  obtain result' dn' where r: "decInfiniteFromNumber result dn = Some (length (encode dn), result', dn')"
      "length result' = length result" "take (length (encode dn)) result' = encode dn" "length (encode dn) \<le> DECINF_MAXSIZE"
    using decInfiniteFromNumber_encode [OF assms] by blast
  have "number_code dn \<noteq> []" by (simp add: number_code_def sign_bits_def)
  then have "1 \<le> length (encode dn)" by (simp add: encode_def bits_bytes.simps)
  moreover have "\<exists>k < 8. bytes_bits (encode dn) = number_code dn @ replicate k False"
    if "\<not> decNumberIsSpecial dn" "coeff dn \<noteq> 0"
    using that bytes_bits_bits_bytes by (simp add: encode_def)
  ultimately show ?thesis using r by (intro exI [of _ "length (encode dn)"] exI [of _ result'] exI [of _ dn']) simp
qed

theorem encoder_writes_format_witness:
  "\<exists>n result' dn'. decInfiniteFromNumber (replicate 24 0) (sample True) = Some (n, result', dn') \<and> 1 \<le> n \<and> n \<le> DECINF_MAXSIZE \<and>
    length result' = length (replicate 24 0 :: uByte list) \<and>
    (\<not> decNumberIsSpecial (sample True) \<and> coeff (sample True) \<noteq> 0 \<longrightarrow>
      (\<exists>k < 8. bytes_bits (take n result') = number_code (sample True) @ replicate k False))"
  using encoder_writes_format [OF encodable_sample, of "replicate 24 0" True] by simp

end
