(* ===== verification/Printing.thy ===== *)
theory Printing
  imports DecInfinite
begin

text \<open>
  The two textual forms of an encoded number (\<^verbatim>\<open>decInfinite.c\<close>): bytes in hexadecimal and bits in groups.  Both write into a
  buffer of the caller; a write outside it is \<open>None\<close>.
\<close>

section \<open>Hexadecimal\<close>

definition NUL :: char where "NUL = CHR 0x00"

definition hex_digits :: string where
  "hex_digits = ''0123456789abcdef''"

text \<open>\<^verbatim>\<open>sprintf(s, "%02x ", b)\<close>, with the terminator.\<close>

definition hex_text :: "uByte \<Rightarrow> string" where
  "hex_text b = [hex_digits ! unat (drop_bit 4 b), hex_digits ! unat (b AND 0x0F), CHR '' '', NUL]"

fun poke_list :: "'a list \<Rightarrow> nat \<Rightarrow> 'a list \<Rightarrow> 'a list option" where
  "poke_list m i [] = Some m"
| "poke_list m i (x # xs) = do { m \<leftarrow> poke m i x; poke_list m (i + 1) xs }"

fun hexLoop :: "nat \<Rightarrow> uByte list \<Rightarrow> string \<Rightarrow> string option" where
  "hexLoop i [] hexes = Some hexes"
| "hexLoop i (b # bs) hexes = do { hexes \<leftarrow> poke_list hexes (3 * i) (hex_text b); hexLoop (i + 1) bs hexes }"

definition decInfiniteToBytes :: "uByte list \<Rightarrow> string \<Rightarrow> string ret option" where
  "decInfiniteToBytes bytes hexes =
     (if length bytes > DECINF_MAXSIZE then Some Null
      else do {
        hexes \<leftarrow> hexLoop 0 bytes hexes;
        if length bytes = 0 then None
        else do { hexes \<leftarrow> poke hexes (3 * length bytes - 1) NUL; Some (Ret hexes) }
      })"

section \<open>Bits\<close>

text \<open>The characters are written one after the other: the state is the text so far, and \<open>cap\<close> is the size of the buffer.\<close>

definition putc :: "nat \<Rightarrow> string \<Rightarrow> char \<Rightarrow> string option" where
  "putc cap out c = (if length out < cap then Some (out @ [c]) else None)"

fun puts :: "nat \<Rightarrow> string \<Rightarrow> string \<Rightarrow> string option" where
  "puts cap out [] = Some out"
| "puts cap out (c # cs) = do { out \<leftarrow> putc cap out c; puts cap out cs }"

definition bit_char :: "uByte list \<Rightarrow> nat \<Rightarrow> char" where
  "bit_char bytes i = (if bit (bytes ! (i div 8)) (7 - i mod 8) then CHR ''1'' else CHR ''0'')"

definition test_char :: "uByte \<Rightarrow> uByte \<Rightarrow> char" where
  "test_char b m = (if b AND m \<noteq> 0 then CHR ''1'' else CHR ''0'')"

function unaryBits :: "nat \<Rightarrow> uByte list \<Rightarrow> char \<Rightarrow> string \<Rightarrow> nat \<Rightarrow> nat \<Rightarrow> (string \<times> nat \<times> nat) option" where
  "unaryBits cap bytes T out i count =
     (if i < 8 * length bytes \<and> bit_char bytes i = T then do {
        out \<leftarrow> putc cap out T;
        unaryBits cap bytes T out (i + 1) ((count + 1) mod 256)
      } else Some (out, i, count))"
  by auto
termination by (relation "measure (\<lambda>(cap, bytes, T, out, i, count). 8 * length bytes - i)") auto

function copyBits :: "nat \<Rightarrow> uByte list \<Rightarrow> string \<Rightarrow> nat \<Rightarrow> nat \<Rightarrow> (string \<times> nat \<times> nat) option" where
  "copyBits cap bytes out i count =
     (if i < 8 * length bytes \<and> count > 0 then do {
        out \<leftarrow> putc cap out (bit_char bytes i);
        copyBits cap bytes out (i + 1) (count - 1)
      } else Some (out, i, count))"
  by auto
termination by (relation "measure (\<lambda>(cap, bytes, out, i, count). 8 * length bytes - i)") auto

declare unaryBits.simps [simp del] copyBits.simps [simp del]

lemma copyBits_progress: "copyBits cap bytes out i n = Some (out', i', n') \<Longrightarrow> i \<le> i' \<and> (i < 8 * length bytes \<and> 0 < n \<longrightarrow> i < i')"
proof (induction cap bytes out i n rule: copyBits.induct)
  case (1 cap bytes out i count)
  show ?case
  proof (cases "i < 8 * length bytes \<and> 0 < count")
    case True
    then obtain o2 where o: "putc cap out (bit_char bytes i) = Some o2" "copyBits cap bytes o2 (i + 1) (count - 1) = Some (out', i', n')"
      using 1(2) by (subst (asm) copyBits.simps) (auto simp: bind_eq_Some_conv)
    then have "i + 1 \<le> i'" using 1(1) [OF True o] by simp
    then show ?thesis by simp
  next
    case False
    then show ?thesis using 1(2) by (subst (asm) copyBits.simps) (simp split: if_splits)
  qed
qed

function mantissaBits :: "nat \<Rightarrow> uByte list \<Rightarrow> string \<Rightarrow> nat \<Rightarrow> string option" where
  "mantissaBits cap bytes out i =
     (if i < 8 * length bytes then
        (case putc cap out (CHR '' '') of None \<Rightarrow> None
         | Some out \<Rightarrow> (case copyBits cap bytes out i 10 of None \<Rightarrow> None
           | Some (out, i', count) \<Rightarrow> mantissaBits cap bytes out i'))
      else Some out)"
  by auto
termination
  by (relation "measure (\<lambda>(cap, bytes, out, i). 8 * length bytes - i)") (auto dest!: copyBits_progress)

declare mantissaBits.simps [simp del]

definition decInfiniteToBits :: "uByte list \<Rightarrow> nat \<Rightarrow> string ret option" where
  "decInfiniteToBits bytes cap =
     (if length bytes > DECINF_MAXSIZE then Some Null
      else if decInfiniteIsSpecial bytes then do {
        out \<leftarrow> puts cap []
          (if bytes ! 0 = 0x00 then ''00 0 00000''
           else if bytes ! 0 = 0x20 then ''00 1 00000''
           else if bytes ! 0 = 0xC0 then ''11 0 00000''
           else if bytes ! 0 = 0xE0 then ''11 1 00000''
           else ''XX X XXXXX'');
        out' \<leftarrow> putc cap out NUL;
        Some (Ret out)
      }
      else do {
        b \<leftarrow> peek bytes 0;
        let T = test_char b 0x10;
        out \<leftarrow> puts cap [] [test_char b 0x80, test_char b 0x40, CHR '' '', test_char b 0x20, CHR '' '', T];
        (out, i, count) \<leftarrow> unaryBits cap bytes T out 4 1;
        if i \<ge> 8 * length bytes then do { out' \<leftarrow> putc cap out NUL; Some (Ret out) }
        else do {
          out \<leftarrow> putc cap out (bit_char bytes i);
          (out, i, count) \<leftarrow> copyBits cap bytes out (i + 1) count;
          out \<leftarrow> mantissaBits cap bytes out i;
          out' \<leftarrow> putc cap out NUL;
          Some (Ret out)
        }
      })"

section \<open>What is written\<close>

definition bits_text :: "uByte list \<Rightarrow> string" where
  "bits_text bytes = map (\<lambda>b. if b then CHR ''1'' else CHR ''0'') (bytes_bits bytes)"

lemma length_bits_text [simp]: "length (bits_text bytes) = 8 * length bytes"
  by (simp add: bits_text_def)

lemma bits_text_nth: "i < 8 * length bytes \<Longrightarrow> bits_text bytes ! i = bit_char bytes i"
  by (simp add: bits_text_def bit_char_def nth_bytes_bits)

lemma bits_text_drop: "i < 8 * length bytes \<Longrightarrow> drop i (bits_text bytes) = bit_char bytes i # drop (Suc i) (bits_text bytes)"
  using Cons_nth_drop_Suc [of i "bits_text bytes"] by (simp add: bits_text_nth)

lemma putc_room [simp]: "length out < cap \<Longrightarrow> putc cap out c = Some (out @ [c])"
  by (simp add: putc_def)

lemma puts_room [simp]: "length out + length cs \<le> cap \<Longrightarrow> puts cap out cs = Some (out @ cs)"
  by (induction cs arbitrary: out) auto

lemma copyBits_text:
  "i \<le> 8 * length bytes \<Longrightarrow> length out + min n (8 * length bytes - i) \<le> cap \<Longrightarrow>
   \<exists>n'. copyBits cap bytes out i n =
     Some (out @ take n (drop i (bits_text bytes)), min (i + n) (8 * length bytes), n')"
proof (induction cap bytes out i n rule: copyBits.induct)
  case (1 cap bytes out i count)
  show ?case
  proof (cases "i < 8 * length bytes \<and> 0 < count")
    case True
    then have p: "putc cap out (bit_char bytes i) = Some (out @ [bit_char bytes i])" using 1(3) by (intro putc_room) linarith
    have t: "take count (drop i (bits_text bytes)) = bit_char bytes i # take (count - 1) (drop (i + 1) (bits_text bytes))"
      using True by (cases count) (simp_all add: bits_text_drop)
    have "\<exists>n'. copyBits cap bytes (out @ [bit_char bytes i]) (i + 1) (count - 1) =
        Some ((out @ [bit_char bytes i]) @ take (count - 1) (drop (i + 1) (bits_text bytes)), min (i + 1 + (count - 1)) (8 * length bytes), n')"
      by (rule 1(1) [OF True p]) (use 1(3) True in auto)
    then show ?thesis using True p t by (subst copyBits.simps) simp
  next
    case False
    then show ?thesis using 1(2) by (subst copyBits.simps) auto
  qed
qed

lemma unaryBits_text:
  assumes "k = length (takeWhile (\<lambda>c. c = T) (drop i (bits_text bytes)))"
    and "i \<le> 8 * length bytes" "length out + (8 * length bytes - i) \<le> cap" "count + (8 * length bytes - i) < 256"
  shows "unaryBits cap bytes T out i count = Some (out @ take k (drop i (bits_text bytes)), i + k, count + k)"
  using assms
proof (induction cap bytes T out i count arbitrary: k rule: unaryBits.induct)
  case (1 cap bytes T out i count)
  show ?case
  proof (cases "i < 8 * length bytes \<and> bit_char bytes i = T")
    case True
    then have p: "putc cap out T = Some (out @ [T])" using 1(4) by (intro putc_room) linarith
    have "count + 1 < 256" using 1(5) True by linarith
    then have c256: "(count + 1) mod 256 = count + 1" by simp
    define k' where "k' = length (takeWhile (\<lambda>c. c = T) (drop (i + 1) (bits_text bytes)))"
    have k: "k = Suc k'" using True by (simp add: 1(2) k'_def bits_text_drop)
    have "unaryBits cap bytes T (out @ [T]) (i + 1) ((count + 1) mod 256) =
         Some ((out @ [T]) @ take k' (drop (i + 1) (bits_text bytes)), i + 1 + k', (count + 1) mod 256 + k')"
      by (rule 1(1) [OF True p k'_def]) (use 1(3-5) True c256 in auto)
    then show ?thesis
      using True p c256 by (subst unaryBits.simps) (auto simp: bits_text_drop k)
  next
    case False
    then have "k = 0" using 1(2) bits_text_drop [of i bytes] by (cases "i < 8 * length bytes") auto
    then show ?thesis using False by (subst unaryBits.simps) auto
  qed
qed

text \<open>The layout of the text: the groups of ten bits, each after a blank, and the fields before them.\<close>

function ten_groups :: "string \<Rightarrow> string" where
  "ten_groups t = (if t = [] then [] else CHR '' '' # take 10 t @ ten_groups (drop 10 t))"
  by auto
termination by (relation "measure length") auto

declare ten_groups.simps [simp del]

lemma ten_groups_Nil [simp]: "ten_groups [] = []"
  by (simp add: ten_groups.simps)

lemma length_ten_groups: "length (ten_groups t) = length t + (length t + 9) div 10"
proof (induction t rule: ten_groups.induct)
  case (1 t)
  show ?case
  proof (cases "t = []")
    case False
    define r where "r = length t"
    have r0: "0 < r" using False by (simp add: r_def)
    then have "(r + 9) div 10 = Suc ((r - min 10 r + 9) div 10)" by (cases "10 \<le> r") (auto simp: min_def le_div_geq)
    then show ?thesis
      using 1 [OF False] False by (subst ten_groups.simps) (auto simp: min_def simp flip: r_def)
  qed simp
qed

definition bits_layout :: "string \<Rightarrow> string" where
  "bits_layout t =
     (let e = drop 3 t; n = length (takeWhile (\<lambda>c. c = hd e) e)
      in take 2 t @ '' '' @ take 1 (drop 2 t) @ '' '' @ take (2 * n + 1) e @ ten_groups (drop (2 * n + 1) e))"

lemma mantissaBits_text:
  "i \<le> 8 * length bytes \<Longrightarrow> length out + length (ten_groups (drop i (bits_text bytes))) \<le> cap \<Longrightarrow>
   mantissaBits cap bytes out i = Some (out @ ten_groups (drop i (bits_text bytes)))"
proof (induction cap bytes out i rule: mantissaBits.induct)
  case (1 cap bytes out i)
  let ?t = "drop i (bits_text bytes)"
  show ?case
  proof (cases "i < 8 * length bytes")
    case False
    then show ?thesis using 1(2) by (subst mantissaBits.simps) simp
  next
    case True
    then have t: "ten_groups ?t = CHR '' '' # take 10 ?t @ ten_groups (drop 10 ?t)" by (subst ten_groups.simps) simp
    have room: "length out + 1 + length (take 10 ?t) + length (ten_groups (drop 10 ?t)) \<le> cap" using 1(3) unfolding t by simp
    have p: "putc cap out (CHR '' '') = Some (out @ '' '')" using room by simp
    have c1: "length (out @ '' '') + min 10 (8 * length bytes - i) \<le> cap" using room by (simp add: min.commute)
    obtain n' where c: "copyBits cap bytes (out @ '' '') i 10 =
        Some ((out @ '' '') @ take 10 ?t, min (i + 10) (8 * length bytes), n')"
      using copyBits_text [OF 1(2) c1] by blast
    let ?i = "min (i + 10) (8 * length bytes)"
    have d: "drop ?i (bits_text bytes) = drop 10 ?t"
      by (cases "i + 10 \<le> 8 * length bytes") (simp_all add: min_def add.commute)
    have "mantissaBits cap bytes ((out @ '' '') @ take 10 ?t) ?i =
        Some (((out @ '' '') @ take 10 ?t) @ ten_groups (drop ?i (bits_text bytes)))"
      by (rule 1(1) [OF True p c refl refl]) (use room in \<open>simp_all add: d\<close>)
    then show ?thesis using True p c by (subst mantissaBits.simps) (simp add: t d)
  qed
qed

lemma bits_text_first:
  assumes "bytes \<noteq> []"
  shows "bits_text bytes = [test_char (bytes ! 0) 0x80, test_char (bytes ! 0) 0x40, test_char (bytes ! 0) 0x20, test_char (bytes ! 0) 0x10] @
    drop 4 (bits_text bytes)"
proof -
  have l: "i < 8 * length bytes" if "i < 4" for i using that assms by (cases bytes) auto
  have c: "bit_char bytes 0 = test_char (bytes ! 0) 0x80" "bit_char bytes 1 = test_char (bytes ! 0) 0x40"
    "bit_char bytes 2 = test_char (bytes ! 0) 0x20" "bit_char bytes 3 = test_char (bytes ! 0) 0x10"
    by (simp_all add: bit_char_def test_char_def and_byte_tests)
  have "bits_text bytes = drop 0 (bits_text bytes)" by simp
  also have "\<dots> = bit_char bytes 0 # bit_char bytes 1 # bit_char bytes 2 # bit_char bytes 3 # drop 4 (bits_text bytes)"
    using l bits_text_drop [of 0 bytes] bits_text_drop [of 1 bytes] bits_text_drop [of 2 bytes] bits_text_drop [of 3 bytes]
    using assms by (simp add: eval_nat_numeral)
  finally show ?thesis by (simp add: c [unfolded One_nat_def])
qed

lemma decInfiniteToBits_special:
  assumes "decInfiniteIsSpecial bytes" "11 \<le> cap"
  shows "decInfiniteToBits bytes cap = Some (Ret (bits_layout (bits_text bytes)))"
proof -
  obtain b where b: "bytes = [b]" using assms(1) by (cases bytes) (auto simp: decInfiniteIsSpecial_def)
  have t: "bits_layout (bits_text [0x00]) = ''00 0 00000''" "bits_layout (bits_text [0x20]) = ''00 1 00000''"
    "bits_layout (bits_text [0xC0]) = ''11 0 00000''" "bits_layout (bits_text [0xE0]) = ''11 1 00000''"
    by code_simp+
  show ?thesis
    using assms t by (auto simp: decInfiniteToBits_def b decInfiniteIsSpecial_def)
qed

lemma decInfiniteToBits_number:
  assumes ne: "bytes \<noteq> []" and len: "length bytes \<le> DECINF_MAXSIZE" and sp: "\<not> decInfiniteIsSpecial bytes" and cap: "215 \<le> cap"
  shows "decInfiniteToBits bytes cap = Some (Ret (bits_layout (bits_text bytes)))"
proof -
  let ?N = "8 * length bytes" and ?b = "bytes ! 0" and ?t = "bits_text bytes"
  define T where "T = test_char ?b 0x10"
  define o1 where "o1 = [test_char ?b 0x80, test_char ?b 0x40, CHR '' '', test_char ?b 0x20, CHR '' '', T]"
  define k where "k = length (takeWhile (\<lambda>c. c = T) (drop 4 ?t))"
  have N: "8 \<le> ?N" "?N \<le> 192" using ne len by (cases bytes, auto)
  have t4: "?t = [test_char ?b 0x80, test_char ?b 0x40, test_char ?b 0x20, T] @ drop 4 ?t"
    unfolding T_def by (rule bits_text_first [OF ne])
  have t3: "drop 3 ?t = T # drop 4 ?t" by (subst t4) simp
  have fields: "take 2 ?t = [test_char ?b 0x80, test_char ?b 0x40]" "take 1 (drop 2 ?t) = [test_char ?b 0x20]"
    by (subst t4, simp)+
  have lay: "bits_layout ?t = o1 @ take (2 * k + 2) (drop 4 ?t) @ ten_groups (drop (2 * k + 2) (drop 4 ?t))"
    unfolding bits_layout_def Let_def fields unfolding t3 o1_def by (simp add: k_def)
  have l1: "length o1 = 6" by (simp add: o1_def)
  have p: "puts cap [] [test_char ?b 0x80, test_char ?b 0x40, CHR '' '', test_char ?b 0x20, CHR '' '', T] = Some o1"
    unfolding o1_def by (subst puts_room) (use cap in simp_all)
  have pk: "peek bytes 0 = Some ?b" using ne by simp
  have kN: "k \<le> ?N - 4" unfolding k_def using length_takeWhile_le [of _ "drop 4 ?t"] by simp
  have u: "unaryBits cap bytes T o1 4 1 = Some (o1 @ take k (drop 4 ?t), 4 + k, 1 + k)"
    by (rule unaryBits_text [OF k_def]) (use N cap l1 in linarith)+
  let ?o2 = "o1 @ take k (drop 4 ?t)" and ?i = "4 + k"
  have l2: "length ?o2 = 6 + k" using kN l1 by simp
  have unf: "decInfiniteToBits bytes cap = (if ?i \<ge> ?N then do { out' \<leftarrow> putc cap ?o2 NUL; Some (Ret ?o2) }
      else do {
          out \<leftarrow> putc cap ?o2 (bit_char bytes ?i);
          (out, i, count) \<leftarrow> copyBits cap bytes out (?i + 1) (1 + k);
          out \<leftarrow> mantissaBits cap bytes out i;
          out' \<leftarrow> putc cap out NUL;
          Some (Ret out)
        })"
    unfolding decInfiniteToBits_def Let_def pk bind.bind_lunit T_def [symmetric] p u using len sp by simp
  show ?thesis
  proof (cases "?i \<ge> ?N")
    case True
    then have "take (2 * k + 2) (drop 4 ?t) = take k (drop 4 ?t)" "drop (2 * k + 2) (drop 4 ?t) = []" by simp_all
    then have "bits_layout ?t = ?o2" unfolding lay by simp
    moreover have "putc cap ?o2 NUL = Some (?o2 @ [NUL])" using l2 kN N cap by (intro putc_room) linarith
    ultimately show ?thesis using True unfolding unf by simp
  next
    case False
    let ?o3 = "?o2 @ [bit_char bytes ?i]" and ?r = "drop (2 * k + 2) (drop 4 ?t)"
    define o4 j where "o4 = ?o3 @ take (1 + k) (drop (?i + 1) ?t)" and "j = min (?i + 1 + (1 + k)) ?N"
    have i: "?i < ?N" "?i + 1 \<le> ?N" using False by simp_all
    have "take (2 * k + 2) (drop 4 ?t) = take k (drop 4 ?t) @ take (k + 2) (drop ?i ?t)"
      using take_add [of k "k + 2" "drop 4 ?t"] by (simp add: add.commute mult_2)
    also have "take (k + 2) (drop ?i ?t) = bit_char bytes ?i # take (1 + k) (drop (?i + 1) ?t)"
      using bits_text_drop [OF i(1)] by simp
    finally have o4: "o4 = o1 @ take (2 * k + 2) (drop 4 ?t)" by (simp add: o4_def)
    have dj: "drop j ?t = ?r" using i by (auto simp: j_def min_def algebra_simps)
    have jN: "j \<le> ?N" "5 \<le> j" using i by (auto simp: j_def)
    have l4: "length o4 = j + 2" using i l1 unfolding o4 j_def by (auto simp: min_def)
    have lr: "length (ten_groups ?r) = (?N - j) + (?N - j + 9) div 10"
      unfolding length_ten_groups dj [symmetric] by simp
    have "(?N - j + 9) div 10 \<le> (187 + 9) div 10" using jN N by (intro div_le_mono) linarith
    then have room: "length o4 + length (ten_groups ?r) < cap" using l4 lr jN N cap by simp
    have p3: "putc cap ?o2 (bit_char bytes ?i) = Some ?o3" using l2 False N cap by (intro putc_room) linarith
    have "length ?o3 + min (1 + k) (?N - (?i + 1)) \<le> cap" using l2 False N cap by simp
    then obtain n' where c: "copyBits cap bytes ?o3 (?i + 1) (1 + k) = Some (o4, j, n')"
      using copyBits_text [OF i(2)] unfolding o4_def j_def by blast
    have m: "mantissaBits cap bytes o4 j = Some (o4 @ ten_groups ?r)"
      using mantissaBits_text [OF jN(1), of o4 cap] room unfolding dj by simp
    have "putc cap (o4 @ ten_groups ?r) NUL = Some ((o4 @ ten_groups ?r) @ [NUL])" using room by (intro putc_room) simp
    moreover have "bits_layout ?t = o4 @ ten_groups ?r" unfolding lay o4 by simp
    ultimately show ?thesis using False p3 c m unfolding unf by simp
  qed
qed

text \<open>The blanks are the only characters that are not bits of the encoding.\<close>

definition no_blanks :: "string \<Rightarrow> string" where
  "no_blanks = filter (\<lambda>c. c \<noteq> CHR '' '')"

lemma no_blanks_id: "CHR '' '' \<notin> set t \<Longrightarrow> no_blanks t = t"
  by (induction t) (auto simp: no_blanks_def)

lemma no_blanks_append: "no_blanks (xs @ ys) = no_blanks xs @ no_blanks ys" "no_blanks (CHR '' '' # xs) = no_blanks xs" "no_blanks [] = []"
  by (simp_all add: no_blanks_def)

lemma no_blanks_groups: "CHR '' '' \<notin> set t \<Longrightarrow> no_blanks (ten_groups t) = t"
proof (induction t rule: ten_groups.induct)
  case (1 t)
  show ?case
  proof (cases "t = []")
    case False
    have b: "CHR '' '' \<notin> set (take 10 t)" "CHR '' '' \<notin> set (drop 10 t)" using 1(2) by (auto dest: in_set_takeD in_set_dropD)
    then show ?thesis
      using 1(1) [OF False b(2)] False by (subst ten_groups.simps) (simp add: no_blanks_append no_blanks_id)
  qed (simp add: no_blanks_append)
qed

lemma no_blanks_layout: "CHR '' '' \<notin> set t \<Longrightarrow> no_blanks (bits_layout t) = t"
proof -
  assume "CHR '' '' \<notin> set t"
  then have b: "CHR '' '' \<notin> set (take n (drop m t))" "CHR '' '' \<notin> set (drop m t)" "CHR '' '' \<notin> set (take n t)" for n m
    by (auto dest: in_set_takeD in_set_dropD)
  then have f: "no_blanks (take n (drop m t)) = take n (drop m t)" "no_blanks (take n t) = take n t" for n m
    by (blast intro: no_blanks_id)+
  define n where "n = 2 * length (takeWhile (\<lambda>c. c = hd (drop 3 t)) (drop 3 t)) + 1"
  have g: "no_blanks (ten_groups (drop n (drop 3 t))) = drop n (drop 3 t)"
    by (rule no_blanks_groups) (use b(2) [of "n + 3"] in \<open>simp add: add.commute\<close>)
  have "no_blanks (bits_layout t) = take 2 t @ take 1 (drop 2 t) @ take n (drop 3 t) @ drop n (drop 3 t)"
    unfolding bits_layout_def Let_def n_def [symmetric] no_blanks_append f g by simp
  also have "\<dots> = take 2 t @ take 1 (drop 2 t) @ drop 3 t" by (simp only: append_take_drop_id)
  also have "\<dots> = take 2 t @ drop 2 t"
    using append_take_drop_id [of 1 "drop 2 t"] by (simp add: numeral_3_eq_3)
  also have "\<dots> = t" by (rule append_take_drop_id)
  finally show ?thesis .
qed

lemma bits_text_no_blank: "CHR '' '' \<notin> set (bits_text bytes)"
  by (auto simp: bits_text_def split: if_splits)

section \<open>Hexadecimal text\<close>

lemma poke_list_room: "i + length xs \<le> length m \<Longrightarrow> poke_list m i xs = Some (take i m @ xs @ drop (i + length xs) m)"
proof (induction xs arbitrary: i m)
  case (Cons x xs)
  then have "poke_list m i (x # xs) = Some (take (Suc i) (m[i := x]) @ xs @ drop (Suc i + length xs) (m[i := x]))"
    by simp
  moreover have "take (Suc i) (m[i := x]) = take i m @ [x]" using Cons.prems by (simp add: take_Suc_conv_app_nth)
  ultimately show ?case by simp
qed simp

definition hex_pair :: "uByte \<Rightarrow> string" where
  "hex_pair b = [hex_digits ! unat (drop_bit 4 b), hex_digits ! unat (b AND 0x0F)]"

lemma hexLoop_text:
  "3 * i + 3 * length bs + 1 \<le> length m \<Longrightarrow>
   \<exists>m'. hexLoop i bs m = Some m' \<and> length m' = length m \<and>
     take (3 * i + 3 * length bs) m' = take (3 * i) m @ concat (map (\<lambda>b. hex_pair b @ '' '') bs)"
proof (induction bs arbitrary: i m)
  case (Cons b bs)
  have l4: "length (hex_text b) = 4" by (simp add: hex_text_def)
  have p: "poke_list m (3 * i) (hex_text b) = Some (take (3 * i) m @ hex_text b @ drop (3 * i + 4) m)"
    using poke_list_room [of "3 * i" "hex_text b" m] Cons.prems l4 by simp
  let ?m = "take (3 * i) m @ hex_text b @ drop (3 * i + 4) m"
  have lm: "length ?m = length m" using Cons.prems l4 by simp
  have tm: "take (3 * (i + 1)) ?m = take (3 * i) m @ hex_pair b @ '' ''"
    using Cons.prems by (simp add: hex_text_def hex_pair_def)
  have "3 * (i + 1) + 3 * length bs + 1 \<le> length ?m" unfolding lm using Cons.prems by simp
  then obtain m' where m': "hexLoop (i + 1) bs ?m = Some m'" "length m' = length ?m"
      "take (3 * (i + 1) + 3 * length bs) m' = take (3 * (i + 1)) ?m @ concat (map (\<lambda>b. hex_pair b @ '' '') bs)"
    using Cons.IH by blast
  have n: "3 * i + 3 * length (b # bs) = 3 * (i + 1) + 3 * length bs" by simp
  have "take (3 * i + 3 * length (b # bs)) m' = take (3 * i) m @ concat (map (\<lambda>b. hex_pair b @ '' '') (b # bs))"
    unfolding n m'(3) tm by simp
  moreover have "hexLoop i (b # bs) m = Some m'" unfolding hexLoop.simps p bind.bind_lunit by (rule m'(1))
  moreover have "length m' = length m" unfolding m'(2) by (rule lm)
  ultimately show ?case by (intro exI [of _ m'] conjI)
qed simp

text \<open>The text in a buffer ends at the first terminator.\<close>

definition c_string :: "string \<Rightarrow> string" where
  "c_string m = takeWhile (\<lambda>c. c \<noteq> NUL) m"

lemma hex_pair_chars: "c \<in> set (hex_pair b) \<Longrightarrow> c \<noteq> NUL"
proof -
  have "list_all (\<lambda>c. c \<noteq> NUL) hex_digits" by code_simp
  moreover have "unat (drop_bit 4 b) < 16" using unsigned_less [of b, where 'a = nat]
    unfolding unat_drop_bit_eq drop_bit_eq_div [where 'a = nat] by simp
  moreover have "unat (b AND 0x0F) < 16" using word_and_le1 [of b "0x0F"] by (simp add: word_le_nat_alt)
  moreover have "length hex_digits = 16" by (simp add: hex_digits_def)
  ultimately show "c \<in> set (hex_pair b) \<Longrightarrow> c \<noteq> NUL" by (auto simp: hex_pair_def list_all_length)
qed

section \<open>Properties\<close>

text \<open>
  C33: the text of the bits.  For every byte string of 1 to 24 bytes, \<^verbatim>\<open>decInfiniteToBits\<close> stays inside the buffer that
  its caller allocates (217 bytes).  Its text is two bits, a blank, one bit, a blank, the bits of the exponent (a run of \<open>n\<close> equal bits,
  the bit that ends it and \<open>n\<close> more), and the rest of the bits in groups of ten with a blank before each group.  Without its blanks
  the text is the bits of the string.
\<close>

theorem bits_text_faithful:
  assumes "bytes \<noteq> []" "length bytes \<le> DECINF_MAXSIZE" "9 * DECINF_MAXSIZE + 1 \<le> cap"
  shows "decInfiniteToBits bytes cap = Some (Ret (bits_layout (bits_text bytes))) \<and> no_blanks (bits_layout (bits_text bytes)) = bits_text bytes"
  using decInfiniteToBits_special [of bytes cap] decInfiniteToBits_number [of bytes cap] no_blanks_layout [OF bits_text_no_blank] assms
  by fastforce

theorem bits_text_faithful_witness:
  "decInfiniteToBits [0x90, 0x64] 217 = Some (Ret ''10 0 100 0001100100'') \<and> no_blanks ''10 0 100 0001100100'' = ''1001000001100100''"
proof -
  have t: "bits_text [0x90, 0x64] = ''1001000001100100''" "bits_layout ''1001000001100100'' = ''10 0 100 0001100100''"
    by code_simp+
  show ?thesis using bits_text_faithful [of "[0x90, 0x64]" 217] unfolding t by simp
qed

text \<open>
  C34: the text of the bytes.  In a buffer with room for one byte more than three times the length,
  \<^verbatim>\<open>decInfiniteToBytes\<close> leaves the bytes as pairs of hexadecimal digits separated by blanks.
\<close>

theorem hex_text_faithful:
  assumes "bytes \<noteq> []" "length bytes \<le> DECINF_MAXSIZE" "3 * length bytes + 1 \<le> length hexes"
  shows "\<exists>m. decInfiniteToBytes bytes hexes = Some (Ret m) \<and>
    c_string m = concat (map (\<lambda>b. hex_pair b @ '' '') (butlast bytes)) @ hex_pair (last bytes)"
proof -
  let ?n = "3 * length bytes"
  obtain m where m: "hexLoop 0 bytes hexes = Some m" "length m = length hexes"
      "take ?n m = concat (map (\<lambda>b. hex_pair b @ '' '') bytes)"
    using hexLoop_text [of 0 bytes hexes] assms(3) by auto
  let ?t = "concat (map (\<lambda>b. hex_pair b @ '' '') (butlast bytes)) @ hex_pair (last bytes)"
  have "map (\<lambda>b. hex_pair b @ '' '') bytes = map (\<lambda>b. hex_pair b @ '' '') (butlast bytes) @ [hex_pair (last bytes) @ '' '']"
    using assms(1) by (cases bytes rule: rev_cases) simp_all
  then have t: "take ?n m = ?t @ '' ''" using m(3) by simp
  have n: "?n - 1 < length m" "0 < ?n" using m(2) assms by (auto intro: less_le_trans)
  have lt: "length ?t = ?n - 1" using arg_cong [OF t, of length] m(2) assms(3) by simp
  have tm: "take (?n - 1) m = ?t" using arg_cong [OF t, of "take (?n - 1)"] lt n by (simp add: min_def)
  have "m[?n - 1 := NUL] = ?t @ NUL # drop ?n m"
    using n tm by (simp add: upd_conv_take_nth_drop)
  moreover have "c \<noteq> NUL" if "c \<in> set ?t" for c
    using that hex_pair_chars by (auto simp: NUL_def split: if_splits)
  then have "c_string (?t @ NUL # drop ?n m) = ?t"
    unfolding c_string_def by (subst takeWhile_append2) auto
  ultimately show ?thesis using m(1) assms n by (simp add: decInfiniteToBytes_def)
qed

theorem hex_text_faithful_witness:
  "\<exists>m. decInfiniteToBytes [0x90, 0x64] (replicate 72 NUL) = Some (Ret m) \<and>
    c_string m = concat (map (\<lambda>b. hex_pair b @ '' '') (butlast [0x90, 0x64])) @ hex_pair (last [0x90, 0x64])"
  by (rule hex_text_faithful) simp_all

section \<open>Deviations\<close>

text \<open>
  The buffer of \<^verbatim>\<open>decimalBytes\<close> has 72 bytes, which is what \<^verbatim>\<open>decInfinite.h\<close> asks for; but the terminator that \<^verbatim>\<open>sprintf\<close> writes after the
  last blank of a 24-byte encoding is the 73rd.  An empty string makes both functions access memory they do not own.
\<close>

lemma poke_list_out: "length m < i + length xs \<Longrightarrow> xs \<noteq> [] \<Longrightarrow> poke_list m i xs = None"
proof (induction xs arbitrary: i m)
  case (Cons x xs)
  then show ?case by (cases "i < length m"; cases xs) auto
qed simp

lemma hexLoop_overflow: "length m < 3 * i + 3 * length bs + 1 \<Longrightarrow> bs \<noteq> [] \<Longrightarrow> hexLoop i bs m = None"
proof (induction bs arbitrary: i m)
  case (Cons b bs)
  have l4: "length (hex_text b) = 4" "hex_text b \<noteq> []" by (simp_all add: hex_text_def)
  show ?case
  proof (cases "length m < 3 * i + 4")
    case True
    then show ?thesis using poke_list_out [of m "3 * i" "hex_text b"] l4 by simp
  next
    case False
    then have "poke_list m (3 * i) (hex_text b) = Some (take (3 * i) m @ hex_text b @ drop (3 * i + 4) m)"
      using poke_list_room [of "3 * i" "hex_text b" m] l4 by simp
    moreover have "bs \<noteq> []" using False Cons.prems by auto
    ultimately show ?thesis using Cons.IH [of "take (3 * i) m @ hex_text b @ drop (3 * i + 4) m" "i + 1"] Cons.prems l4 False by simp
  qed
qed simp

lemma hex_buffer_overflow:
  "length bytes = DECINF_MAXSIZE \<Longrightarrow> length hexes = 3 * DECINF_MAXSIZE \<Longrightarrow> decInfiniteToBytes bytes hexes = None"
  using hexLoop_overflow [of hexes 0 bytes] by (cases bytes) (auto simp: decInfiniteToBytes_def)

lemma empty_text_outside: "decInfiniteToBytes [] hexes = None" "decInfiniteToBits [] cap = None"
  by (simp_all add: decInfiniteToBytes_def decInfiniteToBits_def decInfiniteIsSpecial_def)

end
