(* ===== verification/UnitArith.thy ===== *)
theory UnitArith
  imports DecContext DecNumber
begin

text \<open>
  Arithmetic on arrays of units (\<^verbatim>\<open>decNumber.c\<close>): counting digits, shifting towards the most and the least significant end,
  adding a multiple of an array to another, and comparing arrays.  The arrays are lists; an access outside one is \<open>None\<close>.
\<close>

section \<open>Counting digits\<close>

fun digitsFrom :: "Unit list \<Rightarrow> nat \<Rightarrow> int \<Rightarrow> int option" where
  "digitsFrom uar 0 d = Some d"
| "digitsFrom uar (Suc up) d = do {
     u \<leftarrow> peek uar up;
     if u = 0 then (if d = 1 then Some d else digitsFrom uar up (d - 3))
     else if u < 10 then Some d
     else if u < 100 then Some (d + 1)
     else Some (d + 2)
   }"

definition decGetDigits :: "Unit list \<Rightarrow> nat \<Rightarrow> int option" where
  "decGetDigits uar len = digitsFrom uar len ((int len - 1) * 3 + 1)"

section \<open>Shifting\<close>

abbreviation pow10 :: "nat \<Rightarrow> uInt" where
  "pow10 n \<equiv> DECPOWERS ! n"

text \<open>The two loops of \<^verbatim>\<open>decShiftToMost\<close> run from the source unit \<open>s - 1\<close> down to \<open>0\<close>; the target is \<open>k\<close> units above.\<close>

fun moveUnits :: "nat \<Rightarrow> Unit list \<Rightarrow> nat \<Rightarrow> Unit list option" where
  "moveUnits k uar 0 = Some uar"
| "moveUnits k uar (Suc s) = do { u \<leftarrow> peek uar s; uar \<leftarrow> poke uar (s + k) u; moveUnits k uar s }"

fun sliceUnits :: "nat \<Rightarrow> nat \<Rightarrow> nat \<Rightarrow> uInt \<Rightarrow> Unit list \<Rightarrow> nat \<Rightarrow> (uInt \<times> Unit list) option" where
  "sliceUnits k first ct nxt uar 0 = Some (nxt, uar)"
| "sliceUnits k first ct nxt uar (Suc s) = do {
     u \<leftarrow> peek uar s;
     let quot = QUOT10 u ct;
     let rem = ucast u - quot * pow10 ct;
     let nxt = nxt + quot;
     uar \<leftarrow> (if s + k \<le> first then poke uar (s + k) (ucast nxt) else Some uar);
     sliceUnits k first ct (rem * pow10 (3 - ct)) uar s
   }"

fun clearUnits :: "uInt \<Rightarrow> Unit list \<Rightarrow> nat \<Rightarrow> Unit list option" where
  "clearUnits nxt uar 0 = Some uar"
| "clearUnits nxt uar (Suc t) = do { uar \<leftarrow> poke uar t (ucast nxt); clearUnits 0 uar t }"

definition dnShiftToMost :: "Unit list \<Rightarrow> int \<Rightarrow> int \<Rightarrow> (int \<times> Unit list) option" where
  "dnShiftToMost uar d shift =
     (if shift = 0 then Some (d, uar)
      else if d + shift \<le> 3 then do {
        u \<leftarrow> peek uar 0;
        uar \<leftarrow> poke uar 0 (ucast (ucast u * pow10 (nat shift)));
        Some (d + shift, uar)
      }
      else do {
        let k = D2U shift;
        let ct = nat (3 - MSUDIGITS shift);
        (nxt, uar) \<leftarrow>
          (if ct = 0 then do { uar \<leftarrow> moveUnits k uar (D2U d); Some (0, uar) }
           else sliceUnits k (D2U (d + shift) - 1) ct 0 uar (D2U d));
        uar \<leftarrow> clearUnits nxt uar k;
        Some (d + shift, uar)
      })"

text \<open>
  The shift-copy loop of \<^verbatim>\<open>decShiftToLeast\<close> and \<^verbatim>\<open>decSetCoeff\<close>: \<open>quot\<close> holds the high digits of the source unit \<open>up\<close>; each round writes
  the target unit \<open>t\<close>.  The source may be the target array itself: it is then read above the units written so far, so that the
  loop sees the original units.
\<close>

function shiftCopy :: "Unit list \<Rightarrow> nat \<Rightarrow> uInt \<Rightarrow> nat \<Rightarrow> int \<Rightarrow> Unit list \<Rightarrow> nat \<Rightarrow> (nat \<times> Unit list) option" where
  "shiftCopy src ct quot up count uar t =
     (case poke uar t (ucast quot) of None \<Rightarrow> None
      | Some uar \<Rightarrow>
        if count - (3 - int ct) \<le> 0 then Some (t, uar)
        else (case peek src (up + 1) of None \<Rightarrow> None
          | Some u \<Rightarrow>
            let q = QUOT10 u ct; rem = ucast u - q * pow10 ct;
                uar = uar[t := ucast (ucast (uar ! t) + rem * pow10 (3 - ct))]
            in if count - 3 \<le> 0 then Some (t, uar)
               else shiftCopy src ct q (up + 1) (count - 3) uar (t + 1)))"
  by auto
termination by (relation "measure (\<lambda>(src, ct, quot, up, count, uar, t). nat count)") auto

declare shiftCopy.simps [simp del]

fun copyUnits :: "Unit list \<Rightarrow> nat \<Rightarrow> Unit list \<Rightarrow> nat \<Rightarrow> nat \<Rightarrow> Unit list option" where
  "copyUnits src up uar t 0 = Some uar"
| "copyUnits src up uar t (Suc n) = do { u \<leftarrow> peek src up; uar \<leftarrow> poke uar t u; copyUnits src (up + 1) uar (t + 1) n }"

definition decShiftToLeast :: "Unit list \<Rightarrow> nat \<Rightarrow> int \<Rightarrow> (nat \<times> Unit list) option" where
  "decShiftToLeast uar units shift =
     (if shift = 0 then Some (units, uar)
      else if shift = int units * 3 then do { uar \<leftarrow> poke uar 0 0; Some (1, uar) }
      else do {
        let ct = nat (MSUDIGITS shift);
        if ct = 3 then do {
          let n = units - D2U shift;
          uar \<leftarrow> copyUnits uar (D2U shift) uar 0 n;
          Some (n, uar)
        }
        else do {
          let up = D2U (shift - int ct);
          u \<leftarrow> peek uar up;
          (t, uar) \<leftarrow> shiftCopy uar ct (QUOT10 u ct) up (int units * 3 - shift) uar 0;
          Some (t + 1, uar)
        }
      })"

text \<open>\<^verbatim>\<open>decReverse\<close>: the units from \<open>lo\<close> to \<open>hi\<close>, inclusive, are reversed in place.\<close>

function decReverse :: "Unit list \<Rightarrow> int \<Rightarrow> int \<Rightarrow> Unit list option" where
  "decReverse uar lo hi =
     (if lo < hi then do {
        a \<leftarrow> peek uar (nat lo);
        b \<leftarrow> peek uar (nat hi);
        uar \<leftarrow> poke uar (nat lo) b;
        uar \<leftarrow> poke uar (nat hi) a;
        decReverse uar (lo + 1) (hi - 1)
      } else Some uar)"
  by auto
termination by (relation "measure (\<lambda>(uar, lo, hi). nat (hi - lo))") auto

declare decReverse.simps [simp del]

section \<open>Adding and subtracting\<close>

text \<open>The new unit and the carry of one place.  The source has this code twice, for units of both arrays and of one.\<close>

definition carryStep :: "int \<Rightarrow> Unit \<times> int" where
  "carryStep carry =
     (if 0 \<le> carry \<and> carry \<le> 999 then (of_int carry, 0)
      else if carry \<ge> 0 then
        (let est = (carry div 2 ^ 3 * 16777) mod 2 ^ 32 div 2 ^ 21;
             c = of_int (carry - est * 1000)
         in if c < 1000 then (c, est) else (c - 1000, est + 1))
      else
        (let carry = carry + 1000 * 1000;
             est = (carry div 2 ^ 3 * 16777) mod 2 ^ 32 div 2 ^ 21;
             c = of_int (carry - est * 1000)
         in if c < 1000 then (c, est - 1000) else (c - 1000, est - 1000 + 1)))"

fun addSubUnits :: "Unit list \<Rightarrow> Unit list \<Rightarrow> int \<Rightarrow> int \<Rightarrow> Unit list \<times> int" where
  "addSubUnits [] [] m carry = ([], carry)"
| "addSubUnits (x # a) (y # b) m carry =
     (let (c, carry) = carryStep (carry + uint x + uint y * m); (cs, carry) = addSubUnits a b m carry in (c # cs, carry))"
| "addSubUnits (x # a) [] m carry =
     (let (c, carry) = carryStep (carry + uint x); (cs, carry) = addSubUnits a [] m carry in (c # cs, carry))"
| "addSubUnits [] (y # b) m carry =
     (let (c, carry) = carryStep (carry + uint y * m); (cs, carry) = addSubUnits [] b m carry in (c # cs, carry))"

fun complementUnits :: "Unit list \<Rightarrow> int \<Rightarrow> Unit list \<times> int" where
  "complementUnits [] add = ([], add)"
| "complementUnits (c # cs) add =
     (let add = 999 + add - uint c in
      if add \<le> 999 then (let (cs, r) = complementUnits cs 0 in (of_int add # cs, r))
      else (let (cs, r) = complementUnits cs 1 in (0 # cs, r)))"

text \<open>
  The result is the list of units written to \<^verbatim>\<open>C\<close> and whether the returned count is negative.  The operands are the units in use,
  which are read before the unit of \<^verbatim>\<open>C\<close> at their place is written.
\<close>

definition decUnitAddSub :: "Unit list \<Rightarrow> Unit list \<Rightarrow> nat \<Rightarrow> int \<Rightarrow> Unit list \<times> bool" where
  "decUnitAddSub a b bshift m =
     (let low = map (\<lambda>i. if i < length a then a ! i else 0) [0..<bshift];
          (cs, carry) = addSubUnits (drop bshift a) b m 0;
          c = low @ cs
      in if carry = 0 then (c, False)
         else if carry > 0 then (c @ [of_int carry], False)
         else
           (let (c, add) = complementUnits c 1
            in (if add - carry - 1 \<noteq> 0 then c @ [of_int (add - carry - 1)] else c, True)))"

section \<open>Comparing\<close>

text \<open>A failure to allocate memory, \<^verbatim>\<open>BADINT\<close>, is \<open>None\<close>; \<open>mem\<close> says for which sizes in bytes \<^verbatim>\<open>malloc\<close> succeeds.\<close>

definition compareUnits :: "Unit list \<Rightarrow> Unit list \<Rightarrow> int" where
  "compareUnits a b = (case find (\<lambda>(l, r). l \<noteq> r) (rev (zip a b)) of None \<Rightarrow> 0 | Some (l, r) \<Rightarrow> if l > r then 1 else - 1)"

definition decUnitCompare :: "(nat \<Rightarrow> bool) \<Rightarrow> Unit list \<Rightarrow> Unit list \<Rightarrow> int \<Rightarrow> int option" where
  "decUnitCompare mem a b e =
     (let alength = length a; blength = length b in
      if e = 0 then
        Some (if alength > blength then 1 else if alength < blength then - 1 else compareUnits a b)
      else if alength > blength + D2U e then Some 1
      else if alength + 1 < blength + D2U e then Some (- 1)
      else
        (let need = max (blength + D2U e) alength + 2 in
         if 2 * need > 2 * 25 \<and> \<not> mem (2 * need) then None
         else
           (let expunits = nat (e div 3); exprem = nat (e mod 3);
                (acc, neg) = decUnitAddSub a b expunits (- uint (DECPOWERS ! exprem))
            in Some (if neg then - 1 else if list_all (\<lambda>u. u = 0) acc then 0 else 1))))"

end
