(* ===== verification/UnitSpec.thy ===== *)
theory UnitSpec
  imports UnitArith
begin

text \<open>What the arithmetic on arrays of units computes.\<close>

section \<open>Adding and subtracting\<close>

lemma estimate:
  fixes x :: int
  assumes "0 \<le> x" "x < 1000000"
  shows "(x div 8 * 16777) mod 4294967296 div 2097152 = x div 1000 \<or> (x div 8 * 16777) mod 4294967296 div 2097152 = x div 1000 - 1"
proof -
  define y where "y = x div 8"
  have y: "0 \<le> y" "y < 125000" using assms by (auto simp: y_def)
  have q: "x div 1000 = y div 125" by (simp add: y_def flip: zdiv_zmult2_eq)
  define q r where "q = y div 125" and "r = y mod 125"
  have yq: "y = 125 * q + r" by (simp add: q_def r_def)
  have r: "0 \<le> r" "r < 125" by (simp_all add: r_def)
  have qb: "0 \<le> q" "q < 1000" using y by (auto simp: q_def)
  have m: "(y * 16777) mod 4294967296 = y * 16777" using y by (intro mod_pos_pos_trivial) auto
  define e where "e = y * 16777 div 2097152"
  have "y * 16777 = 2097152 * e + (y * 16777) mod 2097152" by (simp add: e_def)
  moreover have "0 \<le> (y * 16777) mod 2097152" "(y * 16777) mod 2097152 < 2097152" by simp_all
  ultimately have "2097152 * e \<le> y * 16777" "y * 16777 < 2097152 * e + 2097152" by simp_all
  then have "e \<le> q \<and> q - 1 \<le> e" using yq r qb by linarith
  then show ?thesis unfolding y_def [symmetric] m q e_def [symmetric] q_def [symmetric] by linarith
qed

lemma uint_of_int_Unit: "0 \<le> k \<Longrightarrow> k < 65536 \<Longrightarrow> uint (of_int k :: Unit) = k"
  by (simp add: uint_word_of_int_eq take_bit_int_eq_self)

lemma carryStep_val:
  assumes "- 1000000 \<le> k" "k < 1000000"
  shows "carryStep k = (of_int (k mod 1000), k div 1000)"
proof -
  have pos: "(let est = (x div 2 ^ 3 * 16777) mod 2 ^ 32 div 2 ^ 21; c = of_int (x - est * 1000) :: Unit
       in if c < 1000 then (c, est - d) else (c - 1000, est - d + 1)) = (of_int (x mod 1000), x div 1000 - d)"
    if x: "0 \<le> x" "x < 1000000" for x d
  proof -
    define est where "est = (x div 2 ^ 3 * 16777) mod 2 ^ 32 div 2 ^ 21"
    have x1: "x = 1000 * (x div 1000) + x mod 1000" by simp
    have m: "0 \<le> x mod 1000" "x mod 1000 < 1000" by simp_all
    consider "est = x div 1000" | "est = x div 1000 - 1" using estimate [OF x] by (auto simp: est_def)
    then show ?thesis
    proof cases
      case 1
      then have e: "x - est * 1000 = x mod 1000" using x1 by linarith
      have "uint (of_int (x mod 1000) :: Unit) = x mod 1000" using m by (intro uint_of_int_Unit) linarith+
      then have "(of_int (x mod 1000) :: Unit) < 1000" using m by (simp add: word_less_alt)
      then show ?thesis unfolding est_def [symmetric] Let_def e using 1 by simp
    next
      case 2
      then have e: "x - est * 1000 = x mod 1000 + 1000" using x1 by linarith
      have "uint (of_int (x mod 1000 + 1000) :: Unit) = x mod 1000 + 1000" using m by (intro uint_of_int_Unit) linarith+
      then have "\<not> (of_int (x mod 1000 + 1000) :: Unit) < 1000" using m by (simp add: word_less_alt)
      then show ?thesis unfolding est_def [symmetric] Let_def e using 2 by simp
    qed
  qed
  consider "0 \<le> k \<and> k \<le> 999" | "999 < k" | "k < 0" by linarith
  then show ?thesis
  proof cases
    case 1
    then show ?thesis by (simp add: carryStep_def)
  next
    case 2
    have c: "(k \<le> 999) = False" "(0 \<le> k) = True" using 2 by auto
    have "carryStep k = (let est = (k div 2 ^ 3 * 16777) mod 2 ^ 32 div 2 ^ 21; c = of_int (k - est * 1000) :: Unit
        in if c < 1000 then (c, est - 0) else (c - 1000, est - 0 + 1))"
      unfolding carryStep_def diff_0_right c simp_thms if_False if_True by simp
    then show ?thesis using pos [of k 0] assms 2 by simp
  next
    case 3
    have c: "(0 \<le> k) = False" using 3 by auto
    have m: "(k + 1000 * 1000) mod 1000 = k mod 1000" by (rule mod_mult_self1)
    have d: "(k + 1000 * 1000) div 1000 - 1000 = k div 1000" using div_mult_self1 [of 1000 k 1000] by simp
    have "carryStep k = (let x = k + 1000 * 1000; est = (x div 2 ^ 3 * 16777) mod 2 ^ 32 div 2 ^ 21; c = of_int (x - est * 1000) :: Unit
        in if c < 1000 then (c, est - 1000) else (c - 1000, est - 1000 + 1))"
      unfolding carryStep_def c simp_thms if_False by simp
    also have "\<dots> = (of_int ((k + 1000 * 1000) mod 1000), (k + 1000 * 1000) div 1000 - 1000)"
      using 3 assms unfolding Let_def [of "k + 1000 * 1000"] by (intro pos) simp_all
    finally show ?thesis unfolding m d .
  qed
qed

lemma uint_units_less: "uint (of_int (k mod 1000) :: Unit) = k mod 1000" "unat (of_int (k mod 1000) :: Unit) < 1000"
proof -
  have m: "0 \<le> k mod 1000" "k mod 1000 < 1000" by simp_all
  then show e: "uint (of_int (k mod 1000) :: Unit) = k mod 1000" by (intro uint_of_int_Unit) linarith+
  show "unat (of_int (k mod 1000) :: Unit) < 1000" using m e by (simp add: unat_eq_nat_uint)
qed

lemma units_val_int: "int (units_val (u # us)) = uint u + 1000 * int (units_val us)"
  by simp

lemma unit_uint_bound: "unat u < 1000 \<Longrightarrow> 0 \<le> uint u \<and> uint u \<le> (999 :: int)"
  using uint_nat [of u] by linarith

text \<open>The carry stays below a unit in magnitude, so that a place never exceeds the range of the estimated quotient.\<close>

definition carry_ok :: "int \<Rightarrow> bool" where
  "carry_ok k \<longleftrightarrow> - 999 \<le> k \<and> k \<le> 999"

definition mult_ok :: "int \<Rightarrow> bool" where
  "mult_ok m \<longleftrightarrow> - 999 \<le> m \<and> m \<le> 999"

lemma mult_unit_bound:
  assumes "mult_ok m" "0 \<le> y" "y \<le> (999 :: int)"
  shows "- 998001 \<le> y * m" "y * m \<le> 998001"
proof -
  have "\<bar>y * m\<bar> \<le> 999 * 999" unfolding abs_mult using assms by (intro mult_mono) (auto simp: mult_ok_def)
  then show "- 998001 \<le> y * m" "y * m \<le> 998001" by linarith+
qed

lemma place:
  assumes "carry_ok k" "mult_ok m" "0 \<le> x" "x \<le> 999" "0 \<le> y" "y \<le> 999"
  shows "carryStep (k + x + y * m) = (of_int ((k + x + y * m) mod 1000), (k + x + y * m) div 1000)"
    and "carry_ok ((k + x + y * m) div 1000)"
proof -
  have b: "- 999000 \<le> k + x + y * m" "k + x + y * m \<le> 999999"
    using mult_unit_bound [OF assms(2,5,6)] assms unfolding carry_ok_def by linarith+
  then show "carryStep (k + x + y * m) = (of_int ((k + x + y * m) mod 1000), (k + x + y * m) div 1000)"
    by (intro carryStep_val) linarith+
  show "carry_ok ((k + x + y * m) div 1000)" using b unfolding carry_ok_def by linarith
qed

lemma place_sum:
  fixes c V P k' s A B m x y k :: int
  assumes "c = (k + x + y * m) mod 1000" "V + P * k' = (k + x + y * m) div 1000 + A + B * m"
  shows "c + 1000 * V + 1000 * P * k' = k + (x + 1000 * A) + (y + 1000 * B) * m"
proof -
  define d where "d = (k + x + y * m) div 1000"
  have "k + x + y * m = 1000 * d + c" unfolding assms(1) d_def by simp
  moreover have "V + P * k' = d + A + B * m" unfolding assms(2) d_def ..
  ultimately have "c + 1000 * (V + P * k') = k + x + y * m + 1000 * A + 1000 * (B * m)" by (simp add: algebra_simps)
  then show ?thesis by (simp add: algebra_simps)
qed

lemma addSubUnits_val:
  "mult_ok m \<Longrightarrow> units_ok a \<Longrightarrow> units_ok b \<Longrightarrow> carry_ok k \<Longrightarrow> addSubUnits a b m k = (cs, k') \<Longrightarrow>
    units_ok cs \<and> length cs = max (length a) (length b) \<and> carry_ok k' \<and>
    int (units_val cs) + 1000 ^ length cs * k' = k + int (units_val a) + int (units_val b) * m"
proof (induction a b m k arbitrary: cs k' rule: addSubUnits.induct)
  case (1 m carry)
  then show ?case by simp
next
  case (2 x a y b m carry)
  have bx: "0 \<le> uint x" "uint x \<le> 999" "0 \<le> uint y" "uint y \<le> 999" using 2(3,4) unit_uint_bound by auto
  let ?s = "carry + uint x + uint y * m"
  note p = place [OF 2(5) 2(2) bx]
  obtain cs1 where r: "addSubUnits a b m (?s div 1000) = (cs1, k')" and cs: "cs = of_int (?s mod 1000) # cs1"
    using 2(6) unfolding addSubUnits.simps p(1) by (auto split: prod.splits)
  have ih: "units_ok cs1 \<and> length cs1 = max (length a) (length b) \<and> carry_ok k' \<and>
      int (units_val cs1) + 1000 ^ length cs1 * k' = ?s div 1000 + int (units_val a) + int (units_val b) * m"
    by (rule 2(1) [OF p(1) [symmetric] refl]) (use 2(2,3,4) p(2) r in auto)
  show ?case
    using ih uint_units_less [of ?s] place_sum [OF uint_units_less(1) [of ?s] conjunct2 [OF conjunct2 [OF conjunct2 [OF ih]]]]
    unfolding cs by simp
next
  case (3 x a m carry)
  have bx: "0 \<le> uint x" "uint x \<le> 999" using 3(3) unit_uint_bound by auto
  let ?s = "carry + uint x"
  note p = place [OF 3(5) 3(2) bx, of 0, simplified]
  obtain cs1 where r: "addSubUnits a [] m (?s div 1000) = (cs1, k')" and cs: "cs = of_int (?s mod 1000) # cs1"
    using 3(6) unfolding addSubUnits.simps p(1) by (auto split: prod.splits)
  have ih: "units_ok cs1 \<and> length cs1 = max (length a) (length ([] :: Unit list)) \<and> carry_ok k' \<and>
      int (units_val cs1) + 1000 ^ length cs1 * k' = ?s div 1000 + int (units_val a) + int (units_val []) * m"
    by (rule 3(1) [OF p(1) [symmetric] refl]) (use 3(2,3) p(2) r in auto)
  from conjunct2 [OF conjunct2 [OF conjunct2 [OF this]]]
  have "int (units_val cs1) + 1000 ^ length cs1 * k' = (carry + uint x + 0 * m) div 1000 + int (units_val a) + 0 * m" by simp
  from ih uint_units_less [of ?s] place_sum [OF _ this, of "?s mod 1000"] show ?case unfolding cs by simp
next
  case (4 y b m carry)
  have bx: "0 \<le> uint y" "uint y \<le> 999" using 4(4) unit_uint_bound by auto
  let ?s = "carry + uint y * m"
  note p = place [OF 4(5) 4(2) _ _ bx, of 0, simplified]
  obtain cs1 where r: "addSubUnits [] b m (?s div 1000) = (cs1, k')" and cs: "cs = of_int (?s mod 1000) # cs1"
    using 4(6) unfolding addSubUnits.simps p(1) by (auto split: prod.splits)
  have ih: "units_ok cs1 \<and> length cs1 = max (length ([] :: Unit list)) (length b) \<and> carry_ok k' \<and>
      int (units_val cs1) + 1000 ^ length cs1 * k' = ?s div 1000 + int (units_val []) + int (units_val b) * m"
    by (rule 4(1) [OF p(1) [symmetric] refl]) (use 4(2,4) p(2) r in auto)
  from conjunct2 [OF conjunct2 [OF conjunct2 [OF this]]]
  have "int (units_val cs1) + 1000 ^ length cs1 * k' = (carry + 0 + uint y * m) div 1000 + 0 + int (units_val b) * m" by simp
  from ih uint_units_less [of ?s] place_sum [OF _ this, of "?s mod 1000"] show ?case unfolding cs by simp
qed


lemma complementUnits_val:
  "units_ok c \<Longrightarrow> add = 0 \<or> add = 1 \<Longrightarrow> complementUnits c add = (cs, r) \<Longrightarrow>
    units_ok cs \<and> length cs = length c \<and> (r = 0 \<or> r = 1) \<and>
    int (units_val cs) + 1000 ^ length c * r = 1000 ^ length c - 1 - int (units_val c) + add"
proof (induction c add arbitrary: cs r rule: complementUnits.induct)
  case (1 add)
  then show ?case by auto
next
  case (2 c cs' add)
  have b: "0 \<le> uint c" "uint c \<le> 999" using 2(3) unit_uint_bound by auto
  let ?s = "999 + add - uint c"
  show ?case
  proof (cases "?s \<le> 999")
    case True
    then obtain cs1 where r: "complementUnits cs' 0 = (cs1, r)" and cs: "cs = of_int ?s # cs1"
      using 2(5) by (auto simp: Let_def split: prod.splits)
    have s: "0 \<le> ?s" using b 2(4) by auto
    have u: "uint (of_int ?s :: Unit) = ?s" using True s by (intro uint_of_int_Unit) linarith+
    then have "unat (of_int ?s :: Unit) < 1000" using True s by (simp add: unat_eq_nat_uint del: of_int_diff of_int_add)
    moreover have "units_ok cs1 \<and> length cs1 = length cs' \<and> (r = 0 \<or> r = 1) \<and>
        int (units_val cs1) + 1000 ^ length cs' * r = 1000 ^ length cs' - 1 - int (units_val cs') + 0"
      by (rule 2(1) [OF refl True]) (use 2(3) r in auto)
    ultimately show ?thesis using u unfolding cs by (simp add: algebra_simps del: of_int_diff of_int_add)
  next
    case False
    then obtain cs1 where r: "complementUnits cs' 1 = (cs1, r)" and cs: "cs = 0 # cs1"
      using 2(5) by (auto simp: Let_def split: prod.splits)
    have e: "uint c = 0" "add = 1" using False b 2(4) by linarith+
    have "units_ok cs1 \<and> length cs1 = length cs' \<and> (r = 0 \<or> r = 1) \<and>
        int (units_val cs1) + 1000 ^ length cs' * r = 1000 ^ length cs' - 1 - int (units_val cs') + 1"
      by (rule 2(2) [OF refl False]) (use 2(3) r in auto)
    then show ?thesis using e unfolding cs by (simp add: algebra_simps)
  qed
qed

lemma low_units:
  assumes "units_ok a" and low: "low = map (\<lambda>i. if i < length a then a ! i else 0) [0..<s]"
  shows "units_ok low" "length low = s" "units_val a = units_val low + 1000 ^ s * units_val (drop s a)"
proof -
  show "units_ok low" using assms by (auto simp: units_ok_def)
  show l: "length low = s" by (simp add: low)
  show "units_val a = units_val low + 1000 ^ s * units_val (drop s a)"
  proof (cases "s \<le> length a")
    case True
    then have "low = take s a" unfolding low by (intro nth_equalityI) auto
    then show ?thesis using units_val_append [of "take s a" "drop s a"] True by simp
  next
    case False
    then have "low = a @ replicate (s - length a) 0" unfolding low by (intro nth_equalityI) (auto simp: nth_append)
    moreover have "units_val (replicate k 0) = 0" for k by (induction k) auto
    ultimately show ?thesis using False by (simp add: units_val_append)
  qed
qed

lemma uint_of_int_small: "0 \<le> k \<Longrightarrow> k \<le> 999 \<Longrightarrow> uint (of_int k :: Unit) = k \<and> unat (of_int k :: Unit) < 1000"
  using uint_units_less [of k] by simp

lemma borrow_sum:
  fixes L P k r C :: int
  assumes "C + P * r = P - 1 - L + 1"
  shows "C + P * (r - k - 1) = - (L + P * k)"
  using assms by (simp add: algebra_simps)

lemma decUnitAddSub_exact:
  assumes a: "units_ok a" and b: "units_ok b" and m: "mult_ok m" and r: "decUnitAddSub a b s m = (c, neg)"
  shows "units_ok c" "max (length a) (length b + s) \<le> length c" "length c \<le> Suc (max (length a) (length b + s))"
    "(if neg then - 1 else 1) * int (units_val c) = int (units_val a) + int (units_val b) * m * 1000 ^ s"
    "neg \<longleftrightarrow> int (units_val a) + int (units_val b) * m * 1000 ^ s < 0"
    "length c = Suc (max (length a) (length b + s)) \<Longrightarrow> last c \<noteq> 0"
proof -
  define low where "low = map (\<lambda>i. if i < length a then a ! i else 0) [0..<s]"
  note low = low_units [OF a low_def]
  obtain cs k where cs: "addSubUnits (drop s a) b m 0 = (cs, k)" by fastforce
  have d: "units_ok (drop s a)" using a by (auto simp: units_ok_def dest: in_set_dropD)
  have v: "units_ok cs" "length cs = max (length (drop s a)) (length b)" "carry_ok k"
    "int (units_val cs) + 1000 ^ length cs * k = int (units_val (drop s a)) + int (units_val b) * m"
    using addSubUnits_val [OF m d b _ cs] by (auto simp: carry_ok_def)
  define L where "L = low @ cs"
  have L: "units_ok L" "length L = max (length a) (length b + s)" using low(1,2) v(1,2) by (auto simp: L_def max_def)
  have lv: "int (units_val L) = int (units_val low) + 1000 ^ s * int (units_val cs)" using low(2) by (simp add: L_def units_val_append)
  have tot: "int (units_val L) + 1000 ^ length L * k = int (units_val a) + int (units_val b) * m * 1000 ^ s"
  proof -
    have "int (units_val L) + 1000 ^ length L * k = int (units_val low) + 1000 ^ s * (int (units_val cs) + 1000 ^ length cs * k)"
      unfolding lv using low(2) by (simp add: L_def power_add algebra_simps)
    also have "\<dots> = int (units_val a) + int (units_val b) * m * 1000 ^ s" unfolding v(4) low(3) by (simp add: algebra_simps)
    finally show ?thesis .
  qed
  have unf: "decUnitAddSub a b s m = (if k = 0 then (L, False) else if k > 0 then (L @ [of_int k], False)
      else (let (c, add) = complementUnits L 1 in (if add - k - 1 \<noteq> 0 then c @ [of_int (add - k - 1)] else c, True)))"
    unfolding decUnitAddSub_def low_def [symmetric] cs L_def by simp
  have lt: "int (units_val L) < 1000 ^ length L" using units_val_less [OF L(1)] by (simp flip: of_nat_less_iff)
  have goal: "units_ok c \<and> max (length a) (length b + s) \<le> length c \<and> length c \<le> Suc (max (length a) (length b + s)) \<and>
    (if neg then - 1 else 1) * int (units_val c) = int (units_val L) + 1000 ^ length L * k \<and> (neg \<longleftrightarrow> k < 0) \<and>
    (length c = Suc (max (length a) (length b + s)) \<longrightarrow> last c \<noteq> 0)"
  proof -
    consider "k = 0" | "0 < k" | "k < 0" by linarith
    then show ?thesis
    proof cases
      case 1
      then show ?thesis using r unf L by auto
    next
      case 2
      then have e: "uint (of_int k :: Unit) = k" "unat (of_int k :: Unit) < 1000"
        using uint_of_int_small [of k] v(3) by (auto simp: carry_ok_def)
      then have "(of_int k :: Unit) \<noteq> 0" using 2 by fastforce
      then show ?thesis using e 2 r unf L by (auto simp: units_val_append)
    next
      case 3
      obtain C add where C: "complementUnits L 1 = (C, add)" by fastforce
      have cv: "units_ok C" "length C = length L" "add = 0 \<or> add = 1"
        "int (units_val C) + 1000 ^ length L * add = 1000 ^ length L - 1 - int (units_val L) + 1"
        using complementUnits_val [OF L(1) _ C] by auto
      have e: "uint (of_int (add - k - 1) :: Unit) = add - k - 1" "unat (of_int (add - k - 1) :: Unit) < 1000"
        using uint_of_int_small [of "add - k - 1"] v(3) 3 cv(3) by (auto simp: carry_ok_def)
      have "c = (if add - k - 1 \<noteq> 0 then C @ [of_int (add - k - 1)] else C)" "neg"
        using r unf 3 C by (auto split: if_splits)
      moreover have "(of_int (add - k - 1) :: Unit) \<noteq> 0" if "add - k - 1 \<noteq> 0" using e(1) that by fastforce
      moreover note borrow_sum [OF cv(4), of k]
      ultimately show ?thesis using cv(1,2) e L 3 by (auto simp: units_val_append simp del: of_int_diff)
    qed
  qed
  show "units_ok c" "max (length a) (length b + s) \<le> length c" "length c \<le> Suc (max (length a) (length b + s))"
    "(if neg then - 1 else 1) * int (units_val c) = int (units_val a) + int (units_val b) * m * 1000 ^ s"
    "length c = Suc (max (length a) (length b + s)) \<Longrightarrow> last c \<noteq> 0"
    using goal unfolding tot by blast+
  have "k < 0 \<longleftrightarrow> int (units_val L) + 1000 ^ length L * k < 0"
  proof
    assume "k < 0"
    then have "1000 ^ length L * k \<le> 1000 ^ length L * (- 1)" by (intro mult_left_mono) auto
    then show "int (units_val L) + 1000 ^ length L * k < 0" using lt by linarith
  next
    assume *: "int (units_val L) + 1000 ^ length L * k < 0"
    show "k < 0"
    proof (rule ccontr)
      assume "\<not> k < 0"
      then have "0 \<le> 1000 ^ length L * k" by simp
      then show False using * by linarith
    qed
  qed
  then show "neg \<longleftrightarrow> int (units_val a) + int (units_val b) * m * 1000 ^ s < 0" using goal unfolding tot by blast
qed


section \<open>Counting digits\<close>

definition digits_of :: "nat \<Rightarrow> int \<Rightarrow> bool" where
  "digits_of v d \<longleftrightarrow> 1 \<le> d \<and> v < 10 ^ nat d \<and> (d = 1 \<or> 10 ^ (nat d - 1) \<le> v)"

lemma digits_of_unique: "digits_of v d \<Longrightarrow> digits_of v e \<Longrightarrow> d = e"
proof (rule ccontr)
  have less: "v < v" if "digits_of v d" "digits_of v e" "d < e" for d e
  proof -
    have "nat d \<le> nat e - 1" using that by (auto simp: digits_of_def)
    then have "(10 :: nat) ^ nat d \<le> 10 ^ (nat e - 1)" by (intro power_increasing) auto
    moreover have "v < 10 ^ nat d" "10 ^ (nat e - 1) \<le> v" using that by (auto simp: digits_of_def)
    ultimately show ?thesis by linarith
  qed
  assume "digits_of v d" "digits_of v e" "d \<noteq> e"
  then show False using less [of d e] less [of e d] by (cases "d < e") auto
qed

lemma digits_of_unit:
  assumes low: "low < 1000 ^ k" and u: "10 ^ j \<le> u" "u < (10 :: nat) ^ Suc j"
  shows "digits_of (low + 1000 ^ k * u) (int (3 * k + j) + 1)"
proof -
  have p: "(10 :: nat) ^ (3 * k + i) = 1000 ^ k * 10 ^ i" for i by (simp add: power_add pow10_3)
  have "low + 1000 ^ k * u < 1000 ^ k * Suc u" using low by simp
  also have "\<dots> \<le> 1000 ^ k * 10 ^ Suc j" using u(2) by (intro mult_le_mono2) simp
  finally have "low + 1000 ^ k * u < 10 ^ (3 * k + Suc j)" unfolding p .
  moreover have "10 ^ (3 * k + j) \<le> low + 1000 ^ k * u" unfolding p using u(1) by (intro trans_le_add2 mult_le_mono2)
  moreover have "nat (int (3 * k + j) + 1) = 3 * k + Suc j" by simp
  ultimately show ?thesis unfolding digits_of_def by simp
qed

lemma digitsFrom_val:
  "0 < n \<Longrightarrow> n \<le> length us \<Longrightarrow> units_ok (take n us) \<Longrightarrow>
   \<exists>d. digitsFrom us n ((int n - 1) * 3 + 1) = Some d \<and> digits_of (units_val (take n us)) d"
proof (induction n)
  case (Suc k)
  let ?u = "us ! k"
  have v: "units_val (take (Suc k) us) = units_val (take k us) + 1000 ^ k * unat ?u" using Suc.prems by (simp add: units_val_take_Suc)
  have ok: "units_ok (take k us)" "unat ?u < 1000" using Suc.prems by (simp_all add: take_Suc_conv_app_nth)
  have low: "units_val (take k us) < 1000 ^ k" using units_val_less [OF ok(1)] Suc.prems by simp
  show ?case
  proof (cases "?u = 0")
    case True
    show ?thesis
    proof (cases k)
      case 0
      then show ?thesis using True Suc.prems v by (simp add: digits_of_def peek_def Suc_le_eq)
    next
      case (Suc j)
      then have "\<exists>d. digitsFrom us k ((int k - 1) * 3 + 1) = Some d \<and> digits_of (units_val (take k us)) d"
        using Suc.IH Suc.prems ok by auto
      moreover have "(int (Suc k) - 1) * 3 + 1 - 3 = (int k - 1) * 3 + 1" "(int (Suc k) - 1) * 3 + 1 \<noteq> 1" using Suc by auto
      ultimately show ?thesis using True Suc.prems v by simp
    qed
  next
    case False
    then have pos: "1 \<le> unat ?u" by (simp add: unat_gt_0 Suc_le_eq word_neq_0_conv)
    have t: "?u < 10 \<longleftrightarrow> unat ?u < 10" "?u < 100 \<longleftrightarrow> unat ?u < 100" by (simp_all add: word_less_nat_alt)
    define j where "j = (if unat ?u < 10 then 0 else if unat ?u < 100 then 1 else (2 :: nat))"
    have "10 ^ j \<le> unat ?u" "unat ?u < 10 ^ Suc j" using pos ok(2) by (auto simp: j_def)
    then have "digits_of (units_val (take (Suc k) us)) (int (3 * k + j) + 1)" unfolding v by (rule digits_of_unit [OF low])
    moreover have "digitsFrom us (Suc k) ((int (Suc k) - 1) * 3 + 1) = Some (int (3 * k + j) + 1)"
      using False Suc.prems t by (simp add: j_def)
    ultimately show ?thesis by blast
  qed
qed simp

lemma decGetDigits_val:
  "0 < n \<Longrightarrow> n \<le> length us \<Longrightarrow> units_ok (take n us) \<Longrightarrow>
   \<exists>d. decGetDigits us n = Some d \<and> digits_of (units_val (take n us)) d"
  unfolding decGetDigits_def by (rule digitsFrom_val)

section \<open>Comparing\<close>

definition sgn_cmp :: "int \<Rightarrow> int" where
  "sgn_cmp d = (if d > 0 then 1 else if d < 0 then - 1 else 0)"

lemma compareUnits_snoc:
  "length a = length b \<Longrightarrow> compareUnits (a @ [x]) (b @ [y]) = (if x = y then compareUnits a b else if x > y then 1 else - 1)"
  by (simp add: compareUnits_def)

lemma compareUnits_val:
  "length a = length b \<Longrightarrow> units_ok a \<Longrightarrow> units_ok b \<Longrightarrow>
   compareUnits a b = sgn_cmp (int (units_val a) - int (units_val b))"
proof (induction a arbitrary: b rule: rev_induct)
  case (snoc x a b')
  obtain y b where b': "b' = b @ [y]" using snoc.prems(1) by (cases b' rule: rev_cases) auto
  have l: "length a = length b" using snoc.prems b' by simp
  have la: "units_val a < 1000 ^ length b" "units_val b < 1000 ^ length b"
    using units_val_less [of a] units_val_less [of b] snoc.prems b' l by auto
  have le: "units_val c + 1000 ^ length b * unat x < 1000 ^ length b * unat y + units_val d" if "units_val c < 1000 ^ length b" "unat x < unat y"
    for c d x y
  proof -
    have "units_val c + 1000 ^ length b * unat x < 1000 ^ length b * Suc (unat x)" using that by simp
    also have "\<dots> \<le> 1000 ^ length b * unat y" using that by (intro mult_le_mono2) simp
    finally show ?thesis by linarith
  qed
  consider "x = y" | "x < y" | "y < x" by fastforce
  then show ?case
  proof cases
    case 1
    then show ?thesis using snoc l by (simp add: b' compareUnits_snoc units_val_append)
  next
    case 2
    then have "units_val (a @ [x]) < units_val (b @ [y])" using le [of a x y b] la l by (simp add: units_val_append word_less_nat_alt)
    then show ?thesis using 2 l unfolding b' by (auto simp: compareUnits_snoc sgn_cmp_def)
  next
    case 3
    then have "units_val (b @ [y]) < units_val (a @ [x])" using le [of b y x a] la l by (simp add: units_val_append word_less_nat_alt)
    then show ?thesis using 3 l unfolding b' by (auto simp: compareUnits_snoc sgn_cmp_def)
  qed
qed (auto simp: compareUnits_def sgn_cmp_def)


lemma units_val_lower: "us \<noteq> [] \<Longrightarrow> last us \<noteq> 0 \<Longrightarrow> 1000 ^ (length us - 1) \<le> units_val us"
proof (cases us rule: rev_cases)
  case (snoc vs u)
  assume "last us \<noteq> 0"
  then have "1 \<le> unat u" using snoc by (simp add: unat_gt_0 Suc_le_eq)
  then have "1000 ^ length vs * 1 \<le> 1000 ^ length vs * unat u" by (intro mult_le_mono2)
  then have "1000 ^ length vs \<le> units_val vs + 1000 ^ length vs * unat u" by linarith
  then show ?thesis using snoc by (simp add: units_val_append)
qed simp

lemma pow10_units:
  assumes "0 < e"
  shows "(10 :: nat) ^ nat e \<le> 1000 ^ D2U e" "1000 ^ (D2U e - 1) \<le> (10 :: nat) ^ nat e" "0 < D2U e"
    "(10 :: nat) ^ nat e = 1000 ^ nat (e div 3) * 10 ^ nat (e mod 3)"
proof -
  have d: "int (D2U e) = (e + 2) div 3" using assms by (simp add: D2U_eq)
  then have "nat e \<le> 3 * D2U e" "3 * (D2U e - 1) \<le> nat e" "0 < D2U e" using assms by linarith+
  then show "(10 :: nat) ^ nat e \<le> 1000 ^ D2U e" "1000 ^ (D2U e - 1) \<le> (10 :: nat) ^ nat e" "0 < D2U e"
    by (simp_all add: power_increasing flip: pow10_3)
  have "int (nat e) = int (3 * nat (e div 3) + nat (e mod 3))" using assms by simp
  then have "nat e = 3 * nat (e div 3) + nat (e mod 3)" by (simp only: of_nat_eq_iff)
  then show "(10 :: nat) ^ nat e = 1000 ^ nat (e div 3) * 10 ^ nat (e mod 3)" by (metis pow10_3 power_add)
qed

lemma pow10_small: "n \<le> 9 \<Longrightarrow> uint (pow10 n) = 10 ^ n" "n \<le> 9 \<Longrightarrow> unat (pow10 n) = 10 ^ n"
proof -
  have "list_all (\<lambda>n. uint (pow10 n) = 10 ^ n \<and> unat (pow10 n) = 10 ^ n) [0..<10]"
    by (simp add: DECPOWERS_def upt_rec)
  then show "n \<le> 9 \<Longrightarrow> uint (pow10 n) = 10 ^ n" "n \<le> 9 \<Longrightarrow> unat (pow10 n) = 10 ^ n" by (auto simp: list_all_iff)
qed

lemma units_val_zero: "list_all (\<lambda>u. u = 0) us \<longleftrightarrow> units_val us = 0"
  by (induction us) (auto simp: unsigned_eq_0_iff)

lemma decUnitCompare_val:
  assumes a: "units_ok a" "a \<noteq> []" "last a \<noteq> 0" and b: "units_ok b" "b \<noteq> []" "last b \<noteq> 0" and e: "0 \<le> e"
    and small: "length a \<le> 22"
  shows "decUnitCompare mem a b e = Some (sgn_cmp (int (units_val a) - int (units_val b) * 10 ^ nat e))"
proof (cases "e = 0")
  case True
  have alt: "units_val x < units_val y" if "length x < length y" "units_ok x" "y \<noteq> []" "last y \<noteq> 0" for x y
  proof -
    have "units_val x < 1000 ^ length x" using that units_val_less by simp
    also have "(1000 :: nat) ^ length x \<le> 1000 ^ (length y - 1)" using that by (intro power_increasing) auto
    also have "\<dots> \<le> units_val y" using that by (intro units_val_lower)
    finally show ?thesis .
  qed
  have "length a = length b \<Longrightarrow> compareUnits a b = sgn_cmp (int (units_val a) - int (units_val b))"
    using a(1) b(1) by (intro compareUnits_val)
  then show ?thesis using True alt [of a b] alt [of b a] a b by (auto simp: decUnitCompare_def Let_def sgn_cmp_def)
next
  case False
  then have e0: "0 < e" using e by simp
  note p = pow10_units [OF e0]
  let ?A = "units_val a" and ?B = "units_val b"
  have A: "?A < 1000 ^ length a" "1000 ^ (length a - 1) \<le> ?A" using a units_val_less units_val_lower by auto
  have B: "?B < 1000 ^ length b" "1000 ^ (length b - 1) \<le> ?B" using b units_val_less units_val_lower by auto
  have int_cmp: "int ?A - int ?B * 10 ^ nat e = int ?A - int (?B * 10 ^ nat e)" by simp
  consider "length a > length b + D2U e" | "length a + 1 < length b + D2U e" | "length a \<le> length b + D2U e" "length b + D2U e \<le> length a + 1"
    by linarith
  then show ?thesis
  proof cases
    case 1
    have "?B * 10 ^ nat e < 1000 ^ length b * 1000 ^ D2U e" using B(1) p(1) by (intro mult_less_le_imp_less) auto
    also have "\<dots> = (1000 :: nat) ^ (length b + D2U e)" by (simp add: power_add)
    also have "\<dots> \<le> 1000 ^ (length a - 1)" using 1 by (intro power_increasing) auto
    finally have "?B * 10 ^ nat e < ?A" using A(2) by linarith
    then show ?thesis using 1 False unfolding int_cmp decUnitCompare_def by (simp add: sgn_cmp_def del: of_nat_mult)
  next
    case 2
    have "?A < 1000 ^ length a" by (rule A)
    also have "(1000 :: nat) ^ length a \<le> 1000 ^ (length b - 1 + (D2U e - 1))" using 2 b(2) p(3) by (intro power_increasing) (auto simp: Suc_le_eq)
    also have "\<dots> = (1000 :: nat) ^ (length b - 1) * 1000 ^ (D2U e - 1)" by (simp only: power_add)
    also have "\<dots> \<le> ?B * 10 ^ nat e" using B(2) p(2) by (rule mult_le_mono)
    finally show ?thesis using 2 False unfolding int_cmp decUnitCompare_def by (simp add: sgn_cmp_def del: of_nat_mult)
  next
    case 3
    let ?m = "- uint (pow10 (nat (e mod 3)))" and ?s = "nat (e div 3)"
    have "e mod 3 \<in> {0, 1, 2}" by auto
    then have m: "?m = - (10 ^ nat (e mod 3))" "mult_ok ?m" by (auto simp: pow10_small mult_ok_def)
    obtain acc neg where r: "decUnitAddSub a b ?s ?m = (acc, neg)" by fastforce
    have eq: "int ?A + int ?B * ?m * 1000 ^ ?s = int ?A - int ?B * 10 ^ nat e"
    proof -
      have "(10 :: int) ^ nat e = 1000 ^ ?s * 10 ^ nat (e mod 3)" using arg_cong [OF p(4), of int] by simp
      then show ?thesis unfolding m(1) by (simp add: algebra_simps)
    qed
    note v = decUnitAddSub_exact(4,5) [OF a(1) b(1) m(2) r, unfolded eq]
    have "\<not> (2 * (max (length b + D2U e) (length a) + 2) > 2 * 25 \<and> \<not> mem (2 * (max (length b + D2U e) (length a) + 2)))"
      using 3 small by auto
    then have "decUnitCompare mem a b e = Some (if neg then - 1 else if list_all (\<lambda>u. u = 0) acc then 0 else 1)"
      using 3 False r unfolding decUnitCompare_def Let_def by auto
    also have "\<dots> = Some (sgn_cmp (int ?A - int ?B * 10 ^ nat e))" using v by (auto simp: sgn_cmp_def units_val_zero split: if_splits)
    finally show ?thesis .
  qed
qed

section \<open>Properties\<close>

text \<open>
  C22: \<^verbatim>\<open>decUnitAddSub\<close> is exact.  For units below 1000 and a multiplier of at most three digits, with the reciprocal
  multiplications that replace division, the units it writes are below 1000, there is at most one more of them than the longer operand
  has, they stand for the absolute value of \<open>A + B * M * 1000 ^ bshift\<close>, and the returned count is negative exactly when that is.
\<close>

theorem unit_add_exact:
  assumes "units_ok a" "units_ok b" "mult_ok m" "decUnitAddSub a b s m = (c, neg)"
  shows "units_ok c \<and> max (length a) (length b + s) \<le> length c \<and> length c \<le> Suc (max (length a) (length b + s)) \<and>
    int (units_val c) = \<bar>int (units_val a) + int (units_val b) * m * 1000 ^ s\<bar> \<and>
    (neg \<longleftrightarrow> int (units_val a) + int (units_val b) * m * 1000 ^ s < 0)"
  using decUnitAddSub_exact [OF assms] by (auto split: if_splits)

theorem unit_add_exact_witness:
  "units_ok [995, 9, 0, 1] \<and> max (length [5 :: Unit, 0]) (length [1 :: Unit, 100] + 1) \<le> length [995 :: Unit, 9, 0, 1] \<and>
   length [995 :: Unit, 9, 0, 1] \<le> Suc (max (length [5 :: Unit, 0]) (length [1 :: Unit, 100] + 1)) \<and>
   int (units_val [995, 9, 0, 1]) = \<bar>int (units_val [5, 0]) + int (units_val [1, 100]) * (- 10) * 1000 ^ 1\<bar> \<and>
   (True \<longleftrightarrow> int (units_val [5, 0]) + int (units_val [1, 100]) * (- 10) * 1000 ^ 1 < 0)"
  by (rule unit_add_exact) (simp_all add: mult_ok_def, code_simp)

end
