(* ===== verification/UnitShift.thy ===== *)
theory UnitShift
  imports UnitSpec
begin

text \<open>Shifting the digits of an array of units is multiplication and division by a power of ten.\<close>

section \<open>Slicing a unit\<close>

lemma slice_unit:
  assumes u: "unat (u :: Unit) < 1000" and ct: "ct = 1 \<or> ct = 2"
  shows "unat (QUOT10 u ct) = unat u div 10 ^ ct" "unat (ucast u - QUOT10 u ct * pow10 ct :: uInt) = unat u mod 10 ^ ct"
proof -
  show q: "unat (QUOT10 u ct) = unat u div 10 ^ ct" using ct QUOT10_1 [OF u] QUOT10_2 [OF u] by auto
  have p: "unat (pow10 ct) = 10 ^ ct" using ct pow10_small(2) [of ct] by auto
  have "unat u div 10 ^ ct * 10 ^ ct < 2 ^ 32" using u by (intro le_less_trans [OF div_times_less_eq_dividend]) simp
  then have m: "unat (QUOT10 u ct * pow10 ct) = unat u div 10 ^ ct * 10 ^ ct"
    using q p by (subst unat_word_ariths) simp
  have "QUOT10 u ct * pow10 ct \<le> ucast u" unfolding word_le_nat_alt m unat_ucast_uInt by simp
  then have "unat (ucast u - QUOT10 u ct * pow10 ct :: uInt) = unat u - unat u div 10 ^ ct * 10 ^ ct"
    by (subst unat_sub) (simp_all add: m unat_ucast_uInt)
  then show "unat (ucast u - QUOT10 u ct * pow10 ct :: uInt) = unat u mod 10 ^ ct" by (simp add: minus_div_mult_eq_mod)
qed

lemma unat_scale:
  assumes "unat (r :: uInt) < 10 ^ ct" "ct = 1 \<or> ct = 2"
  shows "unat (r * pow10 (3 - ct)) = unat r * 10 ^ (3 - ct)" "unat r * 10 ^ (3 - ct) < 1000"
proof -
  have p: "unat (pow10 (3 - ct)) = 10 ^ (3 - ct)" using assms(2) pow10_small(2) [of "3 - ct"] by auto
  show b: "unat r * 10 ^ (3 - ct) < 1000" using assms by auto
  then show "unat (r * pow10 (3 - ct)) = unat r * 10 ^ (3 - ct)" using p by (subst unat_word_ariths) simp
qed

lemma unat_ucast_Unit: "unat (w :: uInt) < 65536 \<Longrightarrow> unat (ucast w :: Unit) = unat w"
  by (simp add: unsigned_ucast_eq take_bit_eq_mod)

lemma split_pow: "ct = 1 \<or> ct = 2 \<Longrightarrow> (10 :: nat) ^ (3 - ct) * 10 ^ ct = 1000"
  by auto

lemma carry_room:
  assumes "ct = 1 \<or> ct = 2" "r < 10 ^ ct" "u < (1000 :: nat)"
  shows "r * 10 ^ (3 - ct) + u div 10 ^ ct < 1000"
  using assms by auto

section \<open>Copying\<close>

lemma copyUnits_room:
  "up + n \<le> length src \<Longrightarrow> t + n \<le> length uar \<Longrightarrow>
   copyUnits src up uar t n = Some (take t uar @ take n (drop up src) @ drop (t + n) uar)"
proof (induction n arbitrary: up uar t)
  case (Suc n)
  then have "copyUnits src up uar t (Suc n) =
      Some (take (t + 1) (uar[t := src ! up]) @ take n (drop (up + 1) src) @ drop (t + 1 + n) (uar[t := src ! up]))"
    by simp
  moreover have "take (t + 1) (uar[t := src ! up]) = take t uar @ [src ! up]" using Suc.prems by (simp add: take_Suc_conv_app_nth)
  moreover have "take (Suc n) (drop up src) = src ! up # take n (drop (up + 1) src)" using Suc.prems by (simp flip: Cons_nth_drop_Suc)
  ultimately show ?case by simp
qed simp

section \<open>Towards the least significant digit\<close>

definition merged :: "nat \<Rightarrow> uInt \<Rightarrow> Unit \<Rightarrow> Unit" where
  "merged ct quot u = ucast (ucast (ucast quot :: Unit) + (ucast u - QUOT10 u ct * pow10 ct) * pow10 (3 - ct))"

lemma unat_merged:
  assumes ct: "ct = 1 \<or> ct = 2" and u: "unat u < 1000" and v: "v < 1000" and quot: "unat quot = v div 10 ^ ct"
  shows "unat (merged ct quot u) = v div 10 ^ ct + unat u mod 10 ^ ct * 10 ^ (3 - ct)" "unat (merged ct quot u) < 1000"
proof -
  let ?r = "ucast u - QUOT10 u ct * pow10 ct :: uInt"
  have r: "unat ?r = unat u mod 10 ^ ct" "unat ?r < 10 ^ ct" using slice_unit(2) [OF u ct] by auto
  note s = unat_scale [OF r(2) ct, unfolded r(1)]
  have room: "unat u mod 10 ^ ct * 10 ^ (3 - ct) + v div 10 ^ ct < 1000" using ct v by (intro carry_room) auto
  define x y where "x = v div 10 ^ ct" and "y = unat u mod 10 ^ ct * 10 ^ (3 - ct)"
  have xy: "x + y < 1000" using room by (simp add: x_def y_def)
  have q: "unat (ucast (ucast quot :: Unit) :: uInt) = x"
    unfolding unat_ucast_uInt using quot xy unat_ucast_Unit [of quot] by (simp add: x_def)
  have "unat (ucast (ucast quot :: Unit) + ?r * pow10 (3 - ct)) = x + y"
    unfolding unat_word_ariths(1) q s(1) y_def [symmetric] using xy by simp
  then have "unat (merged ct quot u) = x + y" unfolding merged_def using xy by (subst unat_ucast_Unit) simp_all
  then show "unat (merged ct quot u) = v div 10 ^ ct + unat u mod 10 ^ ct * 10 ^ (3 - ct)" "unat (merged ct quot u) < 1000"
    using xy by (simp_all add: x_def y_def)
qed

lemma shiftCopy_end: "t < length uar \<Longrightarrow> count \<le> 3 - int ct \<Longrightarrow> shiftCopy src ct quot up count uar t = Some (t, uar[t := ucast quot])"
  by (subst shiftCopy.simps) simp

lemma shiftCopy_step:
  assumes "t < length uar" "up + 1 < length src" "\<not> count \<le> 3 - int ct"
  shows "shiftCopy src ct quot up count uar t =
    (let uar = uar[t := merged ct quot (src ! (up + 1))]
     in if count \<le> 3 then Some (t, uar) else shiftCopy src ct (QUOT10 (src ! (up + 1)) ct) (up + 1) (count - 3) uar (t + 1))"
  using assms by (subst shiftCopy.simps) (simp add: Let_def merged_def)

lemma div_split:
  assumes "ct = 1 \<or> ct = (2 :: nat)"
  shows "(s + 1000 * w) div 10 ^ ct = s div 10 ^ ct + 10 ^ (3 - ct) * (w :: nat)"
    "(s + 1000 * w) mod 10 ^ ct = s mod 10 ^ ct"
proof -
  have e: "s + 1000 * w = s + 10 ^ ct * (10 ^ (3 - ct) * w)" using assms by auto
  show "(s + 1000 * w) div 10 ^ ct = s div 10 ^ ct + 10 ^ (3 - ct) * w" unfolding e by simp
  show "(s + 1000 * w) mod 10 ^ ct = s mod 10 ^ ct" unfolding e by simp
qed

lemma merge_value:
  assumes "ct = 1 \<or> ct = (2 :: nat)" and w: "w = s1 + 1000 * (x :: nat)"
  shows "(s0 + 1000 * w) div 10 ^ ct = s0 div 10 ^ ct + s1 mod 10 ^ ct * 10 ^ (3 - ct) + 1000 * (w div 10 ^ ct)"
proof -
  have "w = w mod 10 ^ ct + 10 ^ ct * (w div 10 ^ ct)" by simp
  also have "w mod 10 ^ ct = s1 mod 10 ^ ct" unfolding w using assms(1) by (rule div_split(2))
  finally have "10 ^ (3 - ct) * w = 10 ^ (3 - ct) * (s1 mod 10 ^ ct) + 10 ^ (3 - ct) * 10 ^ ct * (w div 10 ^ ct)"
    by (metis add_mult_distrib2 mult.assoc)
  then show ?thesis unfolding div_split(1) [OF assms(1)] split_pow [OF assms(1)] by (simp add: mult.commute)
qed

lemma shiftCopy_val:
  assumes ct: "ct = 1 \<or> ct = 2"
  shows "0 < count \<Longrightarrow> N = (ct + count + 2) div 3 \<Longrightarrow> n = (count + 2) div 3 \<Longrightarrow> up + N \<le> length src \<Longrightarrow> t + n \<le> length uar \<Longrightarrow>
    units_ok (take N (drop up src)) \<Longrightarrow> units_val (take N (drop up src)) < 10 ^ (ct + count) \<Longrightarrow>
    unat quot = unat (src ! up) div 10 ^ ct \<Longrightarrow>
    \<exists>us. shiftCopy src ct quot up (int count) uar t = Some (t + n - 1, take t uar @ us @ drop (t + n) uar) \<and>
      length us = n \<and> units_ok us \<and> units_val us = units_val (take N (drop up src)) div 10 ^ ct"
proof (induction count arbitrary: N n up uar t quot rule: less_induct)
  case (less count)
  have N1: "1 \<le> N" "1 \<le> n" using less.prems(1,2,3) ct by auto
  have upd: "uar[t := x] = take t uar @ [x] @ drop (t + 1) uar" for x using less.prems(5) N1 by (simp add: upd_conv_take_nth_drop)
  have d0: "take N (drop up src) = src ! up # take (N - 1) (drop (up + 1) src)"
    using less.prems(4) N1 by (cases N) (simp_all flip: Cons_nth_drop_Suc)
  have s0: "unat (src ! up) < 1000" using less.prems(6) unfolding d0 by simp
  show ?case
  proof (cases "int count \<le> 3 - int ct")
    case True
    then have "N = 1" "n = 1" using less.prems(1,2,3) ct by auto
    moreover have lt: "unat (src ! up) div 10 ^ ct < 1000" by (rule le_less_trans [OF div_le_dividend s0])
    moreover have "unat (ucast quot :: Unit) = unat (src ! up) div 10 ^ ct"
      using lt unat_ucast_Unit [of quot] less.prems(8) by linarith
    ultimately show ?thesis using True less.prems(5) upd d0 by (intro exI [of _ "[ucast quot]"]) (simp add: shiftCopy_end)
  next
    case False
    then have N2: "2 \<le> N" using less.prems(1,2) ct by auto
    have d1: "take (N - 1) (drop (up + 1) src) = src ! (up + 1) # take (N - 2) (drop (up + 2) src)"
    proof -
      have "take (Suc (N - 2)) (drop (up + 1) src) = src ! (up + 1) # take (N - 2) (drop (up + 2) src)"
        using less.prems(4) N2 by (simp flip: Cons_nth_drop_Suc)
      moreover have "Suc (N - 2) = N - 1" using N2 by simp
      ultimately show ?thesis by simp
    qed
    let ?s0 = "unat (src ! up)" and ?s1 = "unat (src ! (up + 1))" and ?w = "merged ct quot (src ! (up + 1))"
    define W where "W = units_val (take (N - 1) (drop (up + 1) src))"
    have W: "units_val (take N (drop up src)) = ?s0 + 1000 * W" "W = ?s1 + 1000 * units_val (take (N - 2) (drop (up + 2) src))"
      unfolding W_def d0 d1 by simp_all
    have ok1: "units_ok (take (N - 1) (drop (up + 1) src))" using less.prems(6) unfolding d0 by simp
    then have s1: "?s1 < 1000" unfolding d1 by simp
    note m = unat_merged [OF ct s1 s0 less.prems(8)]
    note val = merge_value [OF ct W(2), of ?s0]
    have step: "shiftCopy src ct quot up (int count) uar t =
      (let uar = uar[t := ?w] in if int count \<le> 3 then Some (t, uar)
       else shiftCopy src ct (QUOT10 (src ! (up + 1)) ct) (up + 1) (int count - 3) uar (t + 1))"
      using less.prems(4,5) N1 N2 False by (intro shiftCopy_step) auto
    show ?thesis
    proof (cases "count \<le> 3")
      case True
      then have n: "n = 1" and "ct + count \<le> ct + 3" using less.prems(1,3) by auto
      then have "(10 :: nat) ^ (ct + count) \<le> 10 ^ ct * 1000" using power_increasing [of "ct + count" "ct + 3" "10 :: nat"] by (simp add: power_add)
      then have "W < 10 ^ ct" using less.prems(7) unfolding W(1) by linarith
      then have "units_val [?w] = units_val (take N (drop up src)) div 10 ^ ct" using val m(1) W(1) by simp
      then show ?thesis using step True n m(2) upd by (intro exI [of _ "[?w]"]) simp
    next
      case c3: False
      have n2: "t + 1 + (n - 1) = t + n" "n - 1 = (count - 3 + 2) div 3" "N - 1 = (ct + (count - 3) + 2) div 3"
        using c3 less.prems(2,3) N1 by (auto simp: le_div_geq)
      have lt: "units_val (take (N - 1) (drop (up + 1) src)) < 10 ^ (ct + (count - 3))"
      proof -
        have "(10 :: nat) ^ (ct + count) = 1000 * 10 ^ (ct + (count - 3))"
          using c3 power_add [of "10 :: nat" 3 "ct + (count - 3)"] by simp
        then show ?thesis using less.prems(7) unfolding W(1) W_def [symmetric] by simp
      qed
      obtain us where us: "shiftCopy src ct (QUOT10 (src ! (up + 1)) ct) (up + 1) (int (count - 3)) (uar[t := ?w]) (t + 1) =
            Some (t + 1 + (n - 1) - 1, take (t + 1) (uar[t := ?w]) @ us @ drop (t + 1 + (n - 1)) (uar[t := ?w]))"
          "length us = n - 1" "units_ok us" "units_val us = W div 10 ^ ct"
        using less.IH [of "count - 3" "N - 1" "n - 1" "up + 1" "t + 1" "uar[t := ?w]", OF _ _ n2(3) n2(2)]
          less.prems(4,5) N1 c3 ok1 lt slice_unit(1) [OF s1 ct] unfolding W_def by auto
      have "take (t + 1) (uar[t := ?w]) = take t uar @ [?w]" using less.prems(5) N1 by (simp add: take_Suc_conv_app_nth)
      then have "shiftCopy src ct quot up (int count) uar t = Some (t + n - 1, take t uar @ (?w # us) @ drop (t + n) uar)"
        using us(1) step c3 n2(1) N1 by (simp add: of_nat_diff)
      moreover have "units_val (?w # us) = units_val (take N (drop up src)) div 10 ^ ct" using val m(1) us(4) W(1) by simp
      ultimately show ?thesis using us(2,3) m(2) N1 by (intro exI [of _ "?w # us"]) simp
    qed
  qed
qed


lemma units_val_drop: "units_ok us \<Longrightarrow> q \<le> length us \<Longrightarrow> units_val (drop q us) = units_val us div 1000 ^ q"
proof -
  assume ok: "units_ok us" and q: "q \<le> length us"
  have "units_val us = units_val (take q us) + 1000 ^ q * units_val (drop q us)"
    using units_val_append [of "take q us" "drop q us"] q by simp
  moreover have "units_val (take q us) < 1000 ^ q" using units_val_less [OF units_ok_take [OF ok]] q by (metis length_take min.absorb2)
  ultimately show ?thesis by simp
qed

lemma MSUDIGITS_split:
  assumes "0 < s"
  obtains q c where "D2U s = Suc q" "MSUDIGITS s = int c" "s = int (3 * q + c)" "1 \<le> c" "c \<le> 3"
proof -
  define q where "q = nat ((s - 1) div 3)"
  define c where "c = nat ((s - 1) mod 3) + 1"
  have q: "int q = (s - 1) div 3" using assms by (simp add: q_def pos_imp_zdiv_nonneg_iff)
  have c: "int c = (s - 1) mod 3 + 1" by (simp add: c_def)
  have s: "s = int (3 * q + c)" using q c by simp
  have b: "1 \<le> c" "c \<le> 3" unfolding c_def using pos_mod_bound [of 3 "s - 1"] by linarith+
  have "(s + 2) div 3 = int q + 1" using q by linarith
  then have d: "D2U s = Suc q" using assms by (simp add: D2U_eq)
  then show thesis using s b by (intro that [of q c]) (simp_all add: MSUDIGITS_def)
qed

lemma decShiftToLeast_val:
  assumes n: "0 < n" "n \<le> length uar" and ok: "units_ok (take n uar)" and s: "0 \<le> s" "s \<le> 3 * int n"
  shows "\<exists>k us. decShiftToLeast uar n s = Some (k, us @ drop k uar) \<and> length us = k \<and> k \<le> n \<and>
    k = (if s = 3 * int n then 1 else nat ((3 * int n - s + 2) div 3)) \<and>
    units_ok us \<and> units_val us = units_val (take n uar) div 10 ^ nat s"
proof (cases "s = 0 \<or> s = 3 * int n")
  case True
  have lt: "units_val (take n uar) < 10 ^ (3 * n)" using units_val_less [OF ok] n by (simp add: pow10_3)
  show ?thesis
  proof (cases "s = 0")
    case True
    then show ?thesis using n ok by (intro exI [of _ n] exI [of _ "take n uar"]) (auto simp: decShiftToLeast_def)
  next
    case False
    then have s3: "s = 3 * int n" "nat s = 3 * n" using True by auto
    have "decShiftToLeast uar n s = Some (1, [0] @ drop 1 uar)"
      using False s3 n by (cases uar) (simp_all add: decShiftToLeast_def)
    then show ?thesis using s3 n lt by (intro exI [of _ 1] exI [of _ "[0]"]) auto
  qed
next
  case False
  then have s0: "0 < s" "s \<noteq> 3 * int n" using s by auto
  then obtain q c where q: "D2U s = Suc q" "MSUDIGITS s = int c" "s = int (3 * q + c)" "1 \<le> c" "c \<le> 3"
    using MSUDIGITS_split by blast
  let ?V = "units_val (take n uar)"
  have "nat s = 3 * q + c" unfolding q(3) by (rule nat_int)
  then have pw: "(10 :: nat) ^ nat s = 1000 ^ q * 10 ^ c" by (simp add: power_add pow10_3)
  have qn: "q < n" "3 * q + c < 3 * n" using q(3) s s0 by auto
  show ?thesis
  proof (cases "c = 3")
    case True
    then have qn': "Suc q < n" using qn by simp
    have "decShiftToLeast uar n s = Some (n - Suc q, take 0 uar @ take (n - Suc q) (drop (Suc q) uar) @ drop (0 + (n - Suc q)) uar)"
      using q True s0 n qn' unfolding decShiftToLeast_def by (simp add: copyUnits_room Let_def)
    moreover have "take (n - Suc q) (drop (Suc q) uar) = drop (Suc q) (take n uar)" by (simp add: drop_take)
    moreover have "nat ((3 * int n - s + 2) div 3) = n - Suc q"
    proof -
      have "(3 * int n - s + 2) div 3 = int n - int (Suc q)" using q(3) True by simp
      then show ?thesis by (simp add: nat_diff_distrib)
    qed
    moreover have "units_val (drop (Suc q) (take n uar)) = ?V div 10 ^ nat s"
      using units_val_drop [OF ok, of "Suc q"] n qn' pw True by (simp add: mult.commute)
    moreover have "units_ok (drop (Suc q) (take n uar))" using ok by (auto simp: units_ok_def dest: in_set_dropD)
    ultimately show ?thesis using s0 n qn' by (intro exI [of _ "n - Suc q"] exI [of _ "drop (Suc q) (take n uar)"]) auto
  next
    case False
    then have ct: "c = 1 \<or> c = 2" using q by auto
    define count where "count = 3 * n - (3 * q + c)"
    have cn: "int n * 3 - s = int count" "0 < count" using q(3) qn by (auto simp: count_def)
    have up: "D2U (s - int c) = q"
    proof -
      have "s - int c = int (3 * q)" using q(3) by simp
      then show ?thesis by (simp add: D2U_eq)
    qed
    have N: "n - q = (c + count + 2) div 3" using qn by (simp add: count_def)
    define k where "k = (count + 2) div 3"
    have kn: "k \<le> n" "0 < k" using cn by (auto simp: k_def count_def)
    have dr: "take (n - q) (drop q uar) = drop q (take n uar)" by (simp add: drop_take)
    have u: "unat (uar ! q) < 1000" using units_ok_nth [OF ok, of q] n qn by simp
    have V: "units_val (drop q (take n uar)) = ?V div 1000 ^ q" using units_val_drop [OF ok, of q] n qn by simp
    have okd: "units_ok (drop q (take n uar))" using ok by (auto simp: units_ok_def dest: in_set_dropD)
    have "units_val (drop q (take n uar)) < 10 ^ (c + count)"
      using units_val_less [OF okd] n qn by (simp add: count_def power_add flip: pow10_3 add: right_diff_distrib')
    then obtain us where us: "shiftCopy uar c (QUOT10 (uar ! q) c) q (int count) uar 0 = Some (0 + k - 1, take 0 uar @ us @ drop (0 + k) uar)"
        "length us = k" "units_ok us" "units_val us = units_val (drop q (take n uar)) div 10 ^ c"
      using shiftCopy_val [OF ct cn(2) N k_def, of q uar 0 uar "QUOT10 (uar ! q) c"] n qn kn okd slice_unit(1) [OF u ct]
      unfolding dr by auto
    have "decShiftToLeast uar n s = Some (k, us @ drop k uar)"
      using us(1) q False s0 n qn kn up cn(1) unfolding decShiftToLeast_def by (simp add: Let_def mult.commute)
    moreover have "units_val us = ?V div 10 ^ nat s" unfolding us(4) V pw by (simp add: div_mult2_eq)
    moreover have "nat ((3 * int n - s + 2) div 3) = k"
    proof -
      have "(3 * int n - s + 2) div 3 = int k" using cn(1) unfolding k_def by (simp add: zdiv_int mult.commute)
      then show ?thesis by simp
    qed
    ultimately show ?thesis using us(2,3) s0 kn by (intro exI [of _ k] exI [of _ us]) auto
  qed
qed


section \<open>Towards the most significant digit\<close>

lemma slice_carry:
  assumes ct: "ct = 1 \<or> ct = 2" and u: "unat u < 1000" and nxt: "unat nxt = r * 10 ^ (3 - ct)" "r < 10 ^ ct"
  shows "unat (ucast (nxt + QUOT10 u ct) :: Unit) = r * 10 ^ (3 - ct) + unat u div 10 ^ ct"
    "r * 10 ^ (3 - ct) + unat u div 10 ^ ct < 1000"
    "unat ((ucast u - QUOT10 u ct * pow10 ct) * pow10 (3 - ct)) = unat u mod 10 ^ ct * 10 ^ (3 - ct)"
proof -
  show room: "r * 10 ^ (3 - ct) + unat u div 10 ^ ct < 1000" using carry_room [OF ct nxt(2) u] .
  have "unat (nxt + QUOT10 u ct) = r * 10 ^ (3 - ct) + unat u div 10 ^ ct"
    unfolding unat_word_ariths(1) nxt(1) slice_unit(1) [OF u ct] using room by simp
  then show "unat (ucast (nxt + QUOT10 u ct) :: Unit) = r * 10 ^ (3 - ct) + unat u div 10 ^ ct"
    using room unat_ucast_Unit [of "nxt + QUOT10 u ct"] by simp
  have "unat (ucast u - QUOT10 u ct * pow10 ct :: uInt) < 10 ^ ct" using slice_unit(2) [OF u ct] by simp
  then show "unat ((ucast u - QUOT10 u ct * pow10 ct) * pow10 (3 - ct)) = unat u mod 10 ^ ct * 10 ^ (3 - ct)"
    using unat_scale(1) [OF _ ct] slice_unit(2) [OF u ct] by simp
qed

lemma slice_sum:
  assumes "ct = 1 \<or> ct = (2 :: nat)"
  shows "u mod 10 ^ ct * 10 ^ (3 - ct) + 1000 * (c + u div 10 ^ ct) = 10 ^ (3 - ct) * u + 1000 * (c :: nat)"
proof -
  have "10 ^ (3 - ct) * (u mod 10 ^ ct + 10 ^ ct * (u div 10 ^ ct)) = u mod 10 ^ ct * 10 ^ (3 - ct) + 1000 * (u div 10 ^ ct)"
    unfolding split_pow [OF assms, symmetric] distrib_left mult.assoc by (simp only: mult.commute)
  then show ?thesis by simp
qed

lemma sliceUnits_val:
  assumes ct: "ct = 1 \<or> ct = 2" and k: "0 < k"
  shows "k + s \<le> length uar \<Longrightarrow> k + s \<le> first + 1 \<Longrightarrow> units_ok (take s uar) \<Longrightarrow> unat nxt = r * 10 ^ (3 - ct) \<Longrightarrow> r < 10 ^ ct \<Longrightarrow>
    \<exists>nxt' ws r'. sliceUnits k first ct nxt uar s = Some (nxt', take k uar @ ws @ drop (k + s) uar) \<and> length ws = s \<and> units_ok ws \<and>
      unat nxt' = r' * 10 ^ (3 - ct) \<and> r' < 10 ^ ct \<and>
      unat nxt' + 1000 * units_val ws = 10 ^ (3 - ct) * units_val (take s uar) + 1000 ^ s * (r * 10 ^ (3 - ct))"
proof (induction s arbitrary: nxt uar r)
  case 0
  then show ?case by simp
next
  case (Suc s)
  let ?u = "uar ! s" let ?w = "ucast (nxt + QUOT10 ?u ct) :: Unit" let ?n = "(ucast ?u - QUOT10 ?u ct * pow10 ct) * pow10 (3 - ct)"
  have ok: "units_ok (take s uar)" "unat ?u < 1000" using Suc.prems by (simp_all add: take_Suc_conv_app_nth)
  note c = slice_carry [OF ct ok(2) Suc.prems(4,5)]
  let ?uar = "uar[s + k := ?w]"
  have step: "sliceUnits k first ct nxt uar (Suc s) = sliceUnits k first ct ?n ?uar s"
    using Suc.prems(1,2) by (simp add: Let_def)
  have tk: "take s ?uar = take s uar" "take k ?uar = take k uar" using k by simp_all
  have dr: "drop (k + s) ?uar = ?w # drop (k + Suc s) uar"
    using Suc.prems(1) by (simp add: add.commute [of s k] drop_update_swap flip: Cons_nth_drop_Suc)
  have "unat ?u mod 10 ^ ct < 10 ^ ct" by simp
  then obtain nxt' ws r' where ih: "sliceUnits k first ct ?n ?uar s = Some (nxt', take k ?uar @ ws @ drop (k + s) ?uar)"
      "length ws = s" "units_ok ws" "unat nxt' = r' * 10 ^ (3 - ct)" "r' < 10 ^ ct"
      "unat nxt' + 1000 * units_val ws = 10 ^ (3 - ct) * units_val (take s ?uar) + 1000 ^ s * (unat ?u mod 10 ^ ct * 10 ^ (3 - ct))"
    using Suc.IH [of ?uar ?n "unat ?u mod 10 ^ ct"] Suc.prems(1,2) ok(1) tk(1) c(3) by auto
  have "units_val (take (Suc s) uar) = units_val (take s uar) + 1000 ^ s * unat ?u" using Suc.prems(1) by (simp add: units_val_take_Suc)
  moreover have "units_val (ws @ [?w]) = units_val ws + 1000 ^ s * (r * 10 ^ (3 - ct) + unat ?u div 10 ^ ct)"
    using ih(2) c(1) by (simp add: units_val_append)
  ultimately have "unat nxt' + 1000 * units_val (ws @ [?w]) =
      10 ^ (3 - ct) * units_val (take s uar) + 1000 ^ s * (unat ?u mod 10 ^ ct * 10 ^ (3 - ct) + 1000 * (r * 10 ^ (3 - ct) + unat ?u div 10 ^ ct))"
    using ih(6) unfolding tk by (simp add: algebra_simps)
  also have "\<dots> = 10 ^ (3 - ct) * units_val (take (Suc s) uar) + 1000 ^ Suc s * (r * 10 ^ (3 - ct))"
    unfolding slice_sum [OF ct] using Suc.prems(1) by (simp add: units_val_take_Suc algebra_simps)
  finally show ?case using ih(1-5) c(1,2) unfolding step tk dr
    by (intro exI [of _ nxt'] exI [of _ "ws @ [?w]"] exI [of _ r']) simp
qed

lemma moveUnits_val:
  assumes "0 < k"
  shows "k + s \<le> length uar \<Longrightarrow> moveUnits k uar s = Some (take k uar @ take s uar @ drop (k + s) uar)"
proof (induction s arbitrary: uar)
  case (Suc s)
  let ?uar = "uar[s + k := uar ! s]"
  have "drop (k + s) ?uar = uar ! s # drop (k + Suc s) uar"
    using Suc.prems(1) by (simp add: add.commute [of s k] drop_update_swap flip: Cons_nth_drop_Suc)
  then show ?case using Suc.IH [of ?uar] Suc.prems assms by (simp add: take_Suc_conv_app_nth)
qed simp

lemma clearUnits_zero: "t \<le> length uar \<Longrightarrow> clearUnits 0 uar t = Some (replicate t 0 @ drop t uar)"
proof (induction t arbitrary: uar)
  case (Suc t)
  then have "clearUnits 0 uar (Suc t) = Some (replicate t 0 @ drop t (uar[t := 0]))" by simp
  also have "drop t (uar[t := 0]) = 0 # drop (Suc t) uar" using Suc.prems by (simp add: drop_update_swap flip: Cons_nth_drop_Suc)
  finally show ?case by (simp add: replicate_append_same)
qed simp

lemma clearUnits_val:
  "0 < k \<Longrightarrow> k \<le> length uar \<Longrightarrow> clearUnits nxt uar k = Some (replicate (k - 1) 0 @ ucast nxt # drop k uar)"
proof -
  assume k: "0 < k" "k \<le> length uar"
  then obtain t where t: "k = Suc t" by (cases k) auto
  then have "drop t (uar[t := ucast nxt]) = ucast nxt # drop k uar" using k by (simp add: drop_update_swap flip: Cons_nth_drop_Suc)
  then show ?thesis using k t by (simp add: clearUnits_zero)
qed

lemma units_ok_zeros [simp]: "units_ok (replicate n 0)"
  by (simp add: units_ok_def list_all_iff)

lemma units_val_replicate: "units_val (replicate n 0 @ us) = 1000 ^ n * units_val us"
  by (induction n) simp_all


lemma add_lessD2: "i + j < (k :: nat) \<Longrightarrow> j < k"
  by simp

lemma shift_units_middle:
  assumes d: "1 \<le> d" and shift: "0 < shift" and n: "D2U (d + shift) \<le> length uar"
    and ok: "units_ok (take (D2U d) uar)" and V: "units_val (take (D2U d) uar) < 10 ^ nat d"
    and k: "k = D2U shift" and ct: "ct = nat (3 - MSUDIGITS shift)"
  shows "\<exists>nxt ws. (if ct = 0 then do { uar \<leftarrow> moveUnits k uar (D2U d); Some (0, uar) }
           else sliceUnits k (D2U (d + shift) - 1) ct 0 uar (D2U d)) =
      Some (nxt, take k uar @ ws @ drop (D2U (d + shift)) uar) \<and> k + length ws = D2U (d + shift) \<and>
      units_ok ws \<and> unat nxt < 1000 \<and> unat nxt + 1000 * units_val ws = 10 ^ (3 - ct) * units_val (take (D2U d) uar)"
proof -
  obtain q c where q: "D2U shift = Suc q" "MSUDIGITS shift = int c" "shift = int (3 * q + c)" "1 \<le> c" "c \<le> 3"
    using MSUDIGITS_split [OF shift] .
  obtain s m where s: "D2U d = Suc s" "1 \<le> m" "m \<le> 3" "d = int (3 * s + m)" using digits_split [OF d] .
  have ct3: "ct = 3 - c" unfolding ct q(2) by arith
  have k: "k = Suc q" "0 < k" using k q(1) by simp_all
  have sum: "D2U (d + shift) = s + q + (m + c + 2) div 3"
  proof -
    have "d + shift + 2 = int (m + c + 2 + 3 * (s + q))" using s(4) q(3) by simp
    then have "(d + shift + 2) div 3 = int (s + q + (m + c + 2) div 3)" unfolding zdiv_int by simp
    then show ?thesis using d shift by (simp only: D2U_eq nat_int)
  qed
  have long: "D2U (d + shift) = k + Suc s" if "ct < m"
  proof -
    have "(m + c + 2) div 3 = 2" using that ct3 s(2,3) q(4,5) by linarith
    then show ?thesis unfolding sum using k(1) by simp
  qed
  have short: "D2U (d + shift) = k + s" if "m \<le> ct"
  proof -
    have "(m + c + 2) div 3 = 1" using that ct3 s(2,3) q(4,5) by linarith
    then show ?thesis unfolding sum using k(1) by simp
  qed
  show ?thesis
  proof (cases "ct = 0")
    case True
    then have l: "D2U (d + shift) = k + Suc s" using long s(2) by simp
    then have "moveUnits k uar (D2U d) = Some (take k uar @ take (D2U d) uar @ drop (D2U (d + shift)) uar)"
      using moveUnits_val [OF k(2), of "Suc s" uar] n s(1) by simp
    then show ?thesis using True l n ok s(1) by (intro exI [of _ 0] exI [of _ "take (D2U d) uar"]) simp
  next
    case False
    then have ct12: "ct = 1 \<or> ct = 2" using ct3 q(4) by auto
    have small: "r * 10 ^ (3 - ct) < 1000" if "r < 10 ^ ct" for r :: nat using that ct12 by auto
    show ?thesis
    proof (cases "ct < m")
      case True
      then have l: "D2U (d + shift) = k + D2U d" using long s(1) by simp
      obtain nxt ws r where "sliceUnits k (D2U (d + shift) - 1) ct 0 uar (D2U d) = Some (nxt, take k uar @ ws @ drop (k + D2U d) uar)"
          "length ws = D2U d" "units_ok ws" "unat nxt = r * 10 ^ (3 - ct)" "r < 10 ^ ct"
          "unat nxt + 1000 * units_val ws = 10 ^ (3 - ct) * units_val (take (D2U d) uar)"
        using sliceUnits_val [OF ct12 k(2), of "D2U d" uar "D2U (d + shift) - 1" 0 0] n ok l k(2) by fastforce
      then show ?thesis using False l small by (intro exI [of _ nxt] exI [of _ ws]) simp
    next
      case m: False
      then have l: "D2U (d + shift) = k + s" using short by simp
      let ?u = "uar ! s" let ?n = "(ucast ?u - QUOT10 ?u ct * pow10 ct) * pow10 (3 - ct)"
      have len: "s < length uar" "k + s \<le> length uar" using n l k by simp_all
      have u: "units_ok (take s uar)" "unat ?u < 1000" using ok len s(1) by (simp_all add: take_Suc_conv_app_nth)
      have v: "units_val (take (D2U d) uar) = units_val (take s uar) + 1000 ^ s * unat ?u" using len s(1) by (simp add: units_val_take_Suc)
      have lt: "unat ?u < 10 ^ ct"
      proof -
        have "nat d = 3 * s + m" using s(4) by simp
        then have "units_val (take s uar) + 1000 ^ s * unat ?u < 1000 ^ s * 10 ^ m" using V unfolding v by (simp add: power_add pow10_3)
        then have "1000 ^ s * unat ?u < 1000 ^ s * 10 ^ m" by (rule add_lessD2)
        then have "unat ?u < 10 ^ m" by simp
        also have "(10 :: nat) ^ m \<le> 10 ^ ct" using m by (intro power_increasing) simp_all
        finally show ?thesis .
      qed
      have nx: "unat ?n = unat ?u * 10 ^ (3 - ct)" using slice_carry(3) [OF ct12 u(2), of 0 0] lt by simp
      have step: "sliceUnits k (D2U (d + shift) - 1) ct 0 uar (D2U d) = sliceUnits k (D2U (d + shift) - 1) ct ?n uar s"
        using len l s(1) k by (simp add: Let_def)
      obtain nxt ws r where "sliceUnits k (D2U (d + shift) - 1) ct ?n uar s = Some (nxt, take k uar @ ws @ drop (k + s) uar)"
          "length ws = s" "units_ok ws" "unat nxt = r * 10 ^ (3 - ct)" "r < 10 ^ ct"
          "unat nxt + 1000 * units_val ws = 10 ^ (3 - ct) * units_val (take s uar) + 1000 ^ s * (unat ?u * 10 ^ (3 - ct))"
        using sliceUnits_val [OF ct12 k(2), of s uar "D2U (d + shift) - 1" ?n "unat ?u"] len l u(1) nx lt k by auto
      then show ?thesis using False l small v step by (intro exI [of _ nxt] exI [of _ ws]) (simp add: algebra_simps)
    qed
  qed
qed

lemma dnShiftToMost_val:
  assumes d: "1 \<le> d" and shift: "0 \<le> shift" and n: "D2U (d + shift) \<le> length uar"
    and ok: "units_ok (take (D2U d) uar)" and V: "units_val (take (D2U d) uar) < 10 ^ nat d"
  shows "\<exists>us. dnShiftToMost uar d shift = Some (d + shift, us @ drop (D2U (d + shift)) uar) \<and> length us = D2U (d + shift) \<and>
    units_ok us \<and> units_val us = units_val (take (D2U d) uar) * 10 ^ nat shift"
proof -
  consider "shift = 0" | "0 < shift" "d + shift \<le> 3" | "0 < shift" "\<not> d + shift \<le> 3" using shift by linarith
  then show ?thesis
  proof cases
    case 1
    then show ?thesis using n ok by (intro exI [of _ "take (D2U d) uar"]) (simp add: dnShiftToMost_def)
  next
    case 2
    have D: "D2U d = 1" "D2U (d + shift) = 1" using d 2 by (simp_all add: D2U_eq)
    obtain u us where uar: "uar = u # us" using n D by (cases uar) auto
    have "unat u * 10 ^ nat shift < 10 ^ nat d * 10 ^ nat shift" using V D uar by simp
    also have "\<dots> = 10 ^ nat (d + shift)" using d 2 by (simp add: nat_add_distrib power_add)
    also have "\<dots> \<le> (10 :: nat) ^ 3" using 2 by (intro power_increasing) simp_all
    finally have lt: "unat u * 10 ^ nat shift < 1000" by simp
    have p: "unat (pow10 (nat shift)) = 10 ^ nat shift" using d 2 by (intro pow10_small(2)) simp
    have "unat (ucast u * pow10 (nat shift) :: uInt) = unat u * 10 ^ nat shift"
      unfolding unat_word_ariths(2) p unat_ucast_uInt using lt by simp
    then have "unat (ucast (ucast u * pow10 (nat shift) :: uInt) :: Unit) = unat u * 10 ^ nat shift"
      using unat_ucast_Unit [of "ucast u * pow10 (nat shift)"] lt by simp
    then show ?thesis using 2 uar D lt by (intro exI [of _ "[ucast (ucast u * pow10 (nat shift))]"]) (simp add: dnShiftToMost_def)
  next
    case 3
    define k ct where "k = D2U shift" and "ct = nat (3 - MSUDIGITS shift)"
    obtain nxt ws where mid: "(if ct = 0 then do { uar \<leftarrow> moveUnits k uar (D2U d); Some (0, uar) }
           else sliceUnits k (D2U (d + shift) - 1) ct 0 uar (D2U d)) = Some (nxt, take k uar @ ws @ drop (D2U (d + shift)) uar)"
        "k + length ws = D2U (d + shift)" "units_ok ws" "unat nxt < 1000"
        "unat nxt + 1000 * units_val ws = 10 ^ (3 - ct) * units_val (take (D2U d) uar)"
      using shift_units_middle [OF d 3(1) n ok V k_def ct_def] by blast
    obtain q c where q: "D2U shift = Suc q" "MSUDIGITS shift = int c" "shift = int (3 * q + c)" "1 \<le> c" "c \<le> 3"
      using MSUDIGITS_split [OF 3(1)] .
    have k: "k = Suc q" using q(1) by (simp add: k_def)
    have c: "3 - ct = c" unfolding ct_def q(2) using q(5) by arith
    have len: "k \<le> length (take k uar @ ws @ drop (D2U (d + shift)) uar)" "min (length uar) k = k" using mid(2) n by simp_all
    let ?us = "replicate q 0 @ ucast nxt # ws"
    have "clearUnits nxt (take k uar @ ws @ drop (D2U (d + shift)) uar) k = Some (?us @ drop (D2U (d + shift)) uar)"
      using clearUnits_val [OF _ len(1), of nxt] k len(2) by simp
    moreover have "dnShiftToMost uar d shift = do { (nxt, uar) \<leftarrow>
          (if ct = 0 then do { uar \<leftarrow> moveUnits k uar (D2U d); Some (0, uar) } else sliceUnits k (D2U (d + shift) - 1) ct 0 uar (D2U d));
        uar \<leftarrow> clearUnits nxt uar k; Some (d + shift, uar) }"
      unfolding dnShiftToMost_def k_def [symmetric] ct_def [symmetric] using 3 by (simp add: Let_def)
    ultimately have "dnShiftToMost uar d shift = Some (d + shift, ?us @ drop (D2U (d + shift)) uar)" unfolding mid(1) by simp
    moreover have "unat (ucast nxt :: Unit) = unat nxt" using unat_ucast_Unit [of nxt] mid(4) by simp
    moreover have "nat shift = 3 * q + c" unfolding q(3) by (rule nat_int)
    ultimately show ?thesis using mid k c
      by (intro exI [of _ ?us]) (auto simp: units_val_replicate power_add pow10_3)
  qed
qed

section \<open>Properties\<close>

text \<open>
  C23: the two shifts multiply and divide by a power of ten.  With room for the digits, \<^verbatim>\<open>decShiftToMost\<close> stays inside the
  array, returns the sum of digits and shift, writes exactly the units that many digits take and multiplies their value by
  \<open>10 ^ shift\<close>; \<^verbatim>\<open>decShiftToLeast\<close> stays inside the array and divides the value by a power of ten, dropping the remainder.
\<close>

theorem shifts_exact:
  assumes "1 \<le> d" "0 \<le> shift" "D2U (d + shift) \<le> length uar" "0 \<le> drp" "drp \<le> d"
    and "units_ok (take (D2U d) uar)" "units_val (take (D2U d) uar) < 10 ^ nat d"
  shows "(\<exists>us. dnShiftToMost uar d shift = Some (d + shift, us @ drop (D2U (d + shift)) uar) \<and> length us = D2U (d + shift) \<and>
      units_ok us \<and> units_val us = units_val (take (D2U d) uar) * 10 ^ nat shift) \<and>
    (\<exists>k us. decShiftToLeast uar (D2U d) drp = Some (k, us @ drop k uar) \<and> length us = k \<and> k \<le> D2U d \<and>
      units_ok us \<and> units_val us = units_val (take (D2U d) uar) div 10 ^ nat drp)"
proof
  show "\<exists>us. dnShiftToMost uar d shift = Some (d + shift, us @ drop (D2U (d + shift)) uar) \<and> length us = D2U (d + shift) \<and>
      units_ok us \<and> units_val us = units_val (take (D2U d) uar) * 10 ^ nat shift"
    using dnShiftToMost_val [OF assms(1-3,6,7)] .
  obtain r m where r: "D2U d = Suc r" "d = int (3 * r + m)" "m \<le> 3" using digits_split [OF assms(1)] by metis
  have "D2U d \<le> D2U (d + shift)" using assms(1,2) by (simp add: D2U_eq zdiv_mono1 nat_mono)
  then have "D2U d \<le> length uar" using assms(3) by simp
  then show "\<exists>k us. decShiftToLeast uar (D2U d) drp = Some (k, us @ drop k uar) \<and> length us = k \<and> k \<le> D2U d \<and>
      units_ok us \<and> units_val us = units_val (take (D2U d) uar) div 10 ^ nat drp"
    using decShiftToLeast_val [OF _ _ assms(6,4)] assms(5) r by force
qed

theorem shifts_exact_witness:
  "(\<exists>us. dnShiftToMost [321, 54, 0, 7] 5 4 = Some (5 + 4, us @ drop (D2U (5 + 4)) [321, 54, 0, 7]) \<and> length us = D2U (5 + 4) \<and>
     units_ok us \<and> units_val us = units_val (take (D2U 5) [321, 54, 0, 7]) * 10 ^ nat 4) \<and>
   (\<exists>k us. decShiftToLeast [321, 54, 0, 7] (D2U 5) 4 = Some (k, us @ drop k [321, 54, 0, 7]) \<and> length us = k \<and> k \<le> D2U 5 \<and>
     units_ok us \<and> units_val us = units_val (take (D2U 5) [321, 54, 0, 7]) div 10 ^ nat 4)"
  by (rule shifts_exact) (simp_all add: D2U_eq)

end
