(* ===== verification/DnCompare.thy ===== *)
theory DnCompare
  imports UnitArith
begin

text \<open>
  Comparing two numbers by value (\<^verbatim>\<open>decCompare\<close> of \<^verbatim>\<open>decNumber.c\<close>).  The outer option is \<open>None\<close> when units outside an array are
  read, the inner one when memory cannot be allocated (\<^verbatim>\<open>BADINT\<close>).
\<close>

section \<open>Operation\<close>

definition unitsOf :: "decNumber \<Rightarrow> Unit list option" where
  "unitsOf dn = (if D2U (digits dn) \<le> length (lsu dn) then Some (take (D2U (digits dn)) (lsu dn)) else None)"

definition decCompare :: "(nat \<Rightarrow> bool) \<Rightarrow> decNumber \<Rightarrow> decNumber \<Rightarrow> bool \<Rightarrow> int option option" where
  "decCompare mem lhs rhs signless =
     (let result = (if decNumberIsZero lhs then 0 else 1);
          result' = (if result \<noteq> 0 \<and> decNumberIsNegative lhs then - 1 else result);
          sigr = (if decNumberIsZero rhs then 0 else if decNumberIsNegative rhs then - 1 else 1);
          magnitude = (\<lambda>result.
            if (bits lhs OR bits rhs) AND DECINF \<noteq> 0 then
              Some (Some (if decNumberIsInfinite rhs then (if decNumberIsInfinite lhs then 0 else - result) else result))
            else
              (let (lhs, rhs, result) = (if exponent lhs > exponent rhs then (rhs, lhs, - result) else (lhs, rhs, result))
               in do {
                 a \<leftarrow> unitsOf lhs;
                 b \<leftarrow> unitsOf rhs;
                 Some (map_option (\<lambda>c. c * result) (decUnitCompare mem a b (exponent rhs - exponent lhs)))
               }))
      in if signless then
           (if decNumberIsZero rhs then Some (Some result)
            else if result = 0 then Some (Some (- 1))
            else magnitude result)
         else
           (if result' > sigr then Some (Some 1)
            else if result' < sigr then Some (Some (- 1))
            else if result' = 0 then Some (Some 0)
            else magnitude result'))"

end
