(* ===== verification/DnRound.thy ===== *)
theory DnRound
  imports DnCompare
begin

text \<open>
  Rounding and finishing a result (\<^verbatim>\<open>decNumber.c\<close>): cutting a coefficient to the precision with a residue of the digits cut off,
  applying the rounding mode, subnormal results, overflow, and the exponent clamp.  Each operation threads the number, the residue and
  the status flags; \<open>None\<close> is an access outside an array.
\<close>

section \<open>Setting the coefficient\<close>

definition resmap :: "int list" where
  "resmap = [0, 3, 3, 3, 3, 5, 7, 7, 7, 7]"

text \<open>The number of rounds of a loop that counts \<open>n\<close> digits down in steps of a unit.\<close>

definition unitsFor :: "int \<Rightarrow> nat" where
  "unitsFor n = nat ((n + 2) div 3)"

fun nonZeroUnit :: "Unit list \<Rightarrow> nat \<Rightarrow> nat \<Rightarrow> bool option" where
  "nonZeroUnit us up 0 = Some False"
| "nonZeroUnit us up (Suc n) = do { u \<leftarrow> peek us up; if u \<noteq> 0 then Some True else nonZeroUnit us (up + 1) n }"

text \<open>Over the units whose digits are all discarded, up to the one with the first discarded digit.\<close>

function spinUp :: "Unit list \<Rightarrow> int \<Rightarrow> int \<Rightarrow> nat \<Rightarrow> int \<Rightarrow> (int \<times> nat \<times> int) option" where
  "spinUp us discard count up residue =
     (let count = count + 3 in
      if count \<ge> discard then Some (count, up, residue)
      else do { u \<leftarrow> peek us up; spinUp us discard count (up + 1) (if u \<noteq> 0 then 1 else residue) })"
  by auto
termination by (relation "measure (\<lambda>(us, discard, count, up, residue). nat (discard - count))") auto

declare spinUp.simps [simp del]

definition clearCoeff :: "decNumber \<Rightarrow> decNumber option" where
  "clearCoeff dn = do { us \<leftarrow> poke (lsu dn) 0 0; Some (dn\<lparr>lsu := us, digits := 1\<rparr>) }"

text \<open>The source of the digits is an array of its own, or (\<open>None\<close>) the one of the number.\<close>

definition decSetCoeff ::
  "decNumber \<Rightarrow> decContext \<Rightarrow> Unit list option \<Rightarrow> int \<Rightarrow> int \<Rightarrow> uInt \<Rightarrow> (decNumber \<times> int \<times> uInt) option" where
  "decSetCoeff dn ctx src len residue st =
     (let discard = len - ctx_digits ctx; us = (case src of None \<Rightarrow> lsu dn | Some us \<Rightarrow> us) in
      if discard \<le> 0 then do {
        dn \<leftarrow> (case src of None \<Rightarrow> Some dn
          | Some us \<Rightarrow> do { l \<leftarrow> copyUnits us 0 (lsu dn) 0 (unitsFor len); Some (dn\<lparr>lsu := l, digits := len\<rparr>) });
        Some (dn, residue, if residue \<noteq> 0 then st OR (DEC_Inexact OR DEC_Rounded) else st)
      }
      else do {
        let dn = dn\<lparr>exponent := exponent dn + discard\<rparr>;
        let st = st OR DEC_Rounded;
        let residue = (if residue > 1 then 1 else residue);
        if discard > len then do {
          residue \<leftarrow> (if residue \<le> 0 then do { nz \<leftarrow> nonZeroUnit us 0 (unitsFor len); Some (if nz then 1 else residue) }
            else Some residue);
          dn \<leftarrow> clearCoeff dn;
          Some (dn, residue, if residue \<noteq> 0 then st OR DEC_Inexact else st)
        }
        else do {
          (count, up, residue) \<leftarrow> spinUp us discard 0 0 residue;
          let ct = nat (discard - (count - 3) - 1);
          u \<leftarrow> peek us up;
          (dn, residue) \<leftarrow>
            (if ct = 2 then do {
               let half = (drop_bit 1 (ucast (pow10 3)) :: Unit);
               let residue = (if u \<ge> half then (if u > half then 7 else residue + 5)
                 else if u \<noteq> 0 then 3 else residue);
               if ctx_digits ctx \<le> 0 then do { dn \<leftarrow> clearCoeff dn; Some (dn, residue) }
               else do {
                 l \<leftarrow> copyUnits us (up + 1) (lsu dn) 0 (unitsFor (ctx_digits ctx));
                 Some (dn\<lparr>lsu := l, digits := ctx_digits ctx\<rparr>, residue)
               }
             }
             else do {
               let quot = (if ct = 0 then ucast u else QUOT10 u ct);
               let residue = (if ct \<noteq> 0 \<and> ucast u - quot * pow10 ct \<noteq> 0 then 1 else residue);
               let temp = drop_bit 16 (quot * 6554);
               let discard1 = quot - (push_bit 1 temp + push_bit 3 temp);
               let residue = residue + resmap ! unat discard1;
               if ctx_digits ctx \<le> 0 then do { dn \<leftarrow> clearCoeff dn; Some (dn, residue) }
               else do {
                 (t, l) \<leftarrow> shiftCopy us (ct + 1) temp up (ctx_digits ctx) (lsu dn) 0;
                 Some (dn\<lparr>lsu := l, digits := ctx_digits ctx\<rparr>, residue)
               }
             });
          Some (dn, residue, if residue \<noteq> 0 then st OR DEC_Inexact else st)
        }
      })"

definition decCopyFit :: "decNumber \<Rightarrow> decNumber \<Rightarrow> decContext \<Rightarrow> int \<Rightarrow> uInt \<Rightarrow> (decNumber \<times> int \<times> uInt) option" where
  "decCopyFit dest src ctx residue st =
     decSetCoeff (dest\<lparr>bits := bits src, exponent := exponent src\<rparr>) ctx (Some (lsu src)) (digits src) residue st"

section \<open>Overflow\<close>

function fillNines :: "Unit list \<Rightarrow> nat \<Rightarrow> int \<Rightarrow> Unit list option" where
  "fillNines us up count =
     (if count > 3 then do { us \<leftarrow> poke us up 999; fillNines us (up + 1) (count - 3) }
      else poke us up (ucast (pow10 (nat count) - 1)))"
  by auto
termination by (relation "measure (\<lambda>(us, up, count). nat count)") auto

declare fillNines.simps [simp del]

definition decSetMaxValue :: "decNumber \<Rightarrow> decContext \<Rightarrow> decNumber option" where
  "decSetMaxValue dn ctx = do {
     us \<leftarrow> fillNines (lsu dn) 0 (ctx_digits ctx);
     Some (dn\<lparr>digits := ctx_digits ctx, lsu := us, bits := 0, exponent := emax ctx - ctx_digits ctx + 1\<rparr>)
   }"

definition decSetOverflow :: "decNumber \<Rightarrow> decContext \<Rightarrow> uInt \<Rightarrow> (decNumber \<times> uInt) option" where
  "decSetOverflow dn ctx st =
     (let sign = bits dn AND DECNEG in
      if decNumberIsZero dn then
        (let e = (if clamp ctx \<noteq> 0 then emax ctx - (ctx_digits ctx - 1) else emax ctx)
         in Some (if exponent dn > e then (dn\<lparr>exponent := e\<rparr>, st OR DEC_Clamped) else (dn, st)))
      else do {
        let dn = decNumberZero dn;
        let needmax = (case ctx_round ctx of
            DEC_ROUND_DOWN \<Rightarrow> True
          | DEC_ROUND_05UP \<Rightarrow> True
          | DEC_ROUND_CEILING \<Rightarrow> sign \<noteq> 0
          | DEC_ROUND_FLOOR \<Rightarrow> sign = 0
          | _ \<Rightarrow> False);
        dn \<leftarrow> (if needmax then do { dn \<leftarrow> decSetMaxValue dn ctx; Some (dn\<lparr>bits := sign\<rparr>) }
               else Some (dn\<lparr>bits := sign OR DECINF\<rparr>));
        Some (dn, st OR (DEC_Overflow OR DEC_Inexact OR DEC_Rounded))
      })"

section \<open>Applying a rounding\<close>

text \<open>Whether the coefficient is to be incremented (\<open>1\<close>) or decremented (\<open>- 1\<close>); \<open>None\<close> for a mode that does not exist.\<close>

definition roundBump :: "rounding \<Rightarrow> bool \<Rightarrow> Unit \<Rightarrow> int \<Rightarrow> int option" where
  "roundBump r neg u residue =
     (case r of
        DEC_ROUND_05UP \<Rightarrow>
          (let lsd5 = u mod 5 in
           Some (if residue < 0 \<and> lsd5 \<noteq> 1 then - 1 else if residue > 0 \<and> lsd5 = 0 then 1 else 0))
      | DEC_ROUND_DOWN \<Rightarrow> Some (if residue < 0 then - 1 else 0)
      | DEC_ROUND_HALF_DOWN \<Rightarrow> Some (if residue > 5 then 1 else 0)
      | DEC_ROUND_HALF_EVEN \<Rightarrow>
          Some (if residue > 5 then 1 else if residue = 5 then (if u AND 1 \<noteq> 0 then 1 else 0) else 0)
      | DEC_ROUND_HALF_UP \<Rightarrow> Some (if residue \<ge> 5 then 1 else 0)
      | DEC_ROUND_UP \<Rightarrow> Some (if residue > 0 then 1 else 0)
      | DEC_ROUND_CEILING \<Rightarrow>
          Some (if neg then (if residue < 0 then - 1 else 0) else (if residue > 0 then 1 else 0))
      | DEC_ROUND_FLOOR \<Rightarrow>
          Some (if \<not> neg then (if residue < 0 then - 1 else 0) else (if residue > 0 then 1 else 0))
      | DEC_ROUND_MAX \<Rightarrow> None)"

text \<open>
  Whether all units below the most significant one are \<open>full\<close> and that one is \<open>msu n\<close>, with \<open>n\<close> its number of digits; the result has
  its index and \<open>n\<close>.
\<close>

function uniformUnits :: "Unit \<Rightarrow> (nat \<Rightarrow> uInt) \<Rightarrow> Unit list \<Rightarrow> nat \<Rightarrow> nat \<Rightarrow> (nat \<times> nat) option option" where
  "uniformUnits full msu us up count = do {
     u \<leftarrow> peek us up;
     if count \<le> 3 then Some (if ucast u \<noteq> msu count then None else Some (up, count))
     else if u \<noteq> full then Some None
     else uniformUnits full msu us (up + 1) (count - 3)
   }"
  by auto
termination by (relation "measure (\<lambda>(full, msu, us, up, count). count)") auto

declare uniformUnits.simps [simp del]

definition writeUnits :: "Unit list \<Rightarrow> Unit list \<Rightarrow> Unit list option" where
  "writeUnits us c = (if length c \<le> length us then Some (c @ drop (length c) us) else None)"

definition bumpUnits :: "decNumber \<Rightarrow> int \<Rightarrow> decNumber option" where
  "bumpUnits dn bump = do {
     a \<leftarrow> unitsOf dn;
     us \<leftarrow> writeUnits (lsu dn) (fst (decUnitAddSub a [1] 0 bump));
     Some (dn\<lparr>lsu := us\<rparr>)
   }"

definition bumpUp :: "decNumber \<Rightarrow> decContext \<Rightarrow> uInt \<Rightarrow> (decNumber \<times> uInt) option" where
  "bumpUp dn ctx st =
     (case uniformUnits 999 (\<lambda>n. pow10 n - 1) (lsu dn) 0 (nat (digits dn)) of
        None \<Rightarrow> None
      | Some (Some (up, count)) \<Rightarrow>
          (let us = replicate up 0 @ ucast (pow10 (count - 1)) # drop (up + 1) (lsu dn);
               dn = dn\<lparr>lsu := us, exponent := exponent dn + 1\<rparr>
           in if exponent dn + digits dn > emax ctx + 1 then decSetOverflow dn ctx st else Some (dn, st))
      | Some None \<Rightarrow> do { dn \<leftarrow> bumpUnits dn 1; Some (dn, st) })"

definition bumpDown :: "decNumber \<Rightarrow> decContext \<Rightarrow> uInt \<Rightarrow> (decNumber \<times> uInt) option" where
  "bumpDown dn ctx st =
     (case uniformUnits 0 (\<lambda>n. pow10 (n - 1)) (lsu dn) 0 (nat (digits dn)) of
        None \<Rightarrow> None
      | Some (Some (up, count)) \<Rightarrow>
          (let us = replicate up 999 @ (ucast (pow10 count) - 1) # drop (up + 1) (lsu dn);
               dn = dn\<lparr>lsu := us, exponent := exponent dn - 1\<rparr>
           in if exponent dn + 1 = emin ctx - ctx_digits ctx + 1 then
                (let dn = (if count = 1 \<and> digits dn = 1 then dn\<lparr>lsu := us[up := 0]\<rparr>
                    else dn\<lparr>lsu := us[up := ucast (pow10 (count - 1)) - 1], digits := digits dn - 1\<rparr>)
                 in Some (dn\<lparr>exponent := exponent dn + 1\<rparr>,
                      st OR (DEC_Underflow OR DEC_Subnormal OR DEC_Inexact OR DEC_Rounded)))
              else Some (dn, st))
      | Some None \<Rightarrow> do { dn \<leftarrow> bumpUnits dn (- 1); Some (dn, st) })"

definition decApplyRound :: "decNumber \<Rightarrow> decContext \<Rightarrow> int \<Rightarrow> uInt \<Rightarrow> (decNumber \<times> uInt) option" where
  "decApplyRound dn ctx residue st =
     (if residue = 0 then Some (dn, st)
      else do {
        u \<leftarrow> peek (lsu dn) 0;
        (case roundBump (ctx_round ctx) (decNumberIsNegative dn) u residue of
           None \<Rightarrow> Some (dn, st OR DEC_Invalid_context)
         | Some bump \<Rightarrow>
             if bump = 0 then Some (dn, st) else if bump > 0 then bumpUp dn ctx st else bumpDown dn ctx st)
      })"

section \<open>Finishing\<close>

definition decSetSubnormal :: "decNumber \<Rightarrow> decContext \<Rightarrow> int \<Rightarrow> uInt \<Rightarrow> (decNumber \<times> int \<times> uInt) option" where
  "decSetSubnormal dn ctx residue st =
     (let etiny = emin ctx - (ctx_digits ctx - 1) in
      if decNumberIsZero dn then
        Some (if exponent dn < etiny then (dn\<lparr>exponent := etiny\<rparr>, residue, st OR DEC_Clamped) else (dn, residue, st))
      else do {
        let st = st OR DEC_Subnormal;
        let adjust = etiny - exponent dn;
        if adjust \<le> 0 then Some (dn, residue, if st AND DEC_Inexact \<noteq> 0 then st OR DEC_Underflow else st)
        else do {
          let workset = ctx\<lparr>ctx_digits := digits dn - adjust, emin := emin ctx - adjust\<rparr>;
          (dn, residue, st) \<leftarrow> decSetCoeff dn workset None (digits dn) residue st;
          (dn, st) \<leftarrow> decApplyRound dn workset residue st;
          let st = (if st AND DEC_Inexact \<noteq> 0 then st OR DEC_Underflow else st);
          dn \<leftarrow> (if exponent dn > etiny then do {
              (d, us) \<leftarrow> dnShiftToMost (lsu dn) (digits dn) 1;
              Some (dn\<lparr>digits := d, lsu := us, exponent := exponent dn - 1\<rparr>)
            } else Some dn);
          Some (dn, residue, if decNumberIsZero dn then st OR DEC_Clamped else st)
        }
      })"

text \<open>The pending rounding, then overflow and the exponent clamp.\<close>

definition finishNormal :: "decNumber \<Rightarrow> decContext \<Rightarrow> int \<Rightarrow> uInt \<Rightarrow> (decNumber \<times> int \<times> uInt) option" where
  "finishNormal dn ctx residue st = do {
     (dn, st) \<leftarrow> (if residue \<noteq> 0 then decApplyRound dn ctx residue st else Some (dn, st));
     if exponent dn \<le> emax ctx - ctx_digits ctx + 1 then Some (dn, residue, st)
     else if exponent dn > emax ctx - digits dn + 1 then do {
       (dn, st) \<leftarrow> decSetOverflow dn ctx st;
       Some (dn, residue, st)
     }
     else if clamp ctx = 0 then Some (dn, residue, st)
     else do {
       let shift = exponent dn - (emax ctx - ctx_digits ctx + 1);
       dn \<leftarrow> (if \<not> decNumberIsZero dn then do {
           (d, us) \<leftarrow> dnShiftToMost (lsu dn) (digits dn) shift;
           Some (dn\<lparr>digits := d, lsu := us\<rparr>)
         } else Some dn);
       Some (dn\<lparr>exponent := exponent dn - shift\<rparr>, residue, st OR DEC_Clamped)
     }
   }"

definition decFinalize :: "(nat \<Rightarrow> bool) \<Rightarrow> decNumber \<Rightarrow> decContext \<Rightarrow> int \<Rightarrow> uInt \<Rightarrow> (decNumber \<times> int \<times> uInt) option" where
  "decFinalize mem dn ctx residue st =
     (let tinyexp = emin ctx - digits dn + 1 in
      if exponent dn < tinyexp then decSetSubnormal dn ctx residue st
      else if exponent dn = tinyexp then do {
        let nmin = \<lparr>digits = 1, exponent = emin ctx, bits = 0, lsu = 1 # replicate (DECNUMUNITS - 1) 0\<rparr>;
        cmp \<leftarrow> decCompare mem dn nmin True;
        (case cmp of
           None \<Rightarrow> Some (dn, residue, st OR DEC_Insufficient_storage)
         | Some c \<Rightarrow>
             if residue < 0 \<and> c = 0 then do {
               (dn, st) \<leftarrow> decApplyRound dn ctx residue st;
               decSetSubnormal dn ctx residue st
             }
             else finishNormal dn ctx residue st)
      }
      else finishNormal dn ctx residue st)"

end
