(* ===== verification/DnBasic.thy ===== *)
theory DnBasic
  imports DnRound
begin

text \<open>
  The utilities of \<^verbatim>\<open>decNumber.c\<close>: copies, signs, classes, trimming, conversion from and to 32-bit integers, packed digits, the
  propagation of NaNs, and the error status of a result.
\<close>

section \<open>Copies and signs\<close>

definition decNumberCopy :: "decNumber \<Rightarrow> decNumber \<Rightarrow> decNumber option" where
  "decNumberCopy dest src = do {
     u \<leftarrow> peek (lsu src) 0;
     us \<leftarrow> poke (lsu dest) 0 u;
     us \<leftarrow> (if digits src > 3 then copyUnits (lsu src) 1 us 1 (D2U (digits src) - 1) else Some us);
     Some (dest\<lparr>bits := bits src, exponent := exponent src, digits := digits src, lsu := us\<rparr>)
   }"

definition decNumberCopyAbs :: "decNumber \<Rightarrow> decNumber \<Rightarrow> decNumber option" where
  "decNumberCopyAbs res rhs = do { res \<leftarrow> decNumberCopy res rhs; Some (res\<lparr>bits := bits res AND NOT DECNEG\<rparr>) }"

definition decNumberCopyNegate :: "decNumber \<Rightarrow> decNumber \<Rightarrow> decNumber option" where
  "decNumberCopyNegate res rhs = do { res \<leftarrow> decNumberCopy res rhs; Some (res\<lparr>bits := bits res XOR DECNEG\<rparr>) }"

definition decNumberCopySign :: "decNumber \<Rightarrow> decNumber \<Rightarrow> decNumber \<Rightarrow> decNumber option" where
  "decNumberCopySign res lhs rhs = do {
     let sign = bits rhs AND DECNEG;
     res \<leftarrow> decNumberCopy res lhs;
     Some (res\<lparr>bits := (bits res AND NOT DECNEG) OR sign\<rparr>)
   }"

section \<open>Classes\<close>

datatype decClass =
    DEC_CLASS_SNAN
  | DEC_CLASS_QNAN
  | DEC_CLASS_NEG_INF
  | DEC_CLASS_NEG_NORMAL
  | DEC_CLASS_NEG_SUBNORMAL
  | DEC_CLASS_NEG_ZERO
  | DEC_CLASS_POS_ZERO
  | DEC_CLASS_POS_SUBNORMAL
  | DEC_CLASS_POS_NORMAL
  | DEC_CLASS_POS_INF

definition decNumberIsNormal :: "decNumber \<Rightarrow> decContext \<Rightarrow> bool" where
  "decNumberIsNormal dn ctx =
     (if decNumberIsSpecial dn then False
      else if decNumberIsZero dn then False
      else \<not> exponent dn + digits dn - 1 < emin ctx)"

definition decNumberIsSubnormal :: "decNumber \<Rightarrow> decContext \<Rightarrow> bool" where
  "decNumberIsSubnormal dn ctx =
     (if decNumberIsSpecial dn then False
      else if decNumberIsZero dn then False
      else exponent dn + digits dn - 1 < emin ctx)"

definition decNumberClass :: "decNumber \<Rightarrow> decContext \<Rightarrow> decClass" where
  "decNumberClass dn ctx =
     (if decNumberIsSpecial dn then
        (if decNumberIsQNaN dn then DEC_CLASS_QNAN
         else if decNumberIsSNaN dn then DEC_CLASS_SNAN
         else if decNumberIsNegative dn then DEC_CLASS_NEG_INF
         else DEC_CLASS_POS_INF)
      else if decNumberIsNormal dn ctx then
        (if decNumberIsNegative dn then DEC_CLASS_NEG_NORMAL else DEC_CLASS_POS_NORMAL)
      else if decNumberIsZero dn then
        (if decNumberIsNegative dn then DEC_CLASS_NEG_ZERO else DEC_CLASS_POS_ZERO)
      else if decNumberIsNegative dn then DEC_CLASS_NEG_SUBNORMAL
      else DEC_CLASS_POS_SUBNORMAL)"

fun decNumberClassToString :: "decClass \<Rightarrow> string" where
  "decNumberClassToString DEC_CLASS_POS_NORMAL = ''+Normal''"
| "decNumberClassToString DEC_CLASS_NEG_NORMAL = ''-Normal''"
| "decNumberClassToString DEC_CLASS_POS_ZERO = ''+Zero''"
| "decNumberClassToString DEC_CLASS_NEG_ZERO = ''-Zero''"
| "decNumberClassToString DEC_CLASS_POS_SUBNORMAL = ''+Subnormal''"
| "decNumberClassToString DEC_CLASS_NEG_SUBNORMAL = ''-Subnormal''"
| "decNumberClassToString DEC_CLASS_POS_INF = ''+Infinity''"
| "decNumberClassToString DEC_CLASS_NEG_INF = ''-Infinity''"
| "decNumberClassToString DEC_CLASS_QNAN = ''NaN''"
| "decNumberClassToString DEC_CLASS_SNAN = ''sNaN''"

section \<open>32-bit integers\<close>

definition BADINT :: int where "BADINT = - 2147483648"
definition DECNUMMAXE :: int where "DECNUMMAXE = 999999999"
definition BIGEVEN :: int where "BIGEVEN = - 2147483646"
definition BIGODD :: int where "BIGODD = - 2147483645"

function uintUnits :: "uInt \<Rightarrow> Unit list \<Rightarrow> nat \<Rightarrow> (nat \<times> Unit list) option" where
  "uintUnits uin us up =
     (if uin > 0 then do { us \<leftarrow> poke us up (ucast (uin mod 1000)); uintUnits (uin div 1000) us (up + 1) }
      else Some (up, us))"
  by auto
termination
proof (relation "measure (\<lambda>(uin, us, up). unat uin)", goal_cases)
  case (2 uin us up us')
  then have "0 < unat uin" by (simp add: word_less_nat_alt)
  then show ?case by (simp add: unat_div)
qed simp

declare uintUnits.simps [simp del]

definition decNumberFromUInt32 :: "decNumber \<Rightarrow> uInt \<Rightarrow> decNumber option" where
  "decNumberFromUInt32 dn uin =
     (let dn = decNumberZero dn in
      if uin = 0 then Some dn
      else do {
        (n, us) \<leftarrow> uintUnits uin (lsu dn) 0;
        d \<leftarrow> decGetDigits us n;
        Some (dn\<lparr>lsu := us, digits := d\<rparr>)
      })"

definition decNumberFromInt32 :: "decNumber \<Rightarrow> int \<Rightarrow> decNumber option" where
  "decNumberFromInt32 dn i = do {
     let unsig = (if i \<ge> 0 then of_int i else if i = BADINT then 1073741824 * 2 else of_int (- i));
     dn \<leftarrow> decNumberFromUInt32 dn unsig;
     Some (if i < 0 then dn\<lparr>bits := DECNEG\<rparr> else dn)
   }"

function collectHi :: "decNumber \<Rightarrow> uInt \<Rightarrow> nat \<Rightarrow> int \<Rightarrow> uInt option" where
  "collectHi dn hi up d =
     (if d < digits dn then do {
        u \<leftarrow> peek (lsu dn) up;
        collectHi dn (hi + ucast u * pow10 (nat (d - 1))) (up + 1) (d + 3)
      } else Some hi)"
  by auto
termination by (relation "measure (\<lambda>(dn, hi, up, d). nat (digits dn - d))") auto

declare collectHi.simps [simp del]

definition decNumberToInt32 :: "decNumber \<Rightarrow> decContext \<Rightarrow> (int \<times> decContext) option" where
  "decNumberToInt32 dn ctx =
     (let invalid = (0, fst (decContextSetStatus ctx DEC_Invalid_operation)) in
      if bits dn AND DECSPECIAL \<noteq> 0 \<or> digits dn > 10 \<or> exponent dn \<noteq> 0 then Some invalid
      else do {
        u \<leftarrow> peek (lsu dn) 0;
        let lo = (ucast u :: uInt) mod 10;
        hi \<leftarrow> collectHi dn (ucast u div 10) 1 3;
        if hi > 214748364 \<or> hi = 214748364 \<and> lo > 7 then
          Some (if bits dn AND DECNEG \<noteq> 0 \<and> hi = 214748364 \<and> lo = 8 then (BADINT, ctx) else invalid)
        else do {
          let i = sint (push_bit 1 hi + push_bit 3 hi + lo);
          Some (if bits dn AND DECNEG \<noteq> 0 then - i else i, ctx)
        }
      })"

definition decNumberToUInt32 :: "decNumber \<Rightarrow> decContext \<Rightarrow> (uInt \<times> decContext) option" where
  "decNumberToUInt32 dn ctx =
     (let invalid = (0, fst (decContextSetStatus ctx DEC_Invalid_operation)) in
      if bits dn AND DECSPECIAL \<noteq> 0 \<or> digits dn > 10 \<or> exponent dn \<noteq> 0 \<or> bits dn AND DECNEG \<noteq> 0 \<and> \<not> decNumberIsZero dn then
        Some invalid
      else do {
        u \<leftarrow> peek (lsu dn) 0;
        let lo = (ucast u :: uInt) mod 10;
        hi \<leftarrow> collectHi dn (ucast u div 10) 1 3;
        if hi > 429496729 \<or> hi = 429496729 \<and> lo > 5 then Some invalid
        else Some (push_bit 1 hi + push_bit 3 hi + lo, ctx)
      })"

section \<open>Trimming\<close>

text \<open>The number of trailing zeros that may be dropped.\<close>

function trailingZeros :: "decNumber \<Rightarrow> bool \<Rightarrow> int \<Rightarrow> int \<Rightarrow> nat \<Rightarrow> nat \<Rightarrow> int option" where
  "trailingZeros dn dropall d e ct up =
     (if d < digits dn - 1 then do {
        u \<leftarrow> peek (lsu dn) up;
        let quot = QUOT10 u ct;
        if ucast u - quot * pow10 ct \<noteq> 0 then Some d
        else if \<not> dropall \<and> e = 0 then Some d
        else do {
          let e = (if \<not> dropall \<and> e \<le> 0 then e + 1 else e);
          if ct + 1 > 3 then trailingZeros dn dropall (d + 1) e 1 (up + 1)
          else trailingZeros dn dropall (d + 1) e (ct + 1) up
        }
      } else Some d)"
  by auto
termination by (relation "measure (\<lambda>(dn, dropall, d, e, ct, up). nat (digits dn - d))") auto

declare trailingZeros.simps [simp del]

definition decTrim :: "decNumber \<Rightarrow> decContext \<Rightarrow> bool \<Rightarrow> bool \<Rightarrow> (decNumber \<times> int) option" where
  "decTrim dn ctx dropall noclamp = do {
     u \<leftarrow> peek (lsu dn) 0;
     if bits dn AND DECSPECIAL \<noteq> 0 \<or> u AND 1 \<noteq> 0 then Some (dn, 0)
     else if decNumberIsZero dn then Some (dn\<lparr>exponent := 0\<rparr>, 0)
     else do {
       d \<leftarrow> trailingZeros dn dropall 0 (exponent dn) 1 0;
       if d = 0 then Some (dn, 0)
       else do {
         let maxd = emax ctx - ctx_digits ctx + 1 - exponent dn;
         let clamped = clamp ctx \<noteq> 0 \<and> \<not> noclamp;
         if clamped \<and> maxd \<le> 0 then Some (dn, 0)
         else do {
           let d = (if clamped \<and> d > maxd then maxd else d);
           (n, us) \<leftarrow> decShiftToLeast (lsu dn) (D2U (digits dn)) d;
           Some (dn\<lparr>lsu := us, exponent := exponent dn + d, digits := digits dn - d\<rparr>, d)
         }
       }
     }
   }"

text \<open>The context of the call is a local variable with indeterminate contents that \<^verbatim>\<open>decContextDefault\<close> fills.\<close>

definition decNumberTrim :: "decContext \<Rightarrow> decNumber \<Rightarrow> decNumber option" where
  "decNumberTrim local dn = map_option fst (decTrim dn (fst (decContextDefault local DEC_INIT_BASE)) False True)"

section \<open>Binary coded digits\<close>

text \<open>The loop fills the array \<open>bcd\<close> from its last byte down; \<open>ct\<close> digits of the unit \<open>u\<close> are left.\<close>

fun getBcd :: "Unit list \<Rightarrow> nat \<Rightarrow> uInt \<Rightarrow> nat \<Rightarrow> nat \<Rightarrow> uByte list \<Rightarrow> uByte list option" where
  "getBcd us up u ct 0 bcd = Some bcd"
| "getBcd us up u ct (Suc ub) bcd = do {
     bcd \<leftarrow> poke bcd ub (ucast (u mod 10));
     if ct - 1 > 0 then getBcd us up (u div 10) (ct - 1) ub bcd
     else do { v \<leftarrow> peek us (up + 1); getBcd us (up + 1) (ucast v) 3 ub bcd }
   }"

definition decNumberGetBCD :: "decNumber \<Rightarrow> uByte list \<Rightarrow> uByte list option" where
  "decNumberGetBCD dn bcd = do { u \<leftarrow> peek (lsu dn) 0; getBcd (lsu dn) 0 (ucast u) 3 (nat (digits dn)) bcd }"

fun takeBcd :: "uByte list \<Rightarrow> nat \<Rightarrow> Unit \<Rightarrow> (Unit \<times> uByte list) option" where
  "takeBcd bcd 0 u = Some (u, bcd)"
| "takeBcd [] (Suc n) u = None"
| "takeBcd (b # bcd) (Suc n) u = takeBcd bcd n (X10 u + ucast b)"

fun setBcd :: "uByte list \<Rightarrow> nat \<Rightarrow> Unit list \<Rightarrow> nat \<Rightarrow> Unit list option" where
  "setBcd bcd ct us 0 = Some us"
| "setBcd bcd ct us (Suc up) = do { (u, bcd) \<leftarrow> takeBcd bcd ct 0; us \<leftarrow> poke us up u; setBcd bcd 3 us up }"

definition decNumberSetBCD :: "decNumber \<Rightarrow> uByte list \<Rightarrow> int \<Rightarrow> decNumber option" where
  "decNumberSetBCD dn bcd n = do {
     us \<leftarrow> setBcd bcd (nat (MSUDIGITS n)) (lsu dn) (D2U (digits dn));
     Some (dn\<lparr>lsu := us, digits := n\<rparr>)
   }"

section \<open>NaNs and errors\<close>

definition DEC_sNaN :: uInt where "DEC_sNaN = 0x40000000"

definition decDecap :: "decNumber \<Rightarrow> int \<Rightarrow> decNumber option" where
  "decDecap dn drp =
     (if drp \<ge> digits dn then clearCoeff dn
      else do {
        let n = D2U (digits dn - drp);
        let ct = nat (MSUDIGITS (digits dn - drp));
        u \<leftarrow> peek (lsu dn) (n - 1);
        us \<leftarrow> (if ct \<noteq> 3 then poke (lsu dn) (n - 1) (ucast ((ucast u :: uInt) mod pow10 ct)) else Some (lsu dn));
        d \<leftarrow> decGetDigits us n;
        Some (dn\<lparr>lsu := us, digits := d\<rparr>)
      })"

definition decNaNs :: "decNumber \<Rightarrow> decNumber \<Rightarrow> decNumber option \<Rightarrow> decContext \<Rightarrow> uInt \<Rightarrow> (decNumber \<times> uInt) option" where
  "decNaNs res lhs rhs ctx st = do {
     let (src, st) =
       (if bits lhs AND DECSNAN \<noteq> 0 then (lhs, st OR (DEC_Invalid_operation OR DEC_sNaN))
        else case rhs of
          None \<Rightarrow> (lhs, st)
        | Some rhs \<Rightarrow>
            if bits rhs AND DECSNAN \<noteq> 0 then (rhs, st OR (DEC_Invalid_operation OR DEC_sNaN))
            else if bits lhs AND DECNAN \<noteq> 0 then (lhs, st)
            else (rhs, st));
     res \<leftarrow> (if digits src \<le> ctx_digits ctx then decNumberCopy res src
       else do {
         let n = D2U (ctx_digits ctx);
         us \<leftarrow> copyUnits (lsu src) 0 (lsu res) 0 n;
         let res = res\<lparr>bits := bits src, lsu := us, digits := int n * 3\<rparr>;
         if digits res > ctx_digits ctx then decDecap res (digits res - ctx_digits ctx) else Some res
       });
     Some (res\<lparr>bits := (bits res AND NOT DECSNAN) OR DECNAN, exponent := 0\<rparr>, st)
   }"

definition decStatus :: "decNumber \<Rightarrow> uInt \<Rightarrow> decContext \<Rightarrow> decNumber \<times> decContext" where
  "decStatus dn st ctx =
     (let (dn, st) =
        (if st AND DEC_NaNs \<noteq> 0 then
           (if st AND DEC_sNaN \<noteq> 0 then (dn, st AND NOT DEC_sNaN) else ((decNumberZero dn)\<lparr>bits := DECNAN\<rparr>, st))
         else (dn, st))
      in (dn, fst (decContextSetStatus ctx st)))"

text \<open>The end of most operators: the accumulated status, if any, is applied to the result and the context.\<close>

definition applyStatus :: "decNumber \<Rightarrow> uInt \<Rightarrow> decContext \<Rightarrow> decNumber \<times> decContext" where
  "applyStatus dn st ctx = (if st \<noteq> 0 then decStatus dn st ctx else (dn, ctx))"

end
