(* ===== verification/DnAdd.thy ===== *)
theory DnAdd
  imports DnBasic
begin

text \<open>
  Addition and subtraction (\<^verbatim>\<open>decAddOp\<close> of \<^verbatim>\<open>decNumber.c\<close>) and the operators made of it.  The first argument of an operator is the
  old contents of the result, which may be those of the left operand; the result is never the storage of the right operand in
  this program.
\<close>

section \<open>Special values and zeros\<close>

definition addSpecial :: "decNumber \<Rightarrow> decNumber \<Rightarrow> decNumber \<Rightarrow> decContext \<Rightarrow> uByte \<Rightarrow> uInt \<Rightarrow> (decNumber \<times> uInt) option" where
  "addSpecial res lhs rhs ctx negate st =
     (let diffsign = (bits lhs XOR bits rhs XOR negate) AND DECNEG \<noteq> 0 in
      if (bits lhs OR bits rhs) AND DECSPECIAL AND (DECSNAN OR DECNAN) \<noteq> 0 then decNaNs res lhs (Some rhs) ctx st
      else if decNumberIsInfinite lhs \<and> decNumberIsInfinite rhs \<and> diffsign then Some (res, st OR DEC_Invalid_operation)
      else
        (let b = (if decNumberIsInfinite lhs then bits lhs AND DECNEG else (bits rhs XOR negate) AND DECNEG)
         in Some ((decNumberZero res)\<lparr>bits := b OR DECINF\<rparr>, st)))"

text \<open>Padding with zeros to a lower exponent, as far as the precision allows.\<close>

definition padZeros :: "decNumber \<Rightarrow> decContext \<Rightarrow> int \<Rightarrow> uInt \<Rightarrow> (decNumber \<times> uInt) option" where
  "padZeros res ctx adjust st =
     (if adjust < 0 then do {
        let toolong = digits res - adjust > ctx_digits ctx;
        let adjust = (if toolong then digits res - ctx_digits ctx else adjust);
        let st = (if toolong then st OR DEC_Rounded else st);
        (d, us) \<leftarrow> dnShiftToMost (lsu res) (digits res) (- adjust);
        Some (res\<lparr>lsu := us, digits := d, exponent := exponent res + adjust\<rparr>, st)
      } else Some (res, st))"

definition finishAdd :: "(nat \<Rightarrow> bool) \<Rightarrow> decNumber \<Rightarrow> decContext \<Rightarrow> int \<Rightarrow> uInt \<Rightarrow> (decNumber \<times> uInt) option" where
  "finishAdd mem res ctx residue st = do { (res, residue, st) \<leftarrow> decFinalize mem res ctx residue st; Some (res, st) }"

definition addZeroLhs ::
  "(nat \<Rightarrow> bool) \<Rightarrow> decNumber \<Rightarrow> decNumber \<Rightarrow> decNumber \<Rightarrow> decContext \<Rightarrow> uByte \<Rightarrow> uInt \<Rightarrow> (decNumber \<times> uInt) option" where
  "addZeroLhs mem res lhs rhs ctx negate st = do {
     let diffsign = (bits lhs XOR bits rhs XOR negate) AND DECNEG \<noteq> 0;
     let lexp = exponent lhs;
     (res, residue, st) \<leftarrow> decCopyFit res rhs ctx 0 st;
     let res = res\<lparr>bits := bits res XOR negate\<rparr>;
     let adjust = lexp - exponent res;
     (res, st) \<leftarrow>
       (if decNumberIsZero res then do {
          let res = (if adjust < 0 then res\<lparr>exponent := lexp\<rparr> else res);
          Some (if diffsign then res\<lparr>bits := (if ctx_round ctx \<noteq> DEC_ROUND_FLOOR then 0 else DECNEG)\<rparr> else res, st)
        }
        else padZeros res ctx adjust st);
     finishAdd mem res ctx residue st
   }"

definition addZeroRhs ::
  "(nat \<Rightarrow> bool) \<Rightarrow> decNumber \<Rightarrow> decNumber \<Rightarrow> decNumber \<Rightarrow> decContext \<Rightarrow> uInt \<Rightarrow> (decNumber \<times> uInt) option" where
  "addZeroRhs mem res lhs rhs ctx st = do {
     let rexp = exponent rhs;
     (res, residue, st) \<leftarrow> decCopyFit res lhs ctx 0 st;
     (res, st) \<leftarrow> padZeros res ctx (rexp - exponent res) st;
     finishAdd mem res ctx residue st
   }"

section \<open>Aligned operands in one unit\<close>

text \<open>The inner \<open>None\<close> means that the fast path does not apply.\<close>

definition addFast :: "decNumber \<Rightarrow> decNumber \<Rightarrow> decNumber \<Rightarrow> decContext \<Rightarrow> bool \<Rightarrow> decNumber option option" where
  "addFast res lhs rhs ctx diffsign =
     (if exponent rhs = exponent lhs \<and> digits rhs \<le> 3 \<and> exponent rhs \<ge> emin ctx \<and> exponent rhs \<le> emax ctx - ctx_digits ctx + 1 \<and>
         digits rhs \<le> ctx_digits ctx \<and> digits lhs \<le> ctx_digits ctx then do {
        l \<leftarrow> peek (lsu lhs) 0;
        r \<leftarrow> peek (lsu rhs) 0;
        if \<not> diffsign then do {
          let partial = uint l + uint r;
          if partial \<le> 999 \<and> (digits lhs \<ge> 3 \<or> partial < uint (pow10 (nat (digits lhs)))) then do {
            res \<leftarrow> decNumberCopy res lhs;
            Some (Some (res\<lparr>lsu := (lsu res)[0 := of_int partial]\<rparr>))
          } else Some None
        }
        else do {
          let partial = uint l - uint r;
          if partial > 0 then do {
            res \<leftarrow> decNumberCopy res lhs;
            let us = (lsu res)[0 := of_int partial];
            d \<leftarrow> decGetDigits us (D2U (digits res));
            Some (Some (res\<lparr>lsu := us, digits := d\<rparr>))
          } else Some None
        }
      } else Some None)"

section \<open>The general case\<close>

definition accbuff_units :: nat where "accbuff_units = 31"

text \<open>The right operand is so much larger that the left one only counts as a residue.\<close>

definition addResidue ::
  "(nat \<Rightarrow> bool) \<Rightarrow> decNumber \<Rightarrow> decNumber \<Rightarrow> decContext \<Rightarrow> uByte \<Rightarrow> bool \<Rightarrow> bool \<Rightarrow> uInt \<Rightarrow> (decNumber \<times> uInt) option" where
  "addResidue mem res rhs ctx negate diffsign swapped st = do {
     let shift = ctx_digits ctx - digits rhs;
     (res, residue, st) \<leftarrow> decCopyFit res rhs ctx (if diffsign then - 1 else 1) st;
     res \<leftarrow> (if shift > 0 then do {
         (d, us) \<leftarrow> dnShiftToMost (lsu res) (digits res) shift;
         Some (res\<lparr>lsu := us, digits := d, exponent := exponent res - shift\<rparr>)
       } else Some res);
     let res = (if \<not> swapped then res\<lparr>bits := bits res XOR negate\<rparr> else res);
     finishAdd mem res ctx residue st
   }"

text \<open>The end of a sum: the digits are counted, the number is finished and a zero gets its sign.\<close>

definition addTail :: "(nat \<Rightarrow> bool) \<Rightarrow> decContext \<Rightarrow> bool \<Rightarrow> decNumber \<Rightarrow> int \<Rightarrow> uInt \<Rightarrow> (decNumber \<times> uInt) option" where
  "addTail mem ctx diffsign res residue st = do {
     d \<leftarrow> decGetDigits (lsu res) (D2U (digits res));
     (res, st) \<leftarrow> finishAdd mem (res\<lparr>digits := d\<rparr>) ctx residue st;
     Some (if decNumberIsZero res \<and> diffsign \<and> st AND DEC_Inexact = 0 then
             res\<lparr>bits := (if ctx_round ctx = DEC_ROUND_FLOOR then bits res OR DECNEG else bits res AND NOT DECNEG)\<rparr>
           else res, st)
   }"

text \<open>The sum of \<open>lhs\<close> and \<open>rhs\<close> padded by \<open>padding\<close> zeros; \<open>b\<close> has the sign of the result.\<close>

definition addAligned ::
  "(nat \<Rightarrow> bool) \<Rightarrow> decNumber \<Rightarrow> decNumber \<Rightarrow> decNumber \<Rightarrow> decContext \<Rightarrow> uByte \<Rightarrow> bool \<Rightarrow> int \<Rightarrow> uInt \<Rightarrow> (decNumber \<times> uInt) option" where
  "addAligned mem res lhs rhs ctx b diffsign padding st = do {
     let rhsshift = (if padding \<noteq> 0 then D2U (padding + 1) - 1 else 0);
     let mult = (if padding \<noteq> 0 then uint (pow10 (nat (padding - int rhsshift * 3))) else 1);
     let mult = (if diffsign then - mult else mult);
     let maxdigits = max (digits rhs + padding) (digits lhs);
     let buffer = maxdigits \<ge> ctx_digits ctx;
     if buffer \<and> D2U maxdigits + 1 > accbuff_units \<and> \<not> mem (2 * (D2U maxdigits + 1)) then
       Some (res, st OR DEC_Insufficient_storage)
     else do {
       x \<leftarrow> unitsOf lhs;
       y \<leftarrow> unitsOf rhs;
       let (acc, neg) = decUnitAddSub x y rhsshift mult;
       let b = b AND DECNEG;
       let res = res\<lparr>bits := (if neg then b XOR DECNEG else b), exponent := exponent lhs, digits := int (length acc) * 3\<rparr>;
       (res, residue, st) \<leftarrow>
         (if buffer then do {
            d \<leftarrow> (if digits res > ctx_digits ctx then decGetDigits acc (D2U (digits res)) else Some (digits res));
            decSetCoeff (res\<lparr>digits := d\<rparr>) ctx (Some acc) d 0 st
          }
          else do { us \<leftarrow> writeUnits (lsu res) acc; Some (res\<lparr>lsu := us\<rparr>, 0, st) });
       addTail mem ctx diffsign res residue st
     }
   }"

definition decAddOp ::
  "(nat \<Rightarrow> bool) \<Rightarrow> decNumber \<Rightarrow> decNumber \<Rightarrow> decNumber \<Rightarrow> decContext \<Rightarrow> uByte \<Rightarrow> uInt \<Rightarrow> (decNumber \<times> uInt) option" where
  "decAddOp mem res lhs rhs ctx negate st =
     (let diffsign = (bits lhs XOR bits rhs XOR negate) AND DECNEG \<noteq> 0 in
      if (bits lhs OR bits rhs) AND DECSPECIAL \<noteq> 0 then addSpecial res lhs rhs ctx negate st
      else if decNumberIsZero lhs then addZeroLhs mem res lhs rhs ctx negate st
      else if decNumberIsZero rhs then addZeroRhs mem res lhs rhs ctx st
      else do {
        fast \<leftarrow> addFast res lhs rhs ctx diffsign;
        (case fast of
           Some res \<Rightarrow> Some (res, st)
         | None \<Rightarrow>
             (let padding = exponent rhs - exponent lhs;
                  (l, r, b, swapped, padding) =
                    (if padding < 0 then (rhs, lhs, bits rhs XOR negate, True, - padding) else (lhs, rhs, bits lhs, False, padding))
              in if padding \<noteq> 0 \<and> digits r + padding > digits l + ctx_digits ctx + 1 then
                   addResidue mem res r ctx negate diffsign swapped st
                 else addAligned mem res l r ctx b diffsign padding st))
      })"

section \<open>Operators\<close>

text \<open>A number on the stack: its contents are indeterminate until it is set.\<close>

definition localZero :: decNumber where
  "localZero = \<lparr>digits = 1, exponent = 0, bits = 0, lsu = replicate DECNUMUNITS 0\<rparr>"

definition addStatus :: "(decNumber \<times> uInt) option \<Rightarrow> decContext \<Rightarrow> (decNumber \<times> decContext) option" where
  "addStatus r ctx = do { (res, st) \<leftarrow> r; Some (applyStatus res st ctx) }"

definition decNumberAbs :: "(nat \<Rightarrow> bool) \<Rightarrow> decNumber \<Rightarrow> decNumber \<Rightarrow> decContext \<Rightarrow> (decNumber \<times> decContext) option" where
  "decNumberAbs mem res rhs ctx =
     addStatus (decAddOp mem res (localZero\<lparr>exponent := exponent rhs\<rparr>) rhs ctx (bits rhs AND DECNEG) 0) ctx"

definition decNumberAdd ::
  "(nat \<Rightarrow> bool) \<Rightarrow> decNumber \<Rightarrow> decNumber \<Rightarrow> decNumber \<Rightarrow> decContext \<Rightarrow> (decNumber \<times> decContext) option" where
  "decNumberAdd mem res lhs rhs ctx = addStatus (decAddOp mem res lhs rhs ctx 0 0) ctx"

definition decNumberMinus :: "(nat \<Rightarrow> bool) \<Rightarrow> decNumber \<Rightarrow> decNumber \<Rightarrow> decContext \<Rightarrow> (decNumber \<times> decContext) option" where
  "decNumberMinus mem res rhs ctx = addStatus (decAddOp mem res (localZero\<lparr>exponent := exponent rhs\<rparr>) rhs ctx DECNEG 0) ctx"

definition decNumberPlus :: "(nat \<Rightarrow> bool) \<Rightarrow> decNumber \<Rightarrow> decNumber \<Rightarrow> decContext \<Rightarrow> (decNumber \<times> decContext) option" where
  "decNumberPlus mem res rhs ctx = addStatus (decAddOp mem res (localZero\<lparr>exponent := exponent rhs\<rparr>) rhs ctx 0 0) ctx"

definition decNumberSubtract ::
  "(nat \<Rightarrow> bool) \<Rightarrow> decNumber \<Rightarrow> decNumber \<Rightarrow> decNumber \<Rightarrow> decContext \<Rightarrow> (decNumber \<times> decContext) option" where
  "decNumberSubtract mem res lhs rhs ctx = addStatus (decAddOp mem res lhs rhs ctx DECNEG 0) ctx"

definition decNumberNextMinus :: "(nat \<Rightarrow> bool) \<Rightarrow> decNumber \<Rightarrow> decNumber \<Rightarrow> decContext \<Rightarrow> (decNumber \<times> decContext) option" where
  "decNumberNextMinus mem res rhs ctx =
     (if bits rhs AND (DECINF OR DECNEG) = DECINF then do { res \<leftarrow> decSetMaxValue res ctx; Some (res, ctx) }
      else do {
        let dtiny = localZero\<lparr>lsu := (lsu localZero)[0 := 1], exponent := DEC_MIN_EMIN - 1\<rparr>;
        (res, st) \<leftarrow> decAddOp mem res rhs dtiny (ctx\<lparr>ctx_round := DEC_ROUND_FLOOR\<rparr>) DECNEG 0;
        Some (applyStatus res (st AND (DEC_Invalid_operation OR DEC_sNaN)) ctx)
      })"

definition decNumberNextPlus :: "(nat \<Rightarrow> bool) \<Rightarrow> decNumber \<Rightarrow> decNumber \<Rightarrow> decContext \<Rightarrow> (decNumber \<times> decContext) option" where
  "decNumberNextPlus mem res rhs ctx =
     (if bits rhs AND (DECINF OR DECNEG) = DECINF OR DECNEG then do {
        res \<leftarrow> decSetMaxValue res ctx;
        Some (res\<lparr>bits := DECNEG\<rparr>, ctx)
      }
      else do {
        let dtiny = localZero\<lparr>lsu := (lsu localZero)[0 := 1], exponent := DEC_MIN_EMIN - 1\<rparr>;
        (res, st) \<leftarrow> decAddOp mem res rhs dtiny (ctx\<lparr>ctx_round := DEC_ROUND_CEILING\<rparr>) 0 0;
        Some (applyStatus res (st AND (DEC_Invalid_operation OR DEC_sNaN)) ctx)
      })"

end
