(* ===== verification/DnOps.thy ===== *)
theory DnOps
  imports DnAdd
begin

text \<open>
  More operators of \<^verbatim>\<open>decNumber.c\<close>: comparison, minimum and maximum, quantization, reduction, and the operators on digits (logical
  operators, shift, rotation) and exponents.
\<close>

section \<open>Comparison operators\<close>

datatype compare_op = COMPARE | COMPMAX | COMPMIN | COMPTOTAL | COMPNAN | COMPSIG | COMPMAXMAG | COMPMINMAG

definition compareTotalNaNs :: "decNumber \<Rightarrow> decNumber \<Rightarrow> int option" where
  "compareTotalNaNs lhs rhs = do {
     r \<leftarrow>
       (if \<not> decNumberIsNaN lhs then Some (- 1)
        else if \<not> decNumberIsNaN rhs then Some 1
        else if decNumberIsSNaN lhs \<and> decNumberIsQNaN rhs then Some (- 1)
        else if decNumberIsQNaN lhs \<and> decNumberIsSNaN rhs then Some 1
        else do {
          a \<leftarrow> unitsOf lhs;
          b \<leftarrow> unitsOf rhs;
          decUnitCompare (\<lambda>n. False) a b 0
        });
     Some (if decNumberIsNegative lhs then - r else r)
   }"

text \<open>
  The first part: the operation that remains to be done (the source changes \<^verbatim>\<open>op\<close>), the outcome of the comparison (the inner
  \<open>None\<close> is \<^verbatim>\<open>BADINT\<close>), the result and the status.
\<close>

definition compareNumbers ::
  "(nat \<Rightarrow> bool) \<Rightarrow> decNumber \<Rightarrow> decNumber \<Rightarrow> decNumber \<Rightarrow> decContext \<Rightarrow> compare_op \<Rightarrow> uInt \<Rightarrow>
    (compare_op \<times> int option \<times> decNumber \<times> uInt) option" where
  "compareNumbers mem res lhs rhs ctx op st =
     (let merged = (bits lhs OR bits rhs) AND (DECSNAN OR DECNAN);
          nan = (\<lambda>st. do { (res, st) \<leftarrow> decNaNs res lhs (Some rhs) ctx st; Some (COMPNAN, Some 0, res, st) })
      in if op = COMPTOTAL \<and> decNumberIsNegative lhs \<and> \<not> decNumberIsNegative rhs then Some (op, Some (- 1), res, st)
         else if op = COMPTOTAL \<and> \<not> decNumberIsNegative lhs \<and> decNumberIsNegative rhs then Some (op, Some 1, res, st)
         else if merged \<noteq> 0 then
           (if op = COMPARE then nan st
            else if op = COMPSIG then nan (st OR (DEC_Invalid_operation OR DEC_sNaN))
            else if op = COMPTOTAL then do { r \<leftarrow> compareTotalNaNs lhs rhs; Some (op, Some r, res, st) }
            else if merged AND DECSNAN \<noteq> 0 then nan st
            else if \<not> decNumberIsNaN lhs \<or> \<not> decNumberIsNaN rhs then
              Some (COMPMAX, Some (if bits lhs AND DECNAN \<noteq> 0 then - 1 else 1), res, st)
            else nan st)
         else do {
           r \<leftarrow> decCompare mem lhs rhs (op = COMPMAXMAG \<or> op = COMPMINMAG);
           Some (op, r, res, st)
         })"

definition chooseEqual :: "decNumber \<Rightarrow> decNumber \<Rightarrow> int" where
  "chooseEqual lhs rhs =
     (let slhs = bits lhs AND DECNEG; srhs = bits rhs AND DECNEG in
      if slhs \<noteq> srhs then (if slhs \<noteq> 0 then - 1 else 1)
      else if slhs \<noteq> 0 \<and> srhs \<noteq> 0 then (if exponent lhs < exponent rhs then 1 else - 1)
      else (if exponent lhs > exponent rhs then 1 else - 1))"

definition decCompareOp ::
  "(nat \<Rightarrow> bool) \<Rightarrow> decNumber \<Rightarrow> decNumber \<Rightarrow> decNumber \<Rightarrow> decContext \<Rightarrow> compare_op \<Rightarrow> uInt \<Rightarrow> (decNumber \<times> uInt) option" where
  "decCompareOp mem res lhs rhs ctx op st = do {
     (op, outcome, res, st) \<leftarrow> compareNumbers mem res lhs rhs ctx op st;
     (case outcome of
        None \<Rightarrow> Some (res, st OR DEC_Insufficient_storage)
      | Some result \<Rightarrow>
          if op = COMPARE \<or> op = COMPSIG \<or> op = COMPTOTAL then do {
            let result =
              (if op = COMPTOTAL \<and> result = 0 \<and> exponent lhs \<noteq> exponent rhs then
                 (let r = (if exponent lhs < exponent rhs then - 1 else 1) in if decNumberIsNegative lhs then - r else r)
               else result);
            let res = decNumberZero res;
            if result \<noteq> 0 then do {
              us \<leftarrow> poke (lsu res) 0 1;
              let res = res\<lparr>lsu := us\<rparr>;
              Some (if result < 0 then res\<lparr>bits := DECNEG\<rparr> else res, st)
            } else Some (res, st)
          }
          else if op = COMPNAN then Some (res, st)
          else do {
            let result = (if result = 0 then chooseEqual lhs rhs else result);
            let result = (if op = COMPMIN \<or> op = COMPMINMAG then - result else result);
            (res, residue, st) \<leftarrow> decCopyFit res (if result > 0 then lhs else rhs) ctx 0 st;
            (res, residue, st) \<leftarrow> decFinalize mem res ctx residue st;
            Some (res, st)
          })
   }"

definition decNumberCompare ::
  "(nat \<Rightarrow> bool) \<Rightarrow> decNumber \<Rightarrow> decNumber \<Rightarrow> decNumber \<Rightarrow> decContext \<Rightarrow> (decNumber \<times> decContext) option" where
  "decNumberCompare mem res lhs rhs ctx = addStatus (decCompareOp mem res lhs rhs ctx COMPARE 0) ctx"

definition decNumberCompareSignal ::
  "(nat \<Rightarrow> bool) \<Rightarrow> decNumber \<Rightarrow> decNumber \<Rightarrow> decNumber \<Rightarrow> decContext \<Rightarrow> (decNumber \<times> decContext) option" where
  "decNumberCompareSignal mem res lhs rhs ctx = addStatus (decCompareOp mem res lhs rhs ctx COMPSIG 0) ctx"

definition decNumberCompareTotal ::
  "(nat \<Rightarrow> bool) \<Rightarrow> decNumber \<Rightarrow> decNumber \<Rightarrow> decNumber \<Rightarrow> decContext \<Rightarrow> (decNumber \<times> decContext) option" where
  "decNumberCompareTotal mem res lhs rhs ctx = addStatus (decCompareOp mem res lhs rhs ctx COMPTOTAL 0) ctx"

definition decNumberMax ::
  "(nat \<Rightarrow> bool) \<Rightarrow> decNumber \<Rightarrow> decNumber \<Rightarrow> decNumber \<Rightarrow> decContext \<Rightarrow> (decNumber \<times> decContext) option" where
  "decNumberMax mem res lhs rhs ctx = addStatus (decCompareOp mem res lhs rhs ctx COMPMAX 0) ctx"

definition decNumberMaxMag ::
  "(nat \<Rightarrow> bool) \<Rightarrow> decNumber \<Rightarrow> decNumber \<Rightarrow> decNumber \<Rightarrow> decContext \<Rightarrow> (decNumber \<times> decContext) option" where
  "decNumberMaxMag mem res lhs rhs ctx = addStatus (decCompareOp mem res lhs rhs ctx COMPMAXMAG 0) ctx"

definition decNumberMin ::
  "(nat \<Rightarrow> bool) \<Rightarrow> decNumber \<Rightarrow> decNumber \<Rightarrow> decNumber \<Rightarrow> decContext \<Rightarrow> (decNumber \<times> decContext) option" where
  "decNumberMin mem res lhs rhs ctx = addStatus (decCompareOp mem res lhs rhs ctx COMPMIN 0) ctx"

definition decNumberMinMag ::
  "(nat \<Rightarrow> bool) \<Rightarrow> decNumber \<Rightarrow> decNumber \<Rightarrow> decNumber \<Rightarrow> decContext \<Rightarrow> (decNumber \<times> decContext) option" where
  "decNumberMinMag mem res lhs rhs ctx = addStatus (decCompareOp mem res lhs rhs ctx COMPMINMAG 0) ctx"

definition decNumberSameQuantum :: "decNumber \<Rightarrow> decNumber \<Rightarrow> decNumber \<Rightarrow> decNumber" where
  "decNumberSameQuantum res lhs rhs =
     (let ret =
        (if (bits lhs OR bits rhs) AND DECSPECIAL \<noteq> 0 then
           (if decNumberIsNaN lhs \<and> decNumberIsNaN rhs then 1
            else if decNumberIsInfinite lhs \<and> decNumberIsInfinite rhs then 1
            else 0)
         else if exponent lhs = exponent rhs then 1
         else 0);
          res = decNumberZero res
      in res\<lparr>lsu := (lsu res)[0 := ret]\<rparr>)"

section \<open>Logical operators\<close>

text \<open>
  One unit of a logical operator: \<open>k\<close> digits from the digit \<open>i\<close> on; \<open>None\<close> is a digit other than 0 and 1.  The test of the source
  looks at the lowest bit of the unit, which is that of its lowest digit.
\<close>

fun logicUnit :: "(Unit \<Rightarrow> Unit \<Rightarrow> bool) \<Rightarrow> nat \<Rightarrow> nat \<Rightarrow> Unit \<Rightarrow> Unit \<Rightarrow> Unit \<Rightarrow> Unit option" where
  "logicUnit f 0 i a b u = Some u"
| "logicUnit f (Suc k) i a b u =
     (let u = (if f a b then u + ucast (pow10 i) else u) in
      if (a mod 10) OR (b mod 10) > 1 then None else logicUnit f k (i + 1) (a div 10) (b div 10) u)"

text \<open>The units of the result; those of the operands are \<open>0\<close> above their most significant ones.\<close>

fun logicUnits :: "(Unit \<Rightarrow> Unit \<Rightarrow> bool) \<Rightarrow> (Unit \<Rightarrow> Unit \<Rightarrow> bool) \<Rightarrow> nat \<Rightarrow> nat \<Rightarrow> Unit list \<Rightarrow> Unit list \<Rightarrow> Unit list option" where
  "logicUnits f look msudigs 0 as bs = Some []"
| "logicUnits f look msudigs (Suc n) as bs =
     (let a = (case as of [] \<Rightarrow> 0 | a # _ \<Rightarrow> a); b = (case bs of [] \<Rightarrow> 0 | b # _ \<Rightarrow> b) in do {
        u \<leftarrow> (if look a b then logicUnit f (if n = 0 then msudigs else 3) 0 a b 0 else Some 0);
        us \<leftarrow> logicUnits f look msudigs n (tl as) (tl bs);
        Some (u # us)
      })"

definition logicInvalid :: "decNumber \<Rightarrow> bool" where
  "logicInvalid dn \<longleftrightarrow> exponent dn \<noteq> 0 \<or> decNumberIsSpecial dn \<or> decNumberIsNegative dn"

text \<open>An invalid operand gives a NaN, of which only the lowest unit counts, and Invalid operation.\<close>

definition logicResult :: "decNumber \<Rightarrow> decContext \<Rightarrow> Unit list option \<Rightarrow> (decNumber \<times> decContext) option" where
  "logicResult res ctx r =
     (case r of
        None \<Rightarrow> Some (decStatus res DEC_Invalid_operation ctx)
      | Some us \<Rightarrow> do {
          l \<leftarrow> writeUnits (lsu res) us;
          d \<leftarrow> decGetDigits l (length us);
          Some (res\<lparr>lsu := l, digits := d, exponent := 0, bits := 0\<rparr>, ctx)
        })"

definition logicOp :: "(Unit \<Rightarrow> Unit \<Rightarrow> bool) \<Rightarrow> decNumber \<Rightarrow> decNumber \<Rightarrow> decNumber \<Rightarrow> decContext \<Rightarrow> (decNumber \<times> decContext) option" where
  "logicOp f res lhs rhs ctx =
     (if logicInvalid lhs \<or> logicInvalid rhs then Some (decStatus res DEC_Invalid_operation ctx)
      else do {
        a \<leftarrow> unitsOf lhs;
        b \<leftarrow> unitsOf rhs;
        logicResult res ctx
          (logicUnits f (\<lambda>a b. a OR b \<noteq> 0) (nat (MSUDIGITS (ctx_digits ctx))) (D2U (ctx_digits ctx)) a b)
      })"

definition decNumberAnd :: "decNumber \<Rightarrow> decNumber \<Rightarrow> decNumber \<Rightarrow> decContext \<Rightarrow> (decNumber \<times> decContext) option" where
  "decNumberAnd = logicOp (\<lambda>a b. a AND b AND 1 \<noteq> 0)"

definition decNumberOr :: "decNumber \<Rightarrow> decNumber \<Rightarrow> decNumber \<Rightarrow> decContext \<Rightarrow> (decNumber \<times> decContext) option" where
  "decNumberOr = logicOp (\<lambda>a b. (a OR b) AND 1 \<noteq> 0)"

definition decNumberXor :: "decNumber \<Rightarrow> decNumber \<Rightarrow> decNumber \<Rightarrow> decContext \<Rightarrow> (decNumber \<times> decContext) option" where
  "decNumberXor = logicOp (\<lambda>a b. (a XOR b) AND 1 \<noteq> 0)"

definition decNumberInvert :: "decNumber \<Rightarrow> decNumber \<Rightarrow> decContext \<Rightarrow> (decNumber \<times> decContext) option" where
  "decNumberInvert res rhs ctx =
     (if logicInvalid rhs then Some (decStatus res DEC_Invalid_operation ctx)
      else do {
        a \<leftarrow> unitsOf rhs;
        logicResult res ctx
          (logicUnits (\<lambda>a b. NOT a AND 1 \<noteq> 0) (\<lambda>a b. True) (nat (MSUDIGITS (ctx_digits ctx))) (D2U (ctx_digits ctx)) a [])
      })"

section \<open>Integers in numbers\<close>

text \<open>\<^verbatim>\<open>decGetInt\<close> skips units of a fraction (\<open>Inl\<close> when one is not zero), then collects the integer in 32 bits.\<close>

fun skipFraction :: "Unit list \<Rightarrow> nat \<Rightarrow> nat \<Rightarrow> nat option option" where
  "skipFraction us up 0 = Some (Some up)"
| "skipFraction us up (Suc n) = do { u \<leftarrow> peek us up; if u \<noteq> 0 then Some None else skipFraction us (up + 1) n }"

function collectInt :: "Unit list \<Rightarrow> int \<Rightarrow> uInt \<Rightarrow> int \<Rightarrow> nat \<Rightarrow> (uInt \<times> int \<times> nat) option" where
  "collectInt us ilength i got up =
     (if got < ilength then do {
        u \<leftarrow> peek us up;
        p \<leftarrow> peek DECPOWERS (nat got);
        collectInt us ilength (i + ucast u * p) (got + 3) (up + 1)
      } else Some (i, got, up))"
  by auto
termination by (relation "measure (\<lambda>(us, ilength, i, got, up). nat (ilength - got))") auto

declare collectInt.simps [simp del]

definition bigInt :: "uInt \<Rightarrow> int" where
  "bigInt i = (if i AND 1 \<noteq> 0 then BIGODD else BIGEVEN)"

definition getIntFrom :: "decNumber \<Rightarrow> int \<Rightarrow> uInt \<Rightarrow> int \<Rightarrow> nat \<Rightarrow> int option" where
  "getIntFrom dn ilength i got up = do {
     let neg = decNumberIsNegative dn;
     (i, got, up) \<leftarrow> (if got = 0 then do { u \<leftarrow> peek (lsu dn) up; Some (ucast u, 3, up + 1) } else Some (i, got, up));
     if ilength < 11 then do {
       (j, got, up) \<leftarrow> collectInt (lsu dn) ilength i got up;
       toobig \<leftarrow>
         (if ilength = 10 then do {
            u \<leftarrow> peek (lsu dn) (up - 1);
            p \<leftarrow> peek DECPOWERS (nat (got - 3));
            let t = sint j;
            Some (sgn t * (\<bar>t\<bar> div uint p) \<noteq> uint u \<or> neg \<and> t > 1999999997 \<or> \<not> neg \<and> t > 999999999)
          } else Some False);
       Some (if toobig then bigInt i else if neg then - sint j else sint j)
     }
     else Some (bigInt i)
   }"

definition decGetInt :: "decNumber \<Rightarrow> int option" where
  "decGetInt dn =
     (let ilength = digits dn + exponent dn in
      if decNumberIsZero dn then Some 0
      else if exponent dn \<ge> 0 then getIntFrom dn ilength 0 (exponent dn) 0
      else do {
        let count = nat (- exponent dn);
        skipped \<leftarrow> skipFraction (lsu dn) 0 (count div 3);
        (case skipped of
           None \<Rightarrow> Some BADINT
         | Some up \<Rightarrow>
             if count mod 3 = 0 then getIntFrom dn ilength 0 0 up
             else do {
               u \<leftarrow> peek (lsu dn) up;
               let i = QUOT10 u (count mod 3);
               if ucast u - i * pow10 (count mod 3) \<noteq> 0 then Some BADINT
               else getIntFrom dn ilength i (3 - int (count mod 3)) (up + 1)
             })
      })"

section \<open>Exponents\<close>

definition decNumberLogB :: "(nat \<Rightarrow> bool) \<Rightarrow> decNumber \<Rightarrow> decNumber \<Rightarrow> decContext \<Rightarrow> (decNumber \<times> decContext) option" where
  "decNumberLogB mem res rhs ctx =
     (if decNumberIsNaN rhs then addStatus (decNaNs res rhs None ctx 0) ctx
      else if decNumberIsInfinite rhs then do { res \<leftarrow> decNumberCopyAbs res rhs; Some (res, ctx) }
      else if decNumberIsZero rhs then Some (decStatus ((decNumberZero res)\<lparr>bits := DECNEG OR DECINF\<rparr>) DEC_Division_by_zero ctx)
      else do {
        let ae = exponent rhs + digits rhs - 1;
        if ctx_digits ctx \<ge> 10 then do { res \<leftarrow> decNumberFromInt32 res ae; Some (res, ctx) }
        else do { t \<leftarrow> decNumberFromInt32 localZero ae; decNumberPlus mem res t ctx }
      })"

definition decNumberScaleB ::
  "(nat \<Rightarrow> bool) \<Rightarrow> decNumber \<Rightarrow> decNumber \<Rightarrow> decNumber \<Rightarrow> decContext \<Rightarrow> (decNumber \<times> decContext) option" where
  "decNumberScaleB mem res lhs rhs ctx =
     (if decNumberIsNaN lhs \<or> decNumberIsNaN rhs then addStatus (decNaNs res lhs (Some rhs) ctx 0) ctx
      else if decNumberIsInfinite rhs \<or> exponent rhs \<noteq> 0 then Some (decStatus res DEC_Invalid_operation ctx)
      else do {
        reqexp \<leftarrow> decGetInt rhs;
        if reqexp = BADINT \<or> reqexp = BIGODD \<or> reqexp = BIGEVEN \<or> (\<bar>reqexp\<bar> + 1) div 2 > ctx_digits ctx + emax ctx then
          Some (decStatus res DEC_Invalid_operation ctx)
        else do {
          res \<leftarrow> decNumberCopy res lhs;
          if decNumberIsInfinite res then Some (res, ctx)
          else do {
            let ex = exponent res;
            let e = sint (of_int (ex + reqexp) :: uInt);
            let e = (if ((ex < 0) = (reqexp < 0)) \<and> ((ex < 0) \<noteq> (e < 0)) then
                (if ex < 0 then DEC_MIN_EMIN - DEC_MAX_DIGITS else DEC_MAX_EMAX + 1) else e);
            addStatus (finishAdd mem (res\<lparr>exponent := e\<rparr>) ctx 0 0) ctx
          }
        }
      })"

definition decNumberReduce :: "(nat \<Rightarrow> bool) \<Rightarrow> decNumber \<Rightarrow> decNumber \<Rightarrow> decContext \<Rightarrow> (decNumber \<times> decContext) option" where
  "decNumberReduce mem res rhs ctx =
     (if decNumberIsNaN rhs then addStatus (decNaNs res rhs None ctx 0) ctx
      else do {
        (res, residue, st) \<leftarrow> decCopyFit res rhs ctx 0 0;
        (res, residue, st) \<leftarrow> decFinalize mem res ctx residue st;
        (res, dropped) \<leftarrow> decTrim res ctx True False;
        Some (applyStatus res st ctx)
      })"

section \<open>Shifting and rotating digits\<close>

definition decNumberShift :: "decNumber \<Rightarrow> decNumber \<Rightarrow> decNumber \<Rightarrow> decContext \<Rightarrow> (decNumber \<times> decContext) option" where
  "decNumberShift res lhs rhs ctx =
     (if decNumberIsNaN lhs \<or> decNumberIsNaN rhs then addStatus (decNaNs res lhs (Some rhs) ctx 0) ctx
      else if decNumberIsInfinite rhs \<or> exponent rhs \<noteq> 0 then Some (decStatus res DEC_Invalid_operation ctx)
      else do {
        shift \<leftarrow> decGetInt rhs;
        if shift = BADINT \<or> shift = BIGODD \<or> shift = BIGEVEN \<or> \<bar>shift\<bar> > ctx_digits ctx then
          Some (decStatus res DEC_Invalid_operation ctx)
        else do {
          res \<leftarrow> decNumberCopy res lhs;
          res \<leftarrow>
            (if shift = 0 \<or> decNumberIsInfinite res then Some res
             else if shift > 0 then
               (if shift = ctx_digits ctx then clearCoeff res
                else do {
                  res \<leftarrow> (if digits res + shift > ctx_digits ctx then decDecap res (digits res + shift - ctx_digits ctx)
                    else Some res);
                  u \<leftarrow> peek (lsu res) 0;
                  if digits res > 1 \<or> u \<noteq> 0 then do {
                    (d, us) \<leftarrow> dnShiftToMost (lsu res) (digits res) shift;
                    Some (res\<lparr>lsu := us, digits := d\<rparr>)
                  } else Some res
                })
             else if - shift \<ge> digits res then clearCoeff res
             else do {
               (n, us) \<leftarrow> decShiftToLeast (lsu res) (D2U (digits res)) (- shift);
               Some (res\<lparr>lsu := us, digits := digits res - (- shift)\<rparr>)
             });
          Some (res, ctx)
        }
      })"

text \<open>
  The rotation in three steps: the digits that do not fill a unit move to the left end (\<open>rotateDigits\<close>), then those that fill up the
  most significant unit, then the whole units by reversing both parts and the whole.
\<close>

definition rotateDigits :: "Unit list \<Rightarrow> nat \<Rightarrow> nat \<Rightarrow> nat \<Rightarrow> Unit list option" where
  "rotateDigits us units msudigits shift = do {
     u \<leftarrow> peek us 0;
     let save = (ucast u :: uInt) mod pow10 shift;
     (n, us) \<leftarrow> decShiftToLeast us units (int shift);
     let m = units - 1;
     if shift > msudigits then do {
       if m = 0 then None
       else do {
         let rem = save mod pow10 (shift - msudigits);
         us \<leftarrow> poke us m (ucast (save div pow10 (shift - msudigits)));
         v \<leftarrow> peek us (m - 1);
         poke us (m - 1) (v + ucast (rem * pow10 (3 - (shift - msudigits))))
       }
     }
     else do {
       v \<leftarrow> peek us m;
       poke us m (v + ucast (save * pow10 (msudigits - shift)))
     }
   }"

definition rotateUnits :: "Unit list \<Rightarrow> nat \<Rightarrow> nat \<Rightarrow> nat \<Rightarrow> Unit list option" where
  "rotateUnits us len msudigits units = do {
     let shift = 3 - msudigits;
     us \<leftarrow> (if shift > 0 then do {
         u \<leftarrow> peek us 0;
         let save = (ucast u :: uInt) mod pow10 shift;
         (n, us) \<leftarrow> decShiftToLeast us units (int shift);
         v \<leftarrow> peek us (len - 1);
         poke us (len - 1) (v + ucast (save * pow10 msudigits))
       } else Some us);
     us \<leftarrow> decReverse us (int units) (int len - 1);
     us \<leftarrow> decReverse us 0 (int units - 1);
     decReverse us 0 (int len - 1)
   }"

definition decNumberRotate :: "decNumber \<Rightarrow> decNumber \<Rightarrow> decNumber \<Rightarrow> decContext \<Rightarrow> (decNumber \<times> decContext) option" where
  "decNumberRotate res lhs rhs ctx =
     (if decNumberIsNaN lhs \<or> decNumberIsNaN rhs then addStatus (decNaNs res lhs (Some rhs) ctx 0) ctx
      else if decNumberIsInfinite rhs \<or> exponent rhs \<noteq> 0 then Some (decStatus res DEC_Invalid_operation ctx)
      else do {
        rotate \<leftarrow> decGetInt rhs;
        if rotate = BADINT \<or> rotate = BIGODD \<or> rotate = BIGEVEN \<or> \<bar>rotate\<bar> > ctx_digits ctx then
          Some (decStatus res DEC_Invalid_operation ctx)
        else do {
          res \<leftarrow> decNumberCopy res lhs;
          let rotate = (if rotate < 0 then ctx_digits ctx + rotate else rotate);
          if rotate = 0 \<or> rotate = ctx_digits ctx \<or> decNumberIsInfinite res then Some (res, ctx)
          else do {
            let len = D2U (ctx_digits ctx);
            let used = D2U (digits res);
            us \<leftarrow> copyUnits (replicate len 0) 0 (lsu res) used (len - used);
            let msudigits = nat (MSUDIGITS (ctx_digits ctx));
            let right = nat (ctx_digits ctx - rotate);
            us \<leftarrow> (if right mod 3 > 0 then rotateDigits us len msudigits (right mod 3) else Some us);
            us \<leftarrow> (if right div 3 > 0 then rotateUnits us len msudigits (right div 3) else Some us);
            d \<leftarrow> decGetDigits us len;
            Some (res\<lparr>lsu := us, digits := d\<rparr>, ctx)
          }
        }
      })"

section \<open>Quantizing\<close>

text \<open>The coefficient at the requested exponent; the inner \<open>None\<close> is an error.\<close>

definition quantizeCoeff ::
  "decNumber \<Rightarrow> decNumber \<Rightarrow> decContext \<Rightarrow> int \<Rightarrow> uInt \<Rightarrow> (decNumber option \<times> decNumber \<times> uInt) option" where
  "quantizeCoeff res lhs ctx reqexp st =
     (if decNumberIsZero lhs then do {
        res \<leftarrow> decNumberCopy res lhs;
        let res = res\<lparr>exponent := reqexp\<rparr>;
        Some (Some res, res, st)
      }
      else do {
        let adjust = reqexp - exponent lhs;
        if digits lhs - adjust > ctx_digits ctx then Some (None, res, st OR DEC_Invalid_operation)
        else if adjust > 0 then do {
          let workset = ctx\<lparr>ctx_digits := digits lhs - adjust\<rparr>;
          (res, residue, st) \<leftarrow> decCopyFit res lhs workset 0 st;
          (res, st) \<leftarrow> decApplyRound res workset residue st;
          if exponent res > reqexp then
            (if digits res = ctx_digits ctx then
               Some (None, res, (st AND NOT (DEC_Inexact OR DEC_Rounded)) OR DEC_Invalid_operation)
             else do {
               (d, us) \<leftarrow> dnShiftToMost (lsu res) (digits res) 1;
               let res = res\<lparr>lsu := us, digits := d, exponent := exponent res - 1\<rparr>;
               Some (Some res, res, st)
             })
          else Some (Some res, res, st)
        }
        else do {
          res \<leftarrow> decNumberCopy res lhs;
          res \<leftarrow> (if adjust < 0 then do {
              (d, us) \<leftarrow> dnShiftToMost (lsu res) (digits res) (- adjust);
              Some (res\<lparr>lsu := us, digits := d, exponent := exponent res + adjust\<rparr>)
            } else Some res);
          Some (Some res, res, st)
        }
      })"

definition decQuantizeOp ::
  "(nat \<Rightarrow> bool) \<Rightarrow> decNumber \<Rightarrow> decNumber \<Rightarrow> decNumber \<Rightarrow> decContext \<Rightarrow> bool \<Rightarrow> uInt \<Rightarrow> (decNumber \<times> uInt) option" where
  "decQuantizeOp mem res lhs rhs ctx quant st =
     (if (bits lhs OR bits rhs) AND DECSPECIAL \<noteq> 0 then
        (if (bits lhs OR bits rhs) AND DECSPECIAL AND (DECSNAN OR DECNAN) \<noteq> 0 then decNaNs res lhs (Some rhs) ctx st
         else if (bits lhs XOR bits rhs) AND DECINF \<noteq> 0 then Some (res, st OR DEC_Invalid_operation)
         else do { res \<leftarrow> decNumberCopy res lhs; Some (res, st) })
      else do {
        reqexp \<leftarrow> (if quant then Some (exponent rhs) else decGetInt rhs);
        if reqexp = BADINT \<or> reqexp = BIGODD \<or> reqexp = BIGEVEN \<or> reqexp < emin ctx - (ctx_digits ctx - 1) \<or> reqexp > emax ctx then
          Some (res, st OR DEC_Invalid_operation)
        else do {
          (r, res, st) \<leftarrow> quantizeCoeff res lhs ctx reqexp st;
          (case r of
             None \<Rightarrow> Some (res, st)
           | Some res \<Rightarrow>
               if exponent res > emax ctx - digits res + 1 then Some (res, st OR DEC_Invalid_operation)
               else do { (res, st) \<leftarrow> finishAdd mem res ctx 0 st; Some (res, st AND NOT DEC_Underflow) })
        }
      })"

definition decNumberQuantize ::
  "(nat \<Rightarrow> bool) \<Rightarrow> decNumber \<Rightarrow> decNumber \<Rightarrow> decNumber \<Rightarrow> decContext \<Rightarrow> (decNumber \<times> decContext) option" where
  "decNumberQuantize mem res lhs rhs ctx = addStatus (decQuantizeOp mem res lhs rhs ctx True 0) ctx"

definition decNumberRescale ::
  "(nat \<Rightarrow> bool) \<Rightarrow> decNumber \<Rightarrow> decNumber \<Rightarrow> decNumber \<Rightarrow> decContext \<Rightarrow> (decNumber \<times> decContext) option" where
  "decNumberRescale mem res lhs rhs ctx = addStatus (decQuantizeOp mem res lhs rhs ctx False 0) ctx"

definition decNumberToIntegralExact :: "(nat \<Rightarrow> bool) \<Rightarrow> decNumber \<Rightarrow> decNumber \<Rightarrow> decContext \<Rightarrow> (decNumber \<times> decContext) option" where
  "decNumberToIntegralExact mem res rhs ctx =
     (if bits rhs AND DECSPECIAL \<noteq> 0 then
        (if decNumberIsInfinite rhs then do { res \<leftarrow> decNumberCopy res rhs; Some (res, ctx) }
         else addStatus (decNaNs res rhs None ctx 0) ctx)
      else if exponent rhs \<ge> 0 then do { res \<leftarrow> decNumberCopy res rhs; Some (res, ctx) }
      else do {
        (res, workset) \<leftarrow> decNumberQuantize mem res rhs localZero (ctx\<lparr>ctx_digits := digits rhs, traps := 0\<rparr>);
        Some (applyStatus res (status workset) ctx)
      })"

definition decNumberToIntegralValue :: "(nat \<Rightarrow> bool) \<Rightarrow> decNumber \<Rightarrow> decNumber \<Rightarrow> decContext \<Rightarrow> (decNumber \<times> decContext) option" where
  "decNumberToIntegralValue mem res rhs ctx = do {
     (res, workset) \<leftarrow> decNumberToIntegralExact mem res rhs (ctx\<lparr>traps := 0\<rparr>);
     Some (res, ctx\<lparr>status := status ctx OR (status workset AND DEC_Invalid_operation)\<rparr>)
   }"

end
