(* ===== verification/DnText.thy ===== *)
theory DnText
  imports DnBasic
begin

text \<open>
  Conversion of numbers from and to text (\<^verbatim>\<open>decNumberFromString\<close>, \<^verbatim>\<open>decToString\<close>).  A C string is the list of its characters without the
  terminator; reading at its end gives the terminator.
\<close>

section \<open>To text\<close>

text \<open>\<^verbatim>\<open>TODIGIT\<close>: the leading digit of \<open>u\<close> at column \<open>ct\<close>, and what is left of \<open>u\<close>.\<close>

definition digit_step :: "uInt \<Rightarrow> uInt \<Rightarrow> nat \<Rightarrow> nat \<times> uInt" where
  "digit_step u pow k = (if u \<ge> pow then (k, u - pow) else (0, u))"

definition TODIGIT :: "uInt \<Rightarrow> nat \<Rightarrow> char \<times> uInt" where
  "TODIGIT u ct =
     (let pow = DECPOWERS ! ct * 2;
          (c, u, pow) =
            (if u > pow then
               (let pow = pow * 4;
                    (c8, u) = digit_step u pow 8; pow = pow div 2;
                    (c4, u) = digit_step u pow 4; pow = pow div 2
                in (c8 + c4, u, pow))
             else (0, u, pow));
          (c2, u) = digit_step u pow 2; pow = pow div 2;
          (c1, u) = digit_step u pow 1
      in (char_of (48 + (c + c2 + c1)), u))"

text \<open>
  The digits are read from the unit \<open>up\<close>, of which \<open>u\<close> is left from column \<open>ct\<close> down; when the column is negative, the unit below is
  next, and \<open>None\<close> means that there is none.
\<close>

type_synonym layout = "nat \<times> int \<times> uInt"

definition nextDigit :: "Unit list \<Rightarrow> layout \<Rightarrow> (char \<times> layout) option" where
  "nextDigit us l =
     (let (up, ct, u) = l in
      if ct < 0 then
        (if up = 0 then None
         else (let (c, u) = TODIGIT (ucast (us ! (up - 1))) 2 in Some (c, up - 1, 1, u)))
      else (let (c, u) = TODIGIT u (nat ct) in Some (c, up, ct - 1, u)))"

fun layDigits :: "Unit list \<Rightarrow> nat \<Rightarrow> layout \<Rightarrow> string \<times> nat \<times> layout" where
  "layDigits us 0 l = ([], 0, l)"
| "layDigits us (Suc pre) l =
     (case nextDigit us l of
        None \<Rightarrow> ([], Suc pre, l)
      | Some (c, l) \<Rightarrow> (let (s, pre, l) = layDigits us pre l in (c # s, pre, l)))"

function layRest :: "Unit list \<Rightarrow> layout \<Rightarrow> string" where
  "layRest us l = (case nextDigit us l of None \<Rightarrow> [] | Some (c, l) \<Rightarrow> c # layRest us l)"
  by auto
termination
  by (relation "measure (\<lambda>(us, up, ct, u). 3 * up + nat (ct + 1))")
    (auto simp: nextDigit_def split: if_splits prod.splits)

declare layRest.simps [simp del]

fun layExponent :: "uInt \<Rightarrow> bool \<Rightarrow> nat \<Rightarrow> string" where
  "layExponent u had 0 = []"
| "layExponent u had (Suc ct) =
     (let (c, u) = TODIGIT u ct in
      if c = CHR ''0'' \<and> \<not> had then layExponent u had ct else c # layExponent u True ct)"

text \<open>The digits before the point and the value after \<^verbatim>\<open>E\<close>.\<close>

definition textForm :: "decNumber \<Rightarrow> bool \<Rightarrow> int \<times> int" where
  "textForm dn eng =
     (let ex = exponent dn; pre = digits dn + ex in
      if ex > 0 \<or> pre < - 5 then
        (let e = ex + digits dn - 1; pre = 1 in
         if eng \<and> e \<noteq> 0 then
           (let adj = (if e < 0 then (let adj = (- e) mod 3 in if adj \<noteq> 0 then 3 - adj else adj) else e mod 3);
                e = e - adj
            in if \<not> decNumberIsZero dn then (pre + adj, e)
               else if adj \<noteq> 0 then (- (2 - adj), e + 3)
               else (pre, e))
         else (pre, e))
      else (pre, 0))"

definition decToString :: "decNumber \<Rightarrow> bool \<Rightarrow> string option" where
  "decToString dn eng = do {
     us \<leftarrow> unitsOf dn;
     u0 \<leftarrow> peek us 0;
     let sign = (if decNumberIsNegative dn then ''-'' else []);
     if bits dn AND DECSPECIAL \<noteq> 0 \<and> decNumberIsInfinite dn then Some (sign @ ''Infinity'')
     else do {
       let nan = (if bits dn AND DECSPECIAL \<noteq> 0 then (if bits dn AND DECSNAN \<noteq> 0 then ''sNaN'' else ''NaN'') else []);
       if bits dn AND DECSPECIAL \<noteq> 0 \<and> (exponent dn \<noteq> 0 \<or> u0 = 0 \<and> digits dn = 1) then Some (sign @ nan)
       else do {
         let up = length us - 1;
         let l = (up, MSUDIGITS (digits dn) - 1, ucast (us ! up));
         if exponent dn = 0 then Some (sign @ nan @ layRest us l)
         else do {
           let (pre, e) = textForm dn eng;
           let coefficient =
             (if pre > 0 then
                (let (s, left, l) = layDigits us (nat pre) l in
                 if pre < digits dn then s @ ''.'' @ layRest us l else s @ replicate left (CHR ''0''))
              else ''0.'' @ replicate (nat (- pre)) (CHR ''0'') @ layRest us l);
           let epart =
             (if e \<noteq> 0 then ''E'' @ (if e < 0 then ''-'' else ''+'') @ layExponent (of_int (if e < 0 then - e else e)) False 10 else []);
           Some (sign @ nan @ coefficient @ epart)
         }
       }
     }
   }"

definition decNumberToString :: "decNumber \<Rightarrow> string option" where
  "decNumberToString dn = decToString dn False"

definition decNumberToEngString :: "decNumber \<Rightarrow> string option" where
  "decNumberToEngString dn = decToString dn True"

section \<open>From text\<close>

definition charAt :: "string \<Rightarrow> nat \<Rightarrow> char" where
  "charAt s i = (if i < length s then s ! i else CHR 0x00)"

definition is_digit :: "char \<Rightarrow> bool" where
  "is_digit c \<longleftrightarrow> (of_char c :: nat) \<ge> 48 \<and> (of_char c :: nat) \<le> 57"

definition digit_val :: "char \<Rightarrow> int" where
  "digit_val c = of_char c - 48"

function decBiStr :: "string \<Rightarrow> string \<Rightarrow> string \<Rightarrow> bool" where
  "decBiStr targ str1 str2 =
     (if charAt targ 0 \<noteq> charAt str1 0 \<and> charAt targ 0 \<noteq> charAt str2 0 then False
      else if charAt targ 0 = CHR 0x00 then True
      else decBiStr (tl targ) (tl str1) (tl str2))"
  by auto
termination by (relation "measure (\<lambda>(targ, str1, str2). length targ)") (auto simp: charAt_def split: if_splits)

declare decBiStr.simps [simp del]

text \<open>The state of the scan: positions are indices of the string, \<^verbatim>\<open>last\<close> and \<^verbatim>\<open>dotchar\<close> are \<open>None\<close> until they are found.\<close>

record scan =
  sc_bits :: uByte
  sc_d :: int
  dotchar :: "nat option"
  cfirst :: nat
  lastc :: "nat option"

fun scanDecimal :: "string \<Rightarrow> nat \<Rightarrow> scan \<Rightarrow> nat \<times> scan" where
  "scanDecimal [] c s = (c, s)"
| "scanDecimal (ch # cs) c s =
     (if is_digit ch then scanDecimal cs (c + 1) (s\<lparr>lastc := Some c, sc_d := sc_d s + 1\<rparr>)
      else if ch = CHR ''.'' \<and> dotchar s = None then
        scanDecimal cs (c + 1) (s\<lparr>dotchar := Some c, cfirst := (if c = cfirst s then cfirst s + 1 else cfirst s)\<rparr>)
      else if c = 0 \<and> ch = CHR ''-'' then scanDecimal cs (c + 1) (s\<lparr>cfirst := cfirst s + 1, sc_bits := DECNEG\<rparr>)
      else if c = 0 \<and> ch = CHR ''+'' then scanDecimal cs (c + 1) (s\<lparr>cfirst := cfirst s + 1\<rparr>)
      else (c, s))"

definition skipZeros :: "string \<Rightarrow> nat \<Rightarrow> nat" where
  "skipZeros s i = i + length (takeWhile (\<lambda>c. c = CHR ''0'') (drop i s))"

definition skipDigits :: "string \<Rightarrow> nat \<Rightarrow> nat" where
  "skipDigits s i = i + length (takeWhile is_digit (drop i s))"

text \<open>What the inspection of the string leads to: the end, with a number and a status, or a coefficient to convert.\<close>

datatype inspection = Stop decNumber uInt | Convert decNumber scan int

text \<open>No digits: an infinity, a NaN with an optional payload, or an error.\<close>

definition scanSpecial :: "decNumber \<Rightarrow> string \<Rightarrow> decContext \<Rightarrow> nat \<Rightarrow> scan \<Rightarrow> inspection" where
  "scanSpecial dn chars ctx c s =
     (if charAt chars c = CHR 0x00 \<or> dotchar s \<noteq> None then Stop dn DEC_Conversion_syntax
      else
        (let dn = decNumberZero dn in
         if decBiStr (drop c chars) ''infinity'' ''INFINITY'' \<or> decBiStr (drop c chars) ''inf'' ''INF'' then
           Stop (dn\<lparr>bits := sc_bits s OR DECINF\<rparr>) 0
         else
           (let signalling = charAt chars c = CHR ''s'' \<or> charAt chars c = CHR ''S'';
                dn = dn\<lparr>bits := sc_bits s OR (if signalling then DECSNAN else DECNAN)\<rparr>;
                c = (if signalling then c + 1 else c)
            in if charAt chars c \<noteq> CHR ''n'' \<and> charAt chars c \<noteq> CHR ''N'' then Stop dn DEC_Conversion_syntax
               else if charAt chars (c + 1) \<noteq> CHR ''a'' \<and> charAt chars (c + 1) \<noteq> CHR ''A'' then Stop dn DEC_Conversion_syntax
               else if charAt chars (c + 2) \<noteq> CHR ''n'' \<and> charAt chars (c + 2) \<noteq> CHR ''N'' then Stop dn DEC_Conversion_syntax
               else
                 (let first = skipZeros chars (c + 3) in
                  if charAt chars first = CHR 0x00 then Stop dn 0
                  else
                    (let c = skipDigits chars first; d = int (c - first) in
                     if charAt chars c \<noteq> CHR 0x00 then Stop dn DEC_Conversion_syntax
                     else if d > ctx_digits ctx - 1 \<and> (clamp ctx \<noteq> 0 \<or> d > ctx_digits ctx) then Stop dn DEC_Conversion_syntax
                     else Convert dn (s\<lparr>sc_bits := bits dn, sc_d := d, cfirst := first, lastc := Some (c - 1)\<rparr>) 0)))))"

text \<open>The exponent is accumulated in a 32-bit integer, which wraps around when there are too many digits.\<close>

fun expDigits :: "string \<Rightarrow> uInt \<Rightarrow> uInt" where
  "expDigits [] e = e"
| "expDigits (c # cs) e = (if is_digit c then expDigits cs (push_bit 1 e + push_bit 3 e + of_int (digit_val c)) else e)"

fun stripZeros :: "string \<Rightarrow> nat \<Rightarrow> nat" where
  "stripZeros (c # c' # cs) i = (if c = CHR ''0'' \<and> c' \<noteq> CHR 0x00 then stripZeros (c' # cs) (i + 1) else i)"
| "stripZeros cs i = i"

definition scanExponent :: "decNumber \<Rightarrow> string \<Rightarrow> nat \<Rightarrow> scan \<Rightarrow> inspection" where
  "scanExponent dn chars c s =
     (if charAt chars c \<noteq> CHR ''e'' \<and> charAt chars c \<noteq> CHR ''E'' then Stop dn DEC_Conversion_syntax
      else
        (let c = c + 1; nege = charAt chars c = CHR ''-'';
             c = (if nege \<or> charAt chars c = CHR ''+'' then c + 1 else c)
         in if charAt chars c = CHR 0x00 then Stop dn DEC_Conversion_syntax
            else
              (let firstexp = stripZeros (drop c chars) c;
                   e = sint (expDigits (drop firstexp chars) 0);
                   c = skipDigits chars firstexp
               in if charAt chars c \<noteq> CHR 0x00 then Stop dn DEC_Conversion_syntax
                  else
                    (let e = (if c \<ge> firstexp + 9 + 1 \<and> (c > firstexp + 9 + 1 \<or> (of_char (charAt chars firstexp) :: nat) > 49)
                              then DECNUMMAXE * 2 else e)
                     in Convert dn s (if nege then - e else e)))))"

definition inspect :: "decNumber \<Rightarrow> string \<Rightarrow> decContext \<Rightarrow> inspection" where
  "inspect dn chars ctx =
     (let (c, s) = scanDecimal chars 0 \<lparr>sc_bits = 0, sc_d = 0, dotchar = None, cfirst = 0, lastc = None\<rparr> in
      if lastc s = None then scanSpecial dn chars ctx c s
      else if charAt chars c \<noteq> CHR 0x00 then scanExponent dn chars c s
      else Convert dn s 0)"

text \<open>Leading zeros, and a point among them, are skipped up to the last digit.\<close>

fun stripLeading :: "string \<Rightarrow> nat \<Rightarrow> int \<Rightarrow> nat \<times> int" where
  "stripLeading [] first d = (first, d)"
| "stripLeading (c # cs) first d =
     (if c = CHR ''.'' then stripLeading cs (first + 1) d
      else if c \<noteq> CHR ''0'' then (first, d)
      else stripLeading cs (first + 1) (d - 1))"

text \<open>The digits are collected into units from the most significant one down.\<close>

fun placeDigits :: "string \<Rightarrow> int \<Rightarrow> int \<Rightarrow> nat \<Rightarrow> Unit list \<Rightarrow> Unit list option" where
  "placeDigits [] out ct up us = None"
| "placeDigits (c # cs) out ct up us =
     (if c = CHR ''.'' then placeDigits cs out ct up us
      else
        (let out = 10 * out + digit_val c in
         if cs = [] then poke us up (of_int out)
         else if ct - 1 > 0 then placeDigits cs out (ct - 1) up us
         else if up = 0 then None
         else do { us \<leftarrow> poke us up (of_int out); placeDigits cs 0 3 (up - 1) us }))"

definition resbuff_units :: nat where "resbuff_units = 15"

definition convert :: "(nat \<Rightarrow> bool) \<Rightarrow> decNumber \<Rightarrow> string \<Rightarrow> decContext \<Rightarrow> scan \<Rightarrow> int \<Rightarrow> (decNumber \<times> uInt) option" where
  "convert mem dn chars ctx s e = do {
     let lst = the (lastc s);
     let (first, d) =
       (if charAt chars (cfirst s) = CHR ''0'' then stripLeading (drop (cfirst s) (take lst chars)) (cfirst s) (sc_d s)
        else (cfirst s, sc_d s));
     let e = (case dotchar s of Some dot \<Rightarrow> if dot < lst then e - (int lst - int dot) else e | None \<Rightarrow> e);
     let text = drop first (take (lst + 1) chars);
     let up = D2U d - 1;
     let ct = d - int up * 3;
     let res = dn\<lparr>bits := sc_bits s, exponent := e\<rparr>;
     if d \<le> ctx_digits ctx then do {
       us \<leftarrow> placeDigits text 0 ct up (lsu dn);
       let dn = res\<lparr>lsu := us, digits := d\<rparr>;
       if exponent dn - 1 < emin ctx - digits dn \<or> exponent dn - 1 > emax ctx - ctx_digits ctx then do {
         (dn, residue, st) \<leftarrow> decFinalize mem dn ctx 0 0;
         Some (dn, st)
       }
       else Some (dn, 0)
     }
     else if D2U d > resbuff_units \<and> \<not> mem (2 * D2U d) then
       Some (dn, DEC_Insufficient_storage)
     else do {
       us \<leftarrow> placeDigits text 0 ct up (replicate (D2U d) 0);
       (dn, residue, st) \<leftarrow> decSetCoeff (res\<lparr>digits := d\<rparr>) ctx (Some us) d 0 0;
       (dn, residue, st) \<leftarrow> decFinalize mem dn ctx residue st;
       Some (dn, st)
     }
   }"

definition decNumberFromString :: "(nat \<Rightarrow> bool) \<Rightarrow> decNumber \<Rightarrow> string \<Rightarrow> decContext \<Rightarrow> (decNumber \<times> decContext) option" where
  "decNumberFromString mem dn chars ctx = do {
     (dn, st) \<leftarrow> (case inspect dn chars ctx of Stop dn st \<Rightarrow> Some (dn, st) | Convert dn s e \<Rightarrow> convert mem dn chars ctx s e);
     Some (applyStatus dn st ctx)
   }"

end
