(* ===== verification/DnMultiply.thy ===== *)
theory DnMultiply
  imports DnAdd
begin

text \<open>
  Multiplication (\<^verbatim>\<open>decMultiplyOp\<close> of \<^verbatim>\<open>decNumber.c\<close>) and the fused multiply-add.  Short multipliers go unit by unit through
  \<^verbatim>\<open>decUnitAddSub\<close>; others are cut into chunks of nine digits whose products are accumulated in 64 bits, with the carries resolved
  after at most eighteen rows.
\<close>

section \<open>Chunks of nine digits\<close>

type_synonym uLong = "64 word"

definition FASTBASE :: uLong where "FASTBASE = 1000000000"
definition FASTLAZY :: nat where "FASTLAZY = 18"

fun chunkUnits :: "Unit list \<Rightarrow> uInt list" where
  "chunkUnits [] = []"
| "chunkUnits [a] = [ucast a * pow10 0]"
| "chunkUnits [a, b] = [ucast a * pow10 0 + ucast b * pow10 3]"
| "chunkUnits (a # b # c # us) = (ucast a * pow10 0 + ucast b * pow10 3 + ucast c * pow10 6) # chunkUnits us"

text \<open>One row: the products of the items of the multiplicand with an item of the multiplier are added to the accumulator.\<close>

fun addRow :: "uInt list \<Rightarrow> uInt \<Rightarrow> uLong list \<Rightarrow> uLong list option" where
  "addRow [] r acc = Some acc"
| "addRow (l # ls) r [] = None"
| "addRow (l # ls) r (a # acc) = do { acc \<leftarrow> addRow ls r acc; Some ((a + ucast l * ucast r) # acc) }"

text \<open>One pass over the accumulator: what does not fit an item is carried to the next one or the next two.\<close>

function resolve :: "uLong list \<Rightarrow> uLong list option" where
  "resolve [] = Some []"
| "resolve (a # acc) =
     (if a < FASTBASE then do { acc \<leftarrow> resolve acc; Some (a # acc) }
      else
        (let lcarry = a div FASTBASE in
         if lcarry < FASTBASE then
           (let carry = ucast lcarry :: uInt in
            case acc of
              [] \<Rightarrow> None
            | b # acc \<Rightarrow> do { acc \<leftarrow> resolve ((b + ucast carry) # acc); Some ((a - FASTBASE * ucast carry) # acc) })
         else
           (let carry2 = ucast (lcarry div FASTBASE) :: uInt;
                a = a - FASTBASE * FASTBASE * ucast carry2;
                carry = ucast (lcarry - FASTBASE * ucast carry2) :: uInt in
            case acc of
              [] \<Rightarrow> None
            | [b] \<Rightarrow> None
            | b # c # acc \<Rightarrow> do {
                acc \<leftarrow> resolve ((b + ucast carry) # (c + ucast carry2) # acc);
                Some ((a - FASTBASE * ucast carry) # acc)
              })))"
  by pat_completeness auto
termination by (relation "measure length") auto

declare resolve.simps [simp del]

text \<open>Row \<open>k\<close> starts at item \<open>k\<close>; carries are resolved when the count \<open>lazy\<close> runs out and after the last row.\<close>

fun mulRows :: "uInt list \<Rightarrow> uInt list \<Rightarrow> nat \<Rightarrow> nat \<Rightarrow> uLong list \<Rightarrow> uLong list option" where
  "mulRows ls [] k lazy acc = Some acc"
| "mulRows ls (r # rs) k lazy acc = do {
     row \<leftarrow> addRow ls r (drop k acc);
     let acc = take k acc @ row;
     let lazy = lazy - 1;
     if lazy > 0 \<and> rs \<noteq> [] then mulRows ls rs (k + 1) lazy acc
     else do { acc \<leftarrow> resolve acc; mulRows ls rs (k + 1) FASTLAZY acc }
   }"

definition unchunk :: "uLong \<Rightarrow> Unit list" where
  "unchunk a =
     (let item = ucast a :: uInt; part = item div 1000; part2 = part div 1000
      in [ucast (item - part * 1000), ucast (part - part2 * 1000), ucast part2])"

section \<open>The product of two coefficients\<close>

text \<open>The sizes of the buffers on the stack, in items and units.\<close>

definition zhibuff_items :: nat where "zhibuff_items = 10"
definition zaccbuff_items :: nat where "zaccbuff_items = 20"
definition mulbuff_units :: nat where "mulbuff_units = 49"

text \<open>The inner \<open>None\<close> means that memory cannot be allocated.\<close>

definition mulFast :: "(nat \<Rightarrow> bool) \<Rightarrow> int \<Rightarrow> int \<Rightarrow> Unit list \<Rightarrow> Unit list \<Rightarrow> Unit list option option" where
  "mulFast mem ld rd as bs =
     (let ilhs = nat ((ld + 9 - 1) div 9); irhs = nat ((rd + 9 - 1) div 9); iacc = ilhs + irhs in
      if ilhs > zhibuff_items \<and> \<not> mem (4 * ilhs) \<or> irhs > zhibuff_items \<and> \<not> mem (4 * irhs) \<or> iacc > zaccbuff_items \<and> \<not> mem (8 * iacc) then
        Some None
      else do {
        acc \<leftarrow> mulRows (chunkUnits as) (chunkUnits bs) 0 FASTLAZY (replicate iacc 0);
        Some (Some (concat (map unchunk acc)))
      })"

text \<open>The accumulator has room for \<open>room\<close> units.\<close>

fun mulUnits :: "nat \<Rightarrow> Unit list \<Rightarrow> Unit list \<Rightarrow> nat \<Rightarrow> Unit list \<Rightarrow> Unit list option" where
  "mulUnits room as [] shift acc = Some acc"
| "mulUnits room as (mer # bs) shift acc =
     (let acc = (if mer \<noteq> 0 then take shift acc @ fst (decUnitAddSub (drop shift acc) as 0 (uint mer)) else acc @ [0])
      in if length acc > room then None else mulUnits room as bs (shift + 1) acc)"

definition mulSlow :: "(nat \<Rightarrow> bool) \<Rightarrow> Unit list \<Rightarrow> Unit list \<Rightarrow> Unit list option option" where
  "mulSlow mem as bs =
     (let need = length as + length bs in
      if need > mulbuff_units \<and> \<not> mem (2 * need) then Some None
      else do { acc \<leftarrow> mulUnits (max need mulbuff_units) as bs 0 [0]; Some (Some acc) })"

section \<open>The operation\<close>

definition mulSpecial :: "decNumber \<Rightarrow> decNumber \<Rightarrow> decNumber \<Rightarrow> decContext \<Rightarrow> uInt \<Rightarrow> (decNumber \<times> uInt) option" where
  "mulSpecial res lhs rhs ctx st =
     (if (bits lhs OR bits rhs) AND DECSPECIAL AND (DECSNAN OR DECNAN) \<noteq> 0 then decNaNs res lhs (Some rhs) ctx st
      else if bits lhs AND DECINF = 0 \<and> decNumberIsZero lhs \<or> bits rhs AND DECINF = 0 \<and> decNumberIsZero rhs then
        Some (res, st OR DEC_Invalid_operation)
      else Some ((decNumberZero res)\<lparr>bits := ((bits lhs XOR bits rhs) AND DECNEG) OR DECINF\<rparr>, st))"

definition mulExponent :: "int \<Rightarrow> int \<Rightarrow> int" where
  "mulExponent l r =
     (let e = sint (of_int (l + r) :: uInt) in if l < 0 \<and> r < 0 \<and> e > 0 then - 2 * DECNUMMAXE else e)"

definition decMultiplyOp ::
  "(nat \<Rightarrow> bool) \<Rightarrow> decNumber \<Rightarrow> decNumber \<Rightarrow> decNumber \<Rightarrow> decContext \<Rightarrow> uInt \<Rightarrow> (decNumber \<times> uInt) option" where
  "decMultiplyOp mem res lhs rhs ctx st =
     (if (bits lhs OR bits rhs) AND DECSPECIAL \<noteq> 0 then mulSpecial res lhs rhs ctx st
      else
        (let b = (bits lhs XOR bits rhs) AND DECNEG;
             (l, r) = (if digits lhs < digits rhs then (rhs, lhs) else (lhs, rhs))
         in do {
           as \<leftarrow> unitsOf l;
           bs \<leftarrow> unitsOf r;
           p \<leftarrow> (if digits r > 6 then mulFast mem (digits l) (digits r) as bs else mulSlow mem as bs);
           (case p of
              None \<Rightarrow> Some (res, st OR DEC_Insufficient_storage)
            | Some acc \<Rightarrow> do {
                d \<leftarrow> decGetDigits acc (length acc);
                let res = res\<lparr>bits := b, digits := d, exponent := mulExponent (exponent l) (exponent r)\<rparr>;
                (res, residue, st) \<leftarrow> decSetCoeff res ctx (Some acc) d 0 st;
                finishAdd mem res ctx residue st
              })
         }))"

definition decNumberMultiply ::
  "(nat \<Rightarrow> bool) \<Rightarrow> decNumber \<Rightarrow> decNumber \<Rightarrow> decNumber \<Rightarrow> decContext \<Rightarrow> (decNumber \<times> decContext) option" where
  "decNumberMultiply mem res lhs rhs ctx = addStatus (decMultiplyOp mem res lhs rhs ctx 0) ctx"

section \<open>Fused multiply and add\<close>

definition DEC_MAX_MATH :: int where "DEC_MAX_MATH = 999999"

text \<open>The status, and whether the operation may go on.\<close>

definition decCheckMath :: "decNumber \<Rightarrow> decContext \<Rightarrow> uInt \<Rightarrow> bool \<times> uInt" where
  "decCheckMath rhs ctx st =
     (let st' =
        (if ctx_digits ctx > DEC_MAX_MATH \<or> emax ctx > DEC_MAX_MATH \<or> - emin ctx > DEC_MAX_MATH then st OR DEC_Invalid_context
         else if (digits rhs > DEC_MAX_MATH \<or> exponent rhs + digits rhs > DEC_MAX_MATH + 1 \<or>
             exponent rhs + digits rhs < 2 * (1 - DEC_MAX_MATH)) \<and> \<not> decNumberIsZero rhs then st OR DEC_Invalid_operation
         else st)
      in (st' \<noteq> st, st'))"

fun checkOperands :: "decNumber list \<Rightarrow> decContext \<Rightarrow> uInt \<Rightarrow> bool \<times> uInt" where
  "checkOperands [] ctx st = (False, st)"
| "checkOperands (dn # dns) ctx st =
     (let (bad, st) = (if decNumberIsSpecial dn then (False, st) else decCheckMath dn ctx st)
      in if bad then (True, st) else checkOperands dns ctx st)"

text \<open>The product goes to a buffer of \<^verbatim>\<open>D2N(DECBUFFER*2+1)\<close> numbers of 36 bytes, or to allocated memory.\<close>

definition decNumberFMA ::
  "(nat \<Rightarrow> bool) \<Rightarrow> decNumber \<Rightarrow> decNumber \<Rightarrow> decNumber \<Rightarrow> decNumber \<Rightarrow> decContext \<Rightarrow> (decNumber \<times> decContext) option" where
  "decNumberFMA mem res lhs rhs fhs ctx = do {
     (res, st) \<leftarrow>
       (let (bad, st) = checkOperands [lhs, rhs, fhs] ctx 0 in
        if bad then Some (res, st)
        else do {
          let dcmul = ctx\<lparr>ctx_digits := digits lhs + digits rhs, emax := DEC_MAX_EMAX, emin := DEC_MIN_EMIN\<rparr>;
          let need = 36 + (D2U (ctx_digits dcmul) - 1) * 2;
          if need > 108 \<and> \<not> mem need then Some (res, st OR DEC_Insufficient_storage)
          else do {
            let acc = localZero\<lparr>lsu := replicate ((max need 108 - 10) div 2) 0\<rparr>;
            (acc, st) \<leftarrow> decMultiplyOp mem acc lhs rhs dcmul st;
            if st AND DEC_Invalid_operation \<noteq> 0 \<and> st AND DEC_sNaN = 0 then
              Some ((decNumberZero res)\<lparr>bits := DECNAN\<rparr>, st)
            else
              decAddOp mem res acc (if st AND DEC_Invalid_operation \<noteq> 0 then decNumberZero localZero else fhs) ctx 0 st
          }
        });
     Some (applyStatus res st ctx)
   }"

end
