(* ===== verification/DnDivide.thy ===== *)
theory DnDivide
  imports DnAdd
begin

text \<open>
  Division (\<^verbatim>\<open>decDivideOp\<close> of \<^verbatim>\<open>decNumber.c\<close>): the quotient, the integer quotient and the two remainders by one long division.
  The working dividend \<^verbatim>\<open>var1\<close> is the list of its units in use, the quotient \<^verbatim>\<open>acc\<close> the list of its units, both least significant
  unit first.  The loops are partial functions: \<open>None\<close> is an access outside an array or a loop that does not end.
\<close>

section \<open>Finding one unit of the quotient\<close>

datatype divide_op = DIVIDE | REMAINDER | DIVIDEINT | REMNEAR

fun isRemainder :: "divide_op \<Rightarrow> bool" where
  "isRemainder REMAINDER = True"
| "isRemainder REMNEAR = True"
| "isRemainder _ = False"

text \<open>Leading zero units are dropped; one unit stays.\<close>

function stripTop :: "Unit list \<Rightarrow> Unit list" where
  "stripTop v = (if length v > 1 \<and> last v = 0 then stripTop (butlast v) else v)"
  by auto
termination by (relation "measure length") auto

declare stripTop.simps [simp del]

text \<open>Comparing from the most significant unit, the divisor padded with zeros.\<close>

fun topCompare :: "Unit list \<Rightarrow> Unit list \<Rightarrow> int" where
  "topCompare [] bs = 0"
| "topCompare (a # as) bs =
     (let b = (case bs of [] \<Rightarrow> 0 | b # _ \<Rightarrow> b)
      in if a < b then - 1 else if a > b then 1 else topCompare as (tl bs))"

text \<open>The divisor: its units and the two estimates of its leading ones.\<close>

record divisor =
  var2 :: "Unit list"
  msu2plus :: int
  msu2pair :: int

definition mkDivisor :: "Unit list \<Rightarrow> divisor" where
  "mkDivisor v =
     (let n = length v; u = uint (last v) in
      \<lparr>var2 = v, msu2plus = (if n > 1 then u + 1 else u),
       msu2pair = u * 1000 + (if n > 1 then uint (v ! (n - 2)) + (if n > 2 then 1 else 0) else 0)\<rparr>)"

definition estimateMult :: "Unit list \<Rightarrow> int \<Rightarrow> int" where
  "estimateMult v d =
     (let mult = (uint (v ! (length v - 1)) * 1000 + uint (v ! (length v - 2))) div d in if mult = 0 then 1 else mult)"

text \<open>The inner loop: subtracts multiples of the divisor, of \<open>ulen\<close> units with its padding, until the rest is lower.\<close>

definition divStep :: "divisor \<Rightarrow> nat \<Rightarrow> Unit list \<Rightarrow> int \<Rightarrow> Unit list option" where
  "divStep dv ulen v mult =
     (if ulen < length (var2 dv) then None
      else
        (let shift = ulen - length (var2 dv)
         in Some (take shift v @ fst (decUnitAddSub (drop shift v) (var2 dv) 0 (- mult)))))"

partial_function (option) divUnit :: "divisor \<Rightarrow> nat \<Rightarrow> Unit list \<Rightarrow> Unit \<Rightarrow> (Unit list \<times> Unit) option" where
  "divUnit dv ulen v thisunit =
     (let v = stripTop v in
      if length v < ulen then Some (v, thisunit)
      else if length v = ulen \<and> topCompare (rev v) (rev (var2 dv)) < 0 then Some (v, thisunit)
      else if length v = ulen \<and> topCompare (rev v) (rev (var2 dv)) = 0 then Some ([0], thisunit + 1)
      else if length v < 2 then None
      else
        (let mult = estimateMult v (if length v = ulen then msu2pair dv else msu2plus dv) in
         case divStep dv ulen v mult of None \<Rightarrow> None | Some v \<Rightarrow> divUnit dv ulen v (thisunit + of_int mult)))"

declare divUnit.simps [code]

section \<open>The long division\<close>

record quotient =
  rest :: "Unit list"
  acc :: "Unit list"
  accdigits :: int
  qexp :: int

text \<open>How many of the powers 10, 100, ... a unit reaches.\<close>

definition powersIn :: "Unit \<Rightarrow> int" where
  "powersIn u = int (length (takeWhile (\<lambda>p. p \<le> ucast u) (tl DECPOWERS)))"

definition pushUnit :: "Unit \<Rightarrow> quotient \<Rightarrow> quotient" where
  "pushUnit u q =
     (if acc q \<noteq> [] \<or> u \<noteq> 0 then
        q\<lparr>acc := u # acc q, accdigits := (if acc q = [] then 1 + powersIn u else accdigits q + 3)\<rparr>
      else q)"

partial_function (option) divLoop :: "divide_op \<Rightarrow> divisor \<Rightarrow> nat \<Rightarrow> int \<Rightarrow> int \<Rightarrow> nat \<Rightarrow> quotient \<Rightarrow> quotient option" where
  "divLoop op dv acclength reqdigits maxexponent ulen q =
     (case divUnit dv ulen (rest q) 0 of
        None \<Rightarrow> None
      | Some (v, u) \<Rightarrow>
          let q = pushUnit u (q\<lparr>rest := v\<rparr>) in
          if length (acc q) > acclength then None
          else if accdigits q > reqdigits then Some q
          else if v = [0] \<and> (isRemainder op \<or> op = DIVIDE \<and> qexp q \<le> maxexponent) then Some q
          else if qexp q = 0 \<and> op \<noteq> DIVIDE then Some q
          else if ulen = 0 then None
          else divLoop op dv acclength reqdigits maxexponent (ulen - 1) (q\<lparr>qexp := qexp q - 3\<rparr>))"

declare divLoop.simps [code]

section \<open>Preparing and finishing\<close>

text \<open>For the integer operations the dividend is moved so that the quotient ends at a unit: the moved dividend, the exponent and the padding left.\<close>

definition alignDividend :: "Unit list \<Rightarrow> int \<Rightarrow> int \<Rightarrow> (Unit list \<times> int \<times> int) option" where
  "alignDividend v e initpad = do {
     let ct = (if e < 0 then - e else 3 - e mod 3);
     (n, us) \<leftarrow> decShiftToLeast v (length v) ct;
     let emptied = nat (ct div 3);
     if emptied > length v then None
     else Some (take (length v - emptied) us @ replicate emptied 0, e + ct, initpad - ct)
   }"

text \<open>The exact quotient loses the zeros of its last unit, up to the exponent \<open>maxexponent\<close>: their number and the new exponent.\<close>

fun dropZeros :: "nat \<Rightarrow> Unit \<Rightarrow> int \<Rightarrow> nat \<Rightarrow> int \<Rightarrow> (nat \<times> int) option" where
  "dropZeros 0 u maxexponent drp e = None"
| "dropZeros (Suc n) u maxexponent drp e =
     (if e \<ge> maxexponent then Some (drp, e)
      else if ucast u - QUOT10 u (drp + 1) * pow10 (drp + 1) \<noteq> 0 then Some (drp, e)
      else dropZeros n u maxexponent (drp + 1) (e + 1))"

definition exactQuotient :: "int \<Rightarrow> quotient \<Rightarrow> quotient option" where
  "exactQuotient maxexponent q = do {
     u \<leftarrow> peek (acc q) 0;
     if u AND 1 = 0 \<and> u \<noteq> 0 then do {
       (drp, e) \<leftarrow> dropZeros 4 u maxexponent 0 (qexp q);
       if drp > 0 then do {
         (n, us) \<leftarrow> decShiftToLeast (acc q) (length (acc q)) (int drp);
         d \<leftarrow> decGetDigits us n;
         Some (q\<lparr>acc := us, accdigits := d, qexp := e\<rparr>)
       } else Some (q\<lparr>qexp := e\<rparr>)
     } else Some q
   }"

fun allNines :: "Unit list \<Rightarrow> int \<Rightarrow> bool option" where
  "allNines [] d = None"
| "allNines (u # us) d =
     (if d > 3 then (if u \<noteq> 999 then Some False else allNines us (d - 3)) else Some (ucast u = pow10 (nat d) - 1))"

fun halveUnits :: "Unit list \<Rightarrow> Unit list" where
  "halveUnits [] = []"
| "halveUnits [u] = [u div 2]"
| "halveUnits (u # v # us) = (u div 2 + (if v AND 1 \<noteq> 0 then 500 else 0)) # halveUnits (v # us)"

text \<open>The remainder nearest to zero: the units, the digits and whether the sign flips; \<open>Inl\<close> is an error.\<close>

definition nearRemainder ::
  "(nat \<Rightarrow> bool) \<Rightarrow> Unit list \<Rightarrow> int \<Rightarrow> Unit list \<Rightarrow> int \<Rightarrow> decNumber \<Rightarrow> int \<Rightarrow> int \<Rightarrow> (uInt + Unit list \<times> int \<times> bool) option" where
  "nearRemainder mem r d quot quotdigits rhs e reqdigits = do {
     let n = D2U d;
     y \<leftarrow> unitsOf rhs;
     let twice = fst (decUnitAddSub (take n r) (take n r) 0 1);
     (case decUnitCompare mem twice y (exponent rhs - e) of
        None \<Rightarrow> Some (Inl DEC_Insufficient_storage)
      | Some compare \<Rightarrow> do {
          q0 \<leftarrow> peek quot 0;
          let r = halveUnits twice;
          if compare > 0 \<or> compare = 0 \<and> q0 AND 1 \<noteq> 0 then do {
            nines \<leftarrow> (if quotdigits = reqdigits then allNines quot quotdigits else Some False);
            if nines then Some (Inl DEC_Division_impossible)
            else do {
              let ex = exponent rhs - e;
              let r = fst (decUnitAddSub (take n r) y (nat (ex div 3)) (- uint (pow10 (nat (ex mod 3)))));
              d \<leftarrow> decGetDigits r (length r);
              Some (Inr (r, d, True))
            }
          } else Some (Inr (r, d, False))
        })
   }"

section \<open>The operation\<close>

definition divSpecial ::
  "(nat \<Rightarrow> bool) \<Rightarrow> decNumber \<Rightarrow> decNumber \<Rightarrow> decNumber \<Rightarrow> decContext \<Rightarrow> divide_op \<Rightarrow> uInt \<Rightarrow> (decNumber \<times> uInt) option" where
  "divSpecial mem res lhs rhs ctx op st =
     (let b = (bits lhs XOR bits rhs) AND DECNEG in
      if (bits lhs OR bits rhs) AND DECSPECIAL AND (DECSNAN OR DECNAN) \<noteq> 0 then decNaNs res lhs (Some rhs) ctx st
      else if decNumberIsInfinite lhs then
        (if decNumberIsInfinite rhs \<or> isRemainder op then Some (res, st OR DEC_Invalid_operation)
         else Some ((decNumberZero res)\<lparr>bits := b OR DECINF\<rparr>, st))
      else if isRemainder op then do {
        (res, residue, st) \<leftarrow> decCopyFit res lhs ctx 0 st;
        finishAdd mem res ctx residue st
      }
      else
        (let res = (decNumberZero res)\<lparr>bits := b\<rparr> in
         if op = DIVIDE then finishAdd mem (res\<lparr>exponent := emin ctx - ctx_digits ctx + 1\<rparr>) ctx 0 (st OR DEC_Clamped)
         else finishAdd mem res ctx 0 st))"

definition divZero ::
  "(nat \<Rightarrow> bool) \<Rightarrow> decNumber \<Rightarrow> decNumber \<Rightarrow> decNumber \<Rightarrow> decContext \<Rightarrow> divide_op \<Rightarrow> uInt \<Rightarrow> (decNumber \<times> uInt) option" where
  "divZero mem res lhs rhs ctx op st =
     (let b = (bits lhs XOR bits rhs) AND DECNEG in
      if decNumberIsZero rhs then
        (if decNumberIsZero lhs then Some (decNumberZero res, st OR DEC_Division_undefined)
         else if isRemainder op then Some (decNumberZero res, st OR DEC_Invalid_operation)
         else Some ((decNumberZero res)\<lparr>bits := b OR DECINF\<rparr>, st OR DEC_Division_by_zero))
      else
        (case op of
           DIVIDE \<Rightarrow> do {
             let e = exponent lhs - exponent rhs;
             res \<leftarrow> decNumberCopy res lhs;
             finishAdd mem (res\<lparr>bits := b, exponent := e\<rparr>) ctx 0 st
           }
         | DIVIDEINT \<Rightarrow> Some ((decNumberZero res)\<lparr>bits := b\<rparr>, st)
         | _ \<Rightarrow> do {
             let e = exponent rhs;
             res \<leftarrow> decNumberCopy res lhs;
             Some (if e < exponent res then res\<lparr>exponent := e\<rparr> else res, st)
           }))"

definition divResult ::
  "(nat \<Rightarrow> bool) \<Rightarrow> decNumber \<Rightarrow> decContext \<Rightarrow> uByte \<Rightarrow> int \<Rightarrow> Unit list \<Rightarrow> int \<Rightarrow> int \<Rightarrow> uInt \<Rightarrow> (decNumber \<times> uInt) option" where
  "divResult mem res ctx b e us d residue st = do {
     (res, residue, st) \<leftarrow> decSetCoeff (res\<lparr>exponent := e, bits := b AND DECNEG\<rparr>) ctx (Some us) d residue st;
     finishAdd mem res ctx residue st
   }"

definition divRemainder ::
  "(nat \<Rightarrow> bool) \<Rightarrow> decNumber \<Rightarrow> decNumber \<Rightarrow> decNumber \<Rightarrow> decContext \<Rightarrow> divide_op \<Rightarrow> quotient \<Rightarrow> int \<Rightarrow> uInt \<Rightarrow> (decNumber \<times> uInt) option" where
  "divRemainder mem res lhs rhs ctx op q initpad st =
     (let e = min (exponent lhs) (exponent rhs) in
      if rest q = [0] then
        finishAdd mem ((decNumberZero res)\<lparr>exponent := e, bits := bits lhs AND DECNEG\<rparr>) ctx 0 st
      else do {
        let postshift = min initpad (initpad + qexp q - exponent lhs + exponent rhs);
        (n, us) \<leftarrow> decShiftToLeast (rest q) (length (rest q)) postshift;
        d \<leftarrow> decGetDigits us n;
        if op = REMNEAR then do {
          near \<leftarrow> nearRemainder mem us d (acc q) (accdigits q) rhs e (ctx_digits ctx);
          (case near of
             Inl err \<Rightarrow> Some (res, st OR err)
           | Inr (us, d, flip) \<Rightarrow> divResult mem res ctx (if flip then bits lhs XOR DECNEG else bits lhs) e us d 0 st)
        }
        else divResult mem res ctx (bits lhs) e us d 0 st
      })"

text \<open>The sizes of the buffers on the stack, in units.\<close>

definition divacc_units :: nat where "divacc_units = 17"
definition varbuff_units :: nat where "varbuff_units = 25"

text \<open>What is done with the quotient and the rest.\<close>

definition divFinish ::
  "(nat \<Rightarrow> bool) \<Rightarrow> decNumber \<Rightarrow> decNumber \<Rightarrow> decNumber \<Rightarrow> decContext \<Rightarrow> divide_op \<Rightarrow> int \<Rightarrow> int \<Rightarrow> quotient \<Rightarrow> uInt \<Rightarrow> (decNumber \<times> uInt) option" where
  "divFinish mem res lhs rhs ctx op maxexponent initpad q st = do {
     let b = (bits lhs XOR bits rhs) AND DECNEG;
     let q = (if acc q = [] then q\<lparr>acc := [0], accdigits := 1\<rparr> else q);
     if op = DIVIDE then
       (if rest q \<noteq> [0] then divResult mem res ctx b (qexp q) (acc q) (accdigits q) 1 st
        else do {
          q \<leftarrow> exactQuotient maxexponent q;
          divResult mem res ctx b (qexp q) (acc q) (accdigits q) 0 st
        })
     else if accdigits q + qexp q > ctx_digits ctx then Some (res, st OR DEC_Division_impossible)
     else if isRemainder op then divRemainder mem res lhs rhs ctx op q initpad st
     else divResult mem res ctx b (qexp q) (acc q) (accdigits q) 0 st
   }"

definition divLong ::
  "(nat \<Rightarrow> bool) \<Rightarrow> decNumber \<Rightarrow> decNumber \<Rightarrow> decNumber \<Rightarrow> decContext \<Rightarrow> divide_op \<Rightarrow> int \<Rightarrow> uInt \<Rightarrow> (decNumber \<times> uInt) option" where
  "divLong mem res lhs rhs ctx op e st =
     (let reqdigits = ctx_digits ctx;
          acclength = D2U (reqdigits + 3);
          maxdigits = max (digits rhs + reqdigits - 1) (digits lhs);
          var1units = D2U maxdigits + 2 + (if op = DIVIDE then 0 else 1)
      in if acclength > divacc_units \<and> \<not> mem (2 * acclength) \<or> var1units + 1 > varbuff_units \<and> \<not> mem (2 * (var1units + 1)) then
           Some (res, st OR DEC_Insufficient_storage)
         else do {
           x \<leftarrow> unitsOf lhs;
           y \<leftarrow> unitsOf rhs;
           let v = replicate (var1units - length x) 0 @ x;
           let e = e - powersIn (last x) + powersIn (last y);
           let maxexponent = exponent lhs - exponent rhs;
           (v, e, initpad, ulen) \<leftarrow>
             (if op = DIVIDE then
                Some (if last x < last y then (v, e - 3, 0, var1units - 1) else (v, e, 0, var1units))
              else do {
                (v, e, initpad) \<leftarrow> alignDividend v e (int (var1units - length x) * 3);
                Some (v, e, initpad, var1units)
              });
           q \<leftarrow> divLoop op (mkDivisor y) acclength reqdigits maxexponent ulen \<lparr>rest = v, acc = [], accdigits = 0, qexp = e\<rparr>;
           divFinish mem res lhs rhs ctx op maxexponent initpad q st
         })"

definition decDivideOp ::
  "(nat \<Rightarrow> bool) \<Rightarrow> decNumber \<Rightarrow> decNumber \<Rightarrow> decNumber \<Rightarrow> decContext \<Rightarrow> divide_op \<Rightarrow> uInt \<Rightarrow> (decNumber \<times> uInt) option" where
  "decDivideOp mem res lhs rhs ctx op st =
     (if (bits lhs OR bits rhs) AND DECSPECIAL \<noteq> 0 then divSpecial mem res lhs rhs ctx op st
      else if decNumberIsZero rhs \<or> decNumberIsZero lhs then divZero mem res lhs rhs ctx op st
      else
        (let e = (exponent lhs + digits lhs) - (exponent rhs + digits rhs) in
         if e < 0 \<and> op = DIVIDEINT then Some ((decNumberZero res)\<lparr>bits := (bits lhs XOR bits rhs) AND DECNEG\<rparr>, st)
         else if e < 0 \<and> isRemainder op \<and> exponent lhs \<le> exponent rhs \<and> (op = REMAINDER \<or> e < - 1) then do {
           (res, residue, st) \<leftarrow> decCopyFit res lhs ctx 0 st;
           finishAdd mem res ctx residue st
         }
         else divLong mem res lhs rhs ctx op e st))"

definition decNumberDivide ::
  "(nat \<Rightarrow> bool) \<Rightarrow> decNumber \<Rightarrow> decNumber \<Rightarrow> decNumber \<Rightarrow> decContext \<Rightarrow> (decNumber \<times> decContext) option" where
  "decNumberDivide mem res lhs rhs ctx = addStatus (decDivideOp mem res lhs rhs ctx DIVIDE 0) ctx"

definition decNumberDivideInteger ::
  "(nat \<Rightarrow> bool) \<Rightarrow> decNumber \<Rightarrow> decNumber \<Rightarrow> decNumber \<Rightarrow> decContext \<Rightarrow> (decNumber \<times> decContext) option" where
  "decNumberDivideInteger mem res lhs rhs ctx = addStatus (decDivideOp mem res lhs rhs ctx DIVIDEINT 0) ctx"

definition decNumberRemainder ::
  "(nat \<Rightarrow> bool) \<Rightarrow> decNumber \<Rightarrow> decNumber \<Rightarrow> decNumber \<Rightarrow> decContext \<Rightarrow> (decNumber \<times> decContext) option" where
  "decNumberRemainder mem res lhs rhs ctx = addStatus (decDivideOp mem res lhs rhs ctx REMAINDER 0) ctx"

definition decNumberRemainderNear ::
  "(nat \<Rightarrow> bool) \<Rightarrow> decNumber \<Rightarrow> decNumber \<Rightarrow> decNumber \<Rightarrow> decContext \<Rightarrow> (decNumber \<times> decContext) option" where
  "decNumberRemainderNear mem res lhs rhs ctx = addStatus (decDivideOp mem res lhs rhs ctx REMNEAR 0) ctx"

end
