(* ===== verification/DnMath.thy ===== *)
theory DnMath
  imports DnOps DnText DnMultiply DnDivide
begin

text \<open>
  The functions of \<^verbatim>\<open>decNumber.c\<close> that work at a higher precision: exponential, logarithms, powers and the square root.  The two loops
  that stop when a term no longer counts, and the one that doubles the precision, are partial functions: \<open>None\<close> is a loop that does not
  end, or an access outside an array.
\<close>

section \<open>Working numbers\<close>

text \<open>The size of a number is 36 bytes, ten of them before the units; \<^verbatim>\<open>D2N(d)\<close> numbers have room for \<open>d\<close> digits.\<close>

definition D2N :: "nat \<Rightarrow> nat" where
  "D2N d = (((d + 2) div 3 - 1) * 2 + 71) div 36"

definition needBytes :: "int \<Rightarrow> nat" where
  "needBytes d = 36 + (D2U d - 1) * 2"

definition workNumber :: "nat \<Rightarrow> decNumber" where
  "workNumber n = localZero\<lparr>lsu := replicate ((n - 10) div 2) 0\<rparr>"

text \<open>A buffer for \<open>d\<close> digits: the local one with room for \<open>room\<close> digits, or allocated memory; \<open>None\<close> when there is none.\<close>

definition getBuffer :: "(nat \<Rightarrow> bool) \<Rightarrow> nat \<Rightarrow> int \<Rightarrow> decNumber option" where
  "getBuffer mem room d =
     (if needBytes d > 36 * D2N room then (if mem (needBytes d) then Some (workNumber (needBytes d)) else None)
      else Some (workNumber (36 * D2N room)))"

definition setSmall :: "decNumber \<Rightarrow> Unit \<Rightarrow> decNumber option" where
  "setSmall dn u = do { us \<leftarrow> poke (lsu (decNumberZero dn)) 0 u; Some ((decNumberZero dn)\<lparr>lsu := us\<rparr>) }"

text \<open>An inexact one, padded with zeros to the precision.\<close>

definition paddedOne :: "decNumber \<Rightarrow> decContext \<Rightarrow> uInt \<Rightarrow> (decNumber \<times> uInt) option" where
  "paddedOne res ctx st = do {
     let shift = ctx_digits ctx - 1;
     res \<leftarrow> setSmall res 1;
     (d, us) \<leftarrow> dnShiftToMost (lsu res) 1 shift;
     Some (res\<lparr>lsu := us, digits := d, exponent := - shift\<rparr>, st OR (DEC_Inexact OR DEC_Rounded))
   }"

text \<open>A context of the decimal64 format.\<close>

definition decimal64 :: "decContext \<Rightarrow> decContext" where
  "decimal64 ctx = fst (decContextDefault ctx DEC_INIT_DECIMAL64)"

text \<open>
  The loop that raises a number to the power \<open>n\<close>, bit by bit from the top, over \<open>k\<close> bits; it stops early after an overflow or an underflow to zero.
\<close>

fun powerLoop ::
  "(nat \<Rightarrow> bool) \<Rightarrow> decContext \<Rightarrow> decNumber \<Rightarrow> nat \<Rightarrow> uInt \<Rightarrow> bool \<Rightarrow> decNumber \<Rightarrow> uInt \<Rightarrow> (decNumber \<times> uInt) option" where
  "powerLoop mem aset x 0 n seenbit dac st = Some (dac, st)"
| "powerLoop mem aset x (Suc k) n seenbit dac st =
     (if st AND (DEC_Overflow OR DEC_Underflow) \<noteq> 0 \<and> (st AND DEC_Overflow \<noteq> 0 \<or> decNumberIsZero dac) then Some (dac, st)
      else do {
        let n = push_bit 1 n;
        (dac, st) \<leftarrow> (if bit n 31 then decMultiplyOp mem dac dac x aset st else Some (dac, st));
        let seenbit = (bit n 31 \<or> seenbit);
        if k = 0 then Some (dac, st)
        else if \<not> seenbit then powerLoop mem aset x k n seenbit dac st
        else do {
          (dac, st) \<leftarrow> decMultiplyOp mem dac dac dac aset st;
          powerLoop mem aset x k n seenbit dac st
        }
      })"

section \<open>Exponential\<close>

text \<open>The power series for \<open>x\<close> below one; the status of the accumulator \<open>a\<close> is kept, the one of the term \<open>t\<close> and the divisor \<open>d\<close> ignored.\<close>

partial_function (option) expLoop ::
  "(nat \<Rightarrow> bool) \<Rightarrow> decNumber \<Rightarrow> int \<Rightarrow> decContext \<Rightarrow> decContext \<Rightarrow> decContext \<Rightarrow> decNumber \<Rightarrow> decNumber \<Rightarrow> decNumber \<Rightarrow> uInt \<Rightarrow> uInt \<Rightarrow>
     (decNumber \<times> decNumber \<times> uInt) option" where
  "expLoop mem x p aset tset dset a t d ignr st =
     Option.bind (decAddOp mem a a t aset 0 st) (\<lambda>(a, st).
     Option.bind (decMultiplyOp mem t t x tset ignr) (\<lambda>(t, ignr).
     Option.bind (decDivideOp mem t t d tset DIVIDE ignr) (\<lambda>(t, ignr).
       if digits a + exponent a \<ge> digits t + exponent t + p + 1 \<and> digits a \<ge> p then Some (a, t, st)
       else Option.bind (setSmall localZero 1) (\<lambda>numone.
         Option.bind (decAddOp mem d d numone dset 0 ignr) (\<lambda>(d, ignr). expLoop mem x p aset tset dset a t d ignr st)))))"

text \<open>The series for an argument scaled below one; the result has the sum, the working number for terms, the powers of ten \<open>h\<close> taken out and the precision.\<close>

definition expSeries ::
  "(nat \<Rightarrow> bool) \<Rightarrow> decNumber \<Rightarrow> decContext \<Rightarrow> decContext \<Rightarrow> uInt \<Rightarrow> (decNumber \<times> decNumber \<times> int \<times> int \<times> uInt) option option" where
  "expSeries mem rhs ctx aset st =
     (let h = exponent rhs + digits rhs;
          lever = min (8 - h) (if digits rhs > 8 then 1 else 0);
          uexp = - digits rhs - lever;
          h = h + lever;
          (uexp, h) = (if h < 0 then (uexp + h, 0) else (uexp, h));
          newrhs = (if exponent rhs \<noteq> uexp then getBuffer mem 73 (digits rhs) else Some rhs)
      in case newrhs of
           None \<Rightarrow> Some None
         | Some newrhs \<Rightarrow> do {
             x \<leftarrow> (if exponent rhs \<noteq> uexp then do { x \<leftarrow> decNumberCopy newrhs rhs; Some (x\<lparr>exponent := uexp\<rparr>) } else Some rhs);
             let p = max (digits x) (ctx_digits ctx) + h + 2;
             (case (getBuffer mem 163 (p * 2), getBuffer mem 82 (p + 2)) of
                (Some a, Some t) \<Rightarrow> do {
                  t \<leftarrow> decNumberCopy t x;
                  a \<leftarrow> setSmall a 1;
                  d \<leftarrow> setSmall (workNumber (36 * D2N 16)) 2;
                  let tset = decimal64 ctx;
                  (a, t, st) \<leftarrow> expLoop mem x p (aset\<lparr>ctx_digits := p * 2\<rparr>) (tset\<lparr>ctx_digits := p, emin := DEC_MIN_EMIN\<rparr>) tset a t d 0 st;
                  Some (Some (a, t, h, p, st))
                }
              | _ \<Rightarrow> Some None)
           })"

text \<open>The power \<open>10 ^ h\<close> of the sum, and the rounding of the result.\<close>

definition expFinish ::
  "(nat \<Rightarrow> bool) \<Rightarrow> decNumber \<Rightarrow> decContext \<Rightarrow> decContext \<Rightarrow> decNumber \<times> decNumber \<times> int \<times> int \<times> uInt \<Rightarrow> (decNumber \<times> uInt) option" where
  "expFinish mem res ctx aset s = do {
     let (a, t, h, p, st) = s;
     (a, st) \<leftarrow> (if h > 0 then do {
         t \<leftarrow> setSmall t 1;
         powerLoop mem (aset\<lparr>ctx_digits := p + 2\<rparr>) a 31 (pow10 (nat h)) False t st
       } else Some (a, st));
     (res, residue, st) \<leftarrow> decCopyFit res a (aset\<lparr>ctx_digits := ctx_digits ctx\<rparr>) (if decNumberIsZero a then 0 else 1) st;
     finishAdd mem res ctx residue st
   }"

definition decExpOp :: "(nat \<Rightarrow> bool) \<Rightarrow> decNumber \<Rightarrow> decNumber \<Rightarrow> decContext \<Rightarrow> uInt \<Rightarrow> (decNumber \<times> uInt) option" where
  "decExpOp mem res rhs ctx st =
     (if decNumberIsSpecial rhs then
        (if decNumberIsInfinite rhs then
           (if decNumberIsNegative rhs then Some (decNumberZero res, st) else do { res \<leftarrow> decNumberCopy res rhs; Some (res, st) })
         else decNaNs res rhs None ctx st)
      else if decNumberIsZero rhs then do { res \<leftarrow> setSmall res 1; Some (res, st) }
      else do {
        d \<leftarrow> setSmall (workNumber (36 * D2N 16)) 4;
        cmp \<leftarrow> decCompare mem (d\<lparr>exponent := - ctx_digits ctx - (if decNumberIsNegative rhs then 1 else 0)\<rparr>) rhs True;
        (case cmp of
           None \<Rightarrow> Some (res, st OR DEC_Insufficient_storage)
         | Some c \<Rightarrow>
             if c \<ge> 0 then paddedOne res ctx st
             else do {
               let aset = (decimal64 ctx)\<lparr>emax := emax ctx, emin := emin ctx, clamp := 0\<rparr>;
               s \<leftarrow> (if exponent rhs + digits rhs > 8 then do {
                   a \<leftarrow> setSmall (workNumber (36 * D2N 163)) 2;
                   Some (Some (if decNumberIsNegative rhs then a\<lparr>exponent := - 2\<rparr> else a, workNumber (36 * D2N 82), 8, 9, st))
                 } else expSeries mem rhs ctx aset st);
               (case s of None \<Rightarrow> Some (res, st OR DEC_Insufficient_storage) | Some s \<Rightarrow> expFinish mem res ctx aset s)
             })
      })"

definition decNumberExp :: "(nat \<Rightarrow> bool) \<Rightarrow> decNumber \<Rightarrow> decNumber \<Rightarrow> decContext \<Rightarrow> (decNumber \<times> decContext) option" where
  "decNumberExp mem res rhs ctx =
     (let (bad, st) = decCheckMath rhs ctx 0 in addStatus (if bad then Some (res, st) else decExpOp mem res rhs ctx st) ctx)"

section \<open>Logarithms\<close>

definition LNnn :: "int list" where
  "LNnn =
     [9016, 8652, 8316, 8008, 7724, 7456, 7208, 6972, 6748, 6540, 6340, 6148, 5968, 5792, 5628, 5464, 5312,
      5164, 5020, 4884, 4748, 4620, 4496, 4376, 4256, 4144, 4032,
      39233, 38181, 37157, 36157, 35181, 34229, 33297, 32389, 31501, 30629,
      29777, 28945, 28129, 27329, 26545, 25777, 25021, 24281, 23553, 22837,
      22137, 21445, 20769, 20101, 19445, 18801, 18165, 17541, 16925, 16321,
      15721, 15133, 14553, 13985, 13421, 12865, 12317, 11777, 11241, 10717,
      10197, 9685, 9177, 8677, 8185, 7697, 7213, 6737, 6269, 5801,
      5341, 4889, 4437, 39930, 35534, 31186, 26886, 22630, 18418, 14254,
      10130, 6046, 20055]"

definition LN10 :: string where "LN10 = ''2.302585092994045684017991454684364207601''"
definition LN2 :: string where "LN2 = ''0.6931471805599453094172321214581765680755''"

text \<open>The constants for arguments two and ten at common precisions.\<close>

definition lnConstant :: "decNumber \<Rightarrow> decContext \<Rightarrow> string option" where
  "lnConstant rhs ctx =
     (if exponent rhs = 0 \<and> ctx_digits ctx \<le> 40 then
        (if peek (lsu rhs) 0 = Some 10 \<and> digits rhs = 2 then Some LN10
         else if peek (lsu rhs) 0 = Some 2 \<and> digits rhs = 1 then Some LN2 else None)
      else None)"

text \<open>The first estimate, from the exponent and the two leading digits.\<close>

definition lnEstimate ::
  "(nat \<Rightarrow> bool) \<Rightarrow> decNumber \<Rightarrow> decContext \<Rightarrow> decNumber \<Rightarrow> decNumber \<Rightarrow> (decNumber \<times> decNumber \<times> uInt) option" where
  "lnEstimate mem rhs aset a b = do {
     a \<leftarrow> decNumberFromInt32 a (exponent rhs + digits rhs);
     b \<leftarrow> decNumberFromInt32 b 2302585;
     (a, ignr) \<leftarrow> decMultiplyOp mem a a (b\<lparr>exponent := - 6\<rparr>) aset 0;
     (b, residue, ignr) \<leftarrow> decCopyFit b rhs (aset\<lparr>ctx_digits := 2, ctx_round := DEC_ROUND_DOWN\<rparr>) 0 ignr;
     t \<leftarrow> decGetInt (b\<lparr>exponent := 0\<rparr>);
     let t = (if t < 10 then 10 * t else t);
     t \<leftarrow> (if t < 10 then None else peek LNnn (nat (t - 10)));
     b \<leftarrow> decNumberFromInt32 b (t div 4);
     let b = b\<lparr>exponent := - (t mod 4) - 3, bits := DECNEG\<rparr>;
     (a, ignr) \<leftarrow> decAddOp mem a a b (aset\<lparr>ctx_digits := 16, ctx_round := DEC_ROUND_HALF_EVEN\<rparr>) 0 ignr;
     Some (a, b, ignr)
   }"

text \<open>Newton's iteration, with the precision \<open>pp\<close> doubled up to \<open>p\<close>.\<close>

partial_function (option) lnLoop ::
  "(nat \<Rightarrow> bool) \<Rightarrow> decNumber \<Rightarrow> int \<Rightarrow> int \<Rightarrow> decContext \<Rightarrow> decContext \<Rightarrow> int \<Rightarrow> decNumber \<Rightarrow> decNumber \<Rightarrow> uInt \<Rightarrow> uInt \<Rightarrow>
     (decNumber \<times> uInt) option" where
  "lnLoop mem rhs setdigits p aset bset pp a b ignr st =
     (let aset = aset\<lparr>ctx_digits := pp\<rparr>; bset = bset\<lparr>ctx_digits := pp + digits rhs\<rparr> in
      Option.bind (setSmall localZero 1) (\<lambda>numone.
      Option.bind (decExpOp mem b (a\<lparr>bits := bits a XOR DECNEG\<rparr>) bset ignr) (\<lambda>(b, ignr).
      Option.bind (decMultiplyOp mem b b rhs bset ignr) (\<lambda>(b, ignr).
      Option.bind (decAddOp mem b b numone bset DECNEG ignr) (\<lambda>(b, ignr).
        let small = (decNumberIsZero b \<or> digits a + exponent a \<ge> digits b + exponent b + setdigits + 1) in
        if small \<and> digits a = p then Some (a, st)
        else if small \<and> decNumberIsZero a then
          Option.bind (decCompareOp mem localZero rhs numone aset COMPARE ignr) (\<lambda>(cmp, ignr).
          Option.bind (peek (lsu cmp) 0) (\<lambda>u.
            Some (if u = 0 then (a\<lparr>exponent := 0\<rparr>, st) else (a, st OR (DEC_Inexact OR DEC_Rounded)))))
        else
          (let b = (if small \<and> decNumberIsZero b then b\<lparr>exponent := exponent a - p\<rparr> else b) in
           Option.bind (decAddOp mem a a b aset 0 ignr) (\<lambda>(a, ignr).
             lnLoop mem rhs setdigits p aset bset (if pp = p then pp else min (pp * 2) p) a b ignr st)))))))"

definition lnNumber :: "(nat \<Rightarrow> bool) \<Rightarrow> decNumber \<Rightarrow> decNumber \<Rightarrow> decContext \<Rightarrow> uInt \<Rightarrow> (decNumber \<times> uInt) option" where
  "lnNumber mem res rhs ctx st =
     (let p = max (digits rhs) (max (ctx_digits ctx) 7) + 2 in
      case (getBuffer mem 48 (max p 16), getBuffer mem 74 (max (p + digits rhs) 16)) of
        (Some a, Some b) \<Rightarrow> do {
          (a, b, ignr) \<leftarrow> lnEstimate mem rhs (decimal64 ctx) a b;
          let aset = (decimal64 ctx)\<lparr>emax := emax ctx, emin := emin ctx, clamp := 0\<rparr>;
          let bset = aset\<lparr>emax := DEC_MAX_MATH * 2, emin := - DEC_MAX_MATH * 2\<rparr>;
          (a, st) \<leftarrow> lnLoop mem rhs (ctx_digits ctx) p aset bset 9 a b ignr st;
          (res, residue, st) \<leftarrow> decCopyFit res a (aset\<lparr>ctx_digits := ctx_digits ctx\<rparr>) (if decNumberIsZero a then 0 else 1) st;
          finishAdd mem res ctx residue st
        }
      | _ \<Rightarrow> Some (res, st OR DEC_Insufficient_storage))"

definition decLnOp :: "(nat \<Rightarrow> bool) \<Rightarrow> decNumber \<Rightarrow> decNumber \<Rightarrow> decContext \<Rightarrow> uInt \<Rightarrow> (decNumber \<times> uInt) option" where
  "decLnOp mem res rhs ctx st =
     (if decNumberIsSpecial rhs then
        (if decNumberIsInfinite rhs then
           (if decNumberIsNegative rhs then Some (res, st OR DEC_Invalid_operation) else do { res \<leftarrow> decNumberCopy res rhs; Some (res, st) })
         else decNaNs res rhs None ctx st)
      else if decNumberIsZero rhs then Some ((decNumberZero res)\<lparr>bits := DECINF OR DECNEG\<rparr>, st)
      else if decNumberIsNegative rhs then Some (res, st OR DEC_Invalid_operation)
      else
        (case lnConstant rhs ctx of
           Some s \<Rightarrow> do {
             (res, aset) \<leftarrow> decNumberFromString mem res s (ctx\<lparr>ctx_round := DEC_ROUND_HALF_EVEN\<rparr>);
             Some (res, st OR (DEC_Inexact OR DEC_Rounded))
           }
         | None \<Rightarrow> lnNumber mem res rhs ctx st))"

definition decNumberLn :: "(nat \<Rightarrow> bool) \<Rightarrow> decNumber \<Rightarrow> decNumber \<Rightarrow> decContext \<Rightarrow> (decNumber \<times> decContext) option" where
  "decNumberLn mem res rhs ctx =
     (let (bad, st) = decCheckMath rhs ctx 0 in addStatus (if bad then Some (res, st) else decLnOp mem res rhs ctx st) ctx)"

text \<open>The exponent of an exact power of ten.\<close>

definition powerOfTen :: "decNumber \<Rightarrow> decContext \<Rightarrow> int option option" where
  "powerOfTen rhs aset =
     (if bits rhs AND (DECNEG OR DECSPECIAL) = 0 \<and> \<not> decNumberIsZero rhs then do {
        (w, residue, copystat) \<leftarrow> decCopyFit (workNumber (36 * D2N 10)) rhs (aset\<lparr>ctx_digits := 1\<rparr>) 0 0;
        u \<leftarrow> peek (lsu w) 0;
        Some (if copystat AND DEC_Inexact = 0 \<and> u = 1 then Some (exponent w) else None)
      }
      else Some None)"

text \<open>The quotient of the logarithms of the number and of ten.\<close>

definition log10Number :: "(nat \<Rightarrow> bool) \<Rightarrow> decNumber \<Rightarrow> decNumber \<Rightarrow> decContext \<Rightarrow> decContext \<Rightarrow> uInt \<Rightarrow> (decNumber \<times> uInt) option" where
  "log10Number mem res rhs ctx aset st =
     (let p = max (digits rhs + 6) (ctx_digits ctx) + 3 in
      case getBuffer mem 38 p of
        None \<Rightarrow> Some (res, st OR DEC_Insufficient_storage)
      | Some a \<Rightarrow> do {
          let aset = aset\<lparr>ctx_digits := p, emax := DEC_MAX_MATH, emin := - DEC_MAX_MATH, clamp := 0\<rparr>;
          (a, st) \<leftarrow> decLnOp mem a rhs aset st;
          if st AND DEC_NaNs \<noteq> 0 \<and> st AND DEC_sNaN = 0 then Some (res, st)
          else if bits a AND DECSPECIAL \<noteq> 0 \<or> decNumberIsZero a then do { res \<leftarrow> decNumberCopy res a; Some (res, st) }
          else
            (case getBuffer mem 38 (ctx_digits ctx + 3) of
               None \<Rightarrow> Some (res, st OR DEC_Insufficient_storage)
             | Some b \<Rightarrow> do {
                 w \<leftarrow> setSmall (workNumber (36 * D2N 10)) 10;
                 (b, ignr) \<leftarrow> decLnOp mem b (w\<lparr>digits := 2\<rparr>) (aset\<lparr>ctx_digits := ctx_digits ctx + 3\<rparr>) 0;
                 decDivideOp mem res a b (aset\<lparr>ctx_digits := ctx_digits ctx\<rparr>) DIVIDE st
               })
        })"

definition decNumberLog10 :: "(nat \<Rightarrow> bool) \<Rightarrow> decNumber \<Rightarrow> decNumber \<Rightarrow> decContext \<Rightarrow> (decNumber \<times> decContext) option" where
  "decNumberLog10 mem res rhs ctx =
     (let (bad, st) = decCheckMath rhs ctx 0 in
      addStatus
        (if bad then Some (res, st)
         else do {
           e \<leftarrow> powerOfTen rhs (decimal64 ctx);
           (case e of
              Some e \<Rightarrow> do {
                w \<leftarrow> decNumberFromInt32 (workNumber (36 * D2N 10)) e;
                (res, residue, st) \<leftarrow> decCopyFit res w ctx 0 st;
                finishAdd mem res ctx residue st
              }
            | None \<Rightarrow> log10Number mem res rhs ctx (decimal64 ctx) st)
         }) ctx)"

section \<open>Powers\<close>

text \<open>A power with an infinite exponent.\<close>

definition powerInfinite ::
  "(nat \<Rightarrow> bool) \<Rightarrow> decNumber \<Rightarrow> decNumber \<Rightarrow> decNumber \<Rightarrow> decContext \<Rightarrow> (decNumber \<times> uInt \<times> decContext) option" where
  "powerInfinite mem res lhs rhs ctx =
     (if decNumberIsNegative lhs \<and> \<not> decNumberIsZero lhs then Some (res, DEC_Invalid_operation, ctx)
      else do {
        dnOne \<leftarrow> setSmall localZero 1;
        (dac, ctx) \<leftarrow> decNumberCompare mem (workNumber (36 * D2N 45)) lhs dnOne ctx;
        u \<leftarrow> peek (lsu dac) 0;
        let res = decNumberZero res;
        let infinite = res\<lparr>bits := bits res OR DECINF\<rparr>;
        if decNumberIsNegative dac then Some (if bits rhs AND DECNEG \<noteq> 0 then infinite else res, 0, ctx)
        else if u = 0 then do { (res, st) \<leftarrow> paddedOne res ctx 0; Some (res, st, ctx) }
        else Some (if bits rhs AND DECNEG = 0 then infinite else res, 0, ctx)
      })"

text \<open>A power that is not computed with integers: through the logarithm.\<close>

definition powerReal ::
  "(nat \<Rightarrow> bool) \<Rightarrow> decNumber \<Rightarrow> decNumber \<Rightarrow> decNumber \<Rightarrow> decContext \<Rightarrow> decContext \<Rightarrow> bool \<Rightarrow> decNumber \<Rightarrow> (decNumber \<times> uInt) option" where
  "powerReal mem res lhs rhs ctx aset rhsint dac = do {
     (dac, st) \<leftarrow> decLnOp mem dac lhs aset 0;
     (dac, st) \<leftarrow>
       (if decNumberIsZero dac then do {
          us \<leftarrow> poke (lsu dac) 0 1;
          if \<not> rhsint then do {
            (d, us) \<leftarrow> dnShiftToMost us 1 (ctx_digits ctx - 1);
            Some (dac\<lparr>lsu := us, digits := d, exponent := - (ctx_digits ctx - 1)\<rparr>, st OR (DEC_Inexact OR DEC_Rounded))
          } else Some (dac\<lparr>lsu := us\<rparr>, st)
        }
        else do {
          (dac, st) \<leftarrow> decMultiplyOp mem dac dac rhs aset st;
          decExpOp mem dac dac aset st
        });
     (res, residue, st) \<leftarrow> decCopyFit res dac ctx 0 st;
     finishAdd mem res ctx residue st
   }"

text \<open>A power with an integer exponent of magnitude \<open>n\<close>; \<open>b\<close> has the sign of the result.\<close>

definition powerInt ::
  "(nat \<Rightarrow> bool) \<Rightarrow> decNumber \<Rightarrow> decNumber \<Rightarrow> decNumber \<Rightarrow> decContext \<Rightarrow> decContext \<Rightarrow> uByte \<Rightarrow> int \<Rightarrow> decNumber \<Rightarrow> (decNumber \<times> uInt) option" where
  "powerInt mem res lhs rhs ctx aset b n dac = do {
     dac \<leftarrow> setSmall dac 1;
     (x, dac, st) \<leftarrow>
       (if decNumberIsNegative rhs then do {
          dnOne \<leftarrow> decNumberCopy localZero dac;
          (dac, st) \<leftarrow> decDivideOp mem dac dnOne lhs aset DIVIDE 0;
          (case getBuffer mem 45 (ctx_digits aset) of
             None \<Rightarrow> Some (None, dac, st OR DEC_Insufficient_storage)
           | Some invbuff \<Rightarrow> do {
               invbuff \<leftarrow> decNumberCopy invbuff dac;
               dac \<leftarrow> decNumberCopy dac dnOne;
               Some (Some invbuff, dac, st)
             })
        }
        else Some (Some lhs, dac, 0));
     (case x of
        None \<Rightarrow> Some (res, st)
      | Some x \<Rightarrow> do {
          (dac, st) \<leftarrow> powerLoop mem aset x 31 (of_int n) False dac st;
          if st AND (DEC_Overflow OR DEC_Underflow) \<noteq> 0 then do {
            (dac, st) \<leftarrow> finishAdd mem (dac\<lparr>bits := (bits dac AND NOT DECNEG) OR b\<rparr>) ctx 0 st;
            res \<leftarrow> decNumberCopy res dac;
            Some (res, st)
          }
          else do {
            (res, residue, st) \<leftarrow> decCopyFit res dac ctx 0 st;
            finishAdd mem res ctx residue st
          }
        })
   }"

definition powerFinite ::
  "(nat \<Rightarrow> bool) \<Rightarrow> decNumber \<Rightarrow> decNumber \<Rightarrow> decNumber \<Rightarrow> decContext \<Rightarrow> uByte \<Rightarrow> int \<Rightarrow> (decNumber \<times> uInt) option" where
  "powerFinite mem res lhs rhs ctx b n =
     (if n = BADINT \<or> n = BIGEVEN \<or> n = BIGODD then
        (if decNumberIsNegative lhs then Some (res, DEC_Invalid_operation)
         else
           (let (bad, st) = decCheckMath lhs ctx 0; (bad', st') = decCheckMath rhs ctx st in
            if bad then Some (res, st)
            else if bad' then Some (res, st')
            else
              (let aset = (decimal64 ctx)\<lparr>emax := DEC_MAX_MATH, emin := - DEC_MAX_MATH, clamp := 0,
                     ctx_digits := max (digits lhs) (ctx_digits ctx) + 6 + 4\<rparr>
               in case getBuffer mem 45 (ctx_digits aset) of
                    None \<Rightarrow> Some (res, DEC_Insufficient_storage)
                  | Some dac \<Rightarrow> powerReal mem res lhs rhs ctx aset (n \<noteq> BADINT) dac)))
      else if n = 0 then do { res \<leftarrow> setSmall res 1; Some (res, 0) }
      else
        (let aset = ctx\<lparr>ctx_round := DEC_ROUND_HALF_EVEN, ctx_digits := ctx_digits ctx + (digits rhs + exponent rhs) + 2\<rparr> in
         if ctx_digits aset > DEC_MAX_DIGITS then Some (res, DEC_Invalid_operation)
         else
           (case getBuffer mem 45 (ctx_digits aset) of
              None \<Rightarrow> Some (res, DEC_Insufficient_storage)
            | Some dac \<Rightarrow> powerInt mem res lhs rhs ctx aset b \<bar>n\<bar> dac)))"

definition decNumberPower ::
  "(nat \<Rightarrow> bool) \<Rightarrow> decNumber \<Rightarrow> decNumber \<Rightarrow> decNumber \<Rightarrow> decContext \<Rightarrow> (decNumber \<times> decContext) option" where
  "decNumberPower mem res lhs rhs ctx = do {
     (res, st, ctx) \<leftarrow>
       (if decNumberIsNaN lhs \<or> decNumberIsNaN rhs then do { (res, st) \<leftarrow> decNaNs res lhs (Some rhs) ctx 0; Some (res, st, ctx) }
        else if decNumberIsInfinite rhs then powerInfinite mem res lhs rhs ctx
        else do {
          n \<leftarrow> decGetInt rhs;
          let b = (if decNumberIsNegative lhs \<and> n \<noteq> BADINT \<and> odd n then DECNEG else 0);
          if decNumberIsInfinite lhs then
            (if n = 0 then do { res \<leftarrow> setSmall res 1; Some (res, 0, ctx) }
             else if n = BADINT \<and> decNumberIsNegative lhs then Some (decNumberZero res, DEC_Invalid_operation, ctx)
             else Some ((decNumberZero res)\<lparr>bits := (if bits rhs AND DECNEG = 0 then b OR DECINF else b)\<rparr>, 0, ctx))
          else if decNumberIsZero lhs then
            (if n = 0 then Some (res, DEC_Invalid_operation, ctx)
             else Some ((decNumberZero res)\<lparr>bits := (if bits rhs AND DECNEG \<noteq> 0 then b OR DECINF else b)\<rparr>, 0, ctx))
          else do { (res, st) \<leftarrow> powerFinite mem res lhs rhs ctx b n; Some (res, st, ctx) }
        });
     Some (applyStatus res st ctx)
   }"

section \<open>Square root\<close>

text \<open>Newton's iteration for the root \<open>a\<close> of \<open>f\<close>, with the precision doubled up to \<open>maxp\<close>; \<open>t\<close> is one half.\<close>

partial_function (option) sqrtLoop ::
  "(nat \<Rightarrow> bool) \<Rightarrow> int \<Rightarrow> decNumber \<Rightarrow> decNumber \<Rightarrow> decContext \<Rightarrow> decNumber \<Rightarrow> decNumber \<Rightarrow> uInt \<Rightarrow> (decNumber \<times> decNumber \<times> decContext \<times> uInt) option" where
  "sqrtLoop mem maxp f t workset a b ignr =
     (if ctx_digits workset < maxp then
        (let workset = workset\<lparr>ctx_digits := min (ctx_digits workset * 2 - 2) maxp\<rparr> in
         Option.bind (decDivideOp mem b f a workset DIVIDE ignr) (\<lambda>(b, ignr).
         Option.bind (decAddOp mem b b a workset 0 ignr) (\<lambda>(b, ignr).
         Option.bind (decMultiplyOp mem a b t workset ignr) (\<lambda>(a, ignr). sqrtLoop mem maxp f t workset a b ignr))))
      else Some (a, b, workset, ignr))"

text \<open>The first approximation \<open>0.819 * f + 0.259\<close> or, for odd exponents, \<open>2.59 * f + 0.0819\<close>; the fraction, the exponent and the approximation.\<close>

definition sqrtStart ::
  "(nat \<Rightarrow> bool) \<Rightarrow> decNumber \<Rightarrow> decNumber \<Rightarrow> decNumber \<Rightarrow> decContext \<Rightarrow> (decNumber \<times> int \<times> decNumber \<times> uInt) option" where
  "sqrtStart mem f a rhs workset = do {
     f \<leftarrow> decNumberCopy f rhs;
     let e = exponent f + digits f;
     let f = f\<lparr>exponent := - digits f\<rparr>;
     let (f, e, t, tu, aexp, au) =
       (if even e then (f, e, - 3, 259, - 3, 819) else (f\<lparr>exponent := exponent f - 1\<rparr>, e + 1, - 4, 819, - 2, 259));
     tus \<leftarrow> poke (lsu (workNumber (36 * D2N 3))) 0 tu;
     aus \<leftarrow> poke (lsu a) 0 au;
     let tn = (workNumber (36 * D2N 3))\<lparr>bits := 0, digits := 3, exponent := t, lsu := tus\<rparr>;
     let a = a\<lparr>bits := 0, digits := 3, exponent := aexp, lsu := aus\<rparr>;
     (a, ignr) \<leftarrow> decMultiplyOp mem a a f workset 0;
     (a, ignr) \<leftarrow> decAddOp mem a a tn workset 0 ignr;
     Some (f, e, a, ignr)
   }"

text \<open>The correction of the approximation \<open>a\<close> by one unit in the last place; \<open>t\<close> is one half.\<close>

definition sqrtAdjust ::
  "(nat \<Rightarrow> bool) \<Rightarrow> decNumber \<Rightarrow> decNumber \<Rightarrow> int \<Rightarrow> decContext \<Rightarrow> decContext \<Rightarrow> decNumber \<Rightarrow> decNumber \<Rightarrow> uInt \<Rightarrow>
     (decNumber \<times> decNumber \<times> decContext) option" where
  "sqrtAdjust mem f t e workset approxset a b ignr = do {
     let t = t\<lparr>exponent := - digits a - 1\<rparr>;
     us \<leftarrow> poke (lsu t) 0 1;
     let ulp = t\<lparr>exponent := exponent t + 1, lsu := us\<rparr>;
     let approxset' = approxset\<lparr>emin := emin approxset - e div 2, emax := emax approxset - e div 2\<rparr>;
     (b, ignr) \<leftarrow> decAddOp mem b a t workset DECNEG ignr;
     let workset = workset\<lparr>ctx_round := DEC_ROUND_UP\<rparr>;
     (b, ignr) \<leftarrow> decMultiplyOp mem b b b workset ignr;
     (b, ignr) \<leftarrow> decCompareOp mem b f b workset COMPARE ignr;
     if decNumberIsNegative b then do {
       (a, ignr) \<leftarrow> decAddOp mem a a ulp workset DECNEG ignr;
       (a, ignr) \<leftarrow> decAddOp mem a (decNumberZero localZero) a approxset' 0 ignr;
       Some (a, b, workset)
     }
     else do {
       (b, ignr) \<leftarrow> decAddOp mem b a t workset 0 ignr;
       let workset = workset\<lparr>ctx_round := DEC_ROUND_DOWN\<rparr>;
       (b, ignr) \<leftarrow> decMultiplyOp mem b b b workset ignr;
       (b, ignr) \<leftarrow> decCompareOp mem b b f workset COMPARE ignr;
       if decNumberIsNegative b then do {
         (a, ignr) \<leftarrow> decAddOp mem a a ulp workset 0 ignr;
         (a, ignr) \<leftarrow> decAddOp mem a (decNumberZero localZero) a approxset' 0 ignr;
         Some (a, b, workset)
       }
       else Some (a, b, workset)
     }
   }"

text \<open>Whether the root is exact; then trailing zeros are dropped towards the ideal exponent.\<close>

definition sqrtExact ::
  "(nat \<Rightarrow> bool) \<Rightarrow> decNumber \<Rightarrow> decContext \<Rightarrow> decContext \<Rightarrow> int \<Rightarrow> int \<Rightarrow> decNumber \<Rightarrow> decNumber \<Rightarrow> uInt \<Rightarrow> (decNumber \<times> uInt) option" where
  "sqrtExact mem rhs ctx workset workp ideal a b st = do {
     b \<leftarrow> decNumberCopy b a;
     (b, dropped) \<leftarrow> decTrim b ctx True True;
     let inexact = st OR (DEC_Inexact OR DEC_Rounded);
     if digits b * 2 - 1 > workp then Some (a, inexact)
     else do {
       (b, mstatus) \<leftarrow> decMultiplyOp mem b b b workset 0;
       if mstatus AND DEC_Overflow \<noteq> 0 then Some (a, inexact)
       else do {
         (t, mstatus) \<leftarrow> decCompareOp mem (workNumber (36 * D2N 3)) b rhs workset COMPARE mstatus;
         if \<not> decNumberIsZero t then Some (a, inexact)
         else do {
           let todrop = ideal - exponent a;
           if todrop < 0 then Some (a, st OR DEC_Rounded)
           else do {
             let maxdrop = emax ctx - ctx_digits ctx + 1 - exponent a;
             let (todrop, st) = (if todrop > maxdrop \<and> clamp ctx \<noteq> 0 then (maxdrop, st OR DEC_Clamped) else (todrop, st));
             let (todrop, st) = (if dropped < todrop then (dropped, st OR DEC_Clamped) else (todrop, st));
             if todrop > 0 then do {
               (n, us) \<leftarrow> decShiftToLeast (lsu a) (D2U (digits a)) todrop;
               Some (a\<lparr>lsu := us, exponent := exponent a + todrop, digits := digits a - todrop\<rparr>, st)
             }
             else Some (a, st)
           }
         }
       }
     }
   }"

definition sqrtUnderflow :: "decNumber \<Rightarrow> decContext \<Rightarrow> uInt \<Rightarrow> uInt" where
  "sqrtUnderflow rhs ctx st =
     (if st AND DEC_Underflow \<noteq> 0 then
        (let st = (if exponent rhs + digits rhs - 1 \<ge> emin ctx * 2 then st AND NOT (DEC_Subnormal OR DEC_Underflow) else st)
         in if st AND DEC_Inexact = 0 then st AND NOT DEC_Underflow else st)
      else st)"

definition sqrtNumber :: "(nat \<Rightarrow> bool) \<Rightarrow> decNumber \<Rightarrow> decNumber \<Rightarrow> decContext \<Rightarrow> int \<Rightarrow> (decNumber \<times> uInt) option" where
  "sqrtNumber mem res rhs ctx ideal =
     (let workp = max (max (ctx_digits ctx + 1) (digits rhs)) 7; maxp = workp + 2 in
      case (getBuffer mem 37 (digits rhs), getBuffer mem 38 maxp) of
        (Some f, Some a) \<Rightarrow> do {
          let workset = (decimal64 ctx)\<lparr>emax := DEC_MAX_EMAX, emin := DEC_MIN_EMIN\<rparr>;
          (f, e, a0, ignr) \<leftarrow> sqrtStart mem f a rhs (workset\<lparr>ctx_digits := workp\<rparr>);
          t \<leftarrow> setSmall (workNumber (36 * D2N 3)) 5;
          let t = t\<lparr>exponent := - 1\<rparr>;
          (a, b, workset, ignr) \<leftarrow> sqrtLoop mem maxp f t (workset\<lparr>ctx_digits := 3\<rparr>) a0 a ignr;
          let approxset = ctx\<lparr>ctx_round := DEC_ROUND_HALF_EVEN\<rparr>;
          let a = a\<lparr>exponent := exponent a + e div 2\<rparr>;
          (a, residue, rstatus) \<leftarrow> decSetCoeff a approxset None (digits a) 0 0;
          (a, rstatus) \<leftarrow> finishAdd mem a approxset residue rstatus;
          if rstatus AND DEC_Overflow \<noteq> 0 then do { res \<leftarrow> decNumberCopy res a; Some (res, rstatus) }
          else do {
            let st = rstatus AND NOT (DEC_Rounded OR DEC_Inexact);
            (a, b, workset) \<leftarrow> sqrtAdjust mem f t e (workset\<lparr>ctx_digits := ctx_digits workset - 1\<rparr>) approxset
              (a\<lparr>exponent := exponent a - e div 2\<rparr>) b ignr;
            (a, st) \<leftarrow> sqrtExact mem rhs ctx workset workp ideal (a\<lparr>exponent := exponent a + e div 2\<rparr>) b st;
            res \<leftarrow> decNumberCopy res a;
            Some (res, sqrtUnderflow rhs ctx st)
          }
        }
      | _ \<Rightarrow> Some (res, DEC_Insufficient_storage))"

definition decNumberSquareRoot :: "(nat \<Rightarrow> bool) \<Rightarrow> decNumber \<Rightarrow> decNumber \<Rightarrow> decContext \<Rightarrow> (decNumber \<times> decContext) option" where
  "decNumberSquareRoot mem res rhs ctx =
     (let ideal = (exponent rhs - exponent rhs mod 2) div 2 in
      addStatus
        (if decNumberIsSpecial rhs then
           (if decNumberIsInfinite rhs then
              (if decNumberIsNegative rhs then Some (res, DEC_Invalid_operation) else do { res \<leftarrow> decNumberCopy res rhs; Some (res, 0) })
            else decNaNs res rhs None ctx 0)
         else if decNumberIsZero rhs then do {
           res \<leftarrow> decNumberCopy res rhs;
           finishAdd mem (res\<lparr>exponent := ideal\<rparr>) ctx 0 0
         }
         else if decNumberIsNegative rhs then Some (res, DEC_Invalid_operation)
         else sqrtNumber mem res rhs ctx ideal) ctx)"

section \<open>Neighbours and magnitudes\<close>

definition decNumberNextToward ::
  "(nat \<Rightarrow> bool) \<Rightarrow> decNumber \<Rightarrow> decNumber \<Rightarrow> decNumber \<Rightarrow> decContext \<Rightarrow> (decNumber \<times> decContext) option" where
  "decNumberNextToward mem res lhs rhs ctx =
     (if decNumberIsNaN lhs \<or> decNumberIsNaN rhs then addStatus (decNaNs res lhs (Some rhs) ctx 0) ctx
      else do {
        result \<leftarrow> decCompare mem lhs rhs False;
        (case result of
           None \<Rightarrow> Some (decStatus res DEC_Insufficient_storage ctx)
         | Some result \<Rightarrow>
             if result = 0 then do { res \<leftarrow> decNumberCopySign res lhs rhs; Some (res, ctx) }
             else if result < 0 \<and> bits lhs AND (DECINF OR DECNEG) = DECINF OR DECNEG then do {
               res \<leftarrow> decSetMaxValue res ctx;
               Some (res\<lparr>bits := DECNEG\<rparr>, ctx)
             }
             else if result > 0 \<and> bits lhs AND (DECINF OR DECNEG) = DECINF then do { res \<leftarrow> decSetMaxValue res ctx; Some (res, ctx) }
             else do {
               dtiny \<leftarrow> setSmall localZero 1;
               (res, st) \<leftarrow> decAddOp mem res lhs (dtiny\<lparr>exponent := DEC_MIN_EMIN - 1\<rparr>)
                 (ctx\<lparr>ctx_round := (if result < 0 then DEC_ROUND_CEILING else DEC_ROUND_FLOOR)\<rparr>) (if result < 0 then 0 else DECNEG) 0;
               Some (applyStatus res (if decNumberIsNormal res ctx then 0 else st) ctx)
             })
      })"

text \<open>An operand without its sign, in a buffer when it is negative; \<open>None\<close> when there is no memory for it.\<close>

definition magnitudeOf :: "(nat \<Rightarrow> bool) \<Rightarrow> decNumber \<Rightarrow> decNumber option option" where
  "magnitudeOf mem dn =
     (if decNumberIsNegative dn then
        (case getBuffer mem 37 (digits dn) of
           None \<Rightarrow> Some None
         | Some a \<Rightarrow> do { a \<leftarrow> decNumberCopy a dn; Some (Some (a\<lparr>bits := bits a AND NOT DECNEG\<rparr>)) })
      else Some (Some dn))"

definition decNumberCompareTotalMag ::
  "(nat \<Rightarrow> bool) \<Rightarrow> decNumber \<Rightarrow> decNumber \<Rightarrow> decNumber \<Rightarrow> decContext \<Rightarrow> (decNumber \<times> decContext) option" where
  "decNumberCompareTotalMag mem res lhs rhs ctx =
     addStatus (do {
       l \<leftarrow> magnitudeOf mem lhs;
       (case l of
          None \<Rightarrow> Some (res, DEC_Insufficient_storage)
        | Some l \<Rightarrow> do {
            r \<leftarrow> magnitudeOf mem rhs;
            (case r of None \<Rightarrow> Some (res, DEC_Insufficient_storage) | Some r \<Rightarrow> decCompareOp mem res l r ctx COMPTOTAL 0)
          })
     }) ctx"

end
