(* ===== verification/SqlFuncs.thy ===== *)
theory SqlFuncs
  imports SqlContext Printing DnMath
begin

text \<open>
  The SQL functions (\<^verbatim>\<open>impl_decinfinite.c\<close>, \<^verbatim>\<open>decimal.c\<close>): decoding the arguments, calling the decNumber operation, reporting trapped
  conditions as errors, encoding the result; the aggregate functions; the handling of NULL; and the registration with SQLite.  A function
  takes the shared context and returns it with the result; \<open>None\<close> is an access outside memory.
\<close>

section \<open>Environment\<close>

text \<open>What a call finds: for which sizes memory can be allocated, and the indeterminate contents of local variables and new memory.\<close>

record env =
  env_mem :: "nat \<Rightarrow> bool"
  env_num :: decNumber
  env_ctx :: decContext
  env_bytes :: "uByte list"
  env_chars :: string
  env_bcd :: "uByte list"

definition env_ok :: "env \<Rightarrow> bool" where
  "env_ok env \<longleftrightarrow> length (lsu (env_num env)) = DECNUMUNITS \<and> length (env_bytes env) = DECINF_MAXSIZE"

section \<open>Arguments and results\<close>

text \<open>\<^verbatim>\<open>sqlite3_value_int\<close> gives the low 32 bits of an integer.\<close>

definition value_int32 :: "int \<Rightarrow> int" where
  "value_int32 n = sint (of_int n :: 32 word)"

definition decNumberFromSQLite3Text :: "env \<Rightarrow> string \<Rightarrow> decContext \<Rightarrow> (decNumber \<times> decContext) option" where
  "decNumberFromSQLite3Text env s ctx = decNumberFromString (env_mem env) (env_num env) s ctx"

definition decNumberFromSQLite3Blob :: "env \<Rightarrow> uByte list \<Rightarrow> decContext \<Rightarrow> (decNumber \<times> decContext) option" where
  "decNumberFromSQLite3Blob env bytes ctx = do {
     (ok, dn) \<leftarrow> decInfiniteToNumber bytes (env_num env);
     Some (dn, if ok then ctx else decContextSetStatusQuiet ctx DEC_Conversion_syntax)
   }"

definition decNumberFromSQLite3Integer :: "env \<Rightarrow> int \<Rightarrow> decNumber option" where
  "decNumberFromSQLite3Integer env n = decNumberFromInt32 (env_num env) (value_int32 n)"

definition decNumberToSQLite3Blob :: "env \<Rightarrow> decNumber \<Rightarrow> sql_result option" where
  "decNumberToSQLite3Blob env dn =
     (if env_mem env DECINF_MAXSIZE then do {
        (n, bytes, dn) \<leftarrow> decInfiniteFromNumber (env_bytes env) dn;
        Some (result_blob (take n bytes))
      } else Some result_error_nomem)"

text \<open>\<open>None\<close> when there is no error, the error otherwise.\<close>

definition checkStatus :: "decContext \<Rightarrow> uInt \<Rightarrow> decContext \<times> sql_result option" where
  "checkStatus ctx msk =
     (if decContextTestStatus ctx msk then
        (decContextClearStatus ctx msk, Some (result_error (decContextStatusToString (decContextClearStatus ctx (NOT msk)))))
      else (ctx, None))"

definition decode :: "env \<Rightarrow> decContext \<Rightarrow> sqlite3_value \<Rightarrow> (decContext \<times> (sql_result + decNumber)) option" where
  "decode env ctx v = do {
     r \<leftarrow> (case v of
         SQLITE_BLOB bytes \<Rightarrow> map_option Some (decNumberFromSQLite3Blob env bytes ctx)
       | SQLITE_TEXT s \<Rightarrow> map_option Some (decNumberFromSQLite3Text env s ctx)
       | SQLITE_INTEGER n \<Rightarrow> do { dn \<leftarrow> decNumberFromSQLite3Integer env n; Some (Some (dn, ctx)) }
       | _ \<Rightarrow> Some None);
     Some (case r of
         None \<Rightarrow> (ctx, Inl (result_error ''Cannot create decimal from the given type''))
       | Some (dn, ctx) \<Rightarrow>
           (let (ctx, e) = checkStatus ctx (traps ctx) in (ctx, case e of Some err \<Rightarrow> Inl err | None \<Rightarrow> Inr dn)))
   }"

type_synonym call = "(decContext \<times> sql_result) option"

text \<open>An error in an argument ends the call with it.\<close>

definition with_arg :: "env \<Rightarrow> decContext \<Rightarrow> sqlite3_value \<Rightarrow> (decContext \<Rightarrow> decNumber \<Rightarrow> call) \<Rightarrow> call" where
  "with_arg env ctx v k = do {
     (ctx, r) \<leftarrow> decode env ctx v;
     (case r of Inl e \<Rightarrow> Some (ctx, e) | Inr dn \<Rightarrow> k ctx dn)
   }"

definition blob_result :: "env \<Rightarrow> decContext \<Rightarrow> decNumber \<Rightarrow> call" where
  "blob_result env ctx dn = do { r \<leftarrow> decNumberToSQLite3Blob env dn; Some (ctx, r) }"

text \<open>The result of an operation is encoded unless a condition it raised is trapped.\<close>

definition checked_result :: "env \<Rightarrow> decContext \<Rightarrow> decNumber \<Rightarrow> call" where
  "checked_result env ctx dn =
     (case checkStatus ctx (traps ctx) of (ctx, Some e) \<Rightarrow> Some (ctx, e) | (ctx, None) \<Rightarrow> blob_result env ctx dn)"

section \<open>Functions without arguments\<close>

definition decimalClearStatus :: "decContext \<Rightarrow> decContext" where
  "decimalClearStatus ctx = decContextZeroStatus ctx"

definition hexByte :: "uByte \<Rightarrow> string" where
  "hexByte b = [hex_digits ! unat (drop_bit 4 b), hex_digits ! unat (b AND 0x0F)]"

text \<open>\<^verbatim>\<open>sqlite3_mprintf("%08x", status)\<close>\<close>

definition decimalStatus :: "decContext \<Rightarrow> decContext \<times> sql_result" where
  "decimalStatus ctx =
     (let st = decContextGetStatus ctx in
      (ctx, result_text (concat (map (\<lambda>i. hexByte (ucast (drop_bit (8 * i) st))) [3, 2, 1, 0]))))"

definition SQLITE_DECIMAL_VERSION :: string where
  "SQLITE_DECIMAL_VERSION = ''Decimal v0.0.1''"

definition decNumberVersion :: string where
  "decNumberVersion = ''decNumber 3.68''"

definition decimalVersion :: "decContext \<Rightarrow> decContext \<times> sql_result" where
  "decimalVersion ctx = (ctx, result_text (SQLITE_DECIMAL_VERSION @ '' ('' @ decNumberVersion @ '')''))"

section \<open>Operations on decimals\<close>

definition decimalCreate :: "env \<Rightarrow> decContext \<Rightarrow> sqlite3_value \<Rightarrow> call" where
  "decimalCreate env ctx v = with_arg env ctx v (blob_result env)"

type_synonym unary = "(nat \<Rightarrow> bool) \<Rightarrow> decNumber \<Rightarrow> decNumber \<Rightarrow> decContext \<Rightarrow> (decNumber \<times> decContext) option"
type_synonym binary = "(nat \<Rightarrow> bool) \<Rightarrow> decNumber \<Rightarrow> decNumber \<Rightarrow> decNumber \<Rightarrow> decContext \<Rightarrow> (decNumber \<times> decContext) option"

definition decimalOp1 :: "unary \<Rightarrow> env \<Rightarrow> decContext \<Rightarrow> sqlite3_value \<Rightarrow> call" where
  "decimalOp1 f env ctx v = with_arg env ctx v (\<lambda>ctx dn. do {
     (res, ctx) \<leftarrow> f (env_mem env) (env_num env) dn ctx;
     checked_result env ctx res
   })"

definition decimalOp2 :: "binary \<Rightarrow> env \<Rightarrow> decContext \<Rightarrow> sqlite3_value \<Rightarrow> sqlite3_value \<Rightarrow> call" where
  "decimalOp2 f env ctx v1 v2 = with_arg env ctx v1 (\<lambda>ctx d1. with_arg env ctx v2 (\<lambda>ctx d2. do {
     (res, ctx) \<leftarrow> f (env_mem env) (env_num env) d1 d2 ctx;
     checked_result env ctx res
   }))"

definition decimalAbs :: "env \<Rightarrow> decContext \<Rightarrow> sqlite3_value \<Rightarrow> call" where
  "decimalAbs = decimalOp1 decNumberAbs"

definition decimalExp :: "env \<Rightarrow> decContext \<Rightarrow> sqlite3_value \<Rightarrow> call" where
  "decimalExp = decimalOp1 decNumberExp"

definition decimalNextDown :: "env \<Rightarrow> decContext \<Rightarrow> sqlite3_value \<Rightarrow> call" where
  "decimalNextDown = decimalOp1 decNumberNextMinus"

definition decimalNextUp :: "env \<Rightarrow> decContext \<Rightarrow> sqlite3_value \<Rightarrow> call" where
  "decimalNextUp = decimalOp1 decNumberNextPlus"

definition decimalInvert :: "env \<Rightarrow> decContext \<Rightarrow> sqlite3_value \<Rightarrow> call" where
  "decimalInvert = decimalOp1 (\<lambda>mem. decNumberInvert)"

definition decimalLn :: "env \<Rightarrow> decContext \<Rightarrow> sqlite3_value \<Rightarrow> call" where
  "decimalLn = decimalOp1 decNumberLn"

definition decimalLog10 :: "env \<Rightarrow> decContext \<Rightarrow> sqlite3_value \<Rightarrow> call" where
  "decimalLog10 = decimalOp1 decNumberLog10"

definition decimalLogB :: "env \<Rightarrow> decContext \<Rightarrow> sqlite3_value \<Rightarrow> call" where
  "decimalLogB = decimalOp1 decNumberLogB"

definition decimalMinus :: "env \<Rightarrow> decContext \<Rightarrow> sqlite3_value \<Rightarrow> call" where
  "decimalMinus = decimalOp1 decNumberMinus"

definition decimalPlus :: "env \<Rightarrow> decContext \<Rightarrow> sqlite3_value \<Rightarrow> call" where
  "decimalPlus = decimalOp1 decNumberPlus"

definition decimalReduce :: "env \<Rightarrow> decContext \<Rightarrow> sqlite3_value \<Rightarrow> call" where
  "decimalReduce = decimalOp1 decNumberReduce"

definition decimalSqrt :: "env \<Rightarrow> decContext \<Rightarrow> sqlite3_value \<Rightarrow> call" where
  "decimalSqrt = decimalOp1 decNumberSquareRoot"

definition decimalToIntegral :: "env \<Rightarrow> decContext \<Rightarrow> sqlite3_value \<Rightarrow> call" where
  "decimalToIntegral = decimalOp1 decNumberToIntegralValue"

definition decimalAnd :: "env \<Rightarrow> decContext \<Rightarrow> sqlite3_value \<Rightarrow> sqlite3_value \<Rightarrow> call" where
  "decimalAnd = decimalOp2 (\<lambda>mem. decNumberAnd)"

definition decimalDivide :: "env \<Rightarrow> decContext \<Rightarrow> sqlite3_value \<Rightarrow> sqlite3_value \<Rightarrow> call" where
  "decimalDivide = decimalOp2 decNumberDivide"

definition decimalDivideInteger :: "env \<Rightarrow> decContext \<Rightarrow> sqlite3_value \<Rightarrow> sqlite3_value \<Rightarrow> call" where
  "decimalDivideInteger = decimalOp2 decNumberDivideInteger"

definition decimalOr :: "env \<Rightarrow> decContext \<Rightarrow> sqlite3_value \<Rightarrow> sqlite3_value \<Rightarrow> call" where
  "decimalOr = decimalOp2 (\<lambda>mem. decNumberOr)"

definition decimalPower :: "env \<Rightarrow> decContext \<Rightarrow> sqlite3_value \<Rightarrow> sqlite3_value \<Rightarrow> call" where
  "decimalPower = decimalOp2 decNumberPower"

definition decimalQuantize :: "env \<Rightarrow> decContext \<Rightarrow> sqlite3_value \<Rightarrow> sqlite3_value \<Rightarrow> call" where
  "decimalQuantize = decimalOp2 decNumberQuantize"

definition decimalRemainder :: "env \<Rightarrow> decContext \<Rightarrow> sqlite3_value \<Rightarrow> sqlite3_value \<Rightarrow> call" where
  "decimalRemainder = decimalOp2 decNumberRemainder"

definition decimalRotate :: "env \<Rightarrow> decContext \<Rightarrow> sqlite3_value \<Rightarrow> sqlite3_value \<Rightarrow> call" where
  "decimalRotate = decimalOp2 (\<lambda>mem. decNumberRotate)"

definition decimalScaleB :: "env \<Rightarrow> decContext \<Rightarrow> sqlite3_value \<Rightarrow> sqlite3_value \<Rightarrow> call" where
  "decimalScaleB = decimalOp2 decNumberScaleB"

definition decimalShift :: "env \<Rightarrow> decContext \<Rightarrow> sqlite3_value \<Rightarrow> sqlite3_value \<Rightarrow> call" where
  "decimalShift = decimalOp2 (\<lambda>mem. decNumberShift)"

definition decimalSubtract :: "env \<Rightarrow> decContext \<Rightarrow> sqlite3_value \<Rightarrow> sqlite3_value \<Rightarrow> call" where
  "decimalSubtract = decimalOp2 decNumberSubtract"

definition decimalXor :: "env \<Rightarrow> decContext \<Rightarrow> sqlite3_value \<Rightarrow> sqlite3_value \<Rightarrow> call" where
  "decimalXor = decimalOp2 (\<lambda>mem. decNumberXor)"

section \<open>Texts and integers\<close>

definition decimalBytes :: "env \<Rightarrow> decContext \<Rightarrow> sqlite3_value \<Rightarrow> call" where
  "decimalBytes env ctx v =
     (case v of
        SQLITE_BLOB bytes \<Rightarrow>
          if \<not> env_mem env (3 * DECINF_MAXSIZE) then Some (ctx, result_error_nomem)
          else if length bytes > DECINF_MAXSIZE then Some (ctx, result_error ''Encoding too long'')
          else do {
            r \<leftarrow> decInfiniteToBytes bytes (take (3 * DECINF_MAXSIZE) (env_chars env));
            Some (ctx, case r of Null \<Rightarrow> result_text (c_string (env_chars env)) | Ret hexes \<Rightarrow> result_text (c_string hexes))
          }
      | _ \<Rightarrow> Some (ctx, result_error ''Currently, only blob arguments are accepted''))"

definition decimalBits :: "env \<Rightarrow> decContext \<Rightarrow> sqlite3_value \<Rightarrow> call" where
  "decimalBits env ctx v =
     (case v of
        SQLITE_BLOB bytes \<Rightarrow>
          if \<not> env_mem env (9 * DECINF_MAXSIZE + 1) then Some (ctx, result_error_nomem)
          else if length bytes > DECINF_MAXSIZE then Some (ctx, result_error ''Encoding too long'')
          else do {
            r \<leftarrow> decInfiniteToBits bytes (9 * DECINF_MAXSIZE + 1);
            Some (ctx, case r of Null \<Rightarrow> result_text (c_string (env_chars env)) | Ret s \<Rightarrow> result_text s)
          }
      | _ \<Rightarrow> Some (ctx, result_error ''Currently, only blob arguments are accepted''))"

text \<open>\<^verbatim>\<open>sprintf("%01d")\<close> of a byte.\<close>

definition byteDigits :: "uByte \<Rightarrow> string" where
  "byteDigits b =
     (let n = unat b; d = (\<lambda>k. ''0123456789'' ! k) in
      if n < 10 then [d n] else if n < 100 then [d (n div 10), d (n mod 10)] else [d (n div 100), d (n div 10 mod 10), d (n mod 10)])"

fun bcdText :: "nat \<Rightarrow> uByte list \<Rightarrow> string \<Rightarrow> string option" where
  "bcdText i [] chars = Some chars"
| "bcdText i (b # bs) chars = do { chars \<leftarrow> poke_list chars i (byteDigits b @ [NUL]); bcdText (i + 1) bs chars }"

text \<open>The digits printed are those of an array that is never set: the indeterminate bytes \<open>env_bcd\<close>.\<close>

definition decimalGetCoefficient :: "env \<Rightarrow> decContext \<Rightarrow> sqlite3_value \<Rightarrow> call" where
  "decimalGetCoefficient env ctx v = with_arg env ctx v (\<lambda>ctx dn. do {
     chars \<leftarrow> bcdText 0 (env_bcd env) (replicate (DECNUMDIGITS + 1) NUL);
     chars \<leftarrow> poke chars DECNUMDIGITS NUL;
     Some (ctx, result_text (c_string chars))
   })"

definition decimalToString :: "env \<Rightarrow> decContext \<Rightarrow> sqlite3_value \<Rightarrow> call" where
  "decimalToString env ctx v = with_arg env ctx v (\<lambda>ctx dn. do {
     dn \<leftarrow> decNumberTrim (env_ctx env) dn;
     s \<leftarrow> decNumberToString dn;
     if length s + 1 > DECNUMDIGITS + 14 then None else Some (ctx, result_text s)
   })"

definition decimalClass :: "env \<Rightarrow> decContext \<Rightarrow> sqlite3_value \<Rightarrow> call" where
  "decimalClass env ctx v = with_arg env ctx v (\<lambda>ctx dn.
     Some (ctx, result_text (decNumberClassToString (decNumberClass dn ctx))))"

definition decNumberIsNeg :: "decNumber \<Rightarrow> bool" where
  "decNumberIsNeg d \<longleftrightarrow> decNumberIsNegative d \<and> \<not> decNumberIsZero d \<and> \<not> decNumberIsNaN d"

definition decNumberIsPos :: "decNumber \<Rightarrow> bool" where
  "decNumberIsPos d \<longleftrightarrow> \<not> decNumberIsNegative d \<and> \<not> decNumberIsZero d \<and> \<not> decNumberIsNaN d"

definition decimalInt1 :: "(decNumber \<Rightarrow> decContext \<Rightarrow> bool) \<Rightarrow> env \<Rightarrow> decContext \<Rightarrow> sqlite3_value \<Rightarrow> call" where
  "decimalInt1 f env ctx v = with_arg env ctx v (\<lambda>ctx dn. Some (ctx, result_int (of_bool (f dn ctx))))"

definition decimalIsCanonical :: "env \<Rightarrow> decContext \<Rightarrow> sqlite3_value \<Rightarrow> call" where
  "decimalIsCanonical = decimalInt1 (\<lambda>dn ctx. True)"

definition decimalIsFinite :: "env \<Rightarrow> decContext \<Rightarrow> sqlite3_value \<Rightarrow> call" where
  "decimalIsFinite = decimalInt1 (\<lambda>dn ctx. decNumberIsFinite dn)"

definition decimalIsInfinite :: "env \<Rightarrow> decContext \<Rightarrow> sqlite3_value \<Rightarrow> call" where
  "decimalIsInfinite = decimalInt1 (\<lambda>dn ctx. decNumberIsInfinite dn)"

definition decimalIsNaN :: "env \<Rightarrow> decContext \<Rightarrow> sqlite3_value \<Rightarrow> call" where
  "decimalIsNaN = decimalInt1 (\<lambda>dn ctx. decNumberIsNaN dn)"

definition decimalIsNegative :: "env \<Rightarrow> decContext \<Rightarrow> sqlite3_value \<Rightarrow> call" where
  "decimalIsNegative = decimalInt1 (\<lambda>dn ctx. decNumberIsNeg dn)"

definition decimalIsPositive :: "env \<Rightarrow> decContext \<Rightarrow> sqlite3_value \<Rightarrow> call" where
  "decimalIsPositive = decimalInt1 (\<lambda>dn ctx. decNumberIsPos dn)"

definition decimalIsZero :: "env \<Rightarrow> decContext \<Rightarrow> sqlite3_value \<Rightarrow> call" where
  "decimalIsZero = decimalInt1 (\<lambda>dn ctx. decNumberIsZero dn)"

definition decimalIsNormal :: "env \<Rightarrow> decContext \<Rightarrow> sqlite3_value \<Rightarrow> call" where
  "decimalIsNormal = decimalInt1 decNumberIsNormal"

definition decimalIsSubnormal :: "env \<Rightarrow> decContext \<Rightarrow> sqlite3_value \<Rightarrow> call" where
  "decimalIsSubnormal = decimalInt1 decNumberIsSubnormal"

definition decimalToInt32 :: "env \<Rightarrow> decContext \<Rightarrow> sqlite3_value \<Rightarrow> call" where
  "decimalToInt32 env ctx v = with_arg env ctx v (\<lambda>ctx dn. do {
     dn \<leftarrow> decNumberTrim (env_ctx env) dn;
     (i, ctx) \<leftarrow> decNumberToInt32 dn ctx;
     Some (case checkStatus ctx (traps ctx) of (ctx, Some e) \<Rightarrow> (ctx, e) | (ctx, None) \<Rightarrow> (ctx, result_int i))
   })"

text \<open>The comparison does not look at the status it leaves.\<close>

definition decimalCompare :: "env \<Rightarrow> decContext \<Rightarrow> sqlite3_value \<Rightarrow> sqlite3_value \<Rightarrow> call" where
  "decimalCompare env ctx v1 v2 = with_arg env ctx v1 (\<lambda>ctx x. with_arg env ctx v2 (\<lambda>ctx y. do {
     (res, ctx) \<leftarrow> decNumberCompare (env_mem env) (env_num env) x y ctx;
     blob_result env ctx res
   }))"

definition decimalSameQuantum :: "env \<Rightarrow> decContext \<Rightarrow> sqlite3_value \<Rightarrow> sqlite3_value \<Rightarrow> call" where
  "decimalSameQuantum env ctx v1 v2 = with_arg env ctx v1 (\<lambda>ctx x. with_arg env ctx v2 (\<lambda>ctx y. do {
     (i, ctx) \<leftarrow> decNumberToUInt32 (decNumberSameQuantum (env_num env) x y) ctx;
     Some (ctx, result_int (sint i))
   }))"

definition decimalFMA :: "env \<Rightarrow> decContext \<Rightarrow> sqlite3_value \<Rightarrow> sqlite3_value \<Rightarrow> sqlite3_value \<Rightarrow> call" where
  "decimalFMA env ctx v1 v2 v3 =
     with_arg env ctx v1 (\<lambda>ctx x. with_arg env ctx v2 (\<lambda>ctx y. with_arg env ctx v3 (\<lambda>ctx z. do {
       (res, ctx) \<leftarrow> decNumberFMA (env_mem env) (env_num env) x y z ctx;
       checked_result env ctx res
     })))"

section \<open>Functions of any number of arguments\<close>

text \<open>The loop over the arguments after the first: the operation's result replaces its left operand.\<close>

fun decimalFold :: "binary \<Rightarrow> env \<Rightarrow> decContext \<Rightarrow> decNumber \<Rightarrow> sqlite3_value list \<Rightarrow> (decContext \<times> (sql_result + decNumber)) option" where
  "decimalFold f env ctx res [] = Some (ctx, Inr res)"
| "decimalFold f env ctx res (v # vs) = do {
     (ctx, r) \<leftarrow> decode env ctx v;
     (case r of
        Inl e \<Rightarrow> Some (ctx, Inl e)
      | Inr dn \<Rightarrow> do { (res, ctx) \<leftarrow> f (env_mem env) res res dn ctx; decimalFold f env ctx res vs })
   }"

definition decimalOpn ::
  "binary \<Rightarrow> (env \<Rightarrow> decContext \<Rightarrow> (decNumber \<times> decContext) option) \<Rightarrow> env \<Rightarrow> decContext \<Rightarrow> sqlite3_value list \<Rightarrow> call" where
  "decimalOpn f defaultValue env ctx argv =
     (case argv of
        [] \<Rightarrow> do { (res, ctx) \<leftarrow> defaultValue env ctx; blob_result env ctx res }
      | v # vs \<Rightarrow> with_arg env ctx v (\<lambda>ctx res. do {
          (ctx, r) \<leftarrow> decimalFold f env ctx res vs;
          (case r of Inl e \<Rightarrow> Some (ctx, e) | Inr res \<Rightarrow> checked_result env ctx res)
        }))"

definition decimalAddDefault :: "env \<Rightarrow> decContext \<Rightarrow> (decNumber \<times> decContext) option" where
  "decimalAddDefault env ctx = Some (decNumberZero (env_num env), ctx)"

text \<open>Only the flags of the number are set; its digits stay indeterminate.\<close>

definition decimalMaxDefault :: "env \<Rightarrow> decContext \<Rightarrow> (decNumber \<times> decContext) option" where
  "decimalMaxDefault env ctx = Some ((env_num env)\<lparr>bits := DECINF\<rparr>, ctx)"

definition decimalMinDefault :: "env \<Rightarrow> decContext \<Rightarrow> (decNumber \<times> decContext) option" where
  "decimalMinDefault env ctx = Some ((env_num env)\<lparr>bits := DECNEG OR DECINF\<rparr>, ctx)"

definition decimalMultiplyDefault :: "env \<Rightarrow> decContext \<Rightarrow> (decNumber \<times> decContext) option" where
  "decimalMultiplyDefault env ctx = decNumberFromString (env_mem env) (env_num env) ''1'' ctx"

definition decimalAdd :: "env \<Rightarrow> decContext \<Rightarrow> sqlite3_value list \<Rightarrow> call" where
  "decimalAdd = decimalOpn decNumberAdd decimalAddDefault"

definition decimalMax :: "env \<Rightarrow> decContext \<Rightarrow> sqlite3_value list \<Rightarrow> call" where
  "decimalMax = decimalOpn decNumberMax decimalMaxDefault"

definition decimalMaxMag :: "env \<Rightarrow> decContext \<Rightarrow> sqlite3_value list \<Rightarrow> call" where
  "decimalMaxMag = decimalOpn decNumberMaxMag decimalMaxDefault"

definition decimalMin :: "env \<Rightarrow> decContext \<Rightarrow> sqlite3_value list \<Rightarrow> call" where
  "decimalMin = decimalOpn decNumberMin decimalMinDefault"

definition decimalMinMag :: "env \<Rightarrow> decContext \<Rightarrow> sqlite3_value list \<Rightarrow> call" where
  "decimalMinMag = decimalOpn decNumberMinMag decimalAddDefault"

definition decimalMultiply :: "env \<Rightarrow> decContext \<Rightarrow> sqlite3_value list \<Rightarrow> call" where
  "decimalMultiply = decimalOpn decNumberMultiply decimalMultiplyDefault"

section \<open>Aggregates\<close>

record AggregateData =
  agg_value :: decNumber
  agg_count :: uInt

text \<open>
  The state of an aggregate, \<open>None\<close> when SQLite has no memory for it; a new one is zero.  A step returns the error it sets,
  if any.
\<close>

definition aggregateStep ::
  "binary \<Rightarrow> env \<Rightarrow> decContext \<Rightarrow> AggregateData option \<Rightarrow> sqlite3_value \<Rightarrow> (decContext \<times> AggregateData option \<times> sql_result option) option" where
  "aggregateStep f env ctx data v =
     (case data of
        None \<Rightarrow> Some (ctx, None, None)
      | Some data \<Rightarrow> do {
          (ctx, r) \<leftarrow> decode env ctx v;
          (case r of
             Inl e \<Rightarrow> Some (ctx, Some data, Some e)
           | Inr dn \<Rightarrow>
               if agg_count data = 0 then Some (ctx, Some (data\<lparr>agg_value := dn, agg_count := agg_count data + 1\<rparr>), None)
               else do {
                 (res, ctx) \<leftarrow> f (env_mem env) (agg_value data) (agg_value data) dn ctx;
                 Some (ctx, Some (data\<lparr>agg_value := res, agg_count := agg_count data + 1\<rparr>), None)
               })
        })"

definition aggregateFinal ::
  "(env \<Rightarrow> decContext \<Rightarrow> (decNumber \<times> decContext) option) \<Rightarrow> (env \<Rightarrow> AggregateData \<Rightarrow> decContext \<Rightarrow> (decNumber \<times> decContext) option) \<Rightarrow>
    env \<Rightarrow> decContext \<Rightarrow> AggregateData option \<Rightarrow> (decContext \<times> sql_result option) option" where
  "aggregateFinal defaultValue finalize env ctx data =
     (case data of
        None \<Rightarrow> Some (ctx, None)
      | Some data \<Rightarrow> do {
          (v, ctx) \<leftarrow> (if agg_count data = 0 then defaultValue env ctx else Some (agg_value data, ctx));
          (v, ctx) \<leftarrow> finalize env (data\<lparr>agg_value := v\<rparr>) ctx;
          (ctx, r) \<leftarrow> checked_result env ctx v;
          Some (ctx, Some r)
        })"

definition aggrNoOp :: "env \<Rightarrow> AggregateData \<Rightarrow> decContext \<Rightarrow> (decNumber \<times> decContext) option" where
  "aggrNoOp env data ctx = Some (agg_value data, ctx)"

definition avgAggrFinOp :: "env \<Rightarrow> AggregateData \<Rightarrow> decContext \<Rightarrow> (decNumber \<times> decContext) option" where
  "avgAggrFinOp env data ctx = do {
     n \<leftarrow> decNumberFromUInt32 (env_num env) (agg_count data);
     decNumberDivide (env_mem env) (agg_value data) (agg_value data) n ctx
   }"

definition avgAggrDefault :: "env \<Rightarrow> decContext \<Rightarrow> (decNumber \<times> decContext) option" where
  "avgAggrDefault env ctx = decNumberFromString (env_mem env) (env_num env) ''NaN'' ctx"

definition decimalSumStep :: "env \<Rightarrow> decContext \<Rightarrow> AggregateData option \<Rightarrow> sqlite3_value \<Rightarrow> (decContext \<times> AggregateData option \<times> sql_result option) option" where
  "decimalSumStep = aggregateStep decNumberAdd"

definition decimalMinStep :: "env \<Rightarrow> decContext \<Rightarrow> AggregateData option \<Rightarrow> sqlite3_value \<Rightarrow> (decContext \<times> AggregateData option \<times> sql_result option) option" where
  "decimalMinStep = aggregateStep decNumberMin"

definition decimalMaxStep :: "env \<Rightarrow> decContext \<Rightarrow> AggregateData option \<Rightarrow> sqlite3_value \<Rightarrow> (decContext \<times> AggregateData option \<times> sql_result option) option" where
  "decimalMaxStep = aggregateStep decNumberMax"

definition decimalAvgStep :: "env \<Rightarrow> decContext \<Rightarrow> AggregateData option \<Rightarrow> sqlite3_value \<Rightarrow> (decContext \<times> AggregateData option \<times> sql_result option) option" where
  "decimalAvgStep = aggregateStep decNumberAdd"

definition decimalSumFinal :: "env \<Rightarrow> decContext \<Rightarrow> AggregateData option \<Rightarrow> (decContext \<times> sql_result option) option" where
  "decimalSumFinal = aggregateFinal decimalAddDefault aggrNoOp"

definition decimalMaxFinal :: "env \<Rightarrow> decContext \<Rightarrow> AggregateData option \<Rightarrow> (decContext \<times> sql_result option) option" where
  "decimalMaxFinal = aggregateFinal decimalMaxDefault aggrNoOp"

definition decimalMinFinal :: "env \<Rightarrow> decContext \<Rightarrow> AggregateData option \<Rightarrow> (decContext \<times> sql_result option) option" where
  "decimalMinFinal = aggregateFinal decimalMinDefault aggrNoOp"

definition decimalAvgFinal :: "env \<Rightarrow> decContext \<Rightarrow> AggregateData option \<Rightarrow> (decContext \<times> sql_result option) option" where
  "decimalAvgFinal = aggregateFinal avgAggrDefault avgAggrFinOp"

section \<open>NULL\<close>

definition decimalNotImpl :: "decContext \<Rightarrow> call" where
  "decimalNotImpl ctx = Some (ctx, result_error ''Operation not implemented'')"

text \<open>The functions that are registered: a NULL argument makes the result NULL.  A missing argument would be read outside \<^verbatim>\<open>argv\<close>.\<close>

definition func0 :: "(decContext \<Rightarrow> decContext \<times> sql_result) \<Rightarrow> decContext \<Rightarrow> sqlite3_value list \<Rightarrow> call" where
  "func0 f ctx argv = Some (f ctx)"

definition func1 :: "(decContext \<Rightarrow> sqlite3_value \<Rightarrow> call) \<Rightarrow> decContext \<Rightarrow> sqlite3_value list \<Rightarrow> call" where
  "func1 f ctx argv = do {
     a \<leftarrow> peek argv 0;
     if is_null a then Some (ctx, result_null) else f ctx a
   }"

definition func2 :: "(decContext \<Rightarrow> sqlite3_value \<Rightarrow> sqlite3_value \<Rightarrow> call) \<Rightarrow> decContext \<Rightarrow> sqlite3_value list \<Rightarrow> call" where
  "func2 f ctx argv = do {
     a \<leftarrow> peek argv 0;
     if is_null a then Some (ctx, result_null)
     else do {
       b \<leftarrow> peek argv 1;
       if is_null b then Some (ctx, result_null) else f ctx a b
     }
   }"

definition decimalFMAFunc ::
  "(decContext \<Rightarrow> sqlite3_value \<Rightarrow> sqlite3_value \<Rightarrow> sqlite3_value \<Rightarrow> call) \<Rightarrow> decContext \<Rightarrow> sqlite3_value list \<Rightarrow> call" where
  "decimalFMAFunc f ctx argv =
     (if list_ex is_null argv then Some (ctx, result_null)
      else do { a \<leftarrow> peek argv 0; b \<leftarrow> peek argv 1; c \<leftarrow> peek argv 2; f ctx a b c })"

definition funcn :: "(decContext \<Rightarrow> sqlite3_value list \<Rightarrow> call) \<Rightarrow> decContext \<Rightarrow> sqlite3_value list \<Rightarrow> call" where
  "funcn f ctx argv = (if list_ex is_null argv then Some (ctx, result_null) else f ctx argv)"

text \<open>A step with NULL leaves the state alone; the result it sets is replaced by that of the last step.\<close>

definition stepFunc ::
  "(decContext \<Rightarrow> AggregateData option \<Rightarrow> sqlite3_value \<Rightarrow> (decContext \<times> AggregateData option \<times> sql_result option) option) \<Rightarrow>
    decContext \<Rightarrow> AggregateData option \<Rightarrow> sqlite3_value list \<Rightarrow> (decContext \<times> AggregateData option \<times> sql_result option) option" where
  "stepFunc f ctx data argv = do {
     a \<leftarrow> peek argv 0;
     if is_null a then Some (ctx, data, Some result_null) else f ctx data a
   }"

section \<open>Registration\<close>

definition SQLITE_DECIMAL_PREFIX :: string where "SQLITE_DECIMAL_PREFIX = ''dec''"

text \<open>The functions by the names of their C wrappers.\<close>

definition aFunc :: "(string \<times> int \<times> string) list" where
  "aFunc = [
     (SQLITE_DECIMAL_PREFIX @ [], 1, ''decimalCreateFunc''),
     (SQLITE_DECIMAL_PREFIX @ ''Abs'', 1, ''decimalAbsFunc''),
     (SQLITE_DECIMAL_PREFIX @ ''Add'', - 1, ''decimalAddFunc''),
     (SQLITE_DECIMAL_PREFIX @ ''And'', 2, ''decimalAndFunc''),
     (SQLITE_DECIMAL_PREFIX @ ''Bits'', 1, ''decimalBitsFunc''),
     (SQLITE_DECIMAL_PREFIX @ ''Bytes'', 1, ''decimalBytesFunc''),
     (SQLITE_DECIMAL_PREFIX @ ''Class'', 1, ''decimalClassFunc''),
     (SQLITE_DECIMAL_PREFIX @ ''ClearStatus'', 0, ''decimalClearStatusFunc''),
     (SQLITE_DECIMAL_PREFIX @ ''Compare'', 2, ''decimalCompareFunc''),
     (SQLITE_DECIMAL_PREFIX @ ''Digits'', 1, ''decimalDigitsFunc''),
     (SQLITE_DECIMAL_PREFIX @ ''Div'', 2, ''decimalDivideFunc''),
     (SQLITE_DECIMAL_PREFIX @ ''DivInt'', 2, ''decimalDivideIntegerFunc''),
     (SQLITE_DECIMAL_PREFIX @ ''Eq'', 2, ''decimalEqualFunc''),
     (SQLITE_DECIMAL_PREFIX @ ''Exp'', 1, ''decimalExpFunc''),
     (SQLITE_DECIMAL_PREFIX @ ''FMA'', 3, ''decimalFMAFunc''),
     (SQLITE_DECIMAL_PREFIX @ ''Ge'', 2, ''decimalGreaterThanOrEqualFunc''),
     (SQLITE_DECIMAL_PREFIX @ ''GetCoeff'', 1, ''decimalGetCoefficientFunc''),
     (SQLITE_DECIMAL_PREFIX @ ''GetExp'', 1, ''decimalGetExponentFunc''),
     (SQLITE_DECIMAL_PREFIX @ ''Greatest'', - 1, ''decimalMaxFunc''),
     (SQLITE_DECIMAL_PREFIX @ ''Gt'', 2, ''decimalGreaterThanFunc''),
     (SQLITE_DECIMAL_PREFIX @ ''Invert'', 1, ''decimalInvertFunc''),
     (SQLITE_DECIMAL_PREFIX @ ''IsCanonical'', 1, ''decimalIsCanonicalFunc''),
     (SQLITE_DECIMAL_PREFIX @ ''IsFinite'', 1, ''decimalIsFiniteFunc''),
     (SQLITE_DECIMAL_PREFIX @ ''IsInf'', 1, ''decimalIsInfiniteFunc''),
     (SQLITE_DECIMAL_PREFIX @ ''IsInfinite'', 1, ''decimalIsInfiniteFunc''),
     (SQLITE_DECIMAL_PREFIX @ ''IsInt'', 1, ''decimalIsIntegerFunc''),
     (SQLITE_DECIMAL_PREFIX @ ''IsInteger'', 1, ''decimalIsIntegerFunc''),
     (SQLITE_DECIMAL_PREFIX @ ''IsLogical'', 1, ''decimalIsLogicalFunc''),
     (SQLITE_DECIMAL_PREFIX @ ''IsNaN'', 1, ''decimalIsNaNFunc''),
     (SQLITE_DECIMAL_PREFIX @ ''IsNeg'', 1, ''decimalIsNegativeFunc''),
     (SQLITE_DECIMAL_PREFIX @ ''IsNegative'', 1, ''decimalIsNegativeFunc''),
     (SQLITE_DECIMAL_PREFIX @ ''IsNormal'', 1, ''decimalIsNormalFunc''),
     (SQLITE_DECIMAL_PREFIX @ ''IsPos'', 1, ''decimalIsPositiveFunc''),
     (SQLITE_DECIMAL_PREFIX @ ''IsPositive'', 1, ''decimalIsPositiveFunc''),
     (SQLITE_DECIMAL_PREFIX @ ''IsSigned'', 1, ''decimalIsSignedFunc''),
     (SQLITE_DECIMAL_PREFIX @ ''IsSubnormal'', 1, ''decimalIsSubnormalFunc''),
     (SQLITE_DECIMAL_PREFIX @ ''IsZero'', 1, ''decimalIsZeroFunc''),
     (SQLITE_DECIMAL_PREFIX @ ''Le'', 2, ''decimalLessThanOrEqualFunc''),
     (SQLITE_DECIMAL_PREFIX @ ''Least'', - 1, ''decimalMinFunc''),
     (SQLITE_DECIMAL_PREFIX @ ''Log10'', 1, ''decimalLog10Func''),
     (SQLITE_DECIMAL_PREFIX @ ''LogB'', 1, ''decimalLogBFunc''),
     (SQLITE_DECIMAL_PREFIX @ ''Ln'', 1, ''decimalLnFunc''),
     (SQLITE_DECIMAL_PREFIX @ ''Lt'', 2, ''decimalLessThanFunc''),
     (SQLITE_DECIMAL_PREFIX @ ''MaxMag'', - 1, ''decimalMaxMagFunc''),
     (SQLITE_DECIMAL_PREFIX @ ''MinMag'', - 1, ''decimalMinMagFunc''),
     (SQLITE_DECIMAL_PREFIX @ ''Neg'', 1, ''decimalMinusFunc''),
     (SQLITE_DECIMAL_PREFIX @ ''Mul'', - 1, ''decimalMultiplyFunc''),
     (SQLITE_DECIMAL_PREFIX @ ''Ne'', 2, ''decimalNotEqualFunc''),
     (SQLITE_DECIMAL_PREFIX @ ''NextDown'', 1, ''decimalNextDownFunc''),
     (SQLITE_DECIMAL_PREFIX @ ''NextUp'', 1, ''decimalNextUpFunc''),
     (SQLITE_DECIMAL_PREFIX @ ''Or'', 2, ''decimalOrFunc''),
     (SQLITE_DECIMAL_PREFIX @ ''Pow'', 2, ''decimalPowerFunc''),
     (SQLITE_DECIMAL_PREFIX @ ''Plus'', 1, ''decimalPlusFunc''),
     (SQLITE_DECIMAL_PREFIX @ ''Quantize'', 2, ''decimalQuantizeFunc''),
     (SQLITE_DECIMAL_PREFIX @ ''Reduce'', 1, ''decimalReduceFunc''),
     (SQLITE_DECIMAL_PREFIX @ ''Remainder'', 2, ''decimalRemainderFunc''),
     (SQLITE_DECIMAL_PREFIX @ ''Rotate'', 2, ''decimalRotateFunc''),
     (SQLITE_DECIMAL_PREFIX @ ''SameQuantum'', 2, ''decimalSameQuantumFunc''),
     (SQLITE_DECIMAL_PREFIX @ ''ScaleB'', 2, ''decimalScaleBFunc''),
     (SQLITE_DECIMAL_PREFIX @ ''Shift'', 2, ''decimalShiftFunc''),
     (SQLITE_DECIMAL_PREFIX @ ''Status'', 0, ''decimalStatusFunc''),
     (SQLITE_DECIMAL_PREFIX @ ''Str'', 1, ''decimalToStringFunc''),
     (SQLITE_DECIMAL_PREFIX @ ''Sqrt'', 1, ''decimalSqrtFunc''),
     (SQLITE_DECIMAL_PREFIX @ ''Sub'', 2, ''decimalSubtractFunc''),
     (SQLITE_DECIMAL_PREFIX @ ''ToInt32'', 1, ''decimalToInt32Func''),
     (SQLITE_DECIMAL_PREFIX @ ''ToInt64'', 1, ''decimalToInt64Func''),
     (SQLITE_DECIMAL_PREFIX @ ''ToIntegral'', 1, ''decimalToIntegralFunc''),
     (SQLITE_DECIMAL_PREFIX @ ''Trim'', 1, ''decimalTrimFunc''),
     (SQLITE_DECIMAL_PREFIX @ ''Version'', 0, ''decimalVersionFunc''),
     (SQLITE_DECIMAL_PREFIX @ ''Xor'', 2, ''decimalXorFunc'')]"

definition aAgg :: "(string \<times> int \<times> string \<times> string) list" where
  "aAgg = [
     (SQLITE_DECIMAL_PREFIX @ ''Sum'', 1, ''decimalSumStepFunc'', ''decimalSumFinalFunc''),
     (SQLITE_DECIMAL_PREFIX @ ''Min'', 1, ''decimalMinStepFunc'', ''decimalMinFinalFunc''),
     (SQLITE_DECIMAL_PREFIX @ ''Max'', 1, ''decimalMaxStepFunc'', ''decimalMaxFinalFunc''),
     (SQLITE_DECIMAL_PREFIX @ ''Avg'', 1, ''decimalAvgStepFunc'', ''decimalAvgFinalFunc'')]"

text \<open>What is registered with the database, in order, until a registration fails.\<close>

datatype registration =
    create_function string int string
  | create_aggregate string int string string
  | create_module string string

fun registerAll :: "(registration \<Rightarrow> rc) \<Rightarrow> registration list \<Rightarrow> registration list \<times> rc" where
  "registerAll db [] = ([], SQLITE_OK)"
| "registerAll db (r # rs) =
     (let rc = db r in
      if rc = SQLITE_OK then (let (done, rc) = registerAll db rs in (r # done, rc)) else ([], rc))"

definition registrations :: "registration list" where
  "registrations =
     map (\<lambda>(zName, nArg, xFunc). create_function zName nArg xFunc) aFunc @
     map (\<lambda>(zName, nArg, xStep, xFinal). create_aggregate zName nArg xStep xFinal) aAgg @
     [create_module (SQLITE_DECIMAL_PREFIX @ ''Status'') ''decimalStatusModule'',
      create_module (SQLITE_DECIMAL_PREFIX @ ''Traps'') ''decimalTrapsModule'',
      create_module (SQLITE_DECIMAL_PREFIX @ ''Context'') ''decimalContextModule'']"

definition sqlite3_decimal_init :: "decContext alloc \<Rightarrow> (registration \<Rightarrow> rc) \<Rightarrow> (decContext \<times> registration list \<times> rc) option" where
  "sqlite3_decimal_init m db = do { ctx \<leftarrow> decimalInitSystem m; Some (ctx, registerAll db registrations) }"

end
