(* ===== verification/SqlSpec.thy ===== *)
theory SqlSpec
  imports SqlFuncs
begin

text \<open>
  What the SQL functions do to the shared context: conditions are collected in its status, those that are trapped are reported as the
  error of the call that raised them and cleared, and nothing else changes.
\<close>

section \<open>Collecting conditions\<close>

definition grows :: "decContext \<Rightarrow> decContext \<Rightarrow> bool" where
  "grows ctx ctx' \<longleftrightarrow> (\<exists>st. ctx' = ctx\<lparr>status := status ctx OR st\<rparr>)"

lemma grows_refl [simp, intro]: "grows ctx ctx"
  unfolding grows_def by (rule exI [of _ 0]) simp

lemma grows_trans [trans]: "grows a b \<Longrightarrow> grows b c \<Longrightarrow> grows a c"
  by (auto simp: grows_def or.assoc)

lemma grows_status [simp, intro]: "grows ctx (ctx\<lparr>status := status ctx OR st\<rparr>)"
  by (auto simp: grows_def)

lemma applyStatus_grows: "grows ctx (snd (applyStatus dn st ctx))"
  by (auto simp: applyStatus_def decStatus_def decContextSetStatus_def Let_def split: prod.splits if_splits)

lemma decStatus_grows: "grows ctx (snd (decStatus dn st ctx))"
  by (auto simp: decStatus_def decContextSetStatus_def Let_def split: prod.splits if_splits)

lemma addStatus_grows: "addStatus r ctx = Some (dn, ctx') \<Longrightarrow> grows ctx ctx'"
  using applyStatus_grows [of ctx] by (auto simp: addStatus_def bind_eq_Some_conv split: prod.splits) (metis snd_conv)

text \<open>The contract of the operators of decNumber: they may only set bits of the status.\<close>

locale unary_op =
  fixes f :: unary
  assumes op_grows: "f mem num x ctx = Some (r, ctx') \<Longrightarrow> grows ctx ctx'"

locale binary_op =
  fixes f :: binary
  assumes op_grows: "f mem num x y ctx = Some (r, ctx') \<Longrightarrow> grows ctx ctx'"

section \<open>Reporting\<close>

definition settled :: "decContext \<Rightarrow> bool" where
  "settled ctx \<longleftrightarrow> status ctx AND traps ctx = 0"

text \<open>A call: no trapped condition is left, conditions that are not trapped stay, and only the status changes.\<close>

definition served :: "decContext \<Rightarrow> decContext \<Rightarrow> bool" where
  "served ctx ctx' \<longleftrightarrow> ctx' = ctx\<lparr>status := status ctx'\<rparr> \<and> settled ctx' \<and> status ctx AND NOT (traps ctx) AND NOT (status ctx') = 0"

lemma and_not_zero: "a AND NOT b = 0 \<Longrightarrow> b AND NOT c = 0 \<Longrightarrow> a AND NOT c = (0 :: 'a::len word)"
  by (auto simp: bit_eq_iff bit_simps)

lemma served_refl: "settled ctx \<Longrightarrow> served ctx ctx"
  by (simp add: served_def bit_eq_iff bit_simps)

lemma served_trans [trans]: "served a b \<Longrightarrow> served b c \<Longrightarrow> served a c"
proof -
  assume ab: "served a b" and bc: "served b c"
  have t: "traps b = traps a" "traps c = traps b" using ab bc unfolding served_def by (metis decContext.select_convs(5) decContext.surjective decContext.update_convs(6))+
  have "status a AND NOT (traps a) AND NOT (status c) = 0"
    using ab bc unfolding served_def t by (auto simp: bit_eq_iff bit_simps)
  moreover have "c = a\<lparr>status := status c\<rparr>" using ab bc unfolding served_def
    by (metis (no_types, lifting) decContext.surjective decContext.update_convs(6))
  ultimately show ?thesis using bc by (simp add: served_def)
qed

lemma served_settled: "served a b \<Longrightarrow> settled b"
  by (simp add: served_def)

lemma checkStatus_served:
  assumes "settled a" "grows a ctx" "checkStatus ctx (traps ctx) = (ctx', e)"
  shows "served a ctx'"
proof -
  obtain st where ctx: "ctx = a\<lparr>status := status a OR st\<rparr>" using assms(2) by (auto simp: grows_def)
  show ?thesis using assms(1,3) unfolding served_def settled_def ctx
    by (auto simp: checkStatus_def decContextTestStatus_def decContextClearStatus_def bit_eq_iff bit_simps split: if_splits)
qed

section \<open>Arguments and results\<close>

lemma decNumberFromString_grows: "decNumberFromString mem dn s ctx = Some (r, ctx') \<Longrightarrow> grows ctx ctx'"
  using applyStatus_grows [of ctx] by (auto simp: decNumberFromString_def bind_eq_Some_conv split: prod.splits) (metis snd_conv)

text \<open>An argument of a type that has no decimal makes the call end before it looks at the status.\<close>

definition decodable :: "sqlite3_value \<Rightarrow> bool" where
  "decodable v \<longleftrightarrow> v \<noteq> SQLITE_FLOAT \<and> \<not> is_null v"

lemma decode_grown:
  assumes "settled a" "grows a ctx" "decodable v \<or> ctx = a" "decode env ctx v = Some (ctx', r)"
  shows "served a ctx'"
proof -
  have chk: "served a (fst (checkStatus c (traps c)))" if "grows ctx c" for c
    using checkStatus_served [OF assms(1) grows_trans [OF assms(2) that]] by (cases "checkStatus c (traps c)") simp
  have blob: "grows ctx c" if "decNumberFromSQLite3Blob env bytes ctx = Some (dn, c)" for bytes dn c
    using that by (auto simp: decNumberFromSQLite3Blob_def bind_eq_Some_conv decContextSetStatusQuiet_def split: prod.splits if_splits)
  have str: "grows ctx c" if "decNumberFromSQLite3Text env t ctx = Some (dn, c)" for t dn c
    using that decNumberFromString_grows by (auto simp: decNumberFromSQLite3Text_def)
  show ?thesis using assms(4) chk blob str chk [OF grows_refl] assms(1,3) served_refl
    by (cases v) (auto simp: decode_def bind_eq_Some_conv decodable_def Let_def split_beta)
qed

lemmas decode_served = decode_grown [OF _ grows_refl disjI2 [OF refl]]

lemma with_arg_served:
  assumes "settled ctx" "with_arg env ctx v k = Some (ctx', r)"
    and "\<And>c dn. settled c \<Longrightarrow> k c dn = Some (ctx', r) \<Longrightarrow> served c ctx'"
  shows "served ctx ctx'"
proof -
  obtain c d where d: "decode env ctx v = Some (c, d)" "(case d of Inl e \<Rightarrow> Some (c, e) | Inr dn \<Rightarrow> k c dn) = Some (ctx', r)"
    using assms(2) by (auto simp: with_arg_def bind_eq_Some_conv split: prod.splits)
  note c = decode_served [OF assms(1) d(1)]
  show ?thesis
  proof (cases d)
    case (Inl e)
    then show ?thesis using d(2) c by simp
  next
    case (Inr dn)
    then have "served c ctx'" using d(2) assms(3) served_settled [OF c] by simp
    then show ?thesis by (rule served_trans [OF c])
  qed
qed

lemma blob_result_served: "settled ctx \<Longrightarrow> blob_result env ctx dn = Some (ctx', r) \<Longrightarrow> served ctx ctx'"
  by (auto simp: blob_result_def bind_eq_Some_conv intro: served_refl)

lemma checked_result_served:
  assumes "settled a" "grows a ctx" "checked_result env ctx dn = Some (ctx', r)"
  shows "served a ctx'"
proof -
  obtain c e where ce: "checkStatus ctx (traps ctx) = (c, e)" by fastforce
  then have "ctx' = c" using assms(3) by (auto simp: checked_result_def blob_result_def bind_eq_Some_conv split: option.splits)
  then show ?thesis using checkStatus_served [OF assms(1,2) ce] by simp
qed

section \<open>Functions\<close>

context unary_op begin

lemma op1_served:
  assumes "settled ctx" "decimalOp1 f env ctx v = Some (ctx', r)"
  shows "served ctx ctx'"
proof (rule with_arg_served [OF assms(1) assms(2) [unfolded decimalOp1_def]])
  show "served c ctx'" if "settled c" "(do { (res, c) \<leftarrow> f (env_mem env) (env_num env) dn c; checked_result env c res }) = Some (ctx', r)" for c dn
    using that op_grows checked_result_served by (fastforce simp: bind_eq_Some_conv split: prod.splits)
qed

end

context binary_op begin

lemma op2_served:
  assumes "settled ctx" "decimalOp2 f env ctx v w = Some (ctx', r)"
  shows "served ctx ctx'"
proof (rule with_arg_served [OF assms(1) assms(2) [unfolded decimalOp2_def]])
  show "served c ctx'" if "settled c" and
      w: "with_arg env c w (\<lambda>ctx d2. do { (res, ctx) \<leftarrow> f (env_mem env) (env_num env) dn d2 ctx; checked_result env ctx res }) = Some (ctx', r)" for c dn
  proof (rule with_arg_served [OF that(1) w])
    show "served c ctx'" if "settled c"
        "(do { (res, c) \<leftarrow> f (env_mem env) (env_num env) dn d2 c; checked_result env c res }) = Some (ctx', r)" for c d2
      using that op_grows checked_result_served by (fastforce simp: bind_eq_Some_conv split: prod.splits)
  qed
qed

text \<open>What an operation of the chain raises is reported when the next operand is decoded, or at the end.\<close>

lemma fold_served:
  "settled a \<Longrightarrow> grows a ctx \<Longrightarrow> list_all decodable vs \<Longrightarrow> decimalFold f env ctx res vs = Some (ctx', r) \<Longrightarrow>
   (case r of Inl e \<Rightarrow> served a ctx' | Inr res \<Rightarrow> \<exists>c. served a c \<and> grows c ctx')"
proof (induction vs arbitrary: a ctx res)
  case Nil
  then show ?case using served_refl by fastforce
next
  case (Cons v vs)
  obtain c d where d: "decode env ctx v = Some (c, d)"
      "(case d of Inl e \<Rightarrow> Some (c, Inl e) | Inr dn \<Rightarrow> do { (res, c) \<leftarrow> f (env_mem env) res res dn c; decimalFold f env c res vs }) = Some (ctx', r)"
    using Cons.prems(4) by (auto simp: bind_eq_Some_conv split: prod.splits)
  have c: "served a c" using decode_grown [OF Cons.prems(1,2) _ d(1)] Cons.prems(3) by simp
  show ?case
  proof (cases d)
    case (Inl e)
    then show ?thesis using d(2) c by auto
  next
    case (Inr dn)
    then obtain res' c' where f: "f (env_mem env) res res dn c = Some (res', c')" "decimalFold f env c' res' vs = Some (ctx', r)"
      using d(2) by (auto simp: bind_eq_Some_conv split: prod.splits)
    have "case r of Inl e \<Rightarrow> served c ctx' | Inr res \<Rightarrow> \<exists>c''. served c c'' \<and> grows c'' ctx'"
      using Cons.IH [OF served_settled [OF c] op_grows [OF f(1)] _ f(2)] Cons.prems(3) by simp
    then show ?thesis using served_trans [OF c] by (cases r) auto
  qed
qed

lemma opn_served:
  assumes "settled ctx" "argv \<noteq> []" "list_all decodable argv" "decimalOpn f dflt env ctx argv = Some (ctx', r)"
  shows "served ctx ctx'"
proof -
  obtain v vs where argv: "argv = v # vs" using assms(2) by (cases argv) auto
  let ?k = "\<lambda>ctx res. do { (ctx, r) \<leftarrow> decimalFold f env ctx res vs;
      (case r of Inl e \<Rightarrow> Some (ctx, e) | Inr res \<Rightarrow> checked_result env ctx res) }"
  have w: "with_arg env ctx v ?k = Some (ctx', r)" using assms(4) by (simp add: decimalOpn_def argv)
  show ?thesis
  proof (rule with_arg_served [OF assms(1) w])
    fix c res assume c: "settled c" "?k c res = Some (ctx', r)"
    then obtain c1 d where d: "decimalFold f env c res vs = Some (c1, d)"
        "(case d of Inl e \<Rightarrow> Some (c1, e) | Inr res \<Rightarrow> checked_result env c1 res) = Some (ctx', r)"
      by (auto simp: bind_eq_Some_conv split: prod.splits)
    have "case d of Inl e \<Rightarrow> served c c1 | Inr res \<Rightarrow> \<exists>c2. served c c2 \<and> grows c2 c1"
      using fold_served [OF c(1) grows_refl _ d(1)] assms(3) argv by simp
    then show "served c ctx'"
    proof (cases d)
      case (Inr res)
      then obtain c2 where c2: "served c c2" "grows c2 c1" "checked_result env c1 res = Some (ctx', r)"
        using d(2) \<open>case d of Inl e \<Rightarrow> served c c1 | Inr res \<Rightarrow> \<exists>c2. served c c2 \<and> grows c2 c1\<close> by auto
      have "served c2 ctx'" using checked_result_served [OF served_settled [OF c2(1)] c2(2,3)] .
      then show ?thesis by (rule served_trans [OF c2(1)])
    qed (use d(2) in simp)
  qed
qed

end

section \<open>The operators keep the contract\<close>

lemma pair_grows: "(dn, ctx') = applyStatus d st ctx \<Longrightarrow> grows ctx ctx'" "(dn, ctx') = decStatus d st ctx \<Longrightarrow> grows ctx ctx'"
  "applyStatus d st ctx = (dn, ctx') \<Longrightarrow> grows ctx ctx'" "decStatus d st ctx = (dn, ctx') \<Longrightarrow> grows ctx ctx'"
  using applyStatus_grows [of ctx d st] decStatus_grows [of ctx d st] by (metis snd_conv)+

lemmas op_simps = bind_eq_Some_conv Let_def

lemma logicResult_grows: "logicResult res ctx r = Some (d, ctx') \<Longrightarrow> grows ctx ctx'"
  by (auto simp: logicResult_def op_simps pair_grows split: option.splits)

lemma logicOp_grows: "logicOp f res x y ctx = Some (d, ctx') \<Longrightarrow> grows ctx ctx'"
  by (auto simp: logicOp_def op_simps pair_grows logicResult_grows split: if_splits)

interpretation op_abs: unary_op decNumberAbs
  by unfold_locales (auto simp: decNumberAbs_def op_simps split_beta pair_grows addStatus_grows logicResult_grows split: if_splits)

interpretation op_next_minus: unary_op decNumberNextMinus
  by unfold_locales (auto simp: decNumberNextMinus_def op_simps split_beta pair_grows addStatus_grows logicResult_grows split: if_splits)

interpretation op_next_plus: unary_op decNumberNextPlus
  by unfold_locales (auto simp: decNumberNextPlus_def op_simps split_beta pair_grows addStatus_grows logicResult_grows split: if_splits)

interpretation op_invert: unary_op "\<lambda>mem. decNumberInvert"
  by unfold_locales (auto simp: decNumberInvert_def op_simps split_beta pair_grows addStatus_grows logicResult_grows split: if_splits)

interpretation op_minus: unary_op decNumberMinus
  by unfold_locales (auto simp: decNumberMinus_def op_simps split_beta pair_grows addStatus_grows logicResult_grows split: if_splits)

interpretation op_plus: unary_op decNumberPlus
  by unfold_locales (auto simp: decNumberPlus_def op_simps split_beta pair_grows addStatus_grows logicResult_grows split: if_splits)

interpretation op_exp: unary_op decNumberExp
  by unfold_locales (auto simp: decNumberExp_def split_beta addStatus_grows Let_def)

interpretation op_ln: unary_op decNumberLn
  by unfold_locales (auto simp: decNumberLn_def split_beta addStatus_grows Let_def)

interpretation op_log10: unary_op decNumberLog10
  by unfold_locales (unfold decNumberLog10_def, auto simp only: split_beta Let_def dest: addStatus_grows)

interpretation op_sqrt: unary_op decNumberSquareRoot
  by unfold_locales (unfold decNumberSquareRoot_def, auto simp only: Let_def dest: addStatus_grows)

interpretation op_logb: unary_op decNumberLogB
  by unfold_locales (auto simp: decNumberLogB_def op_simps split_beta pair_grows addStatus_grows op_plus.op_grows logicResult_grows split: if_splits)

interpretation op_reduce: unary_op decNumberReduce
  by unfold_locales (auto simp: decNumberReduce_def op_simps split_beta pair_grows addStatus_grows logicResult_grows split: if_splits)

interpretation op_to_integral: unary_op decNumberToIntegralValue
  by unfold_locales (auto simp: decNumberToIntegralValue_def op_simps split_beta pair_grows addStatus_grows logicResult_grows split: if_splits)

interpretation op_and: binary_op "\<lambda>mem. decNumberAnd"
  by unfold_locales (auto simp: decNumberAnd_def op_simps split_beta pair_grows addStatus_grows logicOp_grows split: if_splits)

interpretation op_divide: binary_op decNumberDivide
  by unfold_locales (auto simp: decNumberDivide_def op_simps split_beta pair_grows addStatus_grows split: if_splits)

interpretation op_divide_integer: binary_op decNumberDivideInteger
  by unfold_locales (auto simp: decNumberDivideInteger_def op_simps split_beta pair_grows addStatus_grows split: if_splits)

interpretation op_or: binary_op "\<lambda>mem. decNumberOr"
  by unfold_locales (auto simp: decNumberOr_def op_simps split_beta pair_grows addStatus_grows logicOp_grows split: if_splits)

lemma powerInfinite_grows: "powerInfinite mem res x y ctx = Some (d, st, ctx') \<Longrightarrow> grows ctx ctx'"
  by (auto simp: powerInfinite_def op_simps decNumberCompare_def addStatus_grows split: if_splits)

lemma power_applied: "powerInfinite mem res x y ctx = Some (d, st, c) \<Longrightarrow> applyStatus d st c = (r, ctx') \<Longrightarrow> grows ctx ctx'"
  using powerInfinite_grows pair_grows(3) grows_trans by blast

interpretation op_power: binary_op decNumberPower
  by unfold_locales (auto simp: decNumberPower_def op_simps split: if_splits intro: pair_grows(3) power_applied)

interpretation op_quantize: binary_op decNumberQuantize
  by unfold_locales (auto simp: decNumberQuantize_def op_simps split_beta pair_grows addStatus_grows split: if_splits)

interpretation op_remainder: binary_op decNumberRemainder
  by unfold_locales (auto simp: decNumberRemainder_def op_simps split_beta pair_grows addStatus_grows split: if_splits)

interpretation op_rotate: binary_op "\<lambda>mem. decNumberRotate"
  by unfold_locales (auto simp: decNumberRotate_def op_simps split_beta pair_grows addStatus_grows split: if_splits)

interpretation op_scaleb: binary_op decNumberScaleB
  by unfold_locales (auto simp: decNumberScaleB_def op_simps split_beta pair_grows addStatus_grows split: if_splits)

interpretation op_shift: binary_op "\<lambda>mem. decNumberShift"
  by unfold_locales (auto simp: decNumberShift_def op_simps split_beta pair_grows addStatus_grows split: if_splits)

interpretation op_subtract: binary_op decNumberSubtract
  by unfold_locales (auto simp: decNumberSubtract_def op_simps split_beta pair_grows addStatus_grows split: if_splits)

interpretation op_xor: binary_op "\<lambda>mem. decNumberXor"
  by unfold_locales (auto simp: decNumberXor_def op_simps split_beta pair_grows addStatus_grows logicOp_grows split: if_splits)

interpretation op_add: binary_op decNumberAdd
  by unfold_locales (auto simp: decNumberAdd_def op_simps split_beta pair_grows addStatus_grows split: if_splits)

interpretation op_max: binary_op decNumberMax
  by unfold_locales (auto simp: decNumberMax_def op_simps split_beta pair_grows addStatus_grows split: if_splits)

interpretation op_max_mag: binary_op decNumberMaxMag
  by unfold_locales (auto simp: decNumberMaxMag_def op_simps split_beta pair_grows addStatus_grows split: if_splits)

interpretation op_min: binary_op decNumberMin
  by unfold_locales (auto simp: decNumberMin_def op_simps split_beta pair_grows addStatus_grows split: if_splits)

interpretation op_min_mag: binary_op decNumberMinMag
  by unfold_locales (auto simp: decNumberMinMag_def op_simps split_beta pair_grows addStatus_grows split: if_splits)

interpretation op_multiply: binary_op decNumberMultiply
  by unfold_locales (auto simp: decNumberMultiply_def op_simps split_beta pair_grows addStatus_grows split: if_splits)

section \<open>Calls\<close>

text \<open>
  A call of an SQL function, with the context before and after it.  Two functions are left out: \<^verbatim>\<open>decClearStatus\<close>, which clears the
  status on purpose, and \<^verbatim>\<open>decCompare\<close>, which does not look at the status (\<open>compare_error_deferred\<close> below).
\<close>

definition unary_functions :: "(env \<Rightarrow> decContext \<Rightarrow> sqlite3_value \<Rightarrow> call) list" where
  "unary_functions = [decimalAbs, decimalExp, decimalLn, decimalLog10, decimalSqrt, decimalNextDown, decimalNextUp, decimalInvert, decimalLogB, decimalMinus, decimalPlus, decimalReduce,
     decimalToIntegral, decimalCreate, decimalGetCoefficient, decimalBytes, decimalBits, decimalToString, decimalClass, decimalToInt32, decimalIsCanonical,
     decimalIsFinite, decimalIsInfinite, decimalIsNaN, decimalIsNegative, decimalIsPositive, decimalIsZero, decimalIsNormal,
     decimalIsSubnormal]"

definition binary_functions :: "(env \<Rightarrow> decContext \<Rightarrow> sqlite3_value \<Rightarrow> sqlite3_value \<Rightarrow> call) list" where
  "binary_functions = [decimalAnd, decimalDivide, decimalDivideInteger, decimalOr, decimalPower, decimalQuantize, decimalRemainder, decimalRotate,
     decimalScaleB, decimalShift, decimalSubtract, decimalXor, decimalSameQuantum]"

definition nary_functions :: "(env \<Rightarrow> decContext \<Rightarrow> sqlite3_value list \<Rightarrow> call) list" where
  "nary_functions = [decimalAdd, decimalMax, decimalMaxMag, decimalMin, decimalMinMag, decimalMultiply]"

text \<open>
  The calls a session is made of.  \<^verbatim>\<open>decCompare\<close> and \<^verbatim>\<open>decClearStatus\<close> are not among them, nor are calls of a function of many arguments
  with no argument or with a floating-point one: section \<open>A deferred error\<close> below shows why.
\<close>

inductive sql_call :: "decContext \<Rightarrow> decContext \<Rightarrow> sql_result \<Rightarrow> bool" where
  one: "f \<in> set unary_functions \<Longrightarrow> func1 (f env) ctx argv = Some (ctx', r) \<Longrightarrow> sql_call ctx ctx' r"
| two: "f \<in> set binary_functions \<Longrightarrow> func2 (f env) ctx argv = Some (ctx', r) \<Longrightarrow> sql_call ctx ctx' r"
| three: "decimalFMAFunc (decimalFMA env) ctx argv = Some (ctx', r) \<Longrightarrow> sql_call ctx ctx' r"
| many: "f \<in> set nary_functions \<Longrightarrow> argv \<noteq> [] \<Longrightarrow> SQLITE_FLOAT \<notin> set argv \<Longrightarrow> funcn (f env) ctx argv = Some (ctx', r) \<Longrightarrow> sql_call ctx ctx' r"
| status: "func0 decimalStatus ctx argv = Some (ctx', r) \<Longrightarrow> sql_call ctx ctx' r"
| version: "func0 decimalVersion ctx argv = Some (ctx', r) \<Longrightarrow> sql_call ctx ctx' r"

lemma int1_served: "settled ctx \<Longrightarrow> decimalInt1 f env ctx v = Some (ctx', r) \<Longrightarrow> served ctx ctx'"
  unfolding decimalInt1_def by (erule with_arg_served) (auto intro: served_refl)

lemma text_served:
  "settled ctx \<Longrightarrow> decimalCreate env ctx v = Some (ctx', r) \<Longrightarrow> served ctx ctx'"
  "settled ctx \<Longrightarrow> decimalBytes env ctx v = Some (ctx', r) \<Longrightarrow> served ctx ctx'"
  "settled ctx \<Longrightarrow> decimalBits env ctx v = Some (ctx', r) \<Longrightarrow> served ctx ctx'"
  "settled ctx \<Longrightarrow> decimalToString env ctx v = Some (ctx', r) \<Longrightarrow> served ctx ctx'"
  "settled ctx \<Longrightarrow> decimalClass env ctx v = Some (ctx', r) \<Longrightarrow> served ctx ctx'"
  "settled ctx \<Longrightarrow> decimalGetCoefficient env ctx v = Some (ctx', r) \<Longrightarrow> served ctx ctx'"
proof -
  show "settled ctx \<Longrightarrow> decimalGetCoefficient env ctx v = Some (ctx', r) \<Longrightarrow> served ctx ctx'"
    unfolding decimalGetCoefficient_def by (erule with_arg_served) (auto simp: bind_eq_Some_conv intro: served_refl)
  show "settled ctx \<Longrightarrow> decimalCreate env ctx v = Some (ctx', r) \<Longrightarrow> served ctx ctx'"
    unfolding decimalCreate_def by (erule with_arg_served) (auto intro: blob_result_served)
  show "settled ctx \<Longrightarrow> decimalToString env ctx v = Some (ctx', r) \<Longrightarrow> served ctx ctx'"
    unfolding decimalToString_def by (erule with_arg_served) (auto simp: bind_eq_Some_conv split: if_splits intro: served_refl)
  show "settled ctx \<Longrightarrow> decimalClass env ctx v = Some (ctx', r) \<Longrightarrow> served ctx ctx'"
    unfolding decimalClass_def by (erule with_arg_served) (auto intro: served_refl)
qed (auto simp: decimalBytes_def decimalBits_def bind_eq_Some_conv split: sqlite3_value.splits if_splits intro: served_refl)

lemma int32_served:
  assumes "settled ctx" "decimalToInt32 env ctx v = Some (ctx', r)"
  shows "served ctx ctx'"
proof (rule with_arg_served [OF assms(1) assms(2) [unfolded decimalToInt32_def]])
  fix c dn assume c: "settled c" "(do { dn \<leftarrow> decNumberTrim (env_ctx env) dn; (i, ctx) \<leftarrow> decNumberToInt32 dn c;
     Some (case checkStatus ctx (traps ctx) of (ctx, Some e) \<Rightarrow> (ctx, e) | (ctx, None) \<Rightarrow> (ctx, result_int i)) }) = Some (ctx', r)"
  then obtain d i c1 where d: "decNumberToInt32 d c = Some (i, c1)"
      "(case checkStatus c1 (traps c1) of (ctx, Some e) \<Rightarrow> (ctx, e) | (ctx, None) \<Rightarrow> (ctx, result_int i)) = (ctx', r)"
    by (fastforce simp: bind_eq_Some_conv)
  have g: "grows c c1" using d(1)
    by (auto simp: decNumberToInt32_def bind_eq_Some_conv Let_def decContextSetStatus_def split: if_splits)
  obtain c2 e where ce: "checkStatus c1 (traps c1) = (c2, e)" by fastforce
  then show "served c ctx'" using d(2) checkStatus_served [OF c(1) g ce] by (cases e) auto
qed

lemma same_quantum_served:
  assumes "settled ctx" "decimalSameQuantum env ctx v w = Some (ctx', r)"
  shows "served ctx ctx'"
proof -
  have eq: "ctx' = c" if "decNumberToUInt32 (decNumberSameQuantum n x y) c = Some (i, ctx')" for n x y c i
  proof -
    obtain k where q: "decNumberSameQuantum n x y = (decNumberZero n)\<lparr>lsu := (lsu (decNumberZero n))[0 := k]\<rparr>" "k = 0 \<or> k = 1"
      by (auto simp: decNumberSameQuantum_def Let_def)
    show ?thesis
    proof (cases "lsu n")
      case Nil
      then show ?thesis using that by (simp add: q decNumberToUInt32_def decNumberZero_def Let_def)
    next
      case (Cons u us)
      then show ?thesis using q(2) that unfolding q(1)
        by (elim disjE) (simp_all add: decNumberToUInt32_def decNumberZero_def Let_def collectHi.simps)
    qed
  qed
  have k: "served c ctx'" if "settled c"
      "(do { (i, c) \<leftarrow> decNumberToUInt32 (decNumberSameQuantum (env_num env) x y) c; Some (c, result_int (sint i)) }) = Some (ctx', r)" for c x y
    using that eq served_refl by (fastforce simp: bind_eq_Some_conv)
  show ?thesis
    by (rule with_arg_served [OF assms(1) assms(2) [unfolded decimalSameQuantum_def]], rule with_arg_served, assumption, assumption)
      (rule k)
qed

lemma decNumberFMA_grows: "decNumberFMA mem res x y z c = Some (d, c') \<Longrightarrow> grows c c'"
  unfolding decNumberFMA_def by (rule addStatus_grows [unfolded addStatus_def])

lemma fma_served:
  assumes "settled ctx" "decimalFMA env ctx u v w = Some (ctx', r)"
  shows "served ctx ctx'"
proof (rule with_arg_served [OF assms(1) assms(2) [unfolded decimalFMA_def]])
  fix c x assume x: "settled c" "with_arg env c v (\<lambda>ctx y. with_arg env ctx w (\<lambda>ctx z. do {
       (res, ctx) \<leftarrow> decNumberFMA (env_mem env) (env_num env) x y z ctx; checked_result env ctx res })) = Some (ctx', r)"
  show "served c ctx'"
  proof (rule with_arg_served [OF x])
    fix c y assume y: "settled c" "with_arg env c w (\<lambda>ctx z. do {
       (res, ctx) \<leftarrow> decNumberFMA (env_mem env) (env_num env) x y z ctx; checked_result env ctx res }) = Some (ctx', r)"
    show "served c ctx'"
    proof (rule with_arg_served [OF y])
      fix c z assume z: "settled c"
        "(do { (res, c) \<leftarrow> decNumberFMA (env_mem env) (env_num env) x y z c; checked_result env c res }) = Some (ctx', r)"
      then obtain d c' where "decNumberFMA (env_mem env) (env_num env) x y z c = Some (d, c')" "checked_result env c' d = Some (ctx', r)"
        by (auto simp: bind_eq_Some_conv)
      then show "served c ctx'" using checked_result_served [OF z(1) decNumberFMA_grows] by blast
    qed
  qed
qed

named_theorems served_rules

lemmas [served_rules] = op_abs.op1_served op_exp.op1_served op_ln.op1_served op_log10.op1_served op_sqrt.op1_served op_power.op2_served op_next_minus.op1_served op_next_plus.op1_served op_invert.op1_served op_logb.op1_served
  op_minus.op1_served op_plus.op1_served op_reduce.op1_served op_to_integral.op1_served op_and.op2_served op_divide.op2_served
  op_divide_integer.op2_served op_or.op2_served op_quantize.op2_served op_remainder.op2_served op_rotate.op2_served op_scaleb.op2_served
  op_shift.op2_served op_subtract.op2_served op_xor.op2_served int1_served text_served int32_served same_quantum_served fma_served

lemmas function_defs = decimalAbs_def decimalExp_def decimalLn_def decimalLog10_def decimalSqrt_def decimalPower_def decimalNextDown_def decimalNextUp_def decimalInvert_def decimalLogB_def decimalMinus_def
  decimalPlus_def decimalReduce_def decimalToIntegral_def decimalIsCanonical_def decimalIsFinite_def decimalIsInfinite_def
  decimalIsNaN_def decimalIsNegative_def decimalIsPositive_def decimalIsZero_def decimalIsNormal_def decimalIsSubnormal_def
  decimalAnd_def decimalDivide_def decimalDivideInteger_def decimalOr_def decimalQuantize_def decimalRemainder_def decimalRotate_def
  decimalScaleB_def decimalShift_def decimalSubtract_def decimalXor_def decimalAdd_def decimalMax_def decimalMaxMag_def decimalMin_def
  decimalMinMag_def decimalMultiply_def

lemma unary_served:
  assumes "f \<in> set unary_functions" "settled ctx" "f env ctx v = Some (ctx', r)"
  shows "served ctx ctx'"
  using assms by (auto simp: unary_functions_def function_defs intro: served_rules)

lemma binary_served:
  assumes "f \<in> set binary_functions" "settled ctx" "f env ctx v w = Some (ctx', r)"
  shows "served ctx ctx'"
  using assms by (auto simp: binary_functions_def function_defs intro: served_rules)

lemma nary_served:
  assumes "f \<in> set nary_functions" "settled ctx" "argv \<noteq> []" "list_all decodable argv" "f env ctx argv = Some (ctx', r)"
  shows "served ctx ctx'"
  using assms by (auto simp: nary_functions_def function_defs intro: op_add.opn_served op_max.opn_served op_max_mag.opn_served
      op_min.opn_served op_min_mag.opn_served op_multiply.opn_served)

lemma decodable_args: "\<not> list_ex is_null argv \<Longrightarrow> SQLITE_FLOAT \<notin> set argv \<Longrightarrow> list_all decodable argv"
  by (auto simp: decodable_def list_all_iff list_ex_iff)

lemma sql_call_served: "sql_call ctx ctx' r \<Longrightarrow> settled ctx \<Longrightarrow> served ctx ctx'"
proof (induction rule: sql_call.induct)
  case (one f env ctx argv ctx' r)
  then show ?case using unary_served [OF one(1)] served_refl by (auto simp: func1_def bind_eq_Some_conv split: if_splits)
next
  case (two f env ctx argv ctx' r)
  then show ?case using binary_served [OF two(1)] served_refl by (auto simp: func2_def bind_eq_Some_conv split: if_splits)
next
  case (three env ctx argv ctx' r)
  then show ?case using fma_served served_refl by (auto simp: decimalFMAFunc_def bind_eq_Some_conv split: if_splits)
next
  case (many f argv env ctx ctx' r)
  then show ?case using nary_served [OF many(1)] decodable_args served_refl by (auto simp: funcn_def split: if_splits)
qed (auto simp: func0_def decimalStatus_def decimalVersion_def Let_def intro: served_refl)

inductive session :: "decContext \<Rightarrow> decContext \<Rightarrow> bool" where
  start: "session ctx ctx"
| call: "session ctx ctx' \<Longrightarrow> sql_call ctx' ctx'' r \<Longrightarrow> session ctx ctx''"

lemma session_served: "session ctx ctx' \<Longrightarrow> settled ctx \<Longrightarrow> served ctx ctx'"
  by (induction rule: session.induct) (auto intro: served_refl served_trans sql_call_served served_settled)

section \<open>Properties\<close>

definition env0 :: env where
  "env0 = \<lparr>env_mem = (\<lambda>n. True), env_num = localZero, env_ctx = blank_context, env_bytes = replicate DECINF_MAXSIZE 0, env_chars = [],
    env_bcd = replicate DECNUMDIGITS 0\<rparr>"

definition ctx0 :: decContext where
  "ctx0 = initDefaultContext blank_context"

lemma settled_ctx0: "settled ctx0"
  by code_simp

text \<open>
  C11: in a session of calls of the SQL functions (all but \<^verbatim>\<open>decClearStatus\<close> and \<^verbatim>\<open>decCompare\<close>, with any arguments; the functions of
  many arguments with one at least and no floating-point ones), a trapped condition never outlives the call that raised it.  If no trapped
  condition is set before, none is set after; conditions that are not trapped stay until they are cleared; precision, exponent limits,
  rounding mode and traps do not change.
\<close>

theorem traps_reported:
  assumes "session ctx ctx'" "status ctx AND traps ctx = 0"
  shows "status ctx' AND traps ctx' = 0 \<and> status ctx AND NOT (traps ctx) AND NOT (status ctx') = 0 \<and> ctx' = ctx\<lparr>status := status ctx'\<rparr>"
  using session_served [OF assms(1)] assms(2) by (simp add: settled_def served_def)

lemma bad_text_call: "sql_call ctx0 ctx0 (result_error ''Conversion syntax'')"
proof (rule sql_call.one)
  show "decimalCreate \<in> set unary_functions" by (simp add: unary_functions_def)
  show "func1 (decimalCreate env0) ctx0 [SQLITE_TEXT ''12a''] = Some (ctx0, result_error ''Conversion syntax'')" by code_simp
qed

theorem traps_reported_witness:
  "status ctx0 AND traps ctx0 = 0 \<and> status ctx0 AND NOT (traps ctx0) AND NOT (status ctx0) = 0 \<and> ctx0 = ctx0\<lparr>status := status ctx0\<rparr>"
  by (rule traps_reported [OF session.call [OF session.start bad_text_call]]) (rule settled_ctx0 [unfolded settled_def])

section \<open>A deferred error\<close>

text \<open>
  \<^verbatim>\<open>decCompare\<close> returns a result when a condition it raised is trapped, and the next call fails with that condition.
\<close>

lemma compare_error_deferred:
  "decimalCompare env0 ctx0 (SQLITE_TEXT ''sNaN'') (SQLITE_INTEGER 1) = Some (ctx0\<lparr>status := DEC_Invalid_operation\<rparr>, result_blob [0xE0])"
  "decimalIsZero env0 (ctx0\<lparr>status := DEC_Invalid_operation\<rparr>) (SQLITE_INTEGER 5) = Some (ctx0, result_error ''Invalid operation'')"
  by code_simp+

text \<open>
  So does a function of many arguments that meets an argument it cannot decode, here a floating-point one, after a condition was
  raised by the arguments before it.
\<close>

lemma nary_error_deferred:
  "decimalAdd env0 ctx0 [SQLITE_TEXT ''sNaN'', SQLITE_INTEGER 1, SQLITE_FLOAT] =
   Some (ctx0\<lparr>status := DEC_Invalid_operation\<rparr>, result_error ''Cannot create decimal from the given type'')"
  by code_simp

section \<open>A function that does not look at its argument\<close>

text \<open>The coefficient \<^verbatim>\<open>decGetCoeff\<close> prints does not depend on the number.\<close>

lemma coefficient_of_nothing:
  "decimalGetCoefficient env0 ctx0 (SQLITE_INTEGER 1) = decimalGetCoefficient env0 ctx0 (SQLITE_INTEGER 2)"
  by code_simp

end
