(* ===== verification/SqlRegister.thy ===== *)
theory SqlRegister
  imports SqlSpec
begin

text \<open>Loading the extension: what is registered with the database, and what happens when a registration fails.\<close>

text \<open>Names of functions and modules are compared without regard to case.\<close>

definition lower :: "char \<Rightarrow> char" where
  "lower c = (let n = of_char c :: nat in if 65 \<le> n \<and> n \<le> 90 then char_of (n + 32) else c)"

fun reg_key :: "registration \<Rightarrow> bool \<times> string" where
  "reg_key (create_function zName nArg xFunc) = (False, map lower zName)"
| "reg_key (create_aggregate zName nArg xStep xFinal) = (False, map lower zName)"
| "reg_key (create_module zName m) = (True, map lower zName)"

section \<open>Registering\<close>

lemma registerAll_prefix:
  "registerAll db rs = (done, rc) \<Longrightarrow>
   \<exists>rest. rs = done @ rest \<and> list_all (\<lambda>r. db r = SQLITE_OK) done \<and> (if rest = [] then rc = SQLITE_OK else db (hd rest) = rc \<and> rc \<noteq> SQLITE_OK)"
proof (induction rs arbitrary: "done")
  case (Cons r rs)
  show ?case
  proof (cases "db r = SQLITE_OK")
    case True
    obtain regs rc' where rec: "registerAll db rs = (regs, rc')" by fastforce
    then have d: "done = r # regs" "rc' = rc" using Cons.prems True by simp_all
    obtain rest where "rs = regs @ rest" "list_all (\<lambda>r. db r = SQLITE_OK) regs"
        "if rest = [] then rc = SQLITE_OK else db (hd rest) = rc \<and> rc \<noteq> SQLITE_OK"
      using Cons.IH rec d(2) by blast
    then show ?thesis using True d by (intro exI [of _ rest]) simp
  next
    case False
    then show ?thesis using Cons.prems by (intro exI [of _ "r # rs"]) simp
  qed
qed simp

lemma registrations_distinct: "distinct (map reg_key registrations)"
  by code_simp

text \<open>
  C13: initialising the extension gives a valid shared context, and either registers every function, aggregate and
  module, or stops at the first registration the database refuses, and returns its error.  No name is registered twice, also when
  upper and lower case are the same.
\<close>

theorem registration_all_or_error:
  assumes "sqlite3_decimal_init m db = Some (ctx, done, rc)"
  shows "sql_context_ok ctx \<and> settled ctx \<and> distinct (map reg_key registrations) \<and>
    (\<exists>rest. registrations = done @ rest \<and> list_all (\<lambda>r. db r = SQLITE_OK) done \<and>
      (if rest = [] then rc = SQLITE_OK else db (hd rest) = rc \<and> rc \<noteq> SQLITE_OK))"
proof -
  obtain c where m: "decimalInitSystem m = Some ctx" "ctx = initDefaultContext c" and r: "registerAll db registrations = (done, rc)"
    using assms unfolding sqlite3_decimal_init_def decimalInitSystem_def decimalContextCreate_def by (cases m) auto
  have "status ctx = 0" unfolding m(2) by (simp add: initDefaultContext_def decContextDefault_def dec_inits Let_def)
  then have "settled ctx" by (simp add: settled_def)
  moreover have "sql_context_ok ctx" using ctx_reachable_ok [OF ctx_reachable.create [OF m(1)]] .
  ultimately show ?thesis using registrations_distinct registerAll_prefix [OF r] by simp
qed

lemma refused_at_once:
  "sqlite3_decimal_init (Mem blank_context) (\<lambda>r. SQLITE_NOMEM) = Some (ctx0, [], SQLITE_NOMEM)"
  by (simp add: sqlite3_decimal_init_def decimalInitSystem_def decimalContextCreate_def ctx0_def registrations_def aFunc_def)

theorem registration_all_or_error_witness:
  "sql_context_ok ctx0 \<and> settled ctx0 \<and> distinct (map reg_key registrations) \<and>
    (\<exists>rest. registrations = [] @ rest \<and> list_all (\<lambda>r :: registration. SQLITE_NOMEM = SQLITE_OK) [] \<and>
      (if rest = [] then SQLITE_NOMEM = SQLITE_OK else SQLITE_NOMEM = SQLITE_NOMEM \<and> SQLITE_NOMEM \<noteq> SQLITE_OK))"
  using registration_all_or_error [OF refused_at_once] .

end
