(* ===== verification/MathSpec.thy ===== *)
theory MathSpec
  imports SqlSpec
begin

text \<open>
  The mathematical functions refuse contexts whose limits are beyond \<^verbatim>\<open>DEC_MAX_MATH\<close>.
\<close>

definition too_wide :: "decContext \<Rightarrow> bool" where
  "too_wide ctx \<longleftrightarrow> ctx_digits ctx > DEC_MAX_MATH \<or> emax ctx > DEC_MAX_MATH \<or> - emin ctx > DEC_MAX_MATH"

lemma refused: "too_wide ctx \<Longrightarrow> decCheckMath x ctx 0 = (True, DEC_Invalid_context)"
  by (simp add: decCheckMath_def too_wide_def DEC_Invalid_context_def)

lemma addStatus_some: "st \<noteq> 0 \<Longrightarrow> addStatus (Some (res, st)) ctx = Some (decStatus res st ctx)"
  by (simp add: addStatus_def applyStatus_def)

lemma math_refused:
  assumes "too_wide ctx"
  shows "decNumberExp mem res x ctx = Some (decStatus res DEC_Invalid_context ctx)"
    "decNumberLn mem res x ctx = Some (decStatus res DEC_Invalid_context ctx)"
    "decNumberLog10 mem res x ctx = Some (decStatus res DEC_Invalid_context ctx)"
    "\<not> decNumberIsSpecial x \<Longrightarrow> decNumberFMA mem res x y z ctx = Some (decStatus res DEC_Invalid_context ctx)"
proof -
  have nz: "DEC_Invalid_context \<noteq> 0" by (simp add: DEC_Invalid_context_def)
  show "decNumberExp mem res x ctx = Some (decStatus res DEC_Invalid_context ctx)"
    by (simp add: decNumberExp_def refused [OF assms] addStatus_some [OF nz])
  show "decNumberLn mem res x ctx = Some (decStatus res DEC_Invalid_context ctx)"
    by (simp add: decNumberLn_def refused [OF assms] addStatus_some [OF nz])
  show "decNumberLog10 mem res x ctx = Some (decStatus res DEC_Invalid_context ctx)"
    by (simp add: decNumberLog10_def refused [OF assms] addStatus_some [OF nz])
  show "decNumberFMA mem res x y z ctx = Some (decStatus res DEC_Invalid_context ctx)" if "\<not> decNumberIsSpecial x"
    using that nz by (simp add: decNumberFMA_def refused [OF assms] applyStatus_def)
qed

text \<open>A condition that is the only trapped one is reported by its name, and the context is as before.\<close>

lemma report_trapped:
  assumes "settled ctx" "st AND traps ctx = st" "st \<noteq> 0" "st AND DEC_sNaN = 0"
  shows "checked_result env (snd (decStatus res st ctx)) dn = Some (ctx, result_error (decContextStatusToString (ctx\<lparr>status := st\<rparr>)))"
proof -
  have c: "snd (decStatus res st ctx) = ctx\<lparr>status := status ctx OR st\<rparr>"
    using assms(4) by (simp add: decStatus_def decContextSetStatus_def)
  have s: "status ctx AND traps ctx = 0" using assms(1) by (simp add: settled_def)
  have "(status ctx OR st) AND traps ctx = st" "(status ctx OR st) AND NOT (traps ctx) = status ctx"
    using s assms(2) by (simp_all add: bit_eq_iff bit_simps) blast+
  then show ?thesis unfolding c checked_result_def checkStatus_def decContextTestStatus_def decContextClearStatus_def
    using assms(3) by simp
qed

lemma op1_refused:
  assumes "f (env_mem env) (env_num env) x ctx' = Some (decStatus (env_num env) st ctx')" "decode env ctx v = Some (ctx', Inr x)"
    and "settled ctx'" "st AND traps ctx' = st" "st \<noteq> 0" "st AND DEC_sNaN = 0"
  shows "decimalOp1 f env ctx v = Some (ctx', result_error (decContextStatusToString (ctx'\<lparr>status := st\<rparr>)))"
  using assms(1,2) report_trapped [OF assms(3-6)] by (simp add: decimalOp1_def with_arg_def split_beta)

text \<open>Decoding changes only the status.\<close>

lemma decode_limits: "settled ctx \<Longrightarrow> decode env ctx v = Some (ctx', r) \<Longrightarrow> too_wide ctx' = too_wide ctx \<and> traps ctx' = traps ctx \<and> settled ctx'"
proof -
  assume "settled ctx" "decode env ctx v = Some (ctx', r)"
  then have "served ctx ctx'" by (rule decode_served)
  then obtain st where "ctx' = ctx\<lparr>status := st\<rparr>" "settled ctx'" by (auto simp: served_def)
  then show ?thesis by (simp add: too_wide_def)
qed

text \<open>
  C35: in a context with a precision or exponent limits beyond \<^verbatim>\<open>DEC_MAX_MATH\<close> (999999), as the one of a new
  connection, \<^verbatim>\<open>decExp\<close>, \<^verbatim>\<open>decLn\<close> and \<^verbatim>\<open>decLog10\<close> do not compute.  If the condition \<^verbatim>\<open>Invalid context\<close> is trapped and no
  trapped condition is pending, then, whatever the decimal argument, the call ends with the error \<^verbatim>\<open>Invalid context\<close> and leaves the context as decoding the argument left it.
\<close>

theorem math_functions_refuse:
  assumes "ctx_digits ctx > DEC_MAX_MATH \<or> emax ctx > DEC_MAX_MATH \<or> - emin ctx > DEC_MAX_MATH"
    and "status ctx AND traps ctx = 0" "DEC_Invalid_context AND traps ctx \<noteq> 0" "decode env ctx v = Some (ctx', Inr x)"
  shows "decimalExp env ctx v = Some (ctx', result_error ''Invalid context'') \<and>
    decimalLn env ctx v = Some (ctx', result_error ''Invalid context'') \<and>
    decimalLog10 env ctx v = Some (ctx', result_error ''Invalid context'')"
proof -
  have s: "settled ctx" using assms(2) by (simp add: settled_def)
  note c' = decode_limits [OF s assms(4)]
  have w: "too_wide ctx'" using c' assms(1) by (simp add: too_wide_def)
  have b: "DEC_Invalid_context AND traps ctx' = DEC_Invalid_context"
  proof -
    have p: "DEC_Invalid_context = 2 ^ 6" by (simp add: DEC_Invalid_context_def)
    have "bit DEC_Invalid_context n \<longleftrightarrow> n = 6" for n unfolding p bit_exp_iff by auto
    then show ?thesis using assms(3) c' by (auto simp: bit_eq_iff [where 'a = "32 word"] bit_and_iff)
  qed
  have m: "decContextStatusToString (ctx'\<lparr>status := DEC_Invalid_context\<rparr>) = ''Invalid context''"
    by (simp add: decContextStatusToString_def dec_flags)
  have "DEC_Invalid_context \<noteq> 0" "DEC_Invalid_context AND DEC_sNaN = 0" by (simp_all add: DEC_Invalid_context_def DEC_sNaN_def)
  note op = op1_refused [OF _ assms(4) _ b this, unfolded m]
  show ?thesis unfolding decimalExp_def decimalLn_def decimalLog10_def using op math_refused [OF w] c' by blast
qed

theorem math_functions_refuse_witness:
  "decimalExp env0 ctx0 (SQLITE_INTEGER 1) = Some (ctx0, result_error ''Invalid context'') \<and>
   decimalLn env0 ctx0 (SQLITE_INTEGER 1) = Some (ctx0, result_error ''Invalid context'') \<and>
   decimalLog10 env0 ctx0 (SQLITE_INTEGER 1) = Some (ctx0, result_error ''Invalid context'')"
proof (rule math_functions_refuse)
  show "decode env0 ctx0 (SQLITE_INTEGER 1) = Some (ctx0, Inr (localZero\<lparr>lsu := 1 # replicate 12 0\<rparr>))" by code_simp
  show "ctx_digits ctx0 > DEC_MAX_MATH \<or> emax ctx0 > DEC_MAX_MATH \<or> - emin ctx0 > DEC_MAX_MATH" by code_simp
  show "status ctx0 AND traps ctx0 = 0" by code_simp
  show "DEC_Invalid_context AND traps ctx0 \<noteq> 0" by code_simp
qed

end
