(* ===== verification/DnValue.thy ===== *)
theory DnValue
  imports Complex_Main DecNumber
begin

text \<open>What a number stands for: the rational value of a finite number, and the order of numbers with the infinities.\<close>

section \<open>Values\<close>

definition dn_value :: "decNumber \<Rightarrow> rat" where
  "dn_value dn = (if decNumberIsNegative dn then - 1 else 1) * of_nat (coeff dn) * 10 powi exponent dn"

lemma pow10_pos: "0 < (10 :: rat) powi e"
  by simp

lemma dn_value_zero: "dn_value dn = 0 \<longleftrightarrow> coeff dn = 0"
  by (simp add: dn_value_def)

lemma dn_value_sign:
  "coeff dn \<noteq> 0 \<Longrightarrow> dn_value dn < 0 \<longleftrightarrow> decNumberIsNegative dn"
  "coeff dn \<noteq> 0 \<Longrightarrow> 0 < dn_value dn \<longleftrightarrow> \<not> decNumberIsNegative dn"
  by (auto simp: dn_value_def mult_less_0_iff zero_less_mult_iff less_not_sym [OF pow10_pos])

text \<open>The sign of an infinity, and \<open>0\<close> for a finite number.\<close>

definition dn_place :: "decNumber \<Rightarrow> int" where
  "dn_place dn = (if decNumberIsInfinite dn then (if decNumberIsNegative dn then - 1 else 1) else 0)"

text \<open>The order by value; the two zeros are equal.\<close>

definition dn_below :: "decNumber \<Rightarrow> decNumber \<Rightarrow> bool" where
  "dn_below x y \<longleftrightarrow> dn_place x < dn_place y \<or> dn_place x = 0 \<and> dn_place y = 0 \<and> dn_value x < dn_value y"

definition dn_cmp :: "decNumber \<Rightarrow> decNumber \<Rightarrow> int" where
  "dn_cmp x y = (if dn_below x y then - 1 else if dn_below y x then 1 else 0)"

text \<open>A number with a value: finite with a coefficient of as many digits as it says, or an infinity.\<close>

definition numeric :: "decNumber \<Rightarrow> bool" where
  "numeric dn \<longleftrightarrow> \<not> decNumberIsNaN dn \<and> (decNumberIsInfinite dn \<or> dn_ok dn \<and> digits dn \<le> int DECNUMDIGITS)"

end
