(* ===== verification/DecInfiniteRead.thy ===== *)
theory DecInfiniteRead
  imports DnValue DecInfinite
begin

text \<open>
  Decoding (\<^verbatim>\<open>decInfiniteToNumber\<close> of \<^verbatim>\<open>decInfinite.c\<close>): what it returns on every byte string, that
  it stays inside the string and the number, and the round trip with the encoder.
\<close>

section \<open>The first byte\<close>

lemma top_bits_iff:
  fixes b c :: uByte
  assumes "j + k = 8" "c = push_bit j (drop_bit j c)" "m = push_bit j (mask k)"
  shows "b AND m = c \<longleftrightarrow> take k (low_bits 8 b) = take k (low_bits 8 c)"
proof -
  have t: "take k (low_bits 8 x) = low_bits k (drop_bit j x)" for x :: uByte
    using low_bits_append [of k j x] assms(1) by (simp add: add.commute)
  have c: "\<not> bit c i" if "i < j" for i
    using arg_cong [OF assms(2), of "\<lambda>x. bit x i"] that by (simp add: bit_simps)
  have "b AND m = c \<longleftrightarrow> (\<forall>i < k. bit b (j + i) = bit c (j + i))"
  proof
    assume e: "b AND m = c"
    show "\<forall>i < k. bit b (j + i) = bit c (j + i)"
    proof (intro allI impI)
      fix i assume "i < k"
      then show "bit b (j + i) = bit c (j + i)"
        using arg_cong [OF e, of "\<lambda>x. bit x (j + i)"] assms(1,3) by (auto simp: bit_simps)
    qed
  next
    assume e: "\<forall>i < k. bit b (j + i) = bit c (j + i)"
    show "b AND m = c"
    proof (rule bit_word_eqI)
      fix i assume i: "i < LENGTH(8)"
      show "bit (b AND m) i = bit c i"
      proof (cases "i < j")
        case True
        then show ?thesis using c by (simp add: assms(3) bit_simps)
      next
        case False
        then have "bit b i = bit c i" using e [rule_format, of "i - j"] i assms(1) by simp
        then show ?thesis using False i assms(1) by (auto simp: assms(3) bit_simps)
      qed
    qed
  qed
  also have "\<dots> \<longleftrightarrow> low_bits k (drop_bit j b) = low_bits k (drop_bit j c)"
  proof
    assume e: "low_bits k (drop_bit j b) = low_bits k (drop_bit j c)"
    show "\<forall>i < k. bit b (j + i) = bit c (j + i)"
    proof (intro allI impI)
      fix i assume "i < k"
      then show "bit b (j + i) = bit c (j + i)"
        using arg_cong [OF e, of "\<lambda>xs. xs ! (k - 1 - i)"] by (simp add: bit_drop_bit_eq)
    qed
  qed (auto intro!: low_bits_cong simp: bit_drop_bit_eq)
  finally show ?thesis by (simp add: t)
qed

lemma sign_byte_iff:
  fixes b :: uByte
  shows "b AND 0xE0 = 0x20 \<longleftrightarrow> take 3 (low_bits 8 b) = sign_bits True"
    and "b AND 0xE0 = 0x80 \<longleftrightarrow> take 3 (low_bits 8 b) = sign_bits False"
    and "b AND 0xFC = 0x8C \<longleftrightarrow> take 6 (low_bits 8 b) = sign_bits False @ [False, True, True]"
    and "b AND 0xFC = 0x30 \<longleftrightarrow> take 6 (low_bits 8 b) = sign_bits True @ [True, False, False]"
proof -
  have m: "(0xE0 :: uByte) = push_bit 5 (mask 3)" "(0xFC :: uByte) = push_bit 2 (mask 6)"
    by (simp_all add: mask_numeral)
  have t: "take 3 (low_bits 8 (0x20 :: uByte)) = sign_bits True" "take 3 (low_bits 8 (0x80 :: uByte)) = sign_bits False"
    "take 6 (low_bits 8 (0x8C :: uByte)) = sign_bits False @ [False, True, True]"
    "take 6 (low_bits 8 (0x30 :: uByte)) = sign_bits True @ [True, False, False]"
    by code_simp+
  show "b AND 0xE0 = 0x20 \<longleftrightarrow> take 3 (low_bits 8 b) = sign_bits True"
    using top_bits_iff [of 5 3 "0x20" _ b] m t by simp
  show "b AND 0xE0 = 0x80 \<longleftrightarrow> take 3 (low_bits 8 b) = sign_bits False"
    using top_bits_iff [of 5 3 "0x80" _ b] m t by simp
  show "b AND 0xFC = 0x8C \<longleftrightarrow> take 6 (low_bits 8 b) = sign_bits False @ [False, True, True]"
    using top_bits_iff [of 2 6 "0x8C" _ b] m t by simp
  show "b AND 0xFC = 0x30 \<longleftrightarrow> take 6 (low_bits 8 b) = sign_bits True @ [True, False, False]"
    using top_bits_iff [of 2 6 "0x30" _ b] m t by simp
qed

section \<open>Every byte string\<close>

text \<open>The fields of a byte string of two or more bytes.\<close>

definition blob_neg :: "uByte list \<Rightarrow> bool" where
  "blob_neg bytes \<longleftrightarrow> \<not> bit (bytes ! 0) 7"

definition header_ok :: "uByte list \<Rightarrow> bool" where
  "header_ok bytes \<longleftrightarrow> (let h = take 6 (bytes_bits bytes); neg = blob_neg bytes in
     take 3 h = sign_bits neg \<and> drop 3 h \<noteq> [neg, \<not> neg, \<not> neg])"

definition mantissa_index :: "uByte list \<Rightarrow> nat" where
  "mantissa_index bytes = prefix_run bytes + 4 + prefix_count (prefix_run bytes)"

definition blob_declets :: "uByte list \<Rightarrow> nat" where
  "blob_declets bytes = (8 * length bytes - mantissa_index bytes) div 10"

definition blob_chunks :: "uByte list \<Rightarrow> nat list" where
  "blob_chunks bytes = chunks (blob_declets bytes) (drop (mantissa_index bytes) (bytes_bits bytes))"

definition blob_exponent :: "uByte list \<Rightarrow> int" where
  "blob_exponent bytes =
     (if bit (bytes ! 0) 4 = bit (bytes ! 0) 7 then int (exponent_field bytes) else - int (exponent_field bytes))"

definition blob_coeff :: "uByte list \<Rightarrow> nat" where
  "blob_coeff bytes = (let V = units_val (rev (map of_nat (blob_chunks bytes)))
     in if blob_neg bytes then 1000 ^ blob_declets bytes - V else V)"

definition blob_ok :: "uByte list \<Rightarrow> bool" where
  "blob_ok bytes \<longleftrightarrow> header_ok bytes \<and> exponent_ok bytes \<and>
     1 \<le> blob_declets bytes \<and> blob_declets bytes \<le> DECNUMUNITS \<and> mantissa_ok (blob_neg bytes) (blob_chunks bytes)"

lemma even_mantissa_index: "exponent_ok bytes \<Longrightarrow> even (mantissa_index bytes)"
proof -
  let ?m = "prefix_run bytes"
  assume "exponent_ok bytes"
  then have "prefix_count ?m = ?m mod 256" by (auto simp: exponent_ok_def Let_def prefix_count_def split: if_splits)
  moreover have "even (?m mod 256) = even ?m" by (rule dvd_mod_iff) simp
  ultimately show ?thesis by (simp add: mantissa_index_def)
qed

lemma header_iff:
  assumes "2 \<le> length bytes" and b: "b = bytes ! 0"
  shows "(b AND 0xE0 = 0x20 \<or> b AND 0xE0 = 0x80) \<and> \<not> (b AND 0xFC = 0x8C \<or> b AND 0xFC = 0x30) \<longleftrightarrow> header_ok bytes"
    and "b AND 0xE0 = 0x20 \<or> b AND 0xE0 = 0x80 \<Longrightarrow> b AND 0xE0 = 0x20 \<longleftrightarrow> blob_neg bytes"
proof -
  obtain bs where bytes: "bytes = b # bs" using assms by (cases bytes) auto
  define h where "h = take 6 (low_bits 8 b)"
  have h: "take 6 (bytes_bits bytes) = h" by (simp add: bytes h_def)
  have t3: "take 3 (low_bits 8 b) = take 3 h" by (simp add: h_def)
  have hd: "h ! 0 = bit b 7" by (simp add: h_def)
  have l: "length h = 6" by (simp add: h_def)
  have split: "h = sign_bits v @ xs \<longleftrightarrow> take 3 h = sign_bits v \<and> drop 3 h = xs" for v xs
  proof -
    have "length (sign_bits v) = 3" by (simp add: sign_bits_def)
    then show ?thesis using append_take_drop_id [of 3 h] by (metis append_eq_conv_conj)
  qed
  have hd3: "take 3 h = sign_bits v \<Longrightarrow> bit b 7 \<longleftrightarrow> \<not> v" for v
    using hd l by (metis (full_types) nth_Cons_0 nth_take sign_bits_def zero_less_numeral)
  have neg: "blob_neg bytes \<longleftrightarrow> \<not> bit b 7" by (simp add: blob_neg_def bytes)
  show "b AND 0xE0 = 0x20 \<or> b AND 0xE0 = 0x80 \<Longrightarrow> b AND 0xE0 = 0x20 \<longleftrightarrow> blob_neg bytes"
    unfolding sign_byte_iff t3 neg using hd3 by blast
  show "(b AND 0xE0 = 0x20 \<or> b AND 0xE0 = 0x80) \<and> \<not> (b AND 0xFC = 0x8C \<or> b AND 0xFC = 0x30) \<longleftrightarrow> header_ok bytes"
    unfolding header_ok_def Let_def h neg sign_byte_iff t3 split [folded h_def] h_def [symmetric] split
    using hd3 [of True] hd3 [of False] by (cases "bit b 7") auto
qed

lemma decInfiniteToNumber_unfold:
  assumes len: "2 \<le> length bytes"
  shows "decInfiniteToNumber bytes dn =
     (let b = bytes ! 0; dn1 = dn\<lparr>bits := (if blob_neg bytes then DECNEG else 0)\<rparr> in
      if \<not> header_ok bytes then
        Some (False, if b AND 0xE0 = 0x20 \<or> b AND 0xE0 = 0x80 then dn1 else dn)
      else do {
        r \<leftarrow> decInfiniteUnpackExponent bytes \<lparr>pos = 0, free = 5\<rparr>;
        case r of Null \<Rightarrow> Some (False, dn1)
        | Ret (e, p) \<Rightarrow> do {
            (n, dn) \<leftarrow> decInfiniteUnpackMantissa (dn1\<lparr>exponent := e\<rparr>) bytes p;
            if n \<noteq> 0 then Some (True, dn\<lparr>exponent := exponent dn - digits dn + 1\<rparr>)
            else Some (False, dn)
          }
      })"
proof -
  have l: "0 < length bytes" "length bytes \<noteq> 1" using len by auto
  note h = header_iff [OF len refl]
  show ?thesis
    using l h by (cases "bytes ! 0 AND 0xE0 = 0x20"; cases "bytes ! 0 AND 0xE0 = 0x80")
      (auto simp: decInfiniteToNumber_def Let_def simp del: dec_bits)
qed

lemma blob_neg_number [simp]:
  "decNumberIsNegative (dn\<lparr>bits := (if neg then DECNEG else 0), exponent := e\<rparr>) = neg"
  by (simp add: decNumberIsNegative_def)

lemma decInfiniteToNumber_spec:
  assumes len: "2 \<le> length bytes" "length bytes \<le> 2 ^ 29" and lsu: "length (lsu dn) = DECNUMUNITS"
  shows "blob_ok bytes \<Longrightarrow>
      \<exists>us. decInfiniteToNumber bytes dn = Some (True, dn\<lparr>bits := (if blob_neg bytes then DECNEG else 0),
          exponent := blob_exponent bytes - 3 * int (blob_declets bytes) + 1,
          digits := 3 * int (blob_declets bytes), lsu := us\<rparr>) \<and>
        length us = DECNUMUNITS \<and> units_ok (take (blob_declets bytes) us) \<and>
        units_val (take (blob_declets bytes) us) = blob_coeff bytes"
    and "\<not> blob_ok bytes \<Longrightarrow> \<not> (header_ok bytes \<and> exponent_ok bytes \<and> blob_declets bytes = 0) \<Longrightarrow>
      \<exists>dn'. decInfiniteToNumber bytes dn = Some (False, dn')"
    and "header_ok bytes \<Longrightarrow> exponent_ok bytes \<Longrightarrow> blob_declets bytes = 0 \<Longrightarrow>
      if lsu dn ! 0 = 0 then \<exists>dn'. decInfiniteToNumber bytes dn = Some (False, dn')
      else decInfiniteToNumber bytes dn = None"
proof -
  let ?neg = "blob_neg bytes" and ?n = "blob_declets bytes"
  let ?dn1 = "dn\<lparr>bits := (if ?neg then DECNEG else 0), exponent := blob_exponent bytes\<rparr>"
  have ne: "bytes \<noteq> []" using len by auto
  have pos0: "pos \<lparr>pos = 0, free = 5\<rparr> = 0" by simp
  note unf = decInfiniteToNumber_unfold [OF len(1), unfolded Let_def]
  have bad: "\<exists>dn'. decInfiniteToNumber bytes dn = Some (False, dn')" if "\<not> header_ok bytes \<or> \<not> exponent_ok bytes"
    using that decInfiniteUnpackExponent_spec(2) [OF ne pos0] by (cases "header_ok bytes") (simp_all add: unf)
  have good: "\<exists>p. decInfiniteToNumber bytes dn = do {
        (n, dn) \<leftarrow> decInfiniteUnpackMantissa ?dn1 bytes p;
        if n \<noteq> 0 then Some (True, dn\<lparr>exponent := exponent dn - digits dn + 1\<rparr>) else Some (False, dn) } \<and>
      readable bytes p \<and> bit_index p = mantissa_index bytes \<and> declet_count bytes p = ?n"
    if h: "header_ok bytes" "exponent_ok bytes"
  proof -
    obtain p where "decInfiniteUnpackExponent bytes \<lparr>pos = 0, free = 5\<rparr> = Some (Ret (blob_exponent bytes, p))"
        "readable bytes p" "bit_index p = mantissa_index bytes"
      using decInfiniteUnpackExponent_spec(1) [OF ne pos0 h(2)] unfolding blob_exponent_def mantissa_index_def by blast
    then show ?thesis using h by (intro exI [of _ p]) (simp add: unf declet_count_def blob_declets_def)
  qed
  have n3: "3 * ?n < 2 ^ 31"
  proof -
    have "?n \<le> 8 * length bytes div 10" unfolding blob_declets_def by (intro div_le_mono) simp
    then show ?thesis using len(2) by simp
  qed
  have l1: "length (lsu ?dn1) = DECNUMUNITS" using lsu by simp
  have mant: "if ?n \<le> DECNUMUNITS \<and> mantissa_ok ?neg (blob_chunks bytes)
      then \<exists>us. decInfiniteUnpackMantissa ?dn1 bytes p = Some (?n, ?dn1\<lparr>digits := 3 * int ?n, lsu := us\<rparr>) \<and>
        length us = DECNUMUNITS \<and> units_ok (take ?n us) \<and> units_val (take ?n us) = blob_coeff bytes
      else \<exists>dn'. decInfiniteUnpackMantissa ?dn1 bytes p = Some (0, dn')"
    if p: "readable bytes p" "bit_index p = mantissa_index bytes" "declet_count bytes p = ?n"
      and n: "1 \<le> ?n" and x: "exponent_ok bytes" for p
  proof -
    have ev: "even (bit_index p)" using even_mantissa_index [OF x] p(2) by simp
    have vs: "blob_chunks bytes = chunks ?n (drop (bit_index p) (bytes_bits bytes))" by (simp add: blob_chunks_def p(2))
    show ?thesis
    proof (cases "?n = 1")
      case True
      then show ?thesis
        using decInfiniteUnpackMantissa_single [OF p(1) ev _ l1 _ refl, of "blob_chunks bytes"] p(3) vs lsu
        by (auto simp: blob_coeff_def Let_def split: if_splits)
    next
      case False
      then have n2: "2 \<le> ?n" using n by simp
      show ?thesis
        using decInfiniteUnpackMantissa_multiple [OF p(1) ev p(3) n2 n3 l1 vs refl] lsu
        by (auto simp: blob_coeff_def Let_def split: if_splits)
    qed
  qed
  show "\<exists>us. decInfiniteToNumber bytes dn = Some (True, dn\<lparr>bits := (if ?neg then DECNEG else 0),
          exponent := blob_exponent bytes - 3 * int ?n + 1, digits := 3 * int ?n, lsu := us\<rparr>) \<and>
        length us = DECNUMUNITS \<and> units_ok (take ?n us) \<and> units_val (take ?n us) = blob_coeff bytes"
    if ok: "blob_ok bytes"
  proof -
    obtain p where p: "decInfiniteToNumber bytes dn = do {
        (n, dn) \<leftarrow> decInfiniteUnpackMantissa ?dn1 bytes p;
        if n \<noteq> 0 then Some (True, dn\<lparr>exponent := exponent dn - digits dn + 1\<rparr>) else Some (False, dn) }"
        "readable bytes p" "bit_index p = mantissa_index bytes" "declet_count bytes p = ?n"
      using good ok by (auto simp: blob_ok_def)
    then obtain us where us: "decInfiniteUnpackMantissa ?dn1 bytes p = Some (?n, ?dn1\<lparr>digits := 3 * int ?n, lsu := us\<rparr>)"
        "length us = DECNUMUNITS" "units_ok (take ?n us)" "units_val (take ?n us) = blob_coeff bytes"
      using mant [OF p(2-4)] ok by (auto simp: blob_ok_def)
    show ?thesis
      by (rule exI [of _ us]) (use us p(1) ok in \<open>simp add: blob_ok_def\<close>)
  qed
  show "\<exists>dn'. decInfiniteToNumber bytes dn = Some (False, dn')"
    if nok: "\<not> blob_ok bytes" and n0: "\<not> (header_ok bytes \<and> exponent_ok bytes \<and> ?n = 0)"
  proof (cases "header_ok bytes \<and> exponent_ok bytes")
    case True
    then obtain p where p: "decInfiniteToNumber bytes dn = do {
        (n, dn) \<leftarrow> decInfiniteUnpackMantissa ?dn1 bytes p;
        if n \<noteq> 0 then Some (True, dn\<lparr>exponent := exponent dn - digits dn + 1\<rparr>) else Some (False, dn) }"
        "readable bytes p" "bit_index p = mantissa_index bytes" "declet_count bytes p = ?n"
      using good by blast
    then obtain dn' where "decInfiniteUnpackMantissa ?dn1 bytes p = Some (0, dn')"
      using mant [OF p(2-4)] nok n0 True by (auto simp: blob_ok_def Suc_le_eq split: if_splits)
    then show ?thesis using p(1) by simp
  qed (use bad in blast)
  show "if lsu dn ! 0 = 0 then \<exists>dn'. decInfiniteToNumber bytes dn = Some (False, dn') else decInfiniteToNumber bytes dn = None"
    if z: "header_ok bytes" "exponent_ok bytes" "?n = 0"
  proof -
    obtain p where p: "decInfiniteToNumber bytes dn = do {
        (n, dn) \<leftarrow> decInfiniteUnpackMantissa ?dn1 bytes p;
        if n \<noteq> 0 then Some (True, dn\<lparr>exponent := exponent dn - digits dn + 1\<rparr>) else Some (False, dn) }"
        "readable bytes p" "declet_count bytes p = 0"
      using good [OF z(1,2)] unfolding z(3) by blast
    have "lsu ?dn1 \<noteq> []" using lsu by auto
    then show ?thesis using p decInfiniteUnpackMantissa_empty [OF p(2,3), of ?dn1] by simp
  qed
qed

section \<open>Round trip\<close>

lemma exp_bits_noncanonical: "1 \<le> E \<Longrightarrow> take 3 (exp_bits T E @ xs) \<noteq> [T, \<not> T, \<not> T]"
proof
  assume E: "1 \<le> E" and eq: "take 3 (exp_bits T E @ xs) = [T, \<not> T, \<not> T]"
  define n where "n = nat_log2 (E + 2)"
  have "nat_log2 3 \<le> n" unfolding n_def using E by (intro nat_log2_mono) simp
  moreover have "nat_log2 3 = 1" by (rule nat_log2_unique) simp_all
  ultimately have n: "n = Suc (n - 1)" by simp
  have split: "exp_bits T E = replicate n T @ (\<not> T) # (if T then low_bits n (E + 2) else map Not (low_bits n (E + 2)))"
    unfolding n_def by (rule exp_bits_split)
  show False
  proof (cases "n = 1")
    case True
    have "E + 2 < 2 ^ Suc n" using nat_log2_bounds [of "E + 2"] by (simp add: n_def)
    then have "E = 1" using True E by simp
    then have "low_bits 1 (E + 2) = [True]" by (simp add: low_bits_Suc bit_0)
    then have "exp_bits T E = [T, \<not> T, T]" unfolding split True by (cases T) simp_all
    then have "take 3 (exp_bits T E @ xs) ! 2 = T" by (simp only: nth_take) simp
    then show False unfolding eq by simp
  next
    case False
    then obtain m where "n = Suc (Suc m)" using n by (metis One_nat_def Suc_pred not_gr_zero)
    then have "take 3 (exp_bits T E @ xs) ! 1 = T" unfolding split by simp
    then show False unfolding eq by simp
  qed
qed

text \<open>
  The bits of a number: the sign, the code of the adjusted exponent \<open>A\<close>, then the rest, which is the declets of the significand and
  fewer than ten more bits.
\<close>

definition headed :: "bool \<Rightarrow> int \<Rightarrow> bool list \<Rightarrow> uByte list \<Rightarrow> bool" where
  "headed neg A rest bytes \<longleftrightarrow> \<bar>A\<bar> \<le> 999999999 \<and> bytes_bits bytes = sign_bits neg @ exp_code neg A @ rest"

lemma headed_fields:
  assumes "headed neg A rest bytes"
  shows "header_ok bytes" "exponent_ok bytes" "blob_neg bytes = neg" "blob_exponent bytes = A"
    "8 * length bytes = mantissa_index bytes + length rest" "drop (mantissa_index bytes) (bytes_bits bytes) = rest"
    "6 \<le> mantissa_index bytes"
proof -
  define T E where "T = ((0 \<le> A) \<noteq> neg)" and "E = nat \<bar>A\<bar>"
  have E: "E \<le> 999999999" using assms by (simp add: headed_def E_def nat_le_iff)
  have bits: "bytes_bits bytes = sign_bits neg @ exp_bits T E @ rest"
    using assms by (simp add: headed_def exp_code_def T_def E_def)
  have l3: "length (sign_bits neg) = 3" and hd: "hd (sign_bits neg) = (\<not> neg)" by (simp_all add: sign_bits_def)
  note f = exp_bits_fields [OF bits l3 E]
  show "exponent_ok bytes" by (rule f(1))
  show neg: "blob_neg bytes = neg" using f(4) hd by (simp add: blob_neg_def)
  show "blob_exponent bytes = A" unfolding blob_exponent_def f(2-4) hd by (auto simp: T_def E_def)
  have mi: "mantissa_index bytes = 3 + length (exp_bits T E)" unfolding mantissa_index_def by (rule f(5))
  show "8 * length bytes = mantissa_index bytes + length rest" using arg_cong [OF bits, of length] l3 by (simp add: mi)
  show "drop (mantissa_index bytes) (bytes_bits bytes) = rest" unfolding mi bits using l3 by simp
  have e3: "3 \<le> length (exp_bits T E)" using nat_log2_exponent [OF E] by simp
  then show "6 \<le> mantissa_index bytes" unfolding mi by simp
  have "take 3 (exp_bits T E @ rest) \<noteq> [neg, \<not> neg, \<not> neg]"
  proof (cases "T = neg")
    case True
    then have "1 \<le> E" by (auto simp: T_def E_def)
    then show ?thesis using exp_bits_noncanonical [of E T rest] True by simp
  next
    case False
    have "take 3 (exp_bits T E @ rest) ! 0 = T"
      unfolding exp_bits_split using nat_log2_exponent [OF E] by (simp add: nth_append)
    then show ?thesis using False by (metis nth_Cons_0)
  qed
  moreover have "take 6 (bytes_bits bytes) = sign_bits neg @ take 3 (exp_bits T E @ rest)"
    unfolding bits using l3 by (simp del: length_exp_bits)
  ultimately show "header_ok bytes" unfolding header_ok_def Let_def neg using l3 by simp
qed

definition signed_aligned :: "decNumber \<Rightarrow> nat" where
  "signed_aligned dn = (if decNumberIsNegative dn then 1000 ^ D2U (digits dn) - aligned dn else aligned dn)"

lemma units_val_zero_iff: "units_val us = 0 \<longleftrightarrow> (\<forall>u \<in> set us. u = 0)"
  by (induction us) (auto simp: unat_eq_0)

lemma units_val_replicate_0 [simp]: "units_val (replicate z 0) = 0"
  by (simp add: units_val_zero_iff)

lemma strip_zero_units:
  "\<exists>z. us = replicate z 0 @ dropWhile (\<lambda>u. u = 0) us \<and> length us = z + length (dropWhile (\<lambda>u. u = 0) us) \<and>
     units_val us = 1000 ^ z * units_val (dropWhile (\<lambda>u. u = 0) us)"
proof -
  let ?ws = "takeWhile (\<lambda>u. u = 0) us" and ?ds = "dropWhile (\<lambda>u. u = 0) us"
  have ws: "?ws = replicate (length ?ws) 0"
    by (rule replicate_length_same [symmetric]) (auto dest: set_takeWhileD)
  have "us = ?ws @ ?ds" by simp
  then have us: "us = replicate (length ?ws) 0 @ ?ds" using ws by simp
  have "units_val us = units_val (replicate (length ?ws) 0 @ ?ds)" using us by simp
  then have "units_val us = 1000 ^ length ?ws * units_val ?ds" by (simp add: units_val_append)
  moreover have "length us = length ?ws + length ?ds" using arg_cong [OF us, of length] by simp
  ultimately show ?thesis using us by blast
qed

lemma signed_aligned_bounds:
  assumes "dn_ok dn" "coeff dn \<noteq> 0"
  shows "0 < signed_aligned dn" "signed_aligned dn < 1000 ^ D2U (digits dn)"
  using aligned_bounds(2) [OF assms] aligned_pos [OF assms] by (auto simp: signed_aligned_def)

lemma mantissa_units_spec:
  assumes ok: "dn_ok dn" "coeff dn \<noteq> 0" and ms: "ms = mantissa_units dn"
  shows "\<exists>z. D2U (digits dn) = z + length ms \<and> signed_aligned dn = 1000 ^ z * units_val (rev ms)"
    and "units_ok ms" "ms \<noteq> []" "last ms \<noteq> 0"
proof -
  let ?D = "D2U (digits dn)"
  let ?us = "base_units ?D (signed_aligned dn)"
  have r: "rev ms = dropWhile (\<lambda>u. u = 0) ?us"
    unfolding ms mantissa_units_def signed_aligned_def Let_def rev_rev_ident ..
  have v: "units_val ?us = signed_aligned dn"
    using signed_aligned_bounds [OF ok] by (simp add: units_val_base_units)
  show "\<exists>z. ?D = z + length ms \<and> signed_aligned dn = 1000 ^ z * units_val (rev ms)"
    using strip_zero_units [of ?us] unfolding v by (metis length_base_units length_rev r)
  show "units_ok ms" using units_ok_dropWhile [OF units_ok_base_units] r by (metis units_ok_simps(4))
  have "units_val ?us \<noteq> 0" using v signed_aligned_bounds(1) [OF ok] by simp
  then have "dropWhile (\<lambda>u. u = 0) ?us \<noteq> []" by (simp add: units_val_zero_iff dropWhile_eq_Nil_conv)
  then show ne: "ms \<noteq> []" unfolding r [symmetric] by simp
  have "hd (rev ms) \<noteq> 0" using ne hd_dropWhile [of "\<lambda>u. u = 0" ?us] unfolding r [symmetric] by simp
  then show "last ms \<noteq> 0" by (simp add: hd_rev)
qed

lemma signed_aligned_top:
  assumes "dn_ok dn" "coeff dn \<noteq> 0"
  shows "if decNumberIsNegative dn then signed_aligned dn \<le> 900 * 1000 ^ (D2U (digits dn) - 1)
     else 100 * 1000 ^ (D2U (digits dn) - 1) \<le> signed_aligned dn"
proof -
  note b = aligned_bounds [OF assms]
  obtain r where D: "D2U (digits dn) = Suc r" using b(3) by (cases "D2U (digits dn)") auto
  then show ?thesis using b by (auto simp: signed_aligned_def)
qed

lemma mantissa_units_ok:
  assumes ok: "dn_ok dn" "coeff dn \<noteq> 0" and ms: "ms = mantissa_units dn"
  shows "mantissa_ok (decNumberIsNegative dn) (map unat ms)"
proof -
  note m = mantissa_units_spec [OF ok ms]
  obtain z where z: "D2U (digits dn) = z + length ms" "signed_aligned dn = 1000 ^ z * units_val (rev ms)"
    using m(1) by blast
  obtain h tl where c: "ms = h # tl" using m(3) by (cases ms) auto
  have v: "units_val (rev ms) = units_val (rev tl) + 1000 ^ length tl * unat h"
    by (simp add: c units_val_append)
  have low: "units_val (rev tl) < 1000 ^ length tl" using units_val_less [of "rev tl"] m(2) c by simp
  have pow: "(1000 :: nat) ^ (D2U (digits dn) - 1) = 1000 ^ z * 1000 ^ length tl"
    using z(1) c by (simp add: power_add)
  have "if decNumberIsNegative dn then tl = [] \<or> unat h \<le> 899 else unat h \<noteq> 0"
  proof (cases "decNumberIsNegative dn")
    case True
    then have "1000 ^ z * (units_val (rev tl) + 1000 ^ length tl * unat h) \<le> 1000 ^ z * (900 * 1000 ^ length tl)"
      using signed_aligned_top [OF ok] z(2) v pow by (simp add: algebra_simps)
    then have le: "units_val (rev tl) + 1000 ^ length tl * unat h \<le> 900 * 1000 ^ length tl" by simp
    have "unat h \<le> 899" if "tl \<noteq> []"
    proof -
      have "last tl \<in> set (rev tl)" "last tl \<noteq> 0" using that m(4) c by auto
      then have "units_val (rev tl) \<noteq> 0" unfolding units_val_zero_iff by blast
      then have "1000 ^ length tl * unat h < 1000 ^ length tl * 900" using le by linarith
      then show ?thesis by simp
    qed
    then show ?thesis using True by auto
  next
    case False
    then have "1000 ^ z * (100 * 1000 ^ length tl) \<le> 1000 ^ z * (units_val (rev tl) + 1000 ^ length tl * unat h)"
      using signed_aligned_top [OF ok] z(2) v pow by (simp add: algebra_simps)
    then have "100 * 1000 ^ length tl \<le> units_val (rev tl) + 1000 ^ length tl * unat h" by simp
    then have "unat h \<noteq> 0" using low by (intro notI) simp
    then show ?thesis using False by simp
  qed
  moreover have "list_all (\<lambda>v. v \<le> 999) (map unat ms)" using m(2) by (auto simp: list_all_iff units_ok_def)
  moreover have "last (map unat ms) \<noteq> 0" using m(3,4) by (simp add: last_map unat_eq_0)
  ultimately show ?thesis by (auto simp: mantissa_ok_def c split: if_splits)
qed

text \<open>The fields of an encoded number.\<close>

lemma encoded_fields:
  assumes e: "encodable dn" "\<not> decNumberIsSpecial dn" "coeff dn \<noteq> 0"
  defines "bytes \<equiv> bits_bytes (number_code dn)" and "ms \<equiv> mantissa_units dn"
  shows "2 \<le> length bytes" "blob_ok bytes" "blob_neg bytes = decNumberIsNegative dn"
    "blob_exponent bytes = adjusted dn" "blob_declets bytes = length ms" "blob_chunks bytes = map unat ms"
proof -
  have ok: "dn_ok dn" and A: "\<bar>adjusted dn\<bar> \<le> 999999999" and d39: "digits dn \<le> 39"
    using e by (auto simp: encodable_def DECNUMDIGITS_def)
  note m = mantissa_units_spec [OF ok e(3) refl, folded ms_def]
  obtain k where k: "k < 8" "bytes_bits bytes = number_code dn @ replicate k False"
    using bytes_bits_bits_bytes [of "number_code dn"] by (auto simp: bytes_def)
  have "headed (decNumberIsNegative dn) (adjusted dn) (declets ms @ replicate k False) bytes"
    using k(2) A by (simp add: headed_def number_code_def ms_def)
  note f = headed_fields [OF this]
  have l1: "1 \<le> length ms" using m(3) by (cases ms) auto
  show "2 \<le> length bytes" using f(5,7) l1 by simp
  show "blob_neg bytes = decNumberIsNegative dn" "blob_exponent bytes = adjusted dn" by (rule f(3), rule f(4))
  show n: "blob_declets bytes = length ms" unfolding blob_declets_def f(5) using k(1) by simp
  show ch: "blob_chunks bytes = map unat ms"
    unfolding blob_chunks_def n f(6) by (rule chunks_declets [OF m(2)])
  have "length ms \<le> DECNUMUNITS"
    using m(1) d39 ok by (auto simp: D2U_eq dn_ok_def)
  then show "blob_ok bytes"
    using f(1-3) n l1 ch mantissa_units_ok [OF ok e(3) refl] by (simp add: blob_ok_def ms_def)
qed

lemma encoded_coeff:
  assumes e: "encodable dn" "\<not> decNumberIsSpecial dn" "coeff dn \<noteq> 0"
  defines "bytes \<equiv> bits_bytes (number_code dn)" and "n \<equiv> length (mantissa_units dn)"
  shows "n \<le> D2U (digits dn)" "blob_coeff bytes * 1000 ^ (D2U (digits dn) - n) = aligned dn" "blob_coeff bytes \<noteq> 0"
proof -
  have ok: "dn_ok dn" using e by (auto simp: encodable_def)
  note m = mantissa_units_spec [OF ok e(3) refl] and f = encoded_fields [OF e, folded bytes_def n_def]
  obtain z where z: "D2U (digits dn) = z + n" "signed_aligned dn = 1000 ^ z * units_val (rev (mantissa_units dn))"
    using m(1) by (auto simp: n_def)
  then show "n \<le> D2U (digits dn)" by simp
  define W where "W = units_val (rev (mantissa_units dn))"
  have "rev (map of_nat (map unat (mantissa_units dn))) = rev (mantissa_units dn)" by (simp add: comp_def)
  then have c: "blob_coeff bytes = (if decNumberIsNegative dn then 1000 ^ n - W else W)"
    unfolding blob_coeff_def f(3,5,6) Let_def W_def by simp
  have s: "signed_aligned dn = 1000 ^ z * W" using z by (simp add: W_def)
  have a: "aligned dn < 1000 ^ z * 1000 ^ n" using aligned_bounds(2) [OF ok e(3)] z(1) by (simp add: power_add)
  have "blob_coeff bytes * 1000 ^ z = aligned dn"
  proof (cases "decNumberIsNegative dn")
    case True
    then have "1000 ^ z * 1000 ^ n - aligned dn = 1000 ^ z * W"
      using s z(1) by (simp add: signed_aligned_def power_add)
    then have "aligned dn = 1000 ^ z * 1000 ^ n - 1000 ^ z * W" using a by linarith
    then show ?thesis using True c by (simp add: algebra_simps)
  next
    case False
    then show ?thesis using s c by (simp add: signed_aligned_def)
  qed
  then show "blob_coeff bytes * 1000 ^ (D2U (digits dn) - n) = aligned dn" using z(1) by simp
  then show "blob_coeff bytes \<noteq> 0" using aligned_pos [OF ok e(3)] by (intro notI) simp
qed

section \<open>What a number stands for\<close>

text \<open>The place of a number among the kinds of numbers, from \<open>-NaN\<close> up to \<open>NaN\<close>.\<close>

definition dn_rank :: "decNumber \<Rightarrow> nat" where
  "dn_rank dn =
     (if decNumberIsSpecial dn then
        (if decNumberIsInfinite dn then (if decNumberIsNegative dn then 1 else 6)
         else (if decNumberIsNegative dn then 0 else 7))
      else if coeff dn = 0 then (if decNumberIsNegative dn then 3 else 4)
      else (if decNumberIsNegative dn then 2 else 5))"

definition dn_key :: "decNumber \<Rightarrow> nat \<times> rat" where
  "dn_key dn = (dn_rank dn, if decNumberIsSpecial dn then 0 else dn_value dn)"

lemma pow1000: "(1000 :: rat) ^ n = 10 powi (3 * int n)"
proof -
  have "(1000 :: rat) ^ n = (10 ^ 3) ^ n" by simp
  also have "\<dots> = 10 ^ (3 * n)" by (simp only: power_mult)
  also have "\<dots> = 10 powi int (3 * n)" by (simp only: power_int_of_nat)
  finally show ?thesis by simp
qed

text \<open>The significand as a fraction, at least 1/10 and below 1.\<close>

definition dn_frac :: "decNumber \<Rightarrow> rat" where
  "dn_frac dn = of_nat (aligned dn) / 1000 ^ D2U (digits dn)"

lemma dn_value_frac:
  assumes "0 \<le> digits dn"
  shows "dn_value dn = (if decNumberIsNegative dn then - 1 else 1) * dn_frac dn * 10 powi (adjusted dn + 1)"
proof -
  define D d where "D = D2U (digits dn)" and "d = nat (digits dn)"
  have d: "digits dn = int d" using assms by (simp add: d_def)
  have "d \<le> 3 * D" using D2U_eq [OF assms] d by (simp add: D_def nat_div_distrib nat_add_distrib)
  then have "(10 :: rat) ^ (3 * D - d) = 10 powi (3 * int D - int d)"
    by (metis of_nat_diff of_nat_mult of_nat_numeral power_int_of_nat)
  then have a: "of_nat (aligned dn) = of_nat (coeff dn) * (10 :: rat) powi (3 * int D - int d)"
    by (simp add: aligned_def flip: D_def d_def)
  have "dn_frac dn * 10 powi (adjusted dn + 1) =
      of_nat (coeff dn) * (10 powi (3 * int D - int d) * 10 powi (- (3 * int D)) * 10 powi (adjusted dn + 1))"
    by (simp add: dn_frac_def a pow1000 power_int_minus field_simps flip: D_def)
  also have "10 powi (3 * int D - int d) * 10 powi (- (3 * int D)) * 10 powi (adjusted dn + 1) = (10 :: rat) powi exponent dn"
    by (simp add: adjusted_def d flip: power_int_add)
  finally show ?thesis by (simp add: dn_value_def)
qed

lemma encode_single [simp]: "decNumberIsSpecial dn \<or> coeff dn = 0 \<Longrightarrow> length (encode dn) = 1"
  by (auto simp: encode_def)

lemma decode_special:
  assumes s: "decNumberIsSpecial dn \<or> dn_ok dn \<and> coeff dn = 0" and l: "length (lsu dn0) = DECNUMUNITS"
  shows "\<exists>dn'. decInfiniteToNumber (encode dn) dn0 = Some (True, dn') \<and> dn_key dn' = dn_key dn \<and> encodable dn'"
proof -
  obtain u us where us: "lsu dn0 = u # us" using l by (cases "lsu dn0") auto
  have c: "coeff (decNumberZero dn0\<lparr>bits := b\<rparr>) = 0" "coeff (decNumberZero dn0) = 0" for b
    by (simp_all add: coeff_def decNumberZero_def D2U_eq us)
  have "dn_value dn = 0" if "coeff dn = 0" using that by (simp add: dn_value_def)
  then show ?thesis
    using s c by (cases "decNumberIsSpecial dn"; cases "decNumberIsInfinite dn"; cases "decNumberIsNegative dn")
      (simp_all add: encode_def decInfiniteToNumber_def dn_key_def dn_rank_def decNumberIsSpecial_def
        decNumberIsInfinite_def decNumberIsNegative_def dn_value_def encodable_def dn_ok_def adjusted_def D2U_eq,
        simp_all add: decNumberZero_def us DECNUMDIGITS_def, use l us in \<open>simp_all add: D2U_eq\<close>)
qed

lemma decode_number:
  assumes e: "encodable dn" "\<not> decNumberIsSpecial dn" "coeff dn \<noteq> 0" and l: "length (lsu dn0) = DECNUMUNITS"
  shows "\<exists>dn'. decInfiniteToNumber (encode dn) dn0 = Some (True, dn') \<and> dn_key dn' = dn_key dn \<and> encodable dn'"
proof -
  let ?bytes = "bits_bytes (number_code dn)" and ?neg = "decNumberIsNegative dn"
  define n where "n = length (mantissa_units dn)"
  note f = encoded_fields [OF e, folded n_def] and c = encoded_coeff [OF e, folded n_def]
  have enc: "encode dn = ?bytes" using e by (simp add: encode_def)
  have "length ?bytes \<le> 2 ^ 29"
    using decInfiniteFromNumber_encode [OF e(1), of "replicate 24 0"] enc by auto
  then obtain us where us: "decInfiniteToNumber ?bytes dn0 = Some (True, dn0\<lparr>bits := (if ?neg then DECNEG else 0),
          exponent := adjusted dn - 3 * int n + 1, digits := 3 * int n, lsu := us\<rparr>)"
      "units_ok (take n us)" "units_val (take n us) = blob_coeff ?bytes" "length us = DECNUMUNITS"
    using decInfiniteToNumber_spec(1) [OF f(1) _ l f(2)] unfolding f(3-5) by blast
  define dn' where "dn' = dn0\<lparr>bits := (if ?neg then DECNEG else 0),
          exponent := adjusted dn - 3 * int n + 1, digits := 3 * int n, lsu := us\<rparr>"
  have D': "D2U (digits dn') = n" by (simp add: dn'_def D2U_eq)
  then have c': "coeff dn' = blob_coeff ?bytes" using us by (simp add: coeff_def) (simp add: dn'_def)
  have "aligned dn' = coeff dn'" unfolding aligned_def D' by (simp add: dn'_def)
  then have a': "aligned dn' * 1000 ^ (D2U (digits dn) - n) = aligned dn" using c(2) c' by simp
  have "dn_frac dn' = dn_frac dn"
  proof -
    have "of_nat (aligned dn) = (of_nat (aligned dn') * 1000 ^ (D2U (digits dn) - n) :: rat)"
      using a' by (metis of_nat_mult of_nat_numeral of_nat_power)
    moreover have "(1000 :: rat) ^ D2U (digits dn) = 1000 ^ n * 1000 ^ (D2U (digits dn) - n)"
      using c(1) by (simp flip: power_add)
    ultimately show ?thesis unfolding dn_frac_def D' by simp
  qed
  moreover have "adjusted dn' = adjusted dn" by (simp add: adjusted_def dn'_def)
  moreover have b: "decNumberIsNegative dn' = ?neg" "\<not> decNumberIsSpecial dn'"
    by (auto simp: dn'_def decNumberIsNegative_def decNumberIsSpecial_def)
  moreover have "0 \<le> digits dn" "0 \<le> digits dn'" using e by (auto simp: encodable_def dn_ok_def dn'_def)
  ultimately have "dn_value dn' = dn_value dn" by (simp add: dn_value_frac)
  then have "dn_key dn' = dn_key dn"
    using b e(2,3) c' c(3) by (simp add: dn_key_def dn_rank_def)
  moreover have "encodable dn'"
  proof -
    have ok: "dn_ok dn" "digits dn \<le> 39" "\<bar>adjusted dn\<bar> \<le> 999999999" using e by (auto simp: encodable_def DECNUMDIGITS_def)
    note b = aligned_bounds [OF ok(1) e(3)]
    obtain k where n: "n = Suc k" using c' c(3) us(3) by (cases n) auto
    have "100 * 1000 ^ k * 1000 ^ (D2U (digits dn) - n) = (100 * 1000 ^ (D2U (digits dn) - 1) :: nat)"
      using c(1) n by (simp flip: power_add)
    also have "\<dots> \<le> aligned dn' * 1000 ^ (D2U (digits dn) - n)" using b(1) a' by simp
    finally have "100 * 1000 ^ k \<le> coeff dn'" using \<open>aligned dn' = coeff dn'\<close> by simp
    moreover have "(10 :: nat) ^ (3 * n - 1) = 100 * 1000 ^ k" using n by (simp add: power_add power_mult)
    moreover have n13: "n \<le> 13" using c(1) ok by (simp add: D2U_eq dn_ok_def nat_le_iff)
    moreover have "coeff dn' < 1000 ^ n" using units_val_less [OF us(2)] c' us(3,4) n13 by (simp add: min_absorb2)
    moreover have "(10 :: nat) ^ (3 * n) = 1000 ^ n" by (simp add: power_mult)
    moreover have f: "digits dn' = 3 * int n" "lsu dn' = us" by (simp_all add: dn'_def)
    moreover have "nat (3 * int n) = 3 * n" "1 \<le> n" "D2U (3 * int n) = n" using n D' f by simp_all
    ultimately have "dn_ok dn'" unfolding dn_ok_def f using us(2,4) by simp
    then have "dn_ok dn'" "digits dn' \<le> int DECNUMDIGITS" "length (lsu dn') = DECNUMUNITS"
      using f n13 us(4) by (simp_all add: DECNUMDIGITS_def)
    then show ?thesis using ok(3) \<open>adjusted dn' = adjusted dn\<close> by (simp add: encodable_def)
  qed
  ultimately show ?thesis using us(1) by (auto simp: enc dn'_def)
qed

lemma decode_encode:
  assumes "encodable dn" "length (lsu dn0) = DECNUMUNITS"
  shows "\<exists>dn'. decInfiniteToNumber (encode dn) dn0 = Some (True, dn') \<and> dn_key dn' = dn_key dn \<and> encodable dn'"
  using decode_special [of dn dn0] decode_number [of dn dn0] assms by (auto simp: encodable_def)

section \<open>The format of a byte string\<close>

text \<open>
  The format, stated without the decoder: sign, exponent code, one to thirteen declets of at most 999 of which the last is not zero,
  and fewer than ten bits after them.  When there are several declets, the first is not zero for a positive number and at most 899
  for a negative one.  (The encoder writes significands without leading zeros: there, the first declet is at least 100.)
\<close>

definition blob_format :: "bool \<Rightarrow> int \<Rightarrow> nat list \<Rightarrow> uByte list \<Rightarrow> bool" where
  "blob_format neg A vs bytes \<longleftrightarrow>
     (\<exists>pad. length pad < 10 \<and> headed neg A (concat (map (low_bits 10) vs) @ pad) bytes) \<and>
     1 \<le> length vs \<and> length vs \<le> 13 \<and> list_all (\<lambda>v. v \<le> 999) vs \<and> last vs \<noteq> 0 \<and>
     (length vs = 1 \<or> (if neg then hd vs \<le> 899 else hd vs \<noteq> 0))"

text \<open>What it stands for: the declets are the digits after the decimal point of a fraction, as a tens complement for a negative number.\<close>

definition format_value :: "bool \<Rightarrow> int \<Rightarrow> nat list \<Rightarrow> rat" where
  "format_value neg A vs =
     (let f = of_nat (foldl (\<lambda>a v. 1000 * a + v) 0 vs) / 1000 ^ length vs
      in (if neg then - (1 - f) else f) * 10 powi (A + 1))"

lemma exp_bits_of_run:
  assumes m: "0 < m" and xs: "length xs = m"
  shows "exp_bits T (2 ^ m + bits_val (if T then xs else map Not xs) - 2) = replicate m T @ (\<not> T) # xs"
proof -
  let ?ys = "if T then xs else map Not xs"
  define E where "E = 2 ^ m + bits_val ?ys - 2"
  have "(2 :: nat) \<le> 2 ^ m" using power_increasing [of 1 m "2 :: nat"] m by simp
  then have E: "E + 2 = 2 ^ m + bits_val ?ys" by (simp add: E_def)
  have l: "length ?ys = m" using xs by simp
  have b: "bits_val ?ys < 2 ^ m" using bits_val_less [of ?ys] unfolding l .
  then have n: "nat_log2 (E + 2) = m" unfolding E by (intro nat_log2_unique) simp_all
  have "low_bits m (2 ^ m + bits_val ?ys) = ?ys"
    using b l by (subst bits_val_eq_iff [symmetric]) (simp_all add: bits_val_low_bits del: if_split)
  then show ?thesis
    unfolding E_def [symmetric] exp_bits_split n unfolding E by (cases T) (simp_all add: comp_def)
qed

lemma headed_intro:
  assumes "header_ok bytes" "exponent_ok bytes" "2 \<le> length bytes" "length bytes \<le> 32"
  shows "headed (blob_neg bytes) (blob_exponent bytes) (drop (mantissa_index bytes) (bytes_bits bytes)) bytes"
proof -
  let ?bits = "bytes_bits bytes" and ?m = "prefix_run bytes" and ?T = "bit (bytes ! 0) 4" and ?neg = "blob_neg bytes"
  have ml: "?m < 8 * length bytes - 3" and pc: "0 < prefix_count ?m" and room: "?m + 4 + prefix_count ?m \<le> 8 * length bytes"
    and field: "exponent_field bytes \<le> 999999999"
    using assms(2) by (simp_all add: exponent_ok_def Let_def)
  have "?m < 256" using ml assms(4) by simp
  then have n: "prefix_count ?m = ?m" using pc by (auto simp: prefix_count_def split: if_splits)
  have m0: "0 < ?m" using pc n by simp
  define xs where "xs = take ?m (drop (?m + 4) ?bits)"
  have lx: "length xs = ?m" using room n by (simp add: xs_def)
  have h3: "take 3 ?bits = sign_bits ?neg" and h6: "take 3 (drop 3 ?bits) \<noteq> [?neg, \<not> ?neg, \<not> ?neg]"
    using assms(1) by (auto simp: header_ok_def Let_def drop_take)
  have "drop 3 ?bits = replicate ?m ?T @ (\<not> ?T) # drop (Suc ?m) (drop 3 ?bits)"
    using run_less_split [of ?T "drop 3 ?bits"] ml by (simp add: prefix_run_def)
  also have "drop (Suc ?m) (drop 3 ?bits) = xs @ drop (mantissa_index bytes) ?bits"
    using append_take_drop_id [of ?m "drop (?m + 4) ?bits"] by (simp add: xs_def mantissa_index_def n add.commute add.left_commute numeral_eq_Suc)
  finally have d3: "drop 3 ?bits = exp_bits ?T (exponent_field bytes) @ drop (mantissa_index bytes) ?bits"
    unfolding exponent_field_def Let_def n xs_def [symmetric] exp_bits_of_run [OF m0 lx] by simp
  have T: "exponent_field bytes = 0 \<Longrightarrow> ?T = (\<not> ?neg)"
  proof (rule ccontr)
    assume z: "exponent_field bytes = 0" "?T \<noteq> (\<not> ?neg)"
    have "exp_bits ?T 0 = [?T, \<not> ?T, \<not> ?T]" by (cases ?T) (simp_all, code_simp+)
    then show False using h6 z d3 by simp
  qed
  have "exp_code ?neg (blob_exponent bytes) = exp_bits ?T (exponent_field bytes)"
  proof (cases "exponent_field bytes = 0")
    case True
    then show ?thesis using T by (simp add: exp_code_def blob_exponent_def)
  next
    case False
    then show ?thesis by (auto simp: exp_code_def blob_exponent_def blob_neg_def)
  qed
  moreover have "?bits = sign_bits ?neg @ drop 3 ?bits" using append_take_drop_id [of 3 ?bits] h3 by simp
  ultimately show ?thesis using d3 field by (auto simp: headed_def blob_exponent_def)
qed

lemma concat_chunks: "10 * k \<le> length bs \<Longrightarrow> concat (map (low_bits 10) (chunks k bs)) = take (10 * k) bs"
proof (induction k arbitrary: bs)
  case (Suc k)
  have "low_bits 10 (bits_val (take 10 bs)) = take 10 bs" using low_bits_bits_val [of "take 10 bs"] Suc.prems by simp
  then show ?case using Suc by (simp add: take_add)
qed simp

lemma chunks_concat: "list_all (\<lambda>v. v \<le> 999) vs \<Longrightarrow> chunks (length vs) (concat (map (low_bits 10) vs) @ bs) = vs"
  by (induction vs) (auto simp: bits_val_low_bits)

lemma blob_ok_format:
  assumes "2 \<le> length bytes" "length bytes \<le> 32" "blob_ok bytes"
  shows "blob_format (blob_neg bytes) (blob_exponent bytes) (blob_chunks bytes) bytes"
proof -
  let ?rest = "drop (mantissa_index bytes) (bytes_bits bytes)" and ?n = "blob_declets bytes"
  have h: "headed (blob_neg bytes) (blob_exponent bytes) ?rest bytes"
    using headed_intro assms by (simp add: blob_ok_def)
  have l: "?n = length ?rest div 10" by (simp add: blob_declets_def)
  have "concat (map (low_bits 10) (blob_chunks bytes)) = take (10 * ?n) ?rest"
    unfolding blob_chunks_def by (rule concat_chunks) (unfold l, simp)
  then have "?rest = concat (map (low_bits 10) (blob_chunks bytes)) @ drop (10 * ?n) ?rest" by (simp only: append_take_drop_id)
  moreover have "length (drop (10 * ?n) ?rest) < 10" unfolding l by (simp add: minus_mult_div_eq_mod)
  ultimately have "\<exists>pad. length pad < 10 \<and>
      headed (blob_neg bytes) (blob_exponent bytes) (concat (map (low_bits 10) (blob_chunks bytes)) @ pad) bytes"
    using h by metis
  moreover have "length (blob_chunks bytes) = ?n" by (simp add: blob_chunks_def)
  ultimately show ?thesis using assms(3) by (auto simp: blob_format_def blob_ok_def mantissa_ok_def)
qed

lemma blob_format_ok:
  assumes "blob_format neg A vs bytes"
  shows "blob_ok bytes" "blob_neg bytes = neg" "blob_exponent bytes = A" "blob_chunks bytes = vs" "blob_declets bytes = length vs"
    "2 \<le> length bytes"
proof -
  have v: "1 \<le> length vs" "length vs \<le> 13" "list_all (\<lambda>v. v \<le> 999) vs" "mantissa_ok neg vs"
    using assms by (auto simp: blob_format_def mantissa_ok_def)
  obtain pad where pad: "length pad < 10" "headed neg A (concat (map (low_bits 10) vs) @ pad) bytes"
    using assms by (auto simp: blob_format_def)
  note f = headed_fields [OF pad(2)]
  have lc: "length (concat (map (low_bits 10) vs)) = 10 * length vs" by (induction vs) auto
  show "blob_neg bytes = neg" "blob_exponent bytes = A" by (rule f(3), rule f(4))
  show n: "blob_declets bytes = length vs" unfolding blob_declets_def f(5) length_append lc using pad(1) by simp
  show c: "blob_chunks bytes = vs" unfolding blob_chunks_def f(6) n by (rule chunks_concat [OF v(3)])
  show "2 \<le> length bytes" using f(5,7) lc v(1) by simp
  show "blob_ok bytes" using f(1-3) v n c by (simp add: blob_ok_def)
qed

lemma declets_value:
  "list_all (\<lambda>v. v \<le> 999) vs \<Longrightarrow> units_val (rev (map of_nat vs)) = foldl (\<lambda>a v. 1000 * a + v) 0 vs"
  by (induction vs rule: rev_induct) (auto simp: unat_of_nat)

lemma declets_value_bounds:
  "list_all (\<lambda>v. v \<le> 999) vs \<Longrightarrow> foldl (\<lambda>a v. 1000 * a + v) 0 vs < (1000 :: nat) ^ length vs"
  "vs \<noteq> [] \<Longrightarrow> last vs \<noteq> 0 \<Longrightarrow> foldl (\<lambda>a v. 1000 * a + v) 0 vs \<noteq> (0 :: nat)"
  by (induction vs rule: rev_induct) auto

lemma decode_format:
  assumes f: "blob_format neg A vs bytes" and len: "length bytes \<le> 32" and l: "length (lsu dn) = DECNUMUNITS"
  shows "\<exists>dn'. decInfiniteToNumber bytes dn = Some (True, dn') \<and> dn_key dn' = (if neg then 2 else 5, format_value neg A vs)"
proof -
  note b = blob_format_ok [OF f]
  define n V where "n = length vs" and "V = foldl (\<lambda>a v. 1000 * a + v) (0 :: nat) vs"
  have v: "list_all (\<lambda>v. v \<le> 999) vs" "vs \<noteq> []" "last vs \<noteq> 0" using f by (auto simp: blob_format_def)
  have V: "V < 1000 ^ n" "V \<noteq> 0" using declets_value_bounds [of vs] v by (simp_all add: V_def n_def)
  have c: "blob_coeff bytes = (if neg then 1000 ^ n - V else V)"
    unfolding blob_coeff_def b Let_def declets_value [OF v(1)] by (simp add: V_def n_def)
  have "length bytes \<le> 2 ^ 29" using len by (rule le_trans) simp
  then obtain us where us: "decInfiniteToNumber bytes dn = Some (True, dn\<lparr>bits := (if neg then DECNEG else 0),
          exponent := A - 3 * int n + 1, digits := 3 * int n, lsu := us\<rparr>)"
      "units_val (take n us) = blob_coeff bytes"
    using decInfiniteToNumber_spec(1) [OF b(6) _ l b(1)] unfolding b(2-5) n_def by blast
  define dn' where "dn' = dn\<lparr>bits := (if neg then DECNEG else 0), exponent := A - 3 * int n + 1, digits := 3 * int n, lsu := us\<rparr>"
  have D: "D2U (digits dn') = n" by (simp add: dn'_def D2U_eq)
  then have c': "coeff dn' = (if neg then 1000 ^ n - V else V)" using us(2) c by (simp add: coeff_def) (simp add: dn'_def)
  have s: "decNumberIsNegative dn' = neg" "\<not> decNumberIsSpecial dn'"
    by (auto simp: dn'_def decNumberIsNegative_def decNumberIsSpecial_def)
  have "(10 :: rat) powi (A - 3 * int n + 1) = 10 powi (A + 1) / 1000 ^ n"
    unfolding pow1000 by (simp add: algebra_simps flip: power_int_diff)
  then have "dn_value dn' = format_value neg A vs"
    using V unfolding dn_value_def s(1) c' format_value_def Let_def V_def [symmetric] n_def [symmetric]
    by (simp add: dn'_def of_nat_diff field_simps)
  moreover have "coeff dn' \<noteq> 0" using V c' by simp
  ultimately have "dn_key dn' = (if neg then 2 else 5, format_value neg A vs)" using s by (simp add: dn_key_def dn_rank_def)
  then show ?thesis using us(1) by (auto simp: dn'_def)
qed

section \<open>Properties\<close>

text \<open>
  C2: decoding what was encoded gives the number back.  Whatever the buffer and whatever the number the result is
  decoded into held before, the decoder accepts the encoding and returns a number of the same kind, sign and value.
\<close>

theorem round_trip:
  assumes "encodable dn" "DECINF_MAXSIZE \<le> length result" "length (lsu dn0) = DECNUMUNITS"
  shows "\<exists>a dn'. blob result dn = Some a \<and> decInfiniteToNumber a dn0 = Some (True, dn') \<and> dn_key dn' = dn_key dn"
  using decode_encode [OF assms(1,3)] blob_encode [OF assms(1,2)] by auto

theorem round_trip_witness:
  "\<exists>a dn'. blob (replicate 24 7) (sample True) = Some a \<and> decInfiniteToNumber a (sample False) = Some (True, dn') \<and>
    dn_key dn' = dn_key (sample True)"
  using round_trip [OF encodable_sample, of "replicate 24 7" "sample False" True] by simp

text \<open>
  C18: what the decoder does with any byte string of 1 to 32 bytes (an encoding has at most 24; the eight-bit count of
  the exponent's prefix, which \<open>overlong_prefix_accepted\<close> is about, cannot wrap there).  A single byte is accepted exactly when it is one
  of the six codes, and gives the number it stands for.  A longer string is accepted exactly when it has the format, which is stated
  without the decoder, and then gives a number with the sign and the value of the format; every other string is refused.  The one
  exception is a string that ends before its first declet is complete, where the decoder uses the first unit of the old contents of the
  result: if that is not zero, it accesses memory outside the number.
\<close>

definition single_byte_codes :: "(uByte \<times> nat) list" where
  "single_byte_codes = [(0x00, 0), (0x20, 1), (0x60, 3), (0x80, 4), (0xC0, 6), (0xE0, 7)]"

theorem decoder_reads_format:
  assumes "bytes \<noteq> []" "length bytes \<le> 32" "length (lsu dn) = DECNUMUNITS"
  shows "case decInfiniteToNumber bytes dn of
     None \<Rightarrow> 1 < length bytes \<and> lsu dn ! 0 \<noteq> 0 \<and> (\<exists>neg A rest. headed neg A rest bytes \<and> length rest < 10)
   | Some (True, dn') \<Rightarrow>
       if length bytes = 1 then map_of single_byte_codes (hd bytes) = Some (dn_rank dn')
       else (\<exists>neg A vs. blob_format neg A vs bytes \<and> dn_key dn' = (if neg then 2 else 5, format_value neg A vs))
   | Some (False, dn') \<Rightarrow>
       if length bytes = 1 then map_of single_byte_codes (hd bytes) = None
       else \<not> (\<exists>neg A vs. blob_format neg A vs bytes)"
proof (cases "length bytes = 1")
  case True
  then obtain b where b: "bytes = [b]" by (cases bytes) auto
  obtain u us where us: "lsu dn = u # us" using assms(3) by (cases "lsu dn") auto
  show ?thesis
    by (auto simp: b decInfiniteToNumber_def single_byte_codes_def Let_def dn_rank_def decNumberIsSpecial_def decNumberIsInfinite_def
        decNumberIsNegative_def decNumberZero_def us coeff_def D2U_eq)
next
  case False
  then have l: "2 \<le> length bytes" using assms(1) by (cases bytes) (auto simp: Suc_le_eq)
  have l29: "length bytes \<le> 2 ^ 29" using assms(2) by (rule le_trans) simp
  consider (ok) "blob_ok bytes" | (empty) "header_ok bytes" "exponent_ok bytes" "blob_declets bytes = 0"
    | (bad) "\<not> blob_ok bytes" "\<not> (header_ok bytes \<and> exponent_ok bytes \<and> blob_declets bytes = 0)" by metis
  then show ?thesis
  proof cases
    case ok
    note f = blob_ok_format [OF l assms(2) ok]
    obtain dn' where d: "decInfiniteToNumber bytes dn = Some (True, dn')"
        "dn_key dn' = (if blob_neg bytes then 2 else 5, format_value (blob_neg bytes) (blob_exponent bytes) (blob_chunks bytes))"
      using decode_format [OF f assms(2,3)] by blast
    then have "\<exists>neg A vs. blob_format neg A vs bytes \<and> dn_key dn' = (if neg then 2 else 5, format_value neg A vs)"
      using f by blast
    then show ?thesis unfolding d(1) using False by (simp only: option.case prod.case bool.case if_False)
  next
    case empty
    have "length (drop (mantissa_index bytes) (bytes_bits bytes)) < 10" using empty(3) by (simp add: blob_declets_def div_eq_0_iff)
    then have "\<exists>neg A rest. headed neg A rest bytes \<and> length rest < 10" using headed_intro [OF empty(1,2) l assms(2)] by blast
    moreover have "\<not> blob_format neg A vs bytes" for neg A vs
      using blob_format_ok(1) [of neg A vs bytes] empty(3) by (auto simp: blob_ok_def)
    ultimately show ?thesis
      using decInfiniteToNumber_spec(3) [OF l l29 assms(3) empty] False l
      by (auto split: if_splits)
  next
    case bad
    then show ?thesis
      using decInfiniteToNumber_spec(2) [OF l l29 assms(3) bad] blob_format_ok(1) [of _ _ _ bytes] False by auto
  qed
qed

theorem decoder_reads_format_witness:
  "\<exists>neg A vs. blob_format neg A vs [0x90, 0x64] \<and>
     dn_key \<lparr>digits = 3, exponent = - 2, bits = 0, lsu = [100, 1] @ replicate 11 0\<rparr> = (if neg then 2 else 5, format_value neg A vs)"
proof -
  have "decInfiniteToNumber [0x90, 0x64] (sample False) =
      Some (True, \<lparr>digits = 3, exponent = - 2, bits = 0, lsu = [100, 1] @ replicate 11 0\<rparr>)"
    by code_simp
  then show ?thesis using decoder_reads_format [of "[0x90, 0x64]" "sample False"] by simp
qed

text \<open>
  C19: a number decoded from a string of 2 to 2^29 bytes is finite, has 3, 6, ... or 39 digits, all its units are
  below 1000, and its adjusted exponent is within nine digits.
\<close>

theorem decoded_in_range:
  assumes "2 \<le> length bytes" "length bytes \<le> 2 ^ 29" "length (lsu dn) = DECNUMUNITS"
    and "decInfiniteToNumber bytes dn = Some (True, dn')"
  shows "decNumberIsFinite dn' \<and> (\<exists>n. 1 \<le> n \<and> n \<le> DECNUMUNITS \<and> digits dn' = 3 * int n \<and> units_ok (take n (lsu dn'))) \<and>
    length (lsu dn') = DECNUMUNITS \<and> \<bar>adjusted dn'\<bar> \<le> 999999999"
proof -
  have ok: "blob_ok bytes"
  proof (rule ccontr)
    assume "\<not> blob_ok bytes"
    then show False
      using decInfiniteToNumber_spec(2,3) [OF assms(1-3)] assms(4)
      by (cases "header_ok bytes \<and> exponent_ok bytes \<and> blob_declets bytes = 0") (auto split: if_splits)
  qed
  then have "\<bar>blob_exponent bytes\<bar> \<le> 999999999"
    by (auto simp: blob_ok_def exponent_ok_def Let_def blob_exponent_def)
  then show ?thesis
    using decInfiniteToNumber_spec(1) [OF assms(1-3) ok] assms(4) ok
    by (auto simp: decNumberIsFinite_def adjusted_def blob_ok_def)
qed

theorem decoded_in_range_witness:
  "let dn' = \<lparr>digits = 3, exponent = - 2, bits = 0, lsu = [100, 1] @ replicate 11 0\<rparr> in
   decNumberIsFinite dn' \<and> (\<exists>n. 1 \<le> n \<and> n \<le> DECNUMUNITS \<and> digits dn' = 3 * int n \<and> units_ok (take n (lsu dn'))) \<and>
    length (lsu dn') = DECNUMUNITS \<and> \<bar>adjusted dn'\<bar> \<le> 999999999"
proof -
  have d: "decInfiniteToNumber [0x90, 0x64] (sample False) =
      Some (True, \<lparr>digits = 3, exponent = - 2, bits = 0, lsu = [100, 1] @ replicate 11 0\<rparr>)"
    by code_simp
  show ?thesis unfolding Let_def by (rule decoded_in_range [OF _ _ _ d]) simp_all
qed

section \<open>Strings the encoder does not write\<close>

text \<open>
  The decoder is more liberal than the format.  A string that ends with its exponent makes it use a unit it has not set
  (here the unit is not zero, and the access is outside the number); a significand with leading zeros is accepted, and
  the number it gives is not well formed, so that encoding it again does not give the string back; a unary prefix 256 bits
  too long is accepted, because the length of the prefix is counted modulo 256.
\<close>

lemma empty_significand_reads_outside: "decInfiniteToNumber [0x98, 0x00] (sample False) = None"
  by code_simp

lemma leading_zeros_accepted:
  "\<exists>dn'. decInfiniteToNumber [0x90, 0x05] (sample False) = Some (True, dn') \<and> \<not> dn_ok dn' \<and>
     blob (replicate 24 0) dn' = Some [0x90, 0x01, 0x7D, 0x00]"
proof -
  let ?dn = "\<lparr>digits = 3, exponent = - 2, bits = 0, lsu = [5, 1] @ replicate 11 0\<rparr>"
  have "decInfiniteToNumber [0x90, 0x05] (sample False) = Some (True, ?dn)" by code_simp
  moreover have "blob (replicate 24 0) ?dn = Some [0x90, 0x01, 0x7D, 0x00]" by code_simp
  moreover have "\<not> dn_ok ?dn" by (simp add: dn_ok_def coeff_def D2U_eq)
  ultimately show ?thesis by blast
qed

lemma overlong_prefix_accepted:
  "decInfiniteToNumber ([0x9F] @ replicate 31 0xFF @ [0xF0, 0x64]) (sample False) =
   Some (True, \<lparr>digits = 3, exponent = - 2, bits = 0, lsu = [100, 1] @ replicate 11 0\<rparr>)"
  by code_simp

lemma empty_string_reads_outside: "decInfiniteToNumber [] dn = None"
  by (simp add: decInfiniteToNumber_def)

text \<open>The position \<^verbatim>\<open>advanceToMantissa\<close> (which no code calls) computes is two bits short, and its count of free bits is the
  count of the bits used: for \<open>1\<close> it gives bit 4 of byte 0 where the significand starts at bit 6.\<close>

lemma advanceToMantissa_off:
  "advanceToMantissa \<lparr>pos = 0, free = 5\<rparr> [0x90, 0x64] = Some (Ret \<lparr>pos = 0, free = 4\<rparr>)" "mantissa_index [0x90, 0x64] = 6"
  by code_simp+

end
