(* ===== verification/DecInfiniteOrder.thy ===== *)
theory DecInfiniteOrder
  imports DecInfiniteRead
begin

text \<open>
  The purpose of the decimalInfinite format: the database compares encoded numbers as byte strings
  (\<^verbatim>\<open>memcmp\<close>, then length), and that order is the order of the numbers.  The proof goes through the
  bits: the code of the exponents is a prefix code that is monotone, the declets compare like
  the fractions they stand for, and the zeroes that fill the last byte do no harm.
\<close>

section \<open>Lexicographic order\<close>

fun lex_less :: "'a::linorder list \<Rightarrow> 'a list \<Rightarrow> bool" where
  "lex_less xs [] = False"
| "lex_less [] (y # ys) = True"
| "lex_less (x # xs) (y # ys) = (x < y \<or> x = y \<and> lex_less xs ys)"

lemma lex_less_irrefl [simp]: "\<not> lex_less xs xs"
  by (induction xs) auto

lemma lex_less_trans: "lex_less xs ys \<Longrightarrow> lex_less ys zs \<Longrightarrow> lex_less xs zs"
proof (induction xs ys arbitrary: zs rule: lex_less.induct)
  case (2 y ys)
  then show ?case by (cases zs) auto
next
  case (3 x xs y ys)
  then show ?case by (cases zs) auto
qed simp

lemma lex_less_asym: "lex_less xs ys \<Longrightarrow> \<not> lex_less ys xs"
  using lex_less_trans lex_less_irrefl by blast

lemma lex_less_total: "lex_less xs ys \<or> xs = ys \<or> lex_less ys xs"
proof (induction xs arbitrary: ys)
  case Nil
  then show ?case by (cases ys) auto
next
  case (Cons x xs)
  then show ?case by (cases ys) auto
qed

lemma lex_less_append [simp]: "lex_less (p @ xs) (p @ ys) = lex_less xs ys"
  by (induction p) auto

lemma lex_less_append_same_length:
  "length as = length bs \<Longrightarrow> lex_less (as @ xs) (bs @ ys) \<longleftrightarrow> lex_less as bs \<or> as = bs \<and> lex_less xs ys"
  by (induction as bs rule: list_induct2) auto

lemma lex_less_bits_val: "length xs = length ys \<Longrightarrow> lex_less xs ys \<longleftrightarrow> bits_val xs < bits_val ys"
proof (induction xs ys rule: list_induct2)
  case (Cons x xs y ys)
  then show ?case
    using bits_val_less [of xs] bits_val_less [of ys] by (cases x; cases y) auto
qed simp

lemma lex_less_zeros: "k < length zs \<Longrightarrow> lex_less (replicate k False) zs"
proof (induction zs arbitrary: k)
  case (Cons z zs)
  then show ?case by (cases k; cases z) auto
qed simp

lemma lex_less_bytes: "lex_less (bytes_bits xs) (bytes_bits ys) \<longleftrightarrow> lex_less xs ys"
proof (induction xs ys rule: lex_less.induct)
  case (1 xs)
  then show ?case by simp
next
  case (2 y ys)
  then show ?case using lex_less_zeros [of 0 "bytes_bits (y # ys)"] by simp
next
  case (3 x xs y ys)
  have "lex_less (low_bits 8 x) (low_bits 8 y) \<longleftrightarrow> x < y"
    using bits_val_word [of x] bits_val_word [of y] by (simp add: lex_less_bits_val word_less_nat_alt)
  then show ?case using 3 by (simp add: lex_less_append_same_length byte_bits_inj)
qed

text \<open>Two strings that differ at a position inside both: what follows does not matter.\<close>

definition diff_less :: "bool list \<Rightarrow> bool list \<Rightarrow> bool" where
  "diff_less xs ys \<longleftrightarrow> (\<exists>p a b. xs = p @ False # a \<and> ys = p @ True # b)"

lemma diff_less_lex: "diff_less xs ys \<Longrightarrow> lex_less (p @ xs @ as) (p @ ys @ bs)"
  by (auto simp: diff_less_def)

lemma diff_less_append: "diff_less xs ys \<Longrightarrow> diff_less (p @ xs) (p @ ys)"
  unfolding diff_less_def by (metis append.assoc)

lemma diff_less_Not: "diff_less xs ys \<Longrightarrow> diff_less (map Not ys) (map Not xs)"
  by (auto simp: diff_less_def) blast

lemma diff_less_same_length:
  "length xs = length ys \<Longrightarrow> bits_val xs < bits_val ys \<Longrightarrow> diff_less xs ys"
proof (induction xs ys rule: list_induct2)
  case (Cons x xs y ys)
  show ?case
  proof (cases "x = y")
    case True
    then have "diff_less xs ys" using Cons by auto
    then show ?thesis using diff_less_append [of xs ys "[x]"] True by simp
  next
    case False
    then have "\<not> x" "y" using Cons bits_val_less [of ys] by (cases x; cases y; simp)+
    then show ?thesis unfolding diff_less_def by (metis append_Nil)
  qed
qed simp

section \<open>Exponents\<close>

lemma gamma_mono: "E < E' \<Longrightarrow> diff_less (gamma E) (gamma E')"
proof -
  assume E: "E < E'"
  define v v' n n' where "v = E + 2" and "v' = E' + 2" and "n = nat_log2 v" and "n' = nat_log2 v'"
  have le: "n \<le> n'" unfolding n_def n'_def v_def v'_def using E by (intro nat_log2_mono) simp
  have b: "2 ^ n \<le> v" "v < 2 * 2 ^ n" "2 ^ n' \<le> v'" "v' < 2 * 2 ^ n'"
    using nat_log2_bounds [of v] nat_log2_bounds [of v'] by (simp_all add: v_def v'_def n_def n'_def)
  have g: "gamma E = replicate n True @ False # low_bits n v" "gamma E' = replicate n' True @ False # low_bits n' v'"
    by (simp_all add: gamma_def v_def v'_def n_def n'_def Let_def)
  show ?thesis
  proof (cases "n = n'")
    case True
    have "v mod 2 ^ n < v' mod 2 ^ n" using b E True by (simp add: le_mod_geq v_def v'_def)
    then have "diff_less (low_bits n v) (low_bits n v')"
      by (intro diff_less_same_length) (simp_all add: bits_val_low_bits)
    then show ?thesis
      using diff_less_append [of _ _ "replicate n True @ [False]"] g True by simp
  next
    case False
    then have "n' = n + Suc (n' - n - 1)" using le by simp
    then have "gamma E' = replicate n True @ True # replicate (n' - n - 1) True @ False # low_bits n' v'"
      using g(2) by (metis append.assoc append_Cons replicate_Suc replicate_add)
    then show ?thesis using g(1) by (auto simp: diff_less_def)
  qed
qed

lemma exp_code_neg: "exp_code True A = map Not (exp_code False A)"
  by (simp add: exp_code_def exp_bits_def comp_def)

lemma hd_exp_code: "\<exists>xs. exp_code False A = (0 \<le> A) # xs"
proof -
  have "\<exists>xs. gamma E = True # xs" for E
  proof -
    have "0 < nat_log2 (E + 2)" using nat_log2.simps [of "E + 2"] by simp
    then show ?thesis by (cases "nat_log2 (E + 2)") (auto simp: gamma_def)
  qed
  then show ?thesis by (cases "0 \<le> A") (auto simp: exp_code_def exp_bits_def, metis (full_types) list.simps(9))
qed

lemma exp_code_mono:
  assumes "A < B"
  shows "diff_less (exp_code False A) (exp_code False B)"
proof -
  consider "0 \<le> A" "0 \<le> B" | "A < 0" "B < 0" | "A < 0" "0 \<le> B" using assms by linarith
  then show ?thesis
  proof cases
    case 1
    then show ?thesis using gamma_mono [of "nat \<bar>A\<bar>" "nat \<bar>B\<bar>"] assms by (simp add: exp_code_def exp_bits_def)
  next
    case 2
    then show ?thesis
      using diff_less_Not [OF gamma_mono [of "nat \<bar>B\<bar>" "nat \<bar>A\<bar>"]] assms by (simp add: exp_code_def exp_bits_def)
  next
    case 3
    then show ?thesis
      using hd_exp_code [of A] hd_exp_code [of B] unfolding diff_less_def by (metis append_Nil not_le)
  qed
qed

section \<open>Significands\<close>

primrec unit_frac :: "Unit list \<Rightarrow> rat" where
  "unit_frac [] = 0"
| "unit_frac (u # us) = (of_nat (unat u) + unit_frac us) / 1000"

lemma unit_frac_bounds: "units_ok us \<Longrightarrow> 0 \<le> unit_frac us \<and> unit_frac us < 1"
proof (induction us)
  case (Cons u us)
  have "of_nat (unat u) \<le> (999 :: rat)"
  proof -
    have "unat u \<le> 999" using Cons.prems by simp
    then show ?thesis by (metis of_nat_le_iff of_nat_numeral)
  qed
  moreover have "(0 :: rat) \<le> of_nat (unat u)" by (rule of_nat_0_le_iff)
  ultimately show ?case using Cons by (auto simp: field_simps)
qed simp

lemma unit_frac_val: "unit_frac us = of_nat (units_val (rev us)) / 1000 ^ length us"
  by (induction us) (auto simp: units_val_append field_simps)

definition stripped :: "Unit list \<Rightarrow> bool" where
  "stripped us \<longleftrightarrow> us = [] \<or> last us \<noteq> 0"

lemma unit_frac_pos: "stripped us \<Longrightarrow> us \<noteq> [] \<Longrightarrow> 0 < unit_frac us"
proof -
  assume "stripped us" "us \<noteq> []"
  then have "units_val (rev us) \<noteq> 0" unfolding units_val_zero_iff stripped_def by auto
  then show ?thesis by (simp add: unit_frac_val)
qed

lemma unit_frac_less_Cons:
  assumes "units_ok (u # us)" "units_ok (v # vs)" "unat u < unat v"
  shows "unit_frac (u # us) < unit_frac (v # vs)"
proof -
  have "of_nat (unat u) + 1 \<le> (of_nat (unat v) :: rat)"
    using assms(3) by (metis Suc_eq_plus1 Suc_le_eq of_nat_1 of_nat_add of_nat_le_iff)
  then show ?thesis
    using unit_frac_bounds [of us] unit_frac_bounds [of vs] assms(1,2) by (simp add: divide_strict_right_mono)
qed

lemma declets_order:
  "units_ok us \<Longrightarrow> units_ok vs \<Longrightarrow> stripped us \<Longrightarrow> stripped vs \<Longrightarrow> k < 8 \<Longrightarrow> unit_frac us < unit_frac vs \<Longrightarrow>
   lex_less (declets us @ replicate k False) (declets vs @ replicate l False)"
proof (induction us arbitrary: vs)
  case Nil
  then have "vs \<noteq> []" by auto
  then obtain v vs' where "vs = v # vs'" by (cases vs) auto
  then show ?case using lex_less_zeros [of k "declets vs @ replicate l False"] Nil.prems(5) by simp
next
  case (Cons u us)
  have s: "stripped us" using Cons.prems(3) by (auto simp: stripped_def split: if_splits)
  have "vs \<noteq> []" using Cons.prems unit_frac_bounds [of "u # us"] by auto
  then obtain v vs' where vs: "vs = v # vs'" by (cases vs) auto
  have s': "stripped vs'" using Cons.prems(4) by (auto simp: vs stripped_def split: if_splits)
  have le: "unat u \<le> unat v"
  proof (rule ccontr)
    assume "\<not> unat u \<le> unat v"
    then have "unit_frac vs < unit_frac (u # us)"
      using unit_frac_less_Cons [of v vs' u us] Cons.prems vs by simp
    then show False using Cons.prems by simp
  qed
  have b: "bits_val (low_bits 10 u) = unat u" "bits_val (low_bits 10 v) = unat v"
    using Cons.prems vs by (simp_all add: bits_val_low_bits_word)
  show ?case
  proof (cases "unat u = unat v")
    case True
    then have "u = v" by (simp add: word_unat_eq_iff)
    moreover have "unit_frac us < unit_frac vs'" using Cons.prems(6) vs \<open>u = v\<close> by (simp add: divide_less_cancel)
    ultimately show ?thesis using Cons.IH [of vs'] Cons.prems vs s s' by simp
  next
    case False
    then have "lex_less (low_bits 10 u) (low_bits 10 v)" using le b by (simp add: lex_less_bits_val)
    then show ?thesis by (simp add: vs lex_less_append_same_length)
  qed
qed

lemma unit_frac_inj:
  "units_ok us \<Longrightarrow> units_ok vs \<Longrightarrow> stripped us \<Longrightarrow> stripped vs \<Longrightarrow> unit_frac us = unit_frac vs \<Longrightarrow> us = vs"
proof (induction us arbitrary: vs)
  case Nil
  then show ?case using unit_frac_pos [of vs] by auto
next
  case (Cons u us)
  have s: "stripped us" using Cons.prems(3) by (auto simp: stripped_def split: if_splits)
  have "vs \<noteq> []" using Cons.prems unit_frac_pos [of "u # us"] by auto
  then obtain v vs' where vs: "vs = v # vs'" by (cases vs) auto
  have s': "stripped vs'" using Cons.prems(4) by (auto simp: vs stripped_def split: if_splits)
  have "\<not> unat u < unat v" "\<not> unat v < unat u"
    using unit_frac_less_Cons [of u us v vs'] unit_frac_less_Cons [of v vs' u us] Cons.prems vs by auto
  then have "u = v" by (simp add: word_unat_eq_iff)
  then show ?case using Cons.IH [of vs'] Cons.prems vs s s' by simp
qed

section \<open>Numbers\<close>

lemma dn_frac_bounds:
  assumes "dn_ok dn" "coeff dn \<noteq> 0"
  shows "1 / 10 \<le> dn_frac dn" "dn_frac dn < 1"
proof -
  note b = aligned_bounds [OF assms]
  obtain r where D: "D2U (digits dn) = Suc r" using b(3) by (cases "D2U (digits dn)") auto
  have "of_nat (100 * 1000 ^ r) \<le> (of_nat (aligned dn) :: rat)" using b(1) D by (simp only: of_nat_le_iff) simp
  then show "1 / 10 \<le> dn_frac dn" by (simp add: dn_frac_def D field_simps)
  have "of_nat (aligned dn) < (of_nat (1000 ^ Suc r) :: rat)" using b(2) D by (simp only: of_nat_less_iff)
  then show "dn_frac dn < 1" by (simp add: dn_frac_def D)
qed

lemma mantissa_frac:
  assumes ok: "dn_ok dn" "coeff dn \<noteq> 0"
  shows "unit_frac (mantissa_units dn) = (if decNumberIsNegative dn then 1 - dn_frac dn else dn_frac dn)"
proof -
  let ?D = "D2U (digits dn)"
  obtain z where z: "?D = z + length (mantissa_units dn)" "signed_aligned dn = 1000 ^ z * units_val (rev (mantissa_units dn))"
    using mantissa_units_spec(1) [OF ok refl] by blast
  have "unit_frac (mantissa_units dn) = of_nat (signed_aligned dn) / 1000 ^ ?D"
    unfolding z by (simp add: unit_frac_val power_add)
  also have "\<dots> = (if decNumberIsNegative dn then 1 - dn_frac dn else dn_frac dn)"
    using aligned_bounds(2) [OF ok] by (simp add: signed_aligned_def dn_frac_def of_nat_diff diff_divide_distrib)
  finally show ?thesis .
qed

lemma scaled_less: "F < 1 \<Longrightarrow> 1 / 10 \<le> G \<Longrightarrow> A < B \<Longrightarrow> F * 10 powi (A + 1) < (G :: rat) * 10 powi (B + 1)"
proof -
  assume F: "F < 1" and G: "1 / 10 \<le> G" and A: "A < B"
  have "F * 10 powi (A + 1) < 1 * (10 :: rat) powi (A + 1)" using F by (intro mult_strict_right_mono) auto
  also have "\<dots> \<le> 10 powi B" using A by (simp add: power_int_increasing)
  also have "\<dots> = 1 / 10 * 10 powi (B + 1)" by (simp add: power_int_add)
  also have "\<dots> \<le> G * 10 powi (B + 1)" using G by (intro mult_right_mono) auto
  finally show ?thesis .
qed

text \<open>Magnitudes compare by adjusted exponent first.\<close>

lemma magnitude_cases:
  assumes x: "dn_ok x" "coeff x \<noteq> 0" and y: "dn_ok y" "coeff y \<noteq> 0"
  defines "m \<equiv> \<lambda>dn. dn_frac dn * 10 powi (adjusted dn + 1)"
  shows "m x < m y \<longleftrightarrow> adjusted x < adjusted y \<or> adjusted x = adjusted y \<and> dn_frac x < dn_frac y"
    and "m x = m y \<longleftrightarrow> adjusted x = adjusted y \<and> dn_frac x = dn_frac y"
proof -
  note b = dn_frac_bounds [OF x] dn_frac_bounds [OF y]
  have lt: "adjusted x < adjusted y \<Longrightarrow> m x < m y" unfolding m_def by (rule scaled_less [OF b(2,3)])
  have gt: "adjusted y < adjusted x \<Longrightarrow> m y < m x" unfolding m_def by (rule scaled_less [OF b(4,1)])
  have eq: "adjusted x = adjusted y \<Longrightarrow> (m x < m y) = (dn_frac x < dn_frac y) \<and> (m x = m y) = (dn_frac x = dn_frac y)"
    unfolding m_def by simp
  show "m x < m y \<longleftrightarrow> adjusted x < adjusted y \<or> adjusted x = adjusted y \<and> dn_frac x < dn_frac y"
    using lt gt eq by (cases "adjusted x" "adjusted y" rule: linorder_cases) auto
  show "m x = m y \<longleftrightarrow> adjusted x = adjusted y \<and> dn_frac x = dn_frac y"
    using lt gt eq by (cases "adjusted x" "adjusted y" rule: linorder_cases) auto
qed

definition plain :: "decNumber \<Rightarrow> bool" where
  "plain dn \<longleftrightarrow> encodable dn \<and> \<not> decNumberIsSpecial dn \<and> coeff dn \<noteq> 0"

lemma plainD: "plain dn \<Longrightarrow> encodable dn" "plain dn \<Longrightarrow> \<not> decNumberIsSpecial dn" "plain dn \<Longrightarrow> coeff dn \<noteq> 0"
  "plain dn \<Longrightarrow> dn_ok dn" "plain dn \<Longrightarrow> 0 \<le> digits dn"
  by (auto simp: plain_def encodable_def dn_ok_def)

lemma plain_mantissa:
  "plain dn \<Longrightarrow> units_ok (mantissa_units dn) \<and> stripped (mantissa_units dn)"
  using mantissa_units_spec(2,4) [OF plainD(4,3) refl] by (auto simp: stripped_def)

lemma plain_value:
  assumes x: "plain x" and y: "plain y" and neg: "decNumberIsNegative x = neg" "decNumberIsNegative y = neg"
  shows "dn_value x < dn_value y \<longleftrightarrow>
      (if neg then adjusted y < adjusted x \<or> adjusted x = adjusted y \<and> dn_frac y < dn_frac x
       else adjusted x < adjusted y \<or> adjusted x = adjusted y \<and> dn_frac x < dn_frac y)"
    and "dn_value x = dn_value y \<longleftrightarrow> adjusted x = adjusted y \<and> dn_frac x = dn_frac y"
  using magnitude_cases [OF plainD(4,3) [OF x] plainD(4,3) [OF y]]
    magnitude_cases [OF plainD(4,3) [OF y] plainD(4,3) [OF x]] neg
  by (auto simp: dn_value_frac [OF plainD(5)] x y)

lemma plain_bits:
  assumes "plain dn" "decNumberIsNegative dn = neg"
  shows "\<exists>k < 8. bytes_bits (encode dn) =
    sign_bits neg @ exp_code neg (adjusted dn) @ declets (mantissa_units dn) @ replicate k False"
  using bytes_bits_bits_bytes [of "number_code dn"] assms by (auto simp: plain_def encode_def number_code_def)

lemma plain_less:
  assumes x: "plain x" and y: "plain y" and neg: "decNumberIsNegative x = neg" "decNumberIsNegative y = neg"
    and less: "dn_value x < dn_value y"
  shows "lex_less (encode x) (encode y)"
proof -
  obtain k where k: "k < 8" "bytes_bits (encode x) =
      sign_bits neg @ exp_code neg (adjusted x) @ declets (mantissa_units x) @ replicate k False"
    using plain_bits [OF x neg(1)] by blast
  obtain l where l: "bytes_bits (encode y) =
      sign_bits neg @ exp_code neg (adjusted y) @ declets (mantissa_units y) @ replicate l False"
    using plain_bits [OF y neg(2)] by blast
  have fx: "unit_frac (mantissa_units x) = (if neg then 1 - dn_frac x else dn_frac x)"
    and fy: "unit_frac (mantissa_units y) = (if neg then 1 - dn_frac y else dn_frac y)"
    using mantissa_frac [OF plainD(4,3)] x y neg by auto
  have "diff_less (exp_code neg (adjusted x)) (exp_code neg (adjusted y)) \<or>
      adjusted x = adjusted y \<and> unit_frac (mantissa_units x) < unit_frac (mantissa_units y)"
    using less plain_value(1) [OF x y neg] fx fy exp_code_mono [of "adjusted x" "adjusted y"]
      diff_less_Not [OF exp_code_mono [of "adjusted y" "adjusted x"]]
    by (cases neg) (auto simp: exp_code_neg)
  then have "lex_less (bytes_bits (encode x)) (bytes_bits (encode y))"
  proof
    assume "diff_less (exp_code neg (adjusted x)) (exp_code neg (adjusted y))"
    then show ?thesis unfolding k l by (rule diff_less_lex)
  next
    assume "adjusted x = adjusted y \<and> unit_frac (mantissa_units x) < unit_frac (mantissa_units y)"
    then show ?thesis
      using declets_order [of "mantissa_units x" "mantissa_units y" k l] plain_mantissa [OF x] plain_mantissa [OF y] k(1)
      unfolding k(2) l by simp
  qed
  then show ?thesis by (simp add: lex_less_bytes)
qed

lemma plain_eq:
  assumes x: "plain x" and y: "plain y" and neg: "decNumberIsNegative x = neg" "decNumberIsNegative y = neg"
    and eq: "dn_value x = dn_value y"
  shows "encode x = encode y"
proof -
  have a: "adjusted x = adjusted y" "dn_frac x = dn_frac y" using plain_value(2) [OF x y neg] eq by auto
  then have "unit_frac (mantissa_units x) = unit_frac (mantissa_units y)"
    using mantissa_frac [OF plainD(4,3)] x y neg by simp
  then have "mantissa_units x = mantissa_units y"
    using unit_frac_inj plain_mantissa [OF x] plain_mantissa [OF y] by blast
  then show ?thesis using a x y neg by (simp add: plain_def encode_def number_code_def)
qed

section \<open>All numbers\<close>

definition rank_bits :: "nat \<Rightarrow> bool list" where
  "rank_bits r = low_bits 3 ([0, 1, 1, 3, 4, 4, 6, 7 :: nat] ! r)"

lemma rank_bits_order:
  assumes "r < s" "s < 8"
  shows "bits_val (rank_bits r) < bits_val (rank_bits s) \<or>
    rank_bits r = rank_bits s \<and> (r = 1 \<and> s = 2 \<or> r = 4 \<and> s = 5)"
proof -
  have "s \<in> {0,1,2,3,4,5,6,7}" "r \<in> {0,1,2,3,4,5,6,7}" using assms by auto
  then show ?thesis using assms(1) by (auto simp: rank_bits_def bits_val_low_bits)
qed

lemma dn_rank_less: "dn_rank dn < 8"
  by (simp add: dn_rank_def)

lemma plain_rank: "encodable dn \<Longrightarrow> plain dn \<longleftrightarrow> dn_rank dn = 2 \<or> dn_rank dn = 5"
  by (auto simp: plain_def dn_rank_def)

lemma encode_rank_bits:
  assumes e: "encodable dn"
  shows "\<exists>tail. bytes_bits (encode dn) = rank_bits (dn_rank dn) @ tail \<and>
    (if plain dn then 13 \<le> length tail else tail = replicate 5 False)"
proof (cases "plain dn")
  case True
  let ?neg = "decNumberIsNegative dn"
  obtain k where k: "bytes_bits (encode dn) =
      sign_bits ?neg @ exp_code ?neg (adjusted dn) @ declets (mantissa_units dn) @ replicate k False"
    using plain_bits [OF True refl] by blast
  have "mantissa_units dn \<noteq> []" using mantissa_units_spec(3) [OF plainD(4,3) refl] True by blast
  then have "1 \<le> length (mantissa_units dn)" by (cases "mantissa_units dn") auto
  moreover have "3 \<le> length (exp_code ?neg (adjusted dn))"
    using length_exp_code [of "adjusted dn" ?neg] True by (auto simp: plain_def encodable_def)
  moreover have "rank_bits (dn_rank dn) = sign_bits ?neg"
    using True by (simp add: plain_def dn_rank_def rank_bits_def sign_bits_def) code_simp
  ultimately show ?thesis using k True by simp
next
  case False
  have b: "low_bits 8 (0x00 :: uByte) = rank_bits 0 @ replicate 5 False" "low_bits 8 (0x20 :: uByte) = rank_bits 1 @ replicate 5 False"
    "low_bits 8 (0x60 :: uByte) = rank_bits 3 @ replicate 5 False" "low_bits 8 (0x80 :: uByte) = rank_bits 4 @ replicate 5 False"
    "low_bits 8 (0xC0 :: uByte) = rank_bits 6 @ replicate 5 False" "low_bits 8 (0xE0 :: uByte) = rank_bits 7 @ replicate 5 False"
    by code_simp+
  have "decNumberIsSpecial dn \<or> coeff dn = 0" using False e by (auto simp: plain_def)
  then show ?thesis using False b by (auto simp: encode_def dn_rank_def)
qed

definition key_less :: "nat \<times> rat \<Rightarrow> nat \<times> rat \<Rightarrow> bool" where
  "key_less k l \<longleftrightarrow> fst k < fst l \<or> fst k = fst l \<and> snd k < snd l"

lemma key_less_antisym: "\<not> key_less k l \<and> \<not> key_less l k \<longleftrightarrow> k = l"
  by (cases k; cases l) (auto simp: key_less_def)

text \<open>The order of numbers: \<open>-NaN\<close>, \<open>-Inf\<close>, the negative numbers by value, \<open>-0\<close>, \<open>0\<close>, the positive numbers
  by value, \<open>Inf\<close>, \<open>NaN\<close>.\<close>

definition dn_less :: "decNumber \<Rightarrow> decNumber \<Rightarrow> bool" where
  "dn_less x y \<longleftrightarrow> key_less (dn_key x) (dn_key y)"

lemma not_plain_key: "encodable dn \<Longrightarrow> \<not> plain dn \<Longrightarrow> snd (dn_key dn) = 0"
  by (auto simp: plain_def dn_key_def dn_value_def)

lemma plain_same_sign: "plain x \<Longrightarrow> plain y \<Longrightarrow> dn_rank x = dn_rank y \<Longrightarrow> decNumberIsNegative x = decNumberIsNegative y"
  by (auto simp: plain_def dn_rank_def split: if_splits)

lemma plain_key: "plain dn \<Longrightarrow> dn_key dn = (dn_rank dn, dn_value dn)"
  by (simp add: plain_def dn_key_def)

lemma rank_less_encode:
  assumes x: "encodable x" and y: "encodable y" and r: "dn_rank x < dn_rank y"
  shows "lex_less (encode x) (encode y)"
proof -
  obtain s where s: "bytes_bits (encode x) = rank_bits (dn_rank x) @ s"
      "if plain x then 13 \<le> length s else s = replicate 5 False"
    using encode_rank_bits [OF x] by blast
  obtain t where t: "bytes_bits (encode y) = rank_bits (dn_rank y) @ t"
      "if plain y then 13 \<le> length t else t = replicate 5 False"
    using encode_rank_bits [OF y] by blast
  have l: "length (rank_bits i) = 3" for i by (simp add: rank_bits_def)
  have "lex_less (bytes_bits (encode x)) (bytes_bits (encode y))"
    using rank_bits_order [OF r dn_rank_less]
  proof
    assume "bits_val (rank_bits (dn_rank x)) < bits_val (rank_bits (dn_rank y))"
    then show ?thesis using l by (simp add: s t lex_less_append_same_length lex_less_bits_val)
  next
    assume h: "rank_bits (dn_rank x) = rank_bits (dn_rank y) \<and> (dn_rank x = 1 \<and> dn_rank y = 2 \<or> dn_rank x = 4 \<and> dn_rank y = 5)"
    then have "\<not> plain x" "plain y" using plain_rank [OF x] plain_rank [OF y] by auto
    then show ?thesis using s t h lex_less_zeros [of 5 t] by simp
  qed
  then show ?thesis by (simp add: lex_less_bytes)
qed

lemma encode_key_less:
  assumes x: "encodable x" and y: "encodable y" and less: "dn_less x y"
  shows "lex_less (encode x) (encode y)"
proof (cases "dn_rank x < dn_rank y")
  case True
  then show ?thesis using rank_less_encode x y by blast
next
  case False
  then have r: "dn_rank x = dn_rank y" "snd (dn_key x) < snd (dn_key y)"
    using less by (auto simp: dn_less_def key_less_def dn_key_def)
  then have p: "plain x" "plain y"
    using not_plain_key [OF x] not_plain_key [OF y] plain_rank [OF x] plain_rank [OF y] by auto
  then show ?thesis
    using plain_less [OF p plain_same_sign [OF p r(1)] refl] r(2) by (simp add: plain_key)
qed

lemma encode_key_eq:
  assumes x: "encodable x" and y: "encodable y" and eq: "dn_key x = dn_key y"
  shows "encode x = encode y"
proof -
  have r: "dn_rank x = dn_rank y" using eq by (simp add: dn_key_def)
  show ?thesis
  proof (cases "plain x")
    case True
    then have p: "plain x" "plain y" using r plain_rank [OF x] plain_rank [OF y] by auto
    then show ?thesis using plain_eq [OF p plain_same_sign [OF p r] refl] eq by (simp add: plain_key)
  next
    case False
    then have "\<not> plain y" using r plain_rank [OF x] plain_rank [OF y] by auto
    then have "bytes_bits (encode x) = bytes_bits (encode y)"
      using encode_rank_bits [OF x] encode_rank_bits [OF y] False r by auto
    then show ?thesis using lex_less_total [of "encode x" "encode y"] by (metis lex_less_bytes lex_less_irrefl)
  qed
qed

section \<open>The contract of an order-preserving encoding\<close>

text \<open>
  What a database index asks of an encoding: it is strictly monotone, and items that the order does not
  separate have the same code.  Comparison, equality and sorting can then all be done on the codes.
\<close>

locale order_encoding =
  fixes enc :: "'a \<Rightarrow> 'b::linorder list"
    and less :: "'a \<Rightarrow> 'a \<Rightarrow> bool"
    and ok :: "'a \<Rightarrow> bool"
  assumes mono: "ok x \<Longrightarrow> ok y \<Longrightarrow> less x y \<Longrightarrow> lex_less (enc x) (enc y)"
    and canonical: "ok x \<Longrightarrow> ok y \<Longrightarrow> \<not> less x y \<Longrightarrow> \<not> less y x \<Longrightarrow> enc x = enc y"
begin

lemma enc_less_iff: "ok x \<Longrightarrow> ok y \<Longrightarrow> lex_less (enc x) (enc y) \<longleftrightarrow> less x y"
  using mono [of x y] mono [of y x] canonical [of x y] lex_less_asym [of "enc x" "enc y"] by (metis lex_less_irrefl)

lemma enc_eq_iff: "ok x \<Longrightarrow> ok y \<Longrightarrow> enc x = enc y \<longleftrightarrow> \<not> less x y \<and> \<not> less y x"
  using enc_less_iff [of x y] enc_less_iff [of y x] canonical [of x y] by (metis lex_less_irrefl)

lemma sorted_enc_iff:
  "list_all ok xs \<Longrightarrow>
   sorted_wrt (\<lambda>a b. \<not> lex_less b a) (map enc xs) \<longleftrightarrow> sorted_wrt (\<lambda>x y. \<not> less y x) xs"
  by (induction xs) (auto simp: list_all_iff enc_less_iff)

lemma least_enc_iff:
  "list_all ok xs \<Longrightarrow> ok x \<Longrightarrow>
   list_all (\<lambda>c. \<not> lex_less c (enc x)) (map enc xs) \<longleftrightarrow> list_all (\<lambda>y. \<not> less y x) xs"
  by (induction xs) (auto simp: enc_less_iff)

end

interpretation blob_order: order_encoding encode dn_less encodable
proof
  show "encodable x \<Longrightarrow> encodable y \<Longrightarrow> dn_less x y \<Longrightarrow> lex_less (encode x) (encode y)" for x y
    by (rule encode_key_less)
  show "encodable x \<Longrightarrow> encodable y \<Longrightarrow> \<not> dn_less x y \<Longrightarrow> \<not> dn_less y x \<Longrightarrow> encode x = encode y" for x y
    by (rule encode_key_eq) (auto simp: dn_less_def key_less_def intro: prod_eqI)
qed

section \<open>Properties\<close>

text \<open>
  C1: encoding preserves order and equality.  For any two numbers the encoder accepts, comparing
  the two encodings byte by byte (the shorter first when one is a prefix of the other) gives the order of the
  numbers, and the encodings are equal exactly when the numbers are of the same kind and have the same value: \<open>1.0\<close> and
  \<open>1.00\<close> are the same key of an index.
\<close>

theorem blob_order_preserved:
  assumes "encodable x" "encodable y" "DECINF_MAXSIZE \<le> length r" "DECINF_MAXSIZE \<le> length s"
  shows "\<exists>a b. blob r x = Some a \<and> blob s y = Some b \<and>
    (lex_less a b \<longleftrightarrow> dn_less x y) \<and> (a = b \<longleftrightarrow> dn_key x = dn_key y)"
proof -
  have "(encode x = encode y) = (dn_key x = dn_key y)"
    unfolding blob_order.enc_eq_iff [OF assms(1,2)] dn_less_def by (rule key_less_antisym)
  then show ?thesis using assms by (simp add: blob_encode blob_order.enc_less_iff)
qed

theorem blob_order_preserved_witness:
  "\<exists>a b. blob (replicate 24 0) (sample True) = Some a \<and> blob (replicate 24 0) (sample False) = Some b \<and>
    (lex_less a b \<longleftrightarrow> dn_less (sample True) (sample False)) \<and> (a = b \<longleftrightarrow> dn_key (sample True) = dn_key (sample False))"
  by (rule blob_order_preserved) (simp_all add: encodable_sample)

end
