(* ===== verification/DnCompareSpec.thy ===== *)
theory DnCompareSpec
  imports DnCompare UnitSpec DnValue
begin

text \<open>Comparing numbers by value: \<^verbatim>\<open>decCompare\<close> gives the order of the values.\<close>

section \<open>Kinds of numbers\<close>

lemma special_kinds: "decNumberIsSpecial dn \<longleftrightarrow> decNumberIsInfinite dn \<or> decNumberIsNaN dn"
proof -
  have "bits dn AND (0x40 OR 0x30) = (bits dn AND 0x40) OR (bits dn AND 0x30)" by (rule bit.conj_disj_distrib)
  then have "bits dn AND 0x70 = 0 \<longleftrightarrow> bits dn AND 0x40 = 0 \<and> bits dn AND 0x30 = 0" by (simp add: or_eq_0_iff)
  then show ?thesis by (simp add: decNumberIsSpecial_def decNumberIsInfinite_def decNumberIsNaN_def)
qed

lemma either_infinite: "(bits x OR bits y) AND DECINF \<noteq> 0 \<longleftrightarrow> decNumberIsInfinite x \<or> decNumberIsInfinite y"
  unfolding decNumberIsInfinite_def bit.conj_disj_distrib2 by (simp add: or_eq_0_iff del: dec_bits)

lemma zero_coeff: "dn_ok dn \<Longrightarrow> \<not> decNumberIsSpecial dn \<Longrightarrow> decNumberIsZero dn \<longleftrightarrow> coeff dn = 0"
  using dn_ok_zero [of dn] by (auto simp: decNumberIsZero_def decNumberIsSpecial_def)

lemma infinite_not_zero: "decNumberIsInfinite dn \<Longrightarrow> \<not> decNumberIsZero dn"
  using special_kinds [of dn] by (auto simp: decNumberIsZero_def decNumberIsSpecial_def)

lemma numeric_finite: "numeric dn \<Longrightarrow> \<not> decNumberIsInfinite dn \<Longrightarrow> dn_ok dn \<and> digits dn \<le> 39 \<and> \<not> decNumberIsSpecial dn"
  by (simp add: numeric_def special_kinds DECNUMDIGITS_def)

section \<open>Units and values\<close>

lemma dn_units:
  assumes "dn_ok dn" "coeff dn \<noteq> 0"
  shows "unitsOf dn = Some (take (D2U (digits dn)) (lsu dn))" "units_ok (take (D2U (digits dn)) (lsu dn))"
    "take (D2U (digits dn)) (lsu dn) \<noteq> []" "last (take (D2U (digits dn)) (lsu dn)) \<noteq> 0"
    "length (take (D2U (digits dn)) (lsu dn)) = D2U (digits dn)"
proof -
  have d: "1 \<le> digits dn" "D2U (digits dn) \<le> length (lsu dn)" using assms by (auto simp: dn_ok_def)
  obtain r m where r: "D2U (digits dn) = Suc r" "1 \<le> m" "m \<le> 3" "digits dn = int (3 * r + m)" using digits_split [OF d(1)] .
  show "unitsOf dn = Some (take (D2U (digits dn)) (lsu dn))" "units_ok (take (D2U (digits dn)) (lsu dn))"
    "take (D2U (digits dn)) (lsu dn) \<noteq> []" "length (take (D2U (digits dn)) (lsu dn)) = D2U (digits dn)"
    using assms(1) d r by (auto simp: unitsOf_def dn_ok_def)
  have "last (take (D2U (digits dn)) (lsu dn)) = lsu dn ! r" using d r by (simp add: take_Suc_conv_app_nth)
  moreover have "lsu dn ! r \<noteq> 0"
  proof
    assume z: "lsu dn ! r = 0"
    have "coeff dn = units_val (take r (lsu dn))" using d r z by (simp add: coeff_def units_val_take_Suc)
    also have "\<dots> < 1000 ^ r" using units_val_less [of "take r (lsu dn)"] assms(1) d r by (auto simp: dn_ok_def take_Suc_conv_app_nth)
    also have "(1000 :: nat) ^ r \<le> 10 ^ (nat (digits dn) - 1)" using r by (subst pow10_3 [symmetric]) (intro power_increasing, auto)
    finally show False using dn_ok_leading [OF assms] by simp
  qed
  ultimately show "last (take (D2U (digits dn)) (lsu dn)) \<noteq> 0" by simp
qed

lemma magnitude_cmp:
  assumes "exponent l \<le> exponent r"
  shows "int (coeff l) - int (coeff r) * 10 ^ nat (exponent r - exponent l) > 0 \<longleftrightarrow> \<bar>dn_value l\<bar> > \<bar>dn_value r\<bar>"
    "int (coeff l) - int (coeff r) * 10 ^ nat (exponent r - exponent l) < 0 \<longleftrightarrow> \<bar>dn_value l\<bar> < \<bar>dn_value r\<bar>"
proof -
  define k where "k = nat (exponent r - exponent l)"
  have e: "exponent r = exponent l + int k" using assms by (simp add: k_def)
  have a: "\<bar>dn_value x\<bar> = of_nat (coeff x) * 10 powi exponent x" for x by (simp add: dn_value_def abs_mult)
  have r: "\<bar>dn_value r\<bar> = of_int (int (coeff r) * 10 ^ k) * 10 powi exponent l" unfolding a e by (simp add: power_int_add)
  have l: "\<bar>dn_value l\<bar> = of_int (int (coeff l)) * 10 powi exponent l" unfolding a by simp
  have p: "(0 :: rat) < 10 powi exponent l" by simp
  have lt: "of_int x * (10 :: rat) powi exponent l < of_int y * 10 powi exponent l \<longleftrightarrow> x < y" for x y
    using p by (simp only: mult_less_cancel_right_pos of_int_less_iff)
  show "int (coeff l) - int (coeff r) * 10 ^ nat (exponent r - exponent l) > 0 \<longleftrightarrow> \<bar>dn_value l\<bar> > \<bar>dn_value r\<bar>"
    "int (coeff l) - int (coeff r) * 10 ^ nat (exponent r - exponent l) < 0 \<longleftrightarrow> \<bar>dn_value l\<bar> < \<bar>dn_value r\<bar>"
    unfolding k_def [symmetric] r l lt by linarith+
qed

lemma decUnitCompare_numbers:
  assumes "dn_ok l" "digits l \<le> 39" "coeff l \<noteq> 0" "dn_ok r" "coeff r \<noteq> 0" "exponent l \<le> exponent r"
  shows "do { a \<leftarrow> unitsOf l; b \<leftarrow> unitsOf r; Some (map_option (\<lambda>c. c * s) (decUnitCompare mem a b (exponent r - exponent l))) } =
    Some (Some ((if \<bar>dn_value l\<bar> > \<bar>dn_value r\<bar> then 1 else if \<bar>dn_value l\<bar> < \<bar>dn_value r\<bar> then - 1 else 0) * s))"
proof -
  have "D2U (digits l) \<le> 22" using assms(1,2) by (simp add: D2U_eq dn_ok_def)
  then have "decUnitCompare mem (take (D2U (digits l)) (lsu l)) (take (D2U (digits r)) (lsu r)) (exponent r - exponent l) =
      Some (sgn_cmp (int (coeff l) - int (coeff r) * 10 ^ nat (exponent r - exponent l)))"
    using assms dn_units [of l] dn_units [of r] unfolding coeff_def by (intro decUnitCompare_val) auto
  then show ?thesis using dn_units(1) [of l] dn_units(1) [of r] assms magnitude_cmp [OF assms(6)] by (simp add: sgn_cmp_def)
qed

section \<open>The order\<close>

definition dn_abs :: "decNumber \<Rightarrow> decNumber" where
  "dn_abs dn = dn\<lparr>bits := bits dn AND NOT DECNEG\<rparr>"

lemma dn_abs_kind [simp]:
  "decNumberIsNegative (dn_abs dn) = False" "decNumberIsInfinite (dn_abs dn) = decNumberIsInfinite dn"
  "decNumberIsNaN (dn_abs dn) = decNumberIsNaN dn" "decNumberIsZero (dn_abs dn) = decNumberIsZero dn" "unitsOf (dn_abs dn) = unitsOf dn"
  "exponent (dn_abs dn) = exponent dn" "coeff (dn_abs dn) = coeff dn" "dn_ok (dn_abs dn) = dn_ok dn" "digits (dn_abs dn) = digits dn"
  "numeric (dn_abs dn) = numeric dn"
  by (simp_all add: dn_abs_def decNumberIsNegative_def decNumberIsInfinite_def decNumberIsNaN_def decNumberIsZero_def and.assoc
      unitsOf_def coeff_def dn_ok_def numeric_def)

lemma either_infinite_abs: "(bits (dn_abs x) OR bits (dn_abs y)) AND DECINF \<noteq> 0 \<longleftrightarrow> (bits x OR bits y) AND DECINF \<noteq> 0"
  unfolding either_infinite by simp

lemma decCompare_signless: "decCompare mem l r True = decCompare mem (dn_abs l) (dn_abs r) False"
  unfolding decCompare_def either_infinite_abs by (auto simp: Let_def)

definition dn_sign :: "decNumber \<Rightarrow> int" where
  "dn_sign dn = (if decNumberIsZero dn then 0 else if decNumberIsNegative dn then - 1 else 1)"

lemma finite_sign:
  assumes "numeric dn" "\<not> decNumberIsInfinite dn"
  shows "dn_value dn < 0 \<longleftrightarrow> dn_sign dn = - 1" "0 < dn_value dn \<longleftrightarrow> dn_sign dn = 1" "dn_value dn = 0 \<longleftrightarrow> dn_sign dn = 0"
proof -
  have z: "decNumberIsZero dn \<longleftrightarrow> coeff dn = 0" using numeric_finite [OF assms] zero_coeff by blast
  show "dn_value dn < 0 \<longleftrightarrow> dn_sign dn = - 1" "0 < dn_value dn \<longleftrightarrow> dn_sign dn = 1" "dn_value dn = 0 \<longleftrightarrow> dn_sign dn = 0"
    using dn_value_sign [of dn] z by (cases "coeff dn = 0"; auto simp: dn_sign_def dn_value_def)+
qed

lemma infinite_sign: "decNumberIsInfinite dn \<Longrightarrow> dn_sign dn = dn_place dn" "\<not> decNumberIsInfinite dn \<Longrightarrow> dn_place dn = 0"
  by (auto simp: dn_sign_def dn_place_def dest: infinite_not_zero)

lemma sign_below: "numeric x \<Longrightarrow> numeric y \<Longrightarrow> dn_sign x < dn_sign y \<Longrightarrow> dn_below x y \<and> \<not> dn_below y x"
  using finite_sign [of x] finite_sign [of y] infinite_sign [of x] infinite_sign [of y] infinite_not_zero [of x] infinite_not_zero [of y]
  by (cases "decNumberIsInfinite x"; cases "decNumberIsInfinite y") (auto simp: dn_below_def dn_sign_def split: if_splits)

definition magnitude :: "(nat \<Rightarrow> bool) \<Rightarrow> decNumber \<Rightarrow> decNumber \<Rightarrow> int \<Rightarrow> int option option" where
  "magnitude mem lhs rhs result =
     (if (bits lhs OR bits rhs) AND DECINF \<noteq> 0 then
        Some (Some (if decNumberIsInfinite rhs then (if decNumberIsInfinite lhs then 0 else - result) else result))
      else
        (let (lhs, rhs, result) = (if exponent lhs > exponent rhs then (rhs, lhs, - result) else (lhs, rhs, result))
         in do {
           a \<leftarrow> unitsOf lhs;
           b \<leftarrow> unitsOf rhs;
           Some (map_option (\<lambda>c. c * result) (decUnitCompare mem a b (exponent rhs - exponent lhs)))
         }))"

lemma decCompare_magnitude:
  "decCompare mem l r False =
     (if dn_sign l > dn_sign r then Some (Some 1) else if dn_sign l < dn_sign r then Some (Some (- 1))
      else if dn_sign l = 0 then Some (Some 0) else magnitude mem l r (dn_sign l))"
  unfolding decCompare_def magnitude_def dn_sign_def by (simp add: Let_def)

lemma same_sign_below:
  assumes "numeric x" "numeric y" "\<not> decNumberIsInfinite x" "\<not> decNumberIsInfinite y" "dn_sign x = dn_sign y"
  shows "dn_below x y \<longleftrightarrow> (if dn_sign x = 1 then \<bar>dn_value x\<bar> < \<bar>dn_value y\<bar> else \<bar>dn_value x\<bar> > \<bar>dn_value y\<bar>)"
  using finite_sign [of x] finite_sign [of y] infinite_sign [of x] infinite_sign [of y] assms
  by (cases "dn_sign x = 1"; cases "dn_sign x = - 1") (auto simp: dn_below_def dn_sign_def split: if_splits)

lemma magnitude_val:
  assumes l: "numeric l" and r: "numeric r" and s: "dn_sign l = dn_sign r" "dn_sign l \<noteq> 0"
  shows "magnitude mem l r (dn_sign l) = Some (Some (dn_cmp l r))"
proof (cases "decNumberIsInfinite l \<or> decNumberIsInfinite r")
  case True
  then have "magnitude mem l r (dn_sign l) =
      Some (Some (if decNumberIsInfinite r then (if decNumberIsInfinite l then 0 else - dn_sign l) else dn_sign l))"
    unfolding magnitude_def either_infinite by simp
  then show ?thesis using True s infinite_sign [of l] infinite_sign [of r]
    by (auto simp: dn_cmp_def dn_below_def dn_sign_def split: if_splits)
next
  case False
  have f: "dn_ok l" "digits l \<le> 39" "coeff l \<noteq> 0" "dn_ok r" "digits r \<le> 39" "coeff r \<noteq> 0"
    using numeric_finite [OF l] numeric_finite [OF r] False s zero_coeff [of l] zero_coeff [of r] by (auto simp: dn_sign_def)
  have b: "dn_sign l = 1 \<or> dn_sign l = - 1" using s(2) by (auto simp: dn_sign_def split: if_splits)
  have "magnitude mem l r (dn_sign l) =
      Some (Some ((if \<bar>dn_value l\<bar> > \<bar>dn_value r\<bar> then 1 else if \<bar>dn_value l\<bar> < \<bar>dn_value r\<bar> then - 1 else 0) * dn_sign l))"
  proof (cases "exponent l > exponent r")
    case True
    then show ?thesis unfolding magnitude_def either_infinite using False decUnitCompare_numbers [of r l "- dn_sign l" mem] f by auto
  next
    case e: False
    then show ?thesis unfolding magnitude_def either_infinite using False decUnitCompare_numbers [of l r "dn_sign l" mem] f by auto
  qed
  also have "\<dots> = Some (Some (dn_cmp l r))"
    using same_sign_below [of l r] same_sign_below [of r l] False l r s b by (auto simp: dn_cmp_def)
  finally show ?thesis .
qed

lemma decCompare_signed:
  assumes "numeric l" "numeric r"
  shows "decCompare mem l r False = Some (Some (dn_cmp l r))"
proof -
  consider "dn_sign r < dn_sign l" | "dn_sign l < dn_sign r" | "dn_sign l = dn_sign r" "dn_sign l = 0" | "dn_sign l = dn_sign r" "dn_sign l \<noteq> 0"
    by linarith
  then show ?thesis
  proof cases
    case 3
    have "\<not> decNumberIsInfinite l" "\<not> decNumberIsInfinite r" using 3 infinite_not_zero by (auto simp: dn_sign_def split: if_splits)
    then show ?thesis unfolding decCompare_magnitude
      using 3 finite_sign(3) [OF assms(1)] finite_sign(3) [OF assms(2)] by (auto simp: dn_cmp_def dn_below_def dn_place_def)
  next
    case 4
    then show ?thesis unfolding decCompare_magnitude using magnitude_val [OF assms] by simp
  qed (use sign_below [OF assms] sign_below [OF assms(2,1)] in \<open>auto simp: decCompare_magnitude dn_cmp_def\<close>)
qed

section \<open>Properties\<close>

text \<open>
  C21: \<^verbatim>\<open>decCompare\<close> compares by value.  For two numbers that are not NaN, of at most 39 digits, it needs no memory beyond its
  own buffer, stays inside the units of the operands, and returns the sign of the comparison of the values, infinities included, however
  far apart the exponents are; the signless comparison does so for the absolute values.
\<close>

theorem compare_exact:
  assumes "numeric l" "numeric r"
  shows "decCompare mem l r False = Some (Some (dn_cmp l r)) \<and> decCompare mem l r True = Some (Some (dn_cmp (dn_abs l) (dn_abs r)))"
  using assms by (simp add: decCompare_signless decCompare_signed)

theorem compare_exact_witness:
  "decCompare (\<lambda>n. False) \<lparr>digits = 4, exponent = - 2, bits = 0, lsu = [500, 1]\<rparr> \<lparr>digits = 2, exponent = 0, bits = DECNEG, lsu = [15]\<rparr> False =
     Some (Some (dn_cmp \<lparr>digits = 4, exponent = - 2, bits = 0, lsu = [500, 1]\<rparr> \<lparr>digits = 2, exponent = 0, bits = DECNEG, lsu = [15]\<rparr>)) \<and>
   decCompare (\<lambda>n. False) \<lparr>digits = 4, exponent = - 2, bits = 0, lsu = [500, 1]\<rparr> \<lparr>digits = 2, exponent = 0, bits = DECNEG, lsu = [15]\<rparr> True =
     Some (Some (dn_cmp (dn_abs \<lparr>digits = 4, exponent = - 2, bits = 0, lsu = [500, 1]\<rparr>)
       (dn_abs \<lparr>digits = 2, exponent = 0, bits = DECNEG, lsu = [15]\<rparr>)))"
  by (rule compare_exact)
    (simp_all add: numeric_def dn_ok_def coeff_def D2U_eq decNumberIsNaN_def decNumberIsInfinite_def DECNUMDIGITS_def)

end
