(* ===== verification/BlobSpec.thy ===== *)
theory BlobSpec
  imports DecInfiniteOrder DnCompareSpec SqlSpec
begin

text \<open>
  Encoded numbers in SQL: the order SQLite gives the encodings is the order of the comparison of decNumber, and encoded numbers pass
  through the SQL functions unchanged.
\<close>

section \<open>Two orders\<close>

lemma below_less:
  assumes "numeric x" "numeric y" "dn_below x y"
  shows "dn_less x y"
proof -
  have k: "decNumberIsSpecial z \<longleftrightarrow> decNumberIsInfinite z" if "numeric z" for z using that special_kinds [of z] by (auto simp: numeric_def)
  have v: "dn_value z < 0 \<longleftrightarrow> coeff z \<noteq> 0 \<and> decNumberIsNegative z" "0 < dn_value z \<longleftrightarrow> coeff z \<noteq> 0 \<and> \<not> decNumberIsNegative z" for z
    using dn_value_sign [of z] dn_value_zero [of z] by (cases "coeff z = 0"; auto)+
  consider "decNumberIsInfinite x \<or> decNumberIsInfinite y" | "\<not> decNumberIsInfinite x" "\<not> decNumberIsInfinite y" by blast
  then show ?thesis
  proof cases
    case 1
    then show ?thesis using assms k [OF assms(1)] k [OF assms(2)]
      by (auto simp: dn_below_def dn_place_def dn_less_def key_less_def dn_key_def dn_rank_def split: if_splits)
  next
    case 2
    then have lt: "dn_value x < dn_value y" using assms(3) by (simp add: dn_below_def dn_place_def)
    have "dn_rank x \<le> dn_rank y"
      using lt v [of x] v [of y] 2 k [OF assms(1)] k [OF assms(2)] dn_value_zero [of x] dn_value_zero [of y] by (auto simp: dn_rank_def)
    then show ?thesis using lt 2 k [OF assms(1)] k [OF assms(2)] by (auto simp: dn_less_def key_less_def dn_key_def)
  qed
qed

lemma not_below_key:
  assumes "numeric x" "numeric y" "\<not> dn_below x y" "\<not> dn_below y x"
  shows "dn_key x = dn_key y \<or> coeff x = 0 \<and> coeff y = 0 \<and> decNumberIsNegative x \<noteq> decNumberIsNegative y"
proof -
  have k: "decNumberIsSpecial z \<longleftrightarrow> decNumberIsInfinite z" if "numeric z" for z using that special_kinds [of z] by (auto simp: numeric_def)
  have v: "dn_value z < 0 \<longleftrightarrow> coeff z \<noteq> 0 \<and> decNumberIsNegative z" "0 < dn_value z \<longleftrightarrow> coeff z \<noteq> 0 \<and> \<not> decNumberIsNegative z" for z
    using dn_value_sign [of z] dn_value_zero [of z] by (cases "coeff z = 0"; auto)+
  consider "decNumberIsInfinite x \<or> decNumberIsInfinite y" | "\<not> decNumberIsInfinite x" "\<not> decNumberIsInfinite y" by blast
  then show ?thesis
  proof cases
    case 1
    then show ?thesis using assms k [OF assms(1)] k [OF assms(2)]
      by (auto simp: dn_below_def dn_place_def dn_key_def dn_rank_def split: if_splits)
  next
    case 2
    then have eq: "dn_value x = dn_value y" using assms(3,4) by (simp add: dn_below_def dn_place_def)
    then show ?thesis using v [of x] v [of y] 2 k [OF assms(1)] k [OF assms(2)] dn_value_zero [of x] dn_value_zero [of y]
      by (auto simp: dn_key_def dn_rank_def)
  qed
qed

lemma encodable_numeric: "encodable x \<Longrightarrow> \<not> decNumberIsNaN x \<Longrightarrow> numeric x"
  using special_kinds [of x] by (auto simp: encodable_def numeric_def)

section \<open>Encoding and decoding in a call\<close>

lemma decode_blob:
  assumes "encodable x" "env_ok env" "settled ctx"
  shows "\<exists>dn. decode env ctx (SQLITE_BLOB (encode x)) = Some (ctx, Inr dn) \<and> dn_key dn = dn_key x \<and> encodable dn"
proof -
  obtain dn where dn: "decInfiniteToNumber (encode x) (env_num env) = Some (True, dn)" "dn_key dn = dn_key x" "encodable dn"
    using decode_encode [OF assms(1), of "env_num env"] assms(2) by (auto simp: env_ok_def)
  then have "decode env ctx (SQLITE_BLOB (encode x)) = Some (ctx, Inr dn)"
    using assms(3) by (simp add: decode_def decNumberFromSQLite3Blob_def checkStatus_def decContextTestStatus_def settled_def)
  then show ?thesis using dn by blast
qed

lemma blob_result_encode:
  assumes "encodable dn" "env_ok env" "env_mem env DECINF_MAXSIZE"
  shows "blob_result env ctx dn = Some (ctx, result_blob (encode dn))"
proof -
  have "blob (env_bytes env) dn = Some (encode dn)" using assms by (intro blob_encode) (simp_all add: env_ok_def)
  then show ?thesis using assms(3)
    by (auto simp: blob_result_def decNumberToSQLite3Blob_def blob_def bind_eq_Some_conv split: prod.splits option.splits)
qed

section \<open>Properties\<close>

text \<open>
  C10: the byte order of encodings is the order of \<^verbatim>\<open>decCompare\<close>.  For two numbers that are not NaN, \<^verbatim>\<open>memcmp\<close> on the encodings
  gives the sign the numeric comparison gives, except that it orders \<open>-0\<close> before \<open>0\<close>, which compare equal.
\<close>

theorem memcmp_is_compare:
  assumes "encodable x" "encodable y" "\<not> decNumberIsNaN x" "\<not> decNumberIsNaN y" "DECINF_MAXSIZE \<le> length r" "DECINF_MAXSIZE \<le> length s"
  shows "\<exists>a b c. blob r x = Some a \<and> blob s y = Some b \<and> decCompare mem x y False = Some (Some c) \<and>
    (c = - 1 \<and> lex_less a b \<or> c = 1 \<and> lex_less b a \<or>
     c = 0 \<and> (a = b \<or> coeff x = 0 \<and> coeff y = 0 \<and> decNumberIsNegative x \<noteq> decNumberIsNegative y))"
proof -
  have n: "numeric x" "numeric y" using assms encodable_numeric by auto
  have lt: "lex_less (encode z) (encode w) \<longleftrightarrow> dn_less z w" if "encodable z" "encodable w" for z w using blob_order.enc_less_iff [OF that] .
  have eq: "dn_key x = dn_key y \<Longrightarrow> encode x = encode y" using encode_key_eq [OF assms(1,2)] .
  have "dn_cmp x y = - 1 \<and> lex_less (encode x) (encode y) \<or> dn_cmp x y = 1 \<and> lex_less (encode y) (encode x) \<or>
     dn_cmp x y = 0 \<and> (encode x = encode y \<or> coeff x = 0 \<and> coeff y = 0 \<and> decNumberIsNegative x \<noteq> decNumberIsNegative y)"
    using below_less [OF n] below_less [OF n(2,1)] not_below_key [OF n] lt [OF assms(1,2)] lt [OF assms(2,1)] eq by (auto simp: dn_cmp_def)
  then show ?thesis using assms decCompare_signed [OF n] by (simp add: blob_encode)
qed

theorem memcmp_is_compare_witness:
  "\<exists>a b c. blob (replicate 24 0) (sample True) = Some a \<and> blob (replicate 24 0) (sample False) = Some b \<and>
    decCompare (\<lambda>n. False) (sample True) (sample False) False = Some (Some c) \<and>
    (c = - 1 \<and> lex_less a b \<or> c = 1 \<and> lex_less b a \<or>
     c = 0 \<and> (a = b \<or> coeff (sample True) = 0 \<and> coeff (sample False) = 0 \<and> decNumberIsNegative (sample True) \<noteq> decNumberIsNegative (sample False)))"
  by (rule memcmp_is_compare) (simp_all add: encodable_sample, simp_all add: sample_def decNumberIsNaN_def)

text \<open>
  C14: calling \<^verbatim>\<open>dec\<close> on an encoded number returns the very same bytes and leaves the shared context as it is, when memory is
  available and no trapped condition is pending.
\<close>

theorem create_keeps_blobs:
  assumes "encodable x" "blob r x = Some a" "DECINF_MAXSIZE \<le> length r"
    and "env_ok env" "env_mem env DECINF_MAXSIZE" "status ctx AND traps ctx = 0"
  shows "decimalCreate env ctx (SQLITE_BLOB a) = Some (ctx, result_blob a)"
proof -
  have a: "a = encode x" using assms(1-3) by (simp add: blob_encode)
  obtain dn where dn: "decode env ctx (SQLITE_BLOB (encode x)) = Some (ctx, Inr dn)" "dn_key dn = dn_key x" "encodable dn"
    using decode_blob [OF assms(1,4)] assms(6) by (auto simp: settled_def)
  have "encode dn = encode x" using encode_key_eq [OF dn(3) assms(1) dn(2)] .
  then show ?thesis using dn(1) blob_result_encode [OF dn(3) assms(4,5)] by (simp add: a decimalCreate_def with_arg_def)
qed

lemma blob_sample: "blob (replicate 24 0) (sample False) = Some [152, 49, 242, 0]"
  by code_simp

theorem create_keeps_blobs_witness:
  "decimalCreate env0 ctx0 (SQLITE_BLOB [152, 49, 242, 0]) = Some (ctx0, result_blob [152, 49, 242, 0])"
  by (rule create_keeps_blobs [OF encodable_sample blob_sample])
    (simp_all add: env_ok_def env0_def localZero_def settled_ctx0 [unfolded settled_def])

end
