(* ===== verification/DnRoundSpec.thy ===== *)
theory DnRoundSpec
  imports DnRound UnitShift DnCompareSpec
begin

text \<open>
  What the residue of a cut coefficient stands for, and that rounding with it is rounding the exact value.
\<close>

section \<open>Residues\<close>

text \<open>
  A residue describes a fraction of the last digit kept: its sign and how it compares with one half.
\<close>

definition residue_for :: "rat \<Rightarrow> int \<Rightarrow> bool" where
  "residue_for f r \<longleftrightarrow> - 1 < f \<and> f < 1 \<and> - 1 \<le> r \<and> (0 < r \<longleftrightarrow> 0 < f) \<and> (r < 0 \<longleftrightarrow> f < 0) \<and> (5 < r \<longleftrightarrow> 1 / 2 < f) \<and> (r = 5 \<longleftrightarrow> f = 1 / 2)"

lemma residue_for_0 [simp]: "residue_for 0 0" "residue_for f 0 \<longleftrightarrow> f = 0"
  by (auto simp: residue_for_def)

text \<open>A residue that only has a sign.\<close>

definition sticky :: "rat \<Rightarrow> int \<Rightarrow> bool" where
  "sticky h s \<longleftrightarrow> - 1 < h \<and> h < 1 \<and> (s = - 1 \<or> s = 0 \<or> s = 1) \<and> (0 < s \<longleftrightarrow> 0 < h) \<and> (s < 0 \<longleftrightarrow> h < 0)"

lemma sticky_clamp: "residue_for f r \<Longrightarrow> sticky f (if r > 1 then 1 else r)"
  by (auto simp: residue_for_def sticky_def)

lemma sticky_below:
  assumes "sticky h s" "m < B"
  shows "sticky ((of_nat m + h) / of_nat B) (if m \<noteq> 0 then 1 else s)"
proof -
  have B: "of_nat m + (1 :: rat) \<le> of_nat B" using assms(2) by (metis Suc_leI add.commute of_nat_Suc of_nat_le_iff)
  have m: "0 \<le> (of_nat m :: rat)" "m \<noteq> 0 \<Longrightarrow> 1 \<le> (of_nat m :: rat)" by (simp_all add: Suc_le_eq)
  have p: "0 < (of_nat B :: rat)" using assms(2) by simp
  have "- of_nat B < of_nat m + h" "of_nat m + h < of_nat B" using assms(1) B m(1) p by (auto simp: sticky_def)
  then have "- 1 < (of_nat m + h) / of_nat B" "(of_nat m + h) / of_nat B < 1" using p by (simp_all add: field_simps)
  moreover have "0 < of_nat m + h" if "m \<noteq> 0" using m(2) [OF that] assms(1) by (simp add: sticky_def)
  ultimately show ?thesis using assms(1) p
    by (cases "m = 0") (auto simp: sticky_def zero_less_divide_iff divide_less_0_iff)
qed

lemma residue_digit:
  assumes "sticky g s" "t < 10"
  shows "residue_for ((of_nat t + g) / 10) (s + resmap ! t)"
proof -
  have g: "- 1 < g" "g < 1" using assms(1) by (simp_all add: sticky_def)
  have "t \<in> {0, 1, 2, 3, 4, 5, 6, 7, 8, 9}" using assms(2) by auto
  then show ?thesis using assms(1) g
    by (elim insertE emptyE) (auto simp: residue_for_def sticky_def resmap_def field_simps)
qed

lemma residue_unit:
  assumes "sticky g s" "t < 1000"
  shows "residue_for ((of_nat t + g) / 1000) (if 500 \<le> t then (if 500 < t then 7 else s + 5) else if t \<noteq> 0 then 3 else s)"
proof -
  have g: "- 1 < g" "g < 1" using assms(1) by (simp_all add: sticky_def)
  have le: "of_nat t \<le> (999 :: rat)" using assms(2) of_nat_le_iff [of t 999, where 'a = rat] by simp
  consider "500 < t" | "t = 500" | "0 < t" "t < 500" | "t = 0" by linarith
  then show ?thesis
  proof cases
    case 1
    then have "(501 :: rat) \<le> of_nat t" using of_nat_le_iff [of 501 t, where 'a = rat] by simp
    then show ?thesis using 1 le g by (auto simp: residue_for_def field_simps)
  next
    case 3
    then have "1 \<le> (of_nat t :: rat)" "of_nat t \<le> (499 :: rat)" using of_nat_le_iff [of t 499, where 'a = rat] by simp_all
    then show ?thesis using 3 g by (auto simp: residue_for_def field_simps)
  qed (use assms(1) g in \<open>auto simp: residue_for_def sticky_def field_simps\<close>)
qed

section \<open>Scanning the discarded units\<close>

lemma spinUp_val:
  assumes "n = (D - 1) div 3" "1 \<le> D" "n \<le> length us"
  shows "j \<le> n \<Longrightarrow> spinUp us (int D) (int (3 * j)) j r =
    Some (int (3 * n + 3), n, if units_val (take (n - j) (drop j us)) \<noteq> 0 then 1 else r)"
proof (induction "n - j" arbitrary: j r)
  case 0
  then have "j = n" by simp
  moreover have "int D \<le> int (3 * n) + 3" using assms(1,2) by simp
  ultimately show ?case by (subst spinUp.simps) simp
next
  case (Suc k)
  then have j: "j < n" "k = n - (j + 1)" by simp_all
  then have lt: "\<not> int D \<le> int (3 * j) + 3" using assms(1,2) by simp
  have t: "take (n - j) (drop j us) = us ! j # take (n - (j + 1)) (drop (j + 1) us)"
  proof -
    have "n - j = Suc (n - (j + 1))" using j by simp
    then show ?thesis using j assms(3) by (simp flip: Cons_nth_drop_Suc)
  qed
  have "spinUp us (int D) (int (3 * j)) j r = spinUp us (int D) (int (3 * (j + 1))) (j + 1) (if us ! j \<noteq> 0 then 1 else r)"
    using lt j assms(3) by (subst spinUp.simps) (simp add: add.commute)
  also have "\<dots> = Some (int (3 * n + 3), n, if units_val (take (n - (j + 1)) (drop (j + 1) us)) \<noteq> 0 then 1 else if us ! j \<noteq> 0 then 1 else r)"
    using Suc.hyps(1) [OF j(2)] j by simp
  also have "\<dots> = Some (int (3 * n + 3), n, if units_val (take (n - j) (drop j us)) \<noteq> 0 then 1 else r)"
    unfolding t by (simp add: unat_eq_0)
  finally show ?case .
qed

lemma nonZeroUnit_val: "up + n \<le> length us \<Longrightarrow> nonZeroUnit us up n = Some (units_val (take n (drop up us)) \<noteq> 0)"
proof (induction n arbitrary: up)
  case (Suc n)
  then have "take (Suc n) (drop up us) = us ! up # take n (drop (up + 1) us)" by (simp flip: Cons_nth_drop_Suc)
  then show ?case using Suc by (simp add: unat_eq_0)
qed simp

section \<open>Cutting a coefficient\<close>

lemma tenth:
  fixes q :: uInt
  assumes q: "unat q < 1000"
  defines "temp \<equiv> drop_bit 16 (q * 6554)"
  shows "unat temp = unat q div 10" "unat (q - (push_bit 1 temp + push_bit 3 temp)) = unat q mod 10"
proof -
  define a b where "a = unat q div 10" and "b = unat q mod 10"
  have ab: "unat q = 10 * a + b" "a < 100" "b < 10" using q by (auto simp: a_def b_def)
  have m: "unat (q * 6554) = unat q * 6554" using q by (subst unat_word_ariths) simp
  have "unat q * 6554 = 65536 * a + (4 * a + 6554 * b)" using ab(1) by simp
  moreover have "4 * a + 6554 * b < 65536" using ab(2,3) by simp
  ultimately have "unat q * 6554 div 65536 = a" by simp
  then show t: "unat temp = unat q div 10" unfolding temp_def unat_drop_bit_eq m drop_bit_eq_div [where 'a = nat] a_def by simp
  have s: "unat (push_bit 1 temp + push_bit 3 temp) = 10 * a"
  proof -
    have "push_bit 1 temp + push_bit 3 temp = 10 * temp" unfolding push_bit_eq_mult by simp
    moreover have "unat (10 * temp) = 10 * unat temp" using ab(2) unfolding unat_word_ariths(2) t a_def [symmetric] by simp
    ultimately show ?thesis unfolding t a_def by simp
  qed
  then have "push_bit 1 temp + push_bit 3 temp \<le> q" using ab(1) by (simp add: word_le_nat_alt)
  then have "unat (q - (push_bit 1 temp + push_bit 3 temp)) = unat q - 10 * a" by (simp only: unat_sub s)
  also have "\<dots> = b" using ab(1) by simp
  finally show "unat (q - (push_bit 1 temp + push_bit 3 temp)) = unat q mod 10" unfolding b_def .
qed

lemma cut_value:
  assumes "L < 1000 ^ n" "k \<le> 3"
  shows "(L + 1000 ^ n * (u + 1000 * W)) div (1000 ^ n * 10 ^ k) = (u + 1000 * W) div (10 :: nat) ^ k"
    "(L + 1000 ^ n * (u + 1000 * W)) mod (1000 ^ n * 10 ^ k) = L + 1000 ^ n * (u mod 10 ^ k)"
proof -
  have d: "(L + 1000 ^ n * X) div 1000 ^ n = X" "(L + 1000 ^ n * X) mod 1000 ^ n = L" for X using assms(1) by simp_all
  show "(L + 1000 ^ n * (u + 1000 * W)) div (1000 ^ n * 10 ^ k) = (u + 1000 * W) div (10 :: nat) ^ k" unfolding div_mult2_eq d ..
  have "k = 0 \<or> k = 1 \<or> k = 2 \<or> k = 3" using assms(2) by linarith
  then have "(1000 :: nat) = 10 ^ k * 10 ^ (3 - k)" by auto
  then have "(u + 1000 * W) mod 10 ^ k = u mod 10 ^ k" by (metis mod_mult_self2 mult.assoc)
  then show "(L + 1000 ^ n * (u + 1000 * W)) mod (1000 ^ n * 10 ^ k) = L + 1000 ^ n * (u mod 10 ^ k)"
    unfolding mod_mult2_eq d by simp
qed

lemma cut_units:
  assumes "units_ok (take N us)" "N \<le> length us" "n < N"
  shows "units_val (take N us) = units_val (take n us) + 1000 ^ n * units_val (drop n (take N us))"
    "units_val (take n us) < 1000 ^ n" "unat (us ! n) < 1000" "units_ok (drop n (take N us))"
    "units_val (drop n (take N us)) = unat (us ! n) + 1000 * units_val (drop (Suc n) (take N us))"
proof -
  have t: "take N us = take n us @ drop n (take N us)" using append_take_drop_id [of n "take N us"] assms(3) by (simp add: min_def)
  show "units_val (take N us) = units_val (take n us) + 1000 ^ n * units_val (drop n (take N us))"
    using arg_cong [OF t, of units_val] assms(2,3) by (simp add: units_val_append)
  have "units_ok (take n us)" using units_ok_take [OF assms(1), of n] assms(3) by (simp add: min_def)
  then show "units_val (take n us) < 1000 ^ n" using units_val_less [of "take n us"] assms(2,3) by simp
  show "unat (us ! n) < 1000" using units_ok_nth [OF assms(1), of n] assms(2,3) by simp
  show "units_ok (drop n (take N us))" using assms(1) by (auto simp: units_ok_def dest: in_set_dropD)
  have "drop n (take N us) = us ! n # drop (Suc n) (take N us)" using assms(2,3) Cons_nth_drop_Suc [of n "take N us"] by simp
  then show "units_val (drop n (take N us)) = unat (us ! n) + 1000 * units_val (drop (Suc n) (take N us))" by simp
qed

text \<open>The residue after the scan, with the unit that has the first discarded digit.\<close>

lemma residue_scan:
  assumes r: "residue_for f r" and L: "L < 1000 ^ n" and s: "s = (if L \<noteq> 0 then 1 else if r > 1 then 1 else r)"
  shows "u < 1000 \<Longrightarrow> residue_for ((of_nat (L + 1000 ^ n * (u mod 10 ^ 3)) + f) / (1000 ^ n * 10 ^ 3))
      (if 500 \<le> u then (if 500 < u then 7 else s + 5) else if u \<noteq> 0 then 3 else s)"
    and "ct \<le> 2 \<Longrightarrow> residue_for ((of_nat (L + 1000 ^ n * (u mod 10 ^ Suc ct)) + f) / (1000 ^ n * 10 ^ Suc ct))
      ((if u mod 10 ^ ct \<noteq> 0 then 1 else s) + resmap ! (u div 10 ^ ct mod 10))"
proof -
  define h where "h = (of_nat L + f) / 1000 ^ n"
  have h: "sticky h s" using sticky_below [OF sticky_clamp [OF r] L] unfolding h_def s by simp
  have e: "(of_nat (L + 1000 ^ n * m) + f) / (1000 ^ n * B) = (of_nat m + h) / B" for m and B :: rat
    by (simp add: h_def field_simps)
  show "u < 1000 \<Longrightarrow> residue_for ((of_nat (L + 1000 ^ n * (u mod 10 ^ 3)) + f) / (1000 ^ n * 10 ^ 3))
      (if 500 \<le> u then (if 500 < u then 7 else s + 5) else if u \<noteq> 0 then 3 else s)"
    unfolding e using residue_unit [OF h, of u] by simp
  define g where "g = (of_nat (u mod 10 ^ ct) + h) / 10 ^ ct"
  have g: "sticky g (if u mod 10 ^ ct \<noteq> 0 then 1 else s)" using sticky_below [OF h, of "u mod 10 ^ ct" "10 ^ ct"] by (simp add: g_def)
  have "u mod 10 ^ Suc ct = 10 ^ ct * (u div 10 ^ ct mod 10) + u mod 10 ^ ct" using mod_mult2_eq [of u "10 ^ ct" 10] by (simp add: mult.commute)
  then have eq: "(of_nat (u mod 10 ^ Suc ct) + h) / 10 ^ Suc ct = (of_nat (u div 10 ^ ct mod 10) + g) / 10"
    by (simp add: g_def field_simps)
  show "ct \<le> 2 \<Longrightarrow> residue_for ((of_nat (L + 1000 ^ n * (u mod 10 ^ Suc ct)) + f) / (1000 ^ n * 10 ^ Suc ct))
      ((if u mod 10 ^ ct \<noteq> 0 then 1 else s) + resmap ! (u div 10 ^ ct mod 10))"
    unfolding e eq using residue_digit [OF g, of "u div 10 ^ ct mod 10"] by (simp only: mod_less_divisor zero_less_numeral)
qed

text \<open>An array with a coefficient of at most \<open>len\<close> digits.\<close>

definition holds :: "Unit list \<Rightarrow> int \<Rightarrow> nat \<Rightarrow> bool" where
  "holds us len v \<longleftrightarrow> 1 \<le> len \<and> D2U len \<le> length us \<and> units_ok (take (D2U len) us) \<and> units_val (take (D2U len) us) = v \<and> v < 10 ^ nat len"

lemma dn_ok_holds: "dn_ok dn \<Longrightarrow> holds (lsu dn) (digits dn) (coeff dn)"
  by (simp add: dn_ok_def holds_def coeff_def)

lemma unitsFor_D2U: "0 \<le> n \<Longrightarrow> unitsFor n = D2U n"
  by (simp add: unitsFor_def D2U_eq)

lemma holds_zero: "us \<noteq> [] \<Longrightarrow> holds (us[0 := 0]) 1 0"
  by (cases us) (simp_all add: holds_def D2U_eq)

lemma clearCoeff_val: "lsu dn \<noteq> [] \<Longrightarrow> clearCoeff dn = Some (dn\<lparr>lsu := (lsu dn)[0 := 0], digits := 1\<rparr>)"
  by (simp add: clearCoeff_def)

definition inexact_if :: "int \<Rightarrow> uInt \<Rightarrow> uInt" where
  "inexact_if r st = (if r \<noteq> 0 then st OR DEC_Inexact else st)"

lemma decSetCoeff_cut:
  assumes us: "us = (case src of None \<Rightarrow> lsu dn | Some us \<Rightarrow> us)" and h: "holds us len V"
    and p: "p = ctx_digits ctx" "0 \<le> p" "p < len" and room: "lsu dn \<noteq> []" "D2U p \<le> length (lsu dn)"
    and r: "residue_for f r" and D: "D = nat (len - p)"
  shows "\<exists>l r'. decSetCoeff dn ctx src len r st =
      Some (dn\<lparr>exponent := exponent dn + (len - p), lsu := l, digits := max p 1\<rparr>, r', inexact_if r' (st OR DEC_Rounded)) \<and>
    length l = length (lsu dn) \<and> holds l (max p 1) (V div 10 ^ D) \<and> residue_for ((of_nat (V mod 10 ^ D) + f) / 10 ^ D) r'"
proof -
  define N n ct where "N = D2U len" and "n = (D - 1) div 3" and "ct = D - 1 - 3 * n"
  let ?u = "us ! n" let ?L = "units_val (take n us)" let ?W = "units_val (drop (Suc n) (take N us))"
  let ?s = "if ?L \<noteq> 0 then 1 else if r > 1 then 1 else r"
  have hs: "1 \<le> len" "N \<le> length us" "units_ok (take N us)" "units_val (take N us) = V" "V < 10 ^ nat len"
    using h by (simp_all add: holds_def N_def)
  have D1: "1 \<le> D" "int D = len - p" "int D \<le> len" using p D by auto
  have ct: "ct \<le> 2" "D = 3 * n + Suc ct" using D1(1) by (auto simp: ct_def n_def)
  have nN: "n < N" using D1(3) ct(2) hs(1) by (simp add: N_def D2U_eq)
  note c = cut_units [OF hs(3,2) nN]
  have V: "V = ?L + 1000 ^ n * (unat ?u + 1000 * ?W)" using c(1,5) hs(4) by simp
  have pw: "(10 :: nat) ^ D = 1000 ^ n * 10 ^ Suc ct" "(10 :: rat) ^ D = 1000 ^ n * 10 ^ Suc ct"
    unfolding ct(2) power_add power_mult by simp_all
  have k3: "Suc ct \<le> 3" using ct(1) by simp
  have dv: "V div 10 ^ D = units_val (drop n (take N us)) div 10 ^ Suc ct" "V mod 10 ^ D = ?L + 1000 ^ n * (unat ?u mod 10 ^ Suc ct)"
    unfolding pw V cut_value [OF c(2) k3] c(5) by simp_all
  have spin: "spinUp us (len - p) 0 0 (if r > 1 then 1 else r) = Some (int (3 * n + 3), n, ?s)"
    using spinUp_val [OF n_def D1(1), of us 0] nN hs(2) D1(2) by simp
  have cn: "nat (len - p - (int (3 * n + 3) - 3) - 1) = ct" using D1(2) ct(2) by simp
  have lt: "V div 10 ^ D < 10 ^ nat p"
  proof -
    have "nat len = D + nat p" using D1 p by simp
    then have "V < 10 ^ D * 10 ^ nat p" using hs(5) by (simp add: power_add)
    then show ?thesis by (simp add: less_mult_imp_div_less mult.commute)
  qed
  have max1: "max p 1 = p" if "p \<noteq> 0" using that p(2) by simp
  have zero: "holds ((lsu dn)[0 := 0]) 1 (V div 10 ^ D)" if "p = 0" using lt that holds_zero [OF room(1)] by simp
  have unf: "decSetCoeff dn ctx src len r st = do {
      (dn, residue) \<leftarrow>
        (if ct = 2 then do {
           let residue = (if ?u \<ge> 500 then (if ?u > 500 then 7 else ?s + 5) else if ?u \<noteq> 0 then 3 else ?s);
           if p \<le> 0 then do { dn \<leftarrow> clearCoeff (dn\<lparr>exponent := exponent dn + (len - p)\<rparr>); Some (dn, residue) }
           else do {
             l \<leftarrow> copyUnits us (n + 1) (lsu dn) 0 (unitsFor p);
             Some (dn\<lparr>exponent := exponent dn + (len - p), lsu := l, digits := p\<rparr>, residue)
           }
         }
         else do {
           let quot = (if ct = 0 then ucast ?u else QUOT10 ?u ct);
           let residue = (if ct \<noteq> 0 \<and> ucast ?u - quot * pow10 ct \<noteq> 0 then 1 else ?s);
           let temp = drop_bit 16 (quot * 6554);
           let discard1 = quot - (push_bit 1 temp + push_bit 3 temp);
           let residue = residue + resmap ! unat discard1;
           if p \<le> 0 then do { dn \<leftarrow> clearCoeff (dn\<lparr>exponent := exponent dn + (len - p)\<rparr>); Some (dn, residue) }
           else do {
             (t, l) \<leftarrow> shiftCopy us (ct + 1) temp n p (lsu dn) 0;
             Some (dn\<lparr>exponent := exponent dn + (len - p), lsu := l, digits := p\<rparr>, residue)
           }
         });
      Some (dn, residue, inexact_if residue (st OR DEC_Rounded))
    }"
  proof -
    have half: "(drop_bit 1 (ucast (pow10 3)) :: Unit) = 500" by code_simp
    have "\<not> len - p \<le> 0" "\<not> len - p > len" "peek us n = Some ?u" using p nN hs(2) by auto
    then show ?thesis unfolding decSetCoeff_def us [symmetric] p(1) [symmetric] Let_def
      by (simp only: if_False spin bind.bind_lunit prod.case cn half inexact_if_def) (simp add: Let_def cong: if_cong)
  qed
  have feq: "(of_nat (V mod 10 ^ D) + f) / 10 ^ D = (of_nat (?L + 1000 ^ n * (unat ?u mod 10 ^ Suc ct)) + f) / (1000 ^ n * 10 ^ Suc ct)"
    by (simp only: dv(2) pw(2))
  show ?thesis
  proof (cases "ct = 2")
    case True
    have u500: "?u \<ge> 500 \<longleftrightarrow> 500 \<le> unat ?u" "?u > 500 \<longleftrightarrow> 500 < unat ?u" "?u \<noteq> 0 \<longleftrightarrow> unat ?u \<noteq> 0"
      by (simp_all add: word_le_nat_alt word_less_nat_alt unat_eq_0)
    define r' where "r' = (if ?u \<ge> 500 then (if ?u > 500 then 7 else ?s + 5) else if ?u \<noteq> 0 then 3 else ?s)"
    have ct3: "Suc ct = 3" using True by simp
    have res: "residue_for ((of_nat (V mod 10 ^ D) + f) / 10 ^ D) r'"
      unfolding feq r'_def u500 ct3 by (rule residue_scan(1) [OF r c(2) refl c(3)])
    define l where "l = (if p = 0 then (lsu dn)[0 := 0] else take (D2U p) (drop (Suc n) us) @ drop (D2U p) (lsu dn))"
    have N: "N = Suc n + D2U p" using D1(2) ct(2) True p(2) hs(1) by (simp add: N_def D2U_eq)
    have "copyUnits us (Suc n) (lsu dn) 0 (unitsFor p) = Some (take (D2U p) (drop (Suc n) us) @ drop (D2U p) (lsu dn))" if "0 < p"
      using that hs(2) room(2) copyUnits_room [of "Suc n" "D2U p" us 0 "lsu dn"] by (simp add: unitsFor_D2U N)
    then have eq: "decSetCoeff dn ctx src len r st =
        Some (dn\<lparr>exponent := exponent dn + (len - p), lsu := l, digits := max p 1\<rparr>, r', inexact_if r' (st OR DEC_Rounded))"
      unfolding unf Let_def r'_def [symmetric] using True p(2) room(1) by (cases "p = 0") (simp_all add: l_def clearCoeff_val)
    have "length l = length (lsu dn)" using room hs(2) by (simp add: l_def N)
    moreover have "holds l (max p 1) (V div 10 ^ D)"
    proof (cases "p = 0")
      case False
      have t: "take (D2U p) (drop (Suc n) us) = drop (Suc n) (take N us)" by (simp add: N drop_take)
      have tl: "length (take (D2U p) (drop (Suc n) us)) = D2U p" using hs(2) by (simp add: N)
      have "(10 :: nat) ^ D = 1000 ^ Suc n" unfolding pw ct3 by simp
      then have v: "units_val (drop (Suc n) (take N us)) = V div 10 ^ D"
        using units_val_drop [OF hs(3), of "Suc n"] hs(2,4) nN by simp
      have "units_ok (drop (Suc n) (take N us))" using hs(3) by (auto simp: units_ok_def dest: in_set_dropD)
      moreover have "take (D2U p) l = drop (Suc n) (take N us)"
        unfolding t [symmetric] using False tl by (simp add: l_def del: drop_drop length_drop take_take)
      ultimately show ?thesis using False p(2) room(2) lt v hs(2) \<open>length l = length (lsu dn)\<close> by (simp add: holds_def max1)
    qed (use zero in \<open>simp add: l_def\<close>)
    ultimately show ?thesis using eq res by blast
  next
    case False
    then have ct01: "Suc ct = 1 \<or> Suc ct = 2" using ct(1) by auto
    define quot where "quot = (if ct = 0 then ucast ?u else QUOT10 ?u ct)"
    have q: "unat quot = unat ?u div 10 ^ ct"
    proof (cases "ct = 0")
      case f: False
      then have "ct = 1" using False ct(1) by simp
      then show ?thesis using slice_unit(1) [OF c(3), of ct] by (simp add: quot_def)
    qed (simp add: quot_def unat_ucast_uInt)
    have rm: "(ct \<noteq> 0 \<and> ucast ?u - quot * pow10 ct \<noteq> 0) \<longleftrightarrow> unat ?u mod 10 ^ ct \<noteq> 0"
    proof (cases "ct = 0")
      case f: False
      then have "ct = 1" using False ct(1) by simp
      then show ?thesis using slice_unit(2) [OF c(3), of ct] by (simp add: quot_def unat_eq_0 flip: unat_eq_0)
    qed simp
    have "unat quot < 1000" using q c(3) le_less_trans [OF div_le_dividend] by simp
    note tn = tenth [OF this]
    define temp where "temp = drop_bit 16 (quot * 6554)"
    define r' where "r' = (if ct \<noteq> 0 \<and> ucast ?u - quot * pow10 ct \<noteq> 0 then 1 else ?s) +
      resmap ! unat (quot - (push_bit 1 temp + push_bit 3 temp))"
    have res: "residue_for ((of_nat (V mod 10 ^ D) + f) / 10 ^ D) r'"
      unfolding feq r'_def rm temp_def tn(2) q by (rule residue_scan(2) [OF r c(2) refl ct(1)])
    have "\<exists>l. length l = length (lsu dn) \<and> holds l (max p 1) (V div 10 ^ D) \<and>
      (if p \<le> 0 then l = (lsu dn)[0 := 0] else map_option snd (shiftCopy us (ct + 1) temp n p (lsu dn) 0) = Some l)"
    proof (cases "p = 0")
      case False
      define k where "k = (nat p + 2) div 3"
      have k: "k = D2U p" using p(2) by (simp add: k_def D2U_eq)
      have N: "N = n + (Suc ct + nat p + 2) div 3" using D1(2) ct(2) p(2) hs(1) by (simp add: N_def D2U_eq)
      have dr: "take ((Suc ct + nat p + 2) div 3) (drop n us) = drop n (take N us)" by (simp add: N drop_take)
      have wl: "units_val (drop n (take N us)) < 10 ^ (Suc ct + nat p)"
      proof -
        have "nat len = 3 * n + (Suc ct + nat p)" using D1(2) ct(2) p(2) by simp
        then have "V < 1000 ^ n * 10 ^ (Suc ct + nat p)" using hs(5) by (simp only: power_add power_mult) simp
        then have "1000 ^ n * units_val (drop n (take N us)) < 1000 ^ n * 10 ^ (Suc ct + nat p)" using c(1) hs(4) by linarith
        then show ?thesis by simp
      qed
      obtain ws where ws: "shiftCopy us (Suc ct) temp n (int (nat p)) (lsu dn) 0 = Some (0 + k - 1, take 0 (lsu dn) @ ws @ drop (0 + k) (lsu dn))"
          "length ws = k" "units_ok ws" "units_val ws = units_val (drop n (take N us)) div 10 ^ Suc ct"
      proof -
        have "0 < nat p" "n + (Suc ct + nat p + 2) div 3 \<le> length us" "0 + k \<le> length (lsu dn)"
          using False p(2) hs(2) room(2) by (simp_all add: N k)
        moreover have "unat temp = unat ?u div 10 ^ Suc ct" unfolding temp_def tn(1) q div_mult2_eq [symmetric] by (simp add: mult.commute)
        ultimately show thesis
          using that shiftCopy_val [OF ct01 _ refl k_def, of n us 0 "lsu dn" temp] dr c(4) wl by metis
      qed
      then show ?thesis using ws False p(2) room(2) lt k dv(1) by (intro exI [of _ "ws @ drop k (lsu dn)"]) (auto simp: holds_def max1)
    qed (use zero in auto)
    then obtain l where l: "length l = length (lsu dn)" "holds l (max p 1) (V div 10 ^ D)"
      "if p \<le> 0 then l = (lsu dn)[0 := 0] else map_option snd (shiftCopy us (ct + 1) temp n p (lsu dn) 0) = Some l" by blast
    have "decSetCoeff dn ctx src len r st =
        Some (dn\<lparr>exponent := exponent dn + (len - p), lsu := l, digits := max p 1\<rparr>, r', inexact_if r' (st OR DEC_Rounded))"
      unfolding unf Let_def quot_def [symmetric] temp_def [symmetric] r'_def [symmetric]
      using False l(3) p(2) room(1) by (cases "p = 0") (auto simp: clearCoeff_val max_def)
    then show ?thesis using l res by blast
  qed
qed

end
