(* ===== verification/DnFinishSpec.thy ===== *)
theory DnFinishSpec
  imports DnRoundSpec
begin

text \<open>
  Rounding by value: applying the residue of a cut rounds the exact value to the precision, in every rounding mode, and finishing a result
  in the normal range keeps that.
\<close>

lemma leading_nonzero: "10 ^ k \<le> c \<Longrightarrow> c \<noteq> (0 :: nat)"
  by (metis le_zero_eq power_not_zero zero_neq_numeral)

section \<open>Rounding to an integer\<close>

text \<open>The rounding modes on a magnitude, with the sign of the number.\<close>

definition round_int :: "rounding \<Rightarrow> bool \<Rightarrow> rat \<Rightarrow> int" where
  "round_int m neg q =
     (let d = \<lfloor>q\<rfloor>; f = q - of_int d in
      case m of
        DEC_ROUND_DOWN \<Rightarrow> d
      | DEC_ROUND_UP \<Rightarrow> \<lceil>q\<rceil>
      | DEC_ROUND_CEILING \<Rightarrow> if neg then d else \<lceil>q\<rceil>
      | DEC_ROUND_FLOOR \<Rightarrow> if neg then \<lceil>q\<rceil> else d
      | DEC_ROUND_HALF_UP \<Rightarrow> if f \<ge> 1 / 2 then d + 1 else d
      | DEC_ROUND_HALF_DOWN \<Rightarrow> if f > 1 / 2 then d + 1 else d
      | DEC_ROUND_HALF_EVEN \<Rightarrow> if f > 1 / 2 \<or> f = 1 / 2 \<and> odd d then d + 1 else d
      | DEC_ROUND_05UP \<Rightarrow> if f \<noteq> 0 \<and> d mod 5 = 0 then d + 1 else d
      | DEC_ROUND_MAX \<Rightarrow> d)"

lemma round_int_of_int [simp]: "round_int m neg (of_int n) = n"
  by (cases m) (simp_all add: round_int_def)

lemma floor_residue:
  assumes "- 1 < f" "f < (1 :: rat)"
  shows "\<lfloor>f\<rfloor> = (if f < 0 then - 1 else 0)" "\<lceil>of_nat c + f\<rceil> = (if 0 < f then int c + 1 else int c)"
  using assms by (auto intro!: floor_unique ceiling_unique)

lemma unit_parity:
  assumes "c = unat u + 1000 * w"
  shows "(u :: Unit) AND 1 \<noteq> 0 \<longleftrightarrow> odd c" "unat (u mod 5) = c mod 5"
proof -
  have "(1000 * w) mod 5 = 0" by simp
  then have "c mod 5 = unat u mod 5" unfolding assms by (metis add.right_neutral mod_add_right_eq)
  then show "unat (u mod 5) = c mod 5" by (simp add: unat_mod)
  have "u AND 1 \<noteq> 0 \<longleftrightarrow> odd (unat u)" unfolding and_one_eq odd_iff_mod_2_eq_one [symmetric]
    by (simp add: odd_iff_mod_2_eq_one [symmetric] flip: bit_0 [of u] bit_0 [of "unat u"] add: bit_unsigned_iff)
  then show "u AND 1 \<noteq> 0 \<longleftrightarrow> odd c" unfolding assms by simp
qed

lemma roundBump_int:
  assumes r: "residue_for f r" "- 1 / 2 < f" and u: "c = unat u + 1000 * w" and m: "m \<noteq> DEC_ROUND_MAX"
  shows "\<exists>b. roundBump m neg u r = Some b \<and> b \<in> {- 1, 0, 1} \<and> round_int m neg (of_int (int c) + f) = int c + b"
proof -
  have f: "- 1 < f" "f < 1" "0 < r \<longleftrightarrow> 0 < f" "r < 0 \<longleftrightarrow> f < 0" "5 < r \<longleftrightarrow> 1 / 2 < f" "r = 5 \<longleftrightarrow> f = 1 / 2" "r \<ge> 5 \<longleftrightarrow> 1 / 2 \<le> f"
    using r(1) by (auto simp: residue_for_def)
  note fl = floor_residue [OF f(1,2)]
  have c5: "u mod 5 = 0 \<longleftrightarrow> c mod 5 = 0" "u mod 5 = 1 \<longleftrightarrow> c mod 5 = 1"
    unfolding unit_parity(2) [OF u, symmetric] by (simp_all add: word_unat_eq_iff)
  have "int c mod 5 = int (c mod 5)" by (simp add: zmod_int)
  then have u5: "u mod 5 = 0 \<longleftrightarrow> int c mod 5 = 0" "u mod 5 = 1 \<longleftrightarrow> int c mod 5 = 1" unfolding c5 by linarith+
  have m1: "(int c - 1) mod 5 = 0 \<longleftrightarrow> int c mod 5 = 1" by presburger
  show ?thesis
  proof (cases m)
    case DEC_ROUND_05UP
    then show ?thesis using f(1,3,4) m1 by (auto simp: roundBump_def round_int_def fl u5 Let_def)
  qed (use m f(3-7) r(2) unit_parity(1) [OF u] in \<open>auto simp: roundBump_def round_int_def fl Let_def\<close>)
qed

section \<open>Adding one unit in the last place\<close>

text \<open>All units are nines, or a one and zeros.\<close>

lemma uniformUnits_list:
  assumes "\<And>u :: Unit. ucast u = msu (m :: nat) \<longleftrightarrow> u = v" "1 \<le> m" "m \<le> 3"
  shows "up + q < length us \<Longrightarrow> uniformUnits full msu us up (3 * q + m) =
    Some (if take (Suc q) (drop up us) = replicate q full @ [v] then Some (up + q, m) else None)"
proof (induction q arbitrary: up)
  case 0
  then show ?case using assms by (subst uniformUnits.simps) (simp add: take_Suc_conv_app_nth)
next
  case (Suc q)
  have d: "drop up us = us ! up # drop (Suc up) us" using Suc.prems by (simp add: Cons_nth_drop_Suc)
  have "3 * Suc q + m - 3 = 3 * q + m" "\<not> 3 * Suc q + m \<le> 3" using assms(2) by simp_all
  then have "uniformUnits full msu us up (3 * Suc q + m) = (if us ! up \<noteq> full then Some None else uniformUnits full msu us (Suc up) (3 * q + m))"
    using Suc.prems assms(2) by (subst uniformUnits.simps) auto
  also have "\<dots> = Some (if take (Suc (Suc q)) (drop up us) = replicate (Suc q) full @ [v] then Some (up + Suc q, m) else None)"
    using Suc.IH [of "Suc up"] Suc.prems d by simp
  finally show ?case .
qed

text \<open>The least significant digits of \<open>d\<close> digits in units: \<open>q\<close> full units and one of \<open>m\<close> digits.\<close>

lemma unit_split:
  assumes "1 \<le> d"
  obtains q m where "nat d = 3 * q + m" "1 \<le> m" "m \<le> 3" "D2U d = Suc q"
  using digits_split [OF assms] by (metis nat_int)

lemma nines_val: "units_val (replicate q 999) = 1000 ^ q - 1"
proof (induction q)
  case (Suc q)
  define k where "k = (1000 :: nat) ^ q - 1"
  have "(1000 :: nat) ^ q = Suc k" by (simp add: k_def)
  moreover have "unat (999 :: Unit) = 999" by simp
  ultimately show ?case using Suc by simp
qed simp

lemma units_val_zeros: "units_val (replicate q 0) = 0"
  by (induction q) simp_all

lemma unit_literal: "n < 1000 \<Longrightarrow> unat (of_nat n :: Unit) = n"
  by (simp add: unat_of_nat)

lemma ucast_unit: "ucast (u :: Unit) = (of_nat n :: uInt) \<longleftrightarrow> u = of_nat n" if "n < 1000"
proof -
  have "unat (of_nat n :: uInt) = n" using that by (simp add: unat_of_nat)
  then show ?thesis using unit_literal [OF that] by (simp add: word_unat_eq_iff unat_ucast_uInt)
qed

lemma uniform_value:
  assumes h: "holds us d c" and q: "nat d = 3 * q + m" "1 \<le> m" "m \<le> 3" "D2U d = Suc q"
    and n: "n < 1000" "msu m = of_nat n" and full: "unat full < 1000"
  shows "uniformUnits full msu us 0 (nat d) = Some (if c = units_val (replicate q full @ [of_nat n]) then Some (q, m) else None)"
proof -
  have hs: "D2U d \<le> length us" "units_ok (take (D2U d) us)" "units_val (take (D2U d) us) = c" using h by (simp_all add: holds_def)
  have "units_ok (replicate q full @ [of_nat n])" using unit_literal [OF n(1)] n(1) full by (auto simp: units_ok_def)
  then have "take (Suc q) us = replicate q full @ [of_nat n] \<longleftrightarrow> c = units_val (replicate q full @ [of_nat n])"
    using units_val_inj [of "take (Suc q) us" "replicate q full @ [of_nat n]"] hs q(4) by auto
  moreover have "ucast u = msu m \<longleftrightarrow> u = of_nat n" for u :: Unit unfolding n(2) by (rule ucast_unit [OF n(1)])
  ultimately show ?thesis using uniformUnits_list [of msu m "of_nat n" 0 q us full] q hs(1) by simp
qed

lemma uniform_nines:
  assumes h: "holds us d c" and q: "nat d = 3 * q + m" "1 \<le> m" "m \<le> 3" "D2U d = Suc q"
  shows "uniformUnits 999 (\<lambda>n. pow10 n - 1) us 0 (nat d) = Some (if c = 10 ^ nat d - 1 then Some (q, m) else None)"
proof -
  define n where "n = 10 ^ m - (1 :: nat)"
  have "m = 1 \<or> m = 2 \<or> m = 3" using q by auto
  then have n: "n < 1000" "pow10 m - 1 = of_nat n" by (auto simp: n_def DECPOWERS_def)
  have "units_val (replicate q 999 @ [of_nat n]) = 1000 ^ q - 1 + 1000 ^ q * n" using unit_literal [OF n(1)] by (simp add: units_val_append nines_val)
  also have "\<dots> = 10 ^ nat d - 1"
  proof -
    have "(10 :: nat) ^ nat d = 1000 ^ q * 10 ^ m" unfolding q(1) power_add power_mult by simp
    moreover have "(1 :: nat) \<le> 1000 ^ q" "(1 :: nat) \<le> 10 ^ m" by simp_all
    ultimately show ?thesis by (simp add: n_def diff_mult_distrib2)
  qed
  finally show ?thesis using uniform_value [OF h q n(1), of "\<lambda>n. pow10 n - 1" 999] n(2) by simp
qed

lemma uniform_one:
  assumes h: "holds us d c" and q: "nat d = 3 * q + m" "1 \<le> m" "m \<le> 3" "D2U d = Suc q"
  shows "uniformUnits 0 (\<lambda>n. pow10 (n - 1)) us 0 (nat d) = Some (if c = 10 ^ (nat d - 1) then Some (q, m) else None)"
proof -
  define n where "n = (10 :: nat) ^ (m - 1)"
  have "m = 1 \<or> m = 2 \<or> m = 3" using q by auto
  then have n: "n < 1000" "pow10 (m - 1) = of_nat n" by (auto simp: n_def DECPOWERS_def)
  have "nat d - 1 = 3 * q + (m - 1)" using q by simp
  then have "(10 :: nat) ^ (nat d - 1) = 1000 ^ q * n" by (simp only: power_add power_mult n_def) simp
  then have "units_val (replicate q 0 @ [of_nat n]) = 10 ^ (nat d - 1)" using unit_literal [OF n(1)] by (simp add: units_val_append units_val_zeros)
  then show ?thesis using uniform_value [OF h q n(1), of "\<lambda>n. pow10 (n - 1)" 0] n(2) by simp
qed

text \<open>The carry into a new unit never happens: the sum has as many digits as the number.\<close>

lemma bumpUnits_val:
  assumes h: "holds (lsu dn) (digits dn) c" and b: "b = 1 \<and> c + 1 < 10 ^ nat (digits dn) \<or> b = - 1 \<and> 1 \<le> c"
  shows "\<exists>l. bumpUnits dn b = Some (dn\<lparr>lsu := l\<rparr>) \<and> length l = length (lsu dn) \<and> holds l (digits dn) (nat (int c + b))"
proof -
  define N where "N = D2U (digits dn)"
  have hs: "1 \<le> digits dn" "N \<le> length (lsu dn)" "units_ok (take N (lsu dn))" "units_val (take N (lsu dn)) = c" "c < 10 ^ nat (digits dn)"
    using h by (simp_all add: holds_def N_def)
  have N: "1 \<le> N" "(10 :: nat) ^ nat (digits dn) \<le> 1000 ^ N" using pow10_units [of "digits dn"] hs(1) by (auto simp: N_def)
  obtain a neg where r: "decUnitAddSub (take N (lsu dn)) [1] 0 b = (a, neg)" by fastforce
  have "units_ok [1]" "mult_ok b" using b by (auto simp: mult_ok_def)
  note x = decUnitAddSub_exact [OF hs(3) this r, unfolded hs(4)]
  have mx: "max (length (take N (lsu dn))) (length [1 :: Unit] + 0) = N" using N(1) hs(2) by simp
  have v: "units_val a = nat (int c + b)" using x(4,5) b by (auto split: if_splits)
  have "nat (int c + b) = (if b = 1 then c + 1 else c - 1)" using b by (auto simp: nat_add_distrib nat_diff_distrib)
  then have lt: "nat (int c + b) < 10 ^ nat (digits dn)" using b hs(5) by (auto intro: le_less_trans)
  have "length a = N"
  proof (rule ccontr)
    assume "length a \<noteq> N"
    then have l: "length a = Suc N" using x(2,3) unfolding mx by simp
    then have "1000 ^ N \<le> units_val a" using units_val_lower [of a] x(6) unfolding mx by fastforce
    then show False using v lt N(2) by linarith
  qed
  moreover have "bumpUnits dn b = Some (dn\<lparr>lsu := a @ drop N (lsu dn)\<rparr>)"
    using hs(2) r \<open>length a = N\<close> by (simp add: bumpUnits_def unitsOf_def writeUnits_def N_def)
  ultimately show ?thesis using hs(1,2) x(1) v lt by (intro exI [of _ "a @ drop N (lsu dn)"]) (simp add: holds_def N_def [symmetric])
qed

text \<open>All nines become a one and zeros with the next exponent.\<close>

lemma holds_uniform:
  assumes q: "nat d = 3 * q + m" "1 \<le> m" "m \<le> 3" "D2U d = Suc q" and d: "1 \<le> d" "Suc q \<le> length us"
    and n: "n < 10 ^ m" and full: "unat full < 1000" and v: "units_val (replicate q full) + 1000 ^ q * n = v"
  shows "holds (replicate q full @ of_nat n # drop (Suc q) us) d v"
proof -
  have m: "(10 :: nat) ^ m \<le> 1000" using power_increasing [of m 3 "10 :: nat"] q(3) by simp
  then have n1: "unat (of_nat n :: Unit) = n" using n by (intro unit_literal) simp
  have "v < 1000 ^ q * Suc n" using v units_val_less [of "replicate q full"] full by (simp add: units_ok_def)
  also have "\<dots> \<le> 1000 ^ q * 10 ^ m" using n by (intro mult_le_mono2) simp
  also have "\<dots> = 10 ^ nat d" unfolding q(1) power_add power_mult by simp
  finally have "v < 10 ^ nat d" .
  then show ?thesis using q(4) d v full n1 n m by (auto simp: holds_def units_ok_def units_val_append)
qed

lemma bumpUp_val:
  assumes h: "holds (lsu dn) (digits dn) c" "10 ^ (nat (digits dn) - 1) \<le> c"
    and e: "c + 1 = 10 ^ nat (digits dn) \<Longrightarrow> exponent dn + digits dn \<le> emax ctx"
  shows "\<exists>l x c'. bumpUp dn ctx st = Some (dn\<lparr>lsu := l, exponent := x\<rparr>, st) \<and> length l = length (lsu dn) \<and> holds l (digits dn) c' \<and>
    10 ^ (nat (digits dn) - 1) \<le> c' \<and> of_nat c' * 10 powi x = (of_nat c + 1) * (10 :: rat) powi exponent dn \<and> exponent dn \<le> x"
proof -
  have d: "1 \<le> digits dn" "D2U (digits dn) \<le> length (lsu dn)" "c < 10 ^ nat (digits dn)" using h(1) by (simp_all add: holds_def)
  obtain q m where q: "nat (digits dn) = 3 * q + m" "1 \<le> m" "m \<le> 3" "D2U (digits dn) = Suc q" using unit_split [OF d(1)] .
  have "c = 10 ^ nat (digits dn) - 1 \<longleftrightarrow> c + 1 = 10 ^ nat (digits dn)" using d(3) by auto
  note u = uniform_nines [OF h(1) q, unfolded this]
  show ?thesis
  proof (cases "c + 1 = 10 ^ nat (digits dn)")
    case True
    define l where "l = replicate q 0 @ of_nat (10 ^ (m - 1)) # drop (Suc q) (lsu dn)"
    have "m = 1 \<or> m = 2 \<or> m = 3" using q by auto
    then have "ucast (pow10 (m - 1)) = (of_nat (10 ^ (m - 1)) :: Unit)" by (auto simp: DECPOWERS_def)
    then have eq: "bumpUp dn ctx st = Some (dn\<lparr>lsu := l, exponent := exponent dn + 1\<rparr>, st)"
      using u True e by (simp add: bumpUp_def Let_def l_def)
    have s: "nat (digits dn) = Suc (nat (digits dn) - 1)" using d(1) by simp
    have "nat (digits dn) - 1 = 3 * q + (m - 1)" using q by simp
    then have "1000 ^ q * 10 ^ (m - 1) = (10 :: nat) ^ (nat (digits dn) - 1)" by (simp only: power_add power_mult) simp
    then have hl: "holds l (digits dn) (10 ^ (nat (digits dn) - 1))" unfolding l_def using d q
      by (intro holds_uniform [OF q]) (auto simp: units_val_zeros)
    have "(of_nat c + 1 :: rat) = of_nat (c + 1)" by simp
    also have "\<dots> = 10 * of_nat (10 ^ (nat (digits dn) - 1))" unfolding True by (subst s) simp
    finally have "of_nat (10 ^ (nat (digits dn) - 1)) * 10 powi (exponent dn + 1) = (of_nat c + 1) * (10 :: rat) powi exponent dn"
      by (simp add: power_int_add)
    then show ?thesis using eq hl d q by (intro exI conjI) (auto simp: l_def)
  next
    case False
    then have "c + 1 < 10 ^ nat (digits dn)" using d(3) by simp
    then obtain l where "bumpUnits dn 1 = Some (dn\<lparr>lsu := l\<rparr>)" "length l = length (lsu dn)" "holds l (digits dn) (c + 1)"
      using bumpUnits_val [OF h(1), of 1] by (auto simp: nat_add_distrib)
    moreover have "dn\<lparr>lsu := l\<rparr> = dn\<lparr>lsu := l, exponent := exponent dn\<rparr>" for l by simp
    ultimately show ?thesis using u False h(2)
      by (intro exI [of _ l] exI [of _ "exponent dn"] exI [of _ "c + 1"]) (auto simp: bumpUp_def)
  qed
qed

text \<open>A one and zeros become nines with the exponent below, except at the least exponent.\<close>

lemma bumpDown_val:
  assumes h: "holds (lsu dn) (digits dn) c" "10 ^ (nat (digits dn) - 1) \<le> c"
    and e: "c = 10 ^ (nat (digits dn) - 1) \<Longrightarrow> exponent dn \<noteq> emin ctx - ctx_digits ctx + 1"
  shows "\<exists>l x c'. bumpDown dn ctx st = Some (dn\<lparr>lsu := l, exponent := x\<rparr>, st) \<and> length l = length (lsu dn) \<and> holds l (digits dn) c' \<and>
    (if c = 10 ^ (nat (digits dn) - 1) then c' = 10 ^ nat (digits dn) - 1 \<and> x = exponent dn - 1 else c' = c - 1 \<and> x = exponent dn)"
proof -
  have d: "1 \<le> digits dn" "D2U (digits dn) \<le> length (lsu dn)" "c < 10 ^ nat (digits dn)" using h(1) by (simp_all add: holds_def)
  obtain q m where q: "nat (digits dn) = 3 * q + m" "1 \<le> m" "m \<le> 3" "D2U (digits dn) = Suc q" using unit_split [OF d(1)] .
  note u = uniform_one [OF h(1) q]
  show ?thesis
  proof (cases "c = 10 ^ (nat (digits dn) - 1)")
    case True
    define l where "l = replicate q 999 @ of_nat (10 ^ m - 1) # drop (Suc q) (lsu dn)"
    have "m = 1 \<or> m = 2 \<or> m = 3" using q by auto
    then have "ucast (pow10 m) - 1 = (of_nat (10 ^ m - 1) :: Unit)" by (auto simp: DECPOWERS_def)
    then have eq: "bumpDown dn ctx st = Some (dn\<lparr>lsu := l, exponent := exponent dn - 1\<rparr>, st)"
      using u True e by (simp add: bumpDown_def Let_def l_def)
    have "1000 ^ q - 1 + 1000 ^ q * (10 ^ m - 1) = (10 :: nat) ^ nat (digits dn) - 1"
    proof -
      have "(10 :: nat) ^ nat (digits dn) = 1000 ^ q * 10 ^ m" unfolding q(1) power_add power_mult by simp
      moreover have "(1 :: nat) \<le> 1000 ^ q" "(1 :: nat) \<le> 10 ^ m" by simp_all
      ultimately show ?thesis by (simp add: diff_mult_distrib2)
    qed
    then have "holds l (digits dn) (10 ^ nat (digits dn) - 1)" unfolding l_def using d q
      by (intro holds_uniform [OF q]) (auto simp: nines_val)
    then show ?thesis using eq d q True by (intro exI conjI) (auto simp: l_def)
  next
    case False
    have "1 \<le> c" using leading_nonzero [OF h(2)] by simp
    then obtain l where "bumpUnits dn (- 1) = Some (dn\<lparr>lsu := l\<rparr>)" "length l = length (lsu dn)" "holds l (digits dn) (c - 1)"
      using bumpUnits_val [OF h(1), of "- 1"] by (auto simp: nat_diff_distrib)
    moreover have "dn\<lparr>lsu := l\<rparr> = dn\<lparr>lsu := l, exponent := exponent dn\<rparr>" for l by simp
    ultimately show ?thesis using u False
      by (intro exI [of _ l] exI [of _ "exponent dn"] exI [of _ "c - 1"]) (auto simp: bumpDown_def)
  qed
qed

section \<open>Rounding to a precision\<close>

text \<open>
  \<open>y\<close> is the positive \<open>x\<close> rounded to \<open>p\<close> digits: the exponent \<open>e\<close> gives \<open>x\<close> exactly \<open>p\<close> digits before the point.
\<close>

definition rounds_to :: "rounding \<Rightarrow> bool \<Rightarrow> int \<Rightarrow> rat \<Rightarrow> rat \<Rightarrow> bool" where
  "rounds_to m neg p x y \<longleftrightarrow>
     (\<exists>e. 10 ^ (nat p - 1) \<le> x / 10 powi e \<and> x / 10 powi e < 10 ^ nat p \<and> y = of_int (round_int m neg (x / 10 powi e)) * 10 powi e)"

lemma powi_split: "a \<le> b \<Longrightarrow> (10 :: rat) powi b = 10 ^ nat (b - a) * 10 powi a"
proof -
  assume "a \<le> b"
  then have "b = int (nat (b - a)) + a" by simp
  then show ?thesis by (metis power_int_add power_int_of_nat zero_neq_numeral)
qed

lemma powi_less_iff: "(10 :: rat) powi a < 10 powi b \<longleftrightarrow> a < b"
  using power_int_strict_increasing [of a b "10 :: rat"] power_int_increasing [of b a "10 :: rat"] by (auto simp: not_less [symmetric])

text \<open>A number with at most \<open>p\<close> digits is its own rounding.\<close>

lemma rounds_exact:
  assumes "1 \<le> d" "d \<le> p" "10 ^ (nat d - 1) \<le> c" "c < 10 ^ nat d"
  shows "rounds_to m neg p (of_nat c * 10 powi e) (of_nat c * 10 powi e)"
proof -
  define k where "k = nat (p - d)"
  have x: "of_nat c * (10 :: rat) powi e / 10 powi (e - int k) = of_nat (c * 10 ^ k)" by (simp add: power_int_diff)
  have p: "nat p = nat d + k" "nat p - 1 = nat d - 1 + k" using assms(1,2) by (auto simp: k_def)
  have "(10 :: nat) ^ (nat p - 1) \<le> c * 10 ^ k" using assms(3) unfolding p(2) power_add by simp
  moreover have "c * 10 ^ k < (10 :: nat) ^ nat p" using assms(4) unfolding p(1) power_add by simp
  ultimately have "(10 :: rat) ^ (nat p - 1) \<le> of_nat (c * 10 ^ k)" "of_nat (c * 10 ^ k) < (10 :: rat) ^ nat p"
    by (metis of_nat_le_iff of_nat_numeral of_nat_power, metis of_nat_less_iff of_nat_numeral of_nat_power)
  moreover have "of_nat c * (10 :: rat) powi e = of_int (round_int m neg (of_nat (c * 10 ^ k))) * 10 powi (e - int k)"
    using round_int_of_int [of m neg "int (c * 10 ^ k)"] by (simp add: power_int_diff)
  ultimately show ?thesis unfolding rounds_to_def by (intro exI [of _ "e - int k"]) (unfold x, blast)
qed

lemma rounds_unique:
  assumes "rounds_to m neg p x y" "1 \<le> p" "10 ^ (nat p - 1) \<le> x / 10 powi e" "x / 10 powi e < 10 ^ nat p"
  shows "y = of_int (round_int m neg (x / 10 powi e)) * 10 powi e"
proof -
  obtain e' where e': "10 ^ (nat p - 1) \<le> x / 10 powi e'" "x / 10 powi e' < 10 ^ nat p" "y = of_int (round_int m neg (x / 10 powi e')) * 10 powi e'"
    using assms(1) by (auto simp: rounds_to_def)
  have le: "b \<le> a" if "10 ^ (nat p - 1) \<le> x / 10 powi b" "x / 10 powi a < 10 ^ nat p" for a b
  proof (rule ccontr)
    assume "\<not> b \<le> a"
    then have ab: "(10 :: rat) powi (a + 1) \<le> 10 powi b" by (intro power_int_increasing) auto
    have p1: "10 ^ nat p = 10 * (10 :: rat) ^ (nat p - 1)" using assms(2) by (subst power_Suc [symmetric]) simp
    have "x < 10 ^ nat p * 10 powi a" using that(2) by (simp add: field_simps)
    also have "\<dots> = 10 ^ (nat p - 1) * 10 powi (a + 1)" unfolding p1 by (simp add: power_int_add)
    also have "\<dots> \<le> 10 ^ (nat p - 1) * 10 powi b" using ab by (intro mult_left_mono) auto
    also have "\<dots> \<le> x" using that(1) by (simp add: field_simps)
    finally show False by simp
  qed
  have "e = e'" using le [OF e'(1) assms(4)] le [OF assms(3) e'(2)] by simp
  then show ?thesis using e'(3) by simp
qed

lemma coeff_range:
  assumes "10 ^ k \<le> c" "c < 10 ^ n"
  shows "(10 :: rat) ^ k \<le> of_nat c" "of_nat c + 1 \<le> (10 :: rat) ^ n"
  using assms of_nat_le_iff [of "10 ^ k" c, where 'a = rat] of_nat_le_iff [of "c + 1" "10 ^ n", where 'a = rat] by simp_all

lemma roundBump_negative:
  assumes "r < 0" "u mod 5 = 1 \<longleftrightarrow> u' mod 5 = 1"
  shows "roundBump m neg u r = roundBump m neg u' r"
  using assms by (cases m) (auto simp: roundBump_def Let_def)

lemma roundBump_down: "roundBump m neg u r = Some (- 1) \<Longrightarrow> r < 0"
  by (cases m) (auto simp: roundBump_def Let_def split: if_splits)

text \<open>Rounding the value of a coefficient and a residue, in units of the last place.\<close>

lemma rounds_residue:
  assumes c: "10 ^ (nat p - 1) \<le> c" "c < 10 ^ nat p" "c = unat u + 1000 * w" and p: "2 \<le> p"
    and r: "residue_for f r" "- 1 / 20 < f" and m: "m \<noteq> DEC_ROUND_MAX"
    and y: "rounds_to m neg p ((of_nat c + f) * 10 powi e) y"
  obtains b where "roundBump m neg u r = Some b" "b = 0 \<or> b = 1 \<or> b = - 1 \<and> f < 0"
    "y = (if b = - 1 \<and> c = 10 ^ (nat p - 1) then of_nat (10 ^ nat p - 1) * 10 powi (e - 1) else of_int (int c + b) * 10 powi e)"
proof -
  have f: "- 1 < f" "f < 1" "r < 0 \<longleftrightarrow> f < 0" "- 1 / 2 < f" using r by (auto simp: residue_for_def)
  obtain b where b: "roundBump m neg u r = Some b" "b \<in> {- 1, 0, 1}" "round_int m neg (of_int (int c) + f) = int c + b"
    using roundBump_int [OF r(1) f(4) c(3) m] by blast
  have bf: "b = - 1 \<Longrightarrow> f < 0" using roundBump_down b(1) f(3) by blast
  have q: "(of_nat c + f) * 10 powi e / 10 powi e = of_int (int c) + f" by simp
  note cr = coeff_range [OF c(1,2)]
  show thesis
  proof (cases "f < 0 \<and> c = 10 ^ (nat p - 1)")
    case False
    have "10 ^ (nat p - 1) \<le> of_nat c + f"
    proof (cases "f < 0")
      case True
      then have "10 ^ (nat p - 1) + 1 \<le> c" using False c(1) by simp
      then have "(10 :: rat) ^ (nat p - 1) + 1 \<le> of_nat c" using of_nat_le_iff [of "10 ^ (nat p - 1) + 1" c, where 'a = rat] by simp
      then show ?thesis using f(1) by linarith
    qed (use cr(1) in linarith)
    moreover have "of_nat c + f < 10 ^ nat p" using cr(2) f(2) by linarith
    ultimately have "y = of_int (int c + b) * 10 powi e"
      using rounds_unique [OF y, of e] p b(3) unfolding q by simp
    then show thesis using that [OF b(1)] b(2) bf False by auto
  next
    case True
    define u' :: Unit where "u' = of_nat (10 ^ nat p mod 1000)"
    have u': "unat u' = 10 ^ nat p mod 1000" "10 ^ nat p = unat u' + 1000 * (10 ^ nat p div 1000)" by (simp_all add: u'_def unat_of_nat)
    have r': "residue_for (10 * f) r" "- 1 / 2 < 10 * f" using True r f by (auto simp: residue_for_def)
    obtain b' where b': "roundBump m neg u' r = Some b'" "round_int m neg (of_int (int (10 ^ nat p)) + 10 * f) = int (10 ^ nat p) + b'"
      using roundBump_int [OF r' u'(2) m] by blast
    define k where "k = nat p - 2"
    have k: "nat p = Suc (Suc k)" using p by (simp add: k_def)
    have "c mod 5 = 0" "(10 :: nat) ^ nat p mod 5 = 0" using True k by simp_all
    then have "unat (u mod 5) = 0" "unat (u' mod 5) = 0" using unit_parity(2) [OF c(3)] unit_parity(2) [OF u'(2)] by simp_all
    then have "u mod 5 \<noteq> 1" "u' mod 5 \<noteq> 1" by (auto simp: word_unat_eq_iff)
    then have bb: "b' = b" using roundBump_negative [of r u u' m neg] True f(3) b(1) b'(1) by simp
    have c10: "10 * of_nat c = (10 :: rat) ^ nat p" using True k by simp
    have x: "(of_nat c + f) * 10 powi e / 10 powi (e - 1) = of_int (int (10 ^ nat p)) + 10 * f"
    proof -
      have "(of_nat c + f) * 10 powi e / 10 powi (e - 1) = 10 * of_nat c + 10 * f" by (simp add: power_int_diff field_simps)
      then show ?thesis unfolding c10 by simp
    qed
    have "(10 :: rat) ^ (nat p - 1) \<le> of_int (int (10 ^ nat p)) + 10 * f" "of_int (int (10 ^ nat p)) + 10 * f < (10 :: rat) ^ nat p"
    proof -
      have i: "of_int (int (10 ^ nat p)) = (10 :: rat) ^ nat p" by simp
      have "(1 :: rat) \<le> 10 ^ (nat p - 1)" by simp
      moreover have "(10 :: rat) ^ nat p = 10 * 10 ^ (nat p - 1)" using k by simp
      ultimately show "(10 :: rat) ^ (nat p - 1) \<le> of_int (int (10 ^ nat p)) + 10 * f" unfolding i using r'(2) by linarith
      show "of_int (int (10 ^ nat p)) + 10 * f < (10 :: rat) ^ nat p" using True by simp
    qed
    then have y': "y = of_int (int (10 ^ nat p) + b) * 10 powi (e - 1)"
      using rounds_unique [OF y, of "e - 1"] p b'(2) bb unfolding x by simp
    have "b \<noteq> 1" using b(1) True f(3) by (cases m) (auto simp: roundBump_def Let_def split: if_splits)
    show thesis
    proof (rule that [OF b(1)])
      show "b = 0 \<or> b = 1 \<or> b = - 1 \<and> f < 0" using b(2) True by auto
      have "of_nat (10 ^ nat p) * (10 :: rat) powi (e - 1) = of_nat c * 10 powi e" using c10 by (simp add: power_int_diff)
      then show "y = (if b = - 1 \<and> c = 10 ^ (nat p - 1) then of_nat (10 ^ nat p - 1) * 10 powi (e - 1) else of_int (int c + b) * 10 powi e)"
        using y' True b(2) \<open>b \<noteq> 1\<close> by (auto simp: of_nat_diff)
    qed
  qed
qed

lemma decApplyRound_val:
  assumes h: "holds (lsu dn) (digits dn) c" "10 ^ (nat (digits dn) - 1) \<le> c"
    and p: "2 \<le> digits dn" and r: "residue_for f r" "- 1 / 20 < f" "r \<noteq> 0" and m: "ctx_round ctx \<noteq> DEC_ROUND_MAX"
    and y: "rounds_to (ctx_round ctx) (decNumberIsNegative dn) (digits dn) ((of_nat c + f) * 10 powi exponent dn) y"
    and big: "y < 10 powi (emax ctx + 1)" and small: "f < 0 \<Longrightarrow> c = 10 ^ (nat (digits dn) - 1) \<Longrightarrow> exponent dn \<noteq> emin ctx - ctx_digits ctx + 1"
  shows "\<exists>l x c'. decApplyRound dn ctx r st = Some (dn\<lparr>lsu := l, exponent := x\<rparr>, st) \<and> length l = length (lsu dn) \<and>
    holds l (digits dn) c' \<and> 10 ^ (nat (digits dn) - 1) \<le> c' \<and> of_nat c' * 10 powi x = y"
proof -
  let ?p = "digits dn" let ?u = "lsu dn ! 0"
  have hs: "1 \<le> ?p" "D2U ?p \<le> length (lsu dn)" "units_val (take (D2U ?p) (lsu dn)) = c" "c < 10 ^ nat ?p" using h(1) by (simp_all add: holds_def)
  obtain N where N: "D2U ?p = Suc N" using digits_split [OF hs(1)] by metis
  then obtain us where us: "lsu dn = ?u # us" using hs(2) by (cases "lsu dn") auto
  then have c: "c = unat ?u + 1000 * units_val (take N us)" using hs(3) N by (metis take_Suc_Cons units_val.simps(2))
  obtain b where b: "roundBump (ctx_round ctx) (decNumberIsNegative dn) ?u r = Some b" "b = 0 \<or> b = 1 \<or> b = - 1 \<and> f < 0"
    "y = (if b = - 1 \<and> c = 10 ^ (nat ?p - 1) then of_nat (10 ^ nat ?p - 1) * 10 powi (exponent dn - 1) else of_int (int c + b) * 10 powi exponent dn)"
    using rounds_residue [OF h(2) hs(4) c p r(1,2) m y] .
  have "peek (lsu dn) 0 = Some ?u" using hs(2) N by (auto simp: peek_def)
  then have eq: "decApplyRound dn ctx r st = (if b = 0 then Some (dn, st) else if b > 0 then bumpUp dn ctx st else bumpDown dn ctx st)"
    using r(3) b(1) by (simp add: decApplyRound_def)
  consider "b = 0" | "b = 1" | "b = - 1" "f < 0" using b(2) by blast
  then show ?thesis
  proof cases
    case 1
    then show ?thesis using eq b(3) h by (intro exI [of _ "lsu dn"] exI [of _ "exponent dn"] exI [of _ c]) simp
  next
    case 2
    have "exponent dn + ?p \<le> emax ctx" if c1: "c + 1 = 10 ^ nat ?p"
    proof -
      have "y = of_nat (c + 1) * 10 powi exponent dn" using b(3) 2 by simp
      also have "\<dots> = 10 powi ?p * 10 powi exponent dn" using hs(1) unfolding c1 by (simp add: power_int_def)
      also have "\<dots> = 10 powi (?p + exponent dn)" by (simp add: power_int_add)
      finally have "(10 :: rat) powi (?p + exponent dn) < 10 powi (emax ctx + 1)" using big by simp
      then show ?thesis by (simp add: powi_less_iff)
    qed
    from bumpUp_val [OF h this, of st] show ?thesis using eq b(3) 2 by (auto simp: add.commute)
  next
    case 3
    from bumpDown_val [OF h small [OF 3(2)], of st]
    obtain l x c' where l: "bumpDown dn ctx st = Some (dn\<lparr>lsu := l, exponent := x\<rparr>, st)" "length l = length (lsu dn)" "holds l ?p c'"
      "if c = 10 ^ (nat ?p - 1) then c' = 10 ^ nat ?p - 1 \<and> x = exponent dn - 1 else c' = c - 1 \<and> x = exponent dn" by blast
    have le: "10 ^ (nat ?p - 1) \<le> c'"
    proof (cases "c = 10 ^ (nat ?p - 1)")
      case True
      have "nat ?p = Suc (nat ?p - 1)" using hs(1) by simp
      then have "(10 :: nat) ^ nat ?p = 10 * 10 ^ (nat ?p - 1)" by (metis power_Suc)
      then have "c' = 10 * 10 ^ (nat ?p - 1) - 1" using l(4) True by simp
      moreover have "(1 :: nat) \<le> 10 ^ (nat ?p - 1)" by simp
      ultimately show ?thesis by linarith
    next
      case False
      then show ?thesis using l(4) h(2) by simp
    qed
    have "1 \<le> c" using leading_nonzero [OF h(2)] by simp
    then have "of_nat c' * 10 powi x = y" using b(3) 3 l(4) by (auto simp: of_nat_diff split: if_splits)
    then show ?thesis using eq 3 l(1-3) le by auto
  qed
qed

section \<open>Finishing a result in the normal range\<close>

lemma rounds_same: "rounds_to m neg p x y \<Longrightarrow> rounds_to m neg p x z \<Longrightarrow> 1 \<le> p \<Longrightarrow> y = z"
  using rounds_unique by (fastforce simp: rounds_to_def [of m neg p x z])

text \<open>A context for results of 39 digits at most.\<close>

definition context_fits :: "decContext \<Rightarrow> bool" where
  "context_fits ctx \<longleftrightarrow> 2 \<le> ctx_digits ctx \<and> ctx_digits ctx \<le> int DECNUMDIGITS \<and> clamp ctx = 0 \<and> ctx_round ctx \<noteq> DEC_ROUND_MAX"

text \<open>
  The exact positive magnitude \<open>x\<close> of a result in the normal range, and its rounding \<open>y\<close>.
\<close>

definition normal_result :: "decContext \<Rightarrow> bool \<Rightarrow> rat \<Rightarrow> rat \<Rightarrow> bool" where
  "normal_result ctx neg x y \<longleftrightarrow> rounds_to (ctx_round ctx) neg (ctx_digits ctx) x y \<and> 10 powi emin ctx \<le> x \<and> y < 10 powi (emax ctx + 1)"

lemma dn_ok_holds_iff: "dn_ok dn \<longleftrightarrow> holds (lsu dn) (digits dn) (coeff dn) \<and> (digits dn = 1 \<or> 10 ^ (nat (digits dn) - 1) \<le> coeff dn)"
  by (auto simp: dn_ok_def holds_def coeff_def)

lemma holds_coeff: "holds (lsu dn) (digits dn) c \<Longrightarrow> coeff dn = c"
  by (simp add: holds_def coeff_def)

lemma least_normal:
  assumes "f < (1 :: rat)" "c < 10 ^ nat d" "0 \<le> d" "10 powi m \<le> (of_nat c + f) * 10 powi e"
  shows "m < d + e"
proof -
  have "of_nat c + 1 \<le> (10 :: rat) ^ nat d" using assms(2) of_nat_le_iff [of "c + 1" "10 ^ nat d", where 'a = rat] by simp
  then have "of_nat c + f < (10 :: rat) ^ nat d" using assms(1) by linarith
  then have "(of_nat c + f) * 10 powi e < 10 ^ nat d * 10 powi e" by (intro mult_strict_right_mono) auto
  also have "\<dots> = (10 :: rat) powi (d + e)" using powi_split [of e "d + e"] assms(3) by simp
  finally have "(10 :: rat) powi m < 10 powi (d + e)" using assms(4) by linarith
  then show ?thesis by (simp add: powi_less_iff)
qed

lemma finishNormal_normal:
  assumes ctx: "context_fits ctx" and dn: "dn_ok dn" "coeff dn \<noteq> 0" "digits dn \<le> ctx_digits ctx"
    and r: "residue_for f r" "- 1 / 20 < f" "r \<noteq> 0 \<Longrightarrow> digits dn = ctx_digits ctx"
    and y: "normal_result ctx (decNumberIsNegative dn) ((of_nat (coeff dn) + f) * 10 powi exponent dn) y"
  shows "\<exists>dn'. finishNormal dn ctx r st = Some (dn', r, st) \<and> dn_ok dn' \<and> bits dn' = bits dn \<and> digits dn' = digits dn \<and>
    length (lsu dn') = length (lsu dn) \<and> coeff dn' \<noteq> 0 \<and> of_nat (coeff dn') * 10 powi exponent dn' = y"
proof -
  let ?d = "digits dn" let ?c = "coeff dn"
  have cx: "2 \<le> ctx_digits ctx" "clamp ctx = 0" "ctx_round ctx \<noteq> DEC_ROUND_MAX" using ctx by (simp_all add: context_fits_def)
  have h: "holds (lsu dn) ?d ?c" "10 ^ (nat ?d - 1) \<le> ?c" "1 \<le> ?d" "?c < 10 ^ nat ?d"
    using dn(1) dn_ok_leading [OF dn(1,2)] by (auto simp: dn_ok_def dn_ok_holds)
  have yr: "rounds_to (ctx_round ctx) (decNumberIsNegative dn) (ctx_digits ctx) ((of_nat ?c + f) * 10 powi exponent dn) y"
    and yb: "10 powi emin ctx \<le> (of_nat ?c + f) * 10 powi exponent dn" "y < 10 powi (emax ctx + 1)"
    using y by (simp_all add: normal_result_def)
  have "\<exists>l x c'. (if r \<noteq> 0 then decApplyRound dn ctx r st else Some (dn, st)) = Some (dn\<lparr>lsu := l, exponent := x\<rparr>, st) \<and>
      length l = length (lsu dn) \<and> holds l ?d c' \<and> 10 ^ (nat ?d - 1) \<le> c' \<and> of_nat c' * 10 powi x = y"
  proof (cases "r = 0")
    case True
    then have "f = 0" using r(1) by simp
    then have "y = of_nat ?c * 10 powi exponent dn"
      using rounds_same [OF yr, of "of_nat ?c * 10 powi exponent dn"] rounds_exact [OF h(3) dn(3) h(2,4)] cx(1) by simp
    then show ?thesis using True h by (intro exI [of _ "lsu dn"] exI [of _ "exponent dn"] exI [of _ ?c]) simp
  next
    case False
    then have d: "?d = ctx_digits ctx" by (rule r(3))
    have "exponent dn \<noteq> emin ctx - ctx_digits ctx + 1" if "f < 0" "?c = 10 ^ (nat ?d - 1)"
    proof
      assume "exponent dn = emin ctx - ctx_digits ctx + 1"
      then have e: "emin ctx = int (nat ?d - 1) + exponent dn" using d h(3) by simp
      have "(of_nat ?c + f) * 10 powi exponent dn < of_nat ?c * 10 powi exponent dn" using that(1) by (intro mult_strict_right_mono) auto
      also have "\<dots> = 10 powi emin ctx" unfolding e that(2) by (simp add: power_int_add)
      finally show False using yb(1) by simp
    qed
    then show ?thesis using decApplyRound_val [OF h(1,2) _ r(1,2) False cx(3), of y st] yr yb(2) cx(1) False unfolding d by auto
  qed
  then obtain l x c' where l: "(if r \<noteq> 0 then decApplyRound dn ctx r st else Some (dn, st)) = Some (dn\<lparr>lsu := l, exponent := x\<rparr>, st)"
      "length l = length (lsu dn)" "holds l ?d c'" "10 ^ (nat ?d - 1) \<le> c'" "of_nat c' * 10 powi x = y" by blast
  have "x \<le> emax ctx - ?d + 1"
  proof -
    have "(10 :: rat) powi (?d - 1 + x) = 10 ^ (nat ?d - 1) * 10 powi x" using powi_split [of x "?d - 1 + x"] h(3) by (simp add: nat_diff_distrib)
    also have "\<dots> \<le> of_nat c' * 10 powi x" using l(4) of_nat_le_iff [of "10 ^ (nat ?d - 1)" c', where 'a = rat] by (intro mult_right_mono) auto
    finally have "(10 :: rat) powi (?d - 1 + x) < 10 powi (emax ctx + 1)" using l(5) yb(2) by simp
    then show ?thesis by (simp add: powi_less_iff)
  qed
  then have eq: "finishNormal dn ctx r st = Some (dn\<lparr>lsu := l, exponent := x\<rparr>, r, st)" using l(1) cx(2) by (simp add: finishNormal_def)
  have c': "coeff (dn\<lparr>lsu := l, exponent := x\<rparr>) = c'" using l(3) holds_coeff [of "dn\<lparr>lsu := l, exponent := x\<rparr>"] by simp
  have "dn_ok (dn\<lparr>lsu := l, exponent := x\<rparr>)" unfolding dn_ok_holds_iff c' using l(3,4) by simp
  moreover have "c' \<noteq> 0" by (rule leading_nonzero [OF l(4)])
  ultimately show ?thesis using eq l(2,5) c' by (intro exI [of _ "dn\<lparr>lsu := l, exponent := x\<rparr>"]) simp
qed

lemma decFinalize_normal:
  assumes ctx: "context_fits ctx" and dn: "dn_ok dn" "coeff dn \<noteq> 0" "\<not> decNumberIsSpecial dn" "digits dn \<le> ctx_digits ctx"
    and r: "residue_for f r" "- 1 / 20 < f" "r \<noteq> 0 \<Longrightarrow> digits dn = ctx_digits ctx"
    and y: "normal_result ctx (decNumberIsNegative dn) ((of_nat (coeff dn) + f) * 10 powi exponent dn) y"
  shows "\<exists>dn'. decFinalize mem dn ctx r st = Some (dn', r, st) \<and> dn_ok dn' \<and> bits dn' = bits dn \<and> digits dn' = digits dn \<and>
    length (lsu dn') = length (lsu dn) \<and> coeff dn' \<noteq> 0 \<and> of_nat (coeff dn') * 10 powi exponent dn' = y"
proof -
  let ?x = "(of_nat (coeff dn) + f) * 10 powi exponent dn"
  have x: "10 powi emin ctx \<le> ?x" using y by (simp add: normal_result_def)
  have f: "f < 1" "r < 0 \<longleftrightarrow> f < 0" using r(1) by (simp_all add: residue_for_def)
  have d: "1 \<le> digits dn" "coeff dn < 10 ^ nat (digits dn)" using dn(1) by (simp_all add: dn_ok_def)
  have "emin ctx < digits dn + exponent dn" using least_normal [OF f(1) d(2) _ x] d(1) by simp
  then have ge: "\<not> exponent dn < emin ctx - digits dn + 1" by simp
  define nmin where "nmin = \<lparr>digits = 1, exponent = emin ctx, bits = 0, lsu = 1 # replicate (DECNUMUNITS - 1) 0\<rparr>"
  have nm: "numeric nmin" "coeff nmin = 1" "\<not> decNumberIsInfinite nmin"
    by (simp_all add: nmin_def numeric_def dn_ok_def coeff_def D2U_eq decNumberIsNaN_def decNumberIsInfinite_def DECNUMDIGITS_def)
  have fin: "numeric dn" "\<not> decNumberIsInfinite dn" using dn ctx by (simp_all add: numeric_def context_fits_def special_kinds)
  have "\<not> (r < 0 \<and> dn_cmp (dn_abs dn) (dn_abs nmin) = 0)"
  proof
    assume a: "r < 0 \<and> dn_cmp (dn_abs dn) (dn_abs nmin) = 0"
    then have "dn_value (dn_abs dn) = dn_value (dn_abs nmin)" using fin nm by (auto simp: dn_cmp_def dn_below_def dn_place_def split: if_splits)
    then have "of_nat (coeff dn) * 10 powi exponent dn = (10 :: rat) powi emin ctx" using nm(2) by (simp add: dn_value_def nmin_def)
    moreover have "?x < of_nat (coeff dn) * 10 powi exponent dn" using a f(2) by (intro mult_strict_right_mono) auto
    ultimately show False using x by simp
  qed
  then have "decFinalize mem dn ctx r st = finishNormal dn ctx r st"
    unfolding decFinalize_def Let_def nmin_def [symmetric] using ge decCompare_signless [of mem dn nmin]
      decCompare_signed [of "dn_abs dn" "dn_abs nmin" mem] fin(1) nm(1) by auto
  then show ?thesis using finishNormal_normal [OF ctx dn(1,2,4) r y] by simp
qed

end
