(* ===== verification/DnResultSpec.thy ===== *)
theory DnResultSpec
  imports DnFinishSpec
begin

text \<open>
  From an exact coefficient to a result: cutting it to the precision and finishing it rounds its value.
\<close>

lemma decSetCoeff_fit:
  assumes h: "holds us len V" and fit: "len \<le> ctx_digits ctx" "D2U len \<le> length (lsu dn)"
  shows "\<exists>l. decSetCoeff dn ctx (Some us) len r st =
      Some (dn\<lparr>lsu := l, digits := len\<rparr>, r, if r \<noteq> 0 then st OR (DEC_Inexact OR DEC_Rounded) else st) \<and>
    length l = length (lsu dn) \<and> holds l len V"
proof -
  have hs: "1 \<le> len" "D2U len \<le> length us" "units_ok (take (D2U len) us)" "units_val (take (D2U len) us) = V" "V < 10 ^ nat len"
    using h by (simp_all add: holds_def)
  define l where "l = take (D2U len) us @ drop (D2U len) (lsu dn)"
  have "copyUnits us 0 (lsu dn) 0 (unitsFor len) = Some l"
    using copyUnits_room [of 0 "D2U len" us 0 "lsu dn"] hs fit by (simp add: unitsFor_D2U l_def)
  then have "decSetCoeff dn ctx (Some us) len r st =
      Some (dn\<lparr>lsu := l, digits := len\<rparr>, r, if r \<noteq> 0 then st OR (DEC_Inexact OR DEC_Rounded) else st)"
    using fit(1) by (simp add: decSetCoeff_def)
  then show ?thesis using hs fit(2) by (intro exI [of _ l]) (simp add: l_def holds_def)
qed

lemma residue_zero_iff: "residue_for f r \<Longrightarrow> r = 0 \<longleftrightarrow> f = 0"
  by (auto simp: residue_for_def)

lemma cut_leading:
  assumes "10 ^ (nat d - 1) \<le> V" "1 \<le> p" "p < d" "D = nat (d - p)"
  shows "10 ^ (nat p - 1) \<le> V div (10 :: nat) ^ D"
proof -
  have "nat d - 1 = nat p - 1 + D" using assms by simp
  then have "10 ^ (nat p - 1) * 10 ^ D \<le> V" using assms(1) by (simp add: power_add)
  then show ?thesis by (simp add: less_eq_div_iff_mult_less_eq)
qed

text \<open>A rounded value differs from the exact one when a fraction is left.\<close>

lemma rounds_inexact:
  assumes y: "rounds_to m neg p ((of_nat c + f) * 10 powi e) y" and p: "2 \<le> p" "10 ^ (nat p - 1) \<le> c" "c < 10 ^ nat p"
    and r: "residue_for f r" "- 1 / 20 < f" and m: "m \<noteq> DEC_ROUND_MAX"
  shows "y = (of_nat c + f) * 10 powi e \<Longrightarrow> f = 0"
proof -
  assume x: "y = (of_nat c + f) * 10 powi e"
  define u :: Unit where "u = of_nat (c mod 1000)"
  have u: "c = unat u + 1000 * (c div 1000)" by (simp add: u_def unit_literal)
  obtain b where b: "b = 0 \<or> b = 1 \<or> b = - 1 \<and> f < 0"
    "y = (if b = - 1 \<and> c = 10 ^ (nat p - 1) then of_nat (10 ^ nat p - 1) * 10 powi (e - 1) else of_int (int c + b) * 10 powi e)"
    by (rule rounds_residue [OF p(2,3) u p(1) r m y]) blast
  have f: "f < 1" using r(1) by (simp add: residue_for_def)
  show ?thesis
  proof (cases "b = - 1 \<and> c = 10 ^ (nat p - 1)")
    case True
    have "(10 :: nat) ^ nat p = 10 * c" using True p(1) by (simp flip: power_Suc)
    then have "of_nat (10 ^ nat p - 1) = 10 * of_nat c - (1 :: rat)" using p(2) by (simp add: of_nat_diff True)
    then have "y = (of_nat c - 1 / 10) * 10 powi e" using b(2) True by (simp add: power_int_diff field_simps)
    then show ?thesis using x r(2) by simp
  next
    case False
    then have "y = (of_nat c + of_int b) * 10 powi e" using b(2) by auto
    then have "f = of_int b" using x by simp
    then show ?thesis using b(1) f r(2) by auto
  qed
qed

text \<open>The status of a result: \<^verbatim>\<open>Rounded\<close> when digits are cut, \<^verbatim>\<open>Inexact\<close> when they are not all zero.\<close>

definition result_status :: "bool \<Rightarrow> bool \<Rightarrow> uInt \<Rightarrow> uInt" where
  "result_status rounded inexact st = (if inexact then (if rounded then st OR DEC_Rounded else st) OR DEC_Inexact else if rounded then st OR DEC_Rounded else st)"

text \<open>
  A result is correct for the exact magnitude \<open>x\<close>: it is well formed, its magnitude is \<open>x\<close> rounded to the precision, and \<^verbatim>\<open>Inexact\<close> is raised when
  that is not \<open>x\<close>.
\<close>

definition rounded_result :: "decContext \<Rightarrow> bool \<Rightarrow> rat \<Rightarrow> uInt \<Rightarrow> decNumber \<times> uInt \<Rightarrow> bool" where
  "rounded_result ctx neg x st r \<longleftrightarrow> (case r of (dn, st') \<Rightarrow>
     dn_ok dn \<and> length (lsu dn) = DECNUMUNITS \<and> \<not> decNumberIsSpecial dn \<and> digits dn \<le> ctx_digits ctx \<and> decNumberIsNegative dn = neg \<and>
     rounds_to (ctx_round ctx) neg (ctx_digits ctx) x \<bar>dn_value dn\<bar> \<and>
     (\<exists>rounded. st' = result_status rounded (\<bar>dn_value dn\<bar> \<noteq> x) st))"

text \<open>Finishing a number with coefficient \<open>c\<close> and a fraction \<open>f\<close> of its last digit cut off.\<close>

lemma finish_rounded:
  assumes ctx: "context_fits ctx" and dn: "holds (lsu dn) (digits dn) c" "10 ^ (nat (digits dn) - 1) \<le> c" "digits dn \<le> ctx_digits ctx" "\<not> decNumberIsSpecial dn"
      "length (lsu dn) = DECNUMUNITS"
    and r: "residue_for f r" "- 1 / 20 < f" "r \<noteq> 0 \<Longrightarrow> digits dn = ctx_digits ctx" and x: "x = (of_nat c + f) * 10 powi exponent dn"
    and y: "normal_result ctx (decNumberIsNegative dn) x y" and st: "st' = result_status rounded (f \<noteq> 0) st"
  shows "\<exists>dn'. decFinalize mem dn ctx r st' = Some (dn', r, st') \<and> coeff dn' \<noteq> 0 \<and>
    rounded_result ctx (decNumberIsNegative dn) x st (dn', st')"
proof -
  let ?p = "ctx_digits ctx" let ?neg = "decNumberIsNegative dn"
  have p: "1 \<le> ?p" using ctx by (simp add: context_fits_def)
  have yr: "rounds_to (ctx_round ctx) ?neg ?p x y" using y by (simp add: normal_result_def)
  note cc = holds_coeff [OF dn(1)]
  have ok: "dn_ok dn" unfolding dn_ok_holds_iff cc using dn by simp
  have c0: "coeff dn \<noteq> 0" unfolding cc by (rule leading_nonzero [OF dn(2)])
  have y2: "normal_result ctx ?neg ((of_nat (coeff dn) + f) * 10 powi exponent dn) y" unfolding cc x [symmetric] by (rule y)
  obtain dn' where f: "decFinalize mem dn ctx r st' = Some (dn', r, st')" "dn_ok dn'" "bits dn' = bits dn" "digits dn' = digits dn"
      "length (lsu dn') = length (lsu dn)" "coeff dn' \<noteq> 0" "of_nat (coeff dn') * 10 powi exponent dn' = y"
    using decFinalize_normal [OF ctx ok c0 dn(4) dn(3) r(1,2,3) y2] by blast
  have a: "\<bar>dn_value dn'\<bar> = y" using f(7) by (simp add: dn_value_def abs_mult)
  have "y \<noteq> x \<longleftrightarrow> f \<noteq> 0"
  proof (cases "f = 0")
    case True
    then have "rounds_to (ctx_round ctx) ?neg ?p x x" unfolding x
      using rounds_exact [of "digits dn" ?p c] dn(1-3) by (simp add: holds_def)
    then show ?thesis using rounds_same [OF yr] p True by simp
  next
    case False
    then have "r \<noteq> 0" using r(1) by (auto simp: residue_for_def)
    then have "digits dn = ?p" using r(3) by blast
    then have "10 ^ (nat ?p - 1) \<le> c" "c < 10 ^ nat ?p" using dn(1,2) by (simp_all add: holds_def)
    then show ?thesis using rounds_inexact [OF yr [unfolded x] _ _ _ r(1,2)] ctx False unfolding x context_fits_def by blast
  qed
  then have "\<exists>rounded. st' = result_status rounded (\<bar>dn_value dn'\<bar> \<noteq> x) st" unfolding a using st by (intro exI [of _ rounded]) simp
  then have "rounded_result ctx ?neg x st (dn', st')"
    using f(2-5) dn(3-5) yr unfolding rounded_result_def by (simp add: a decNumberIsNegative_def decNumberIsSpecial_def)
  then show ?thesis using f(1,6) by blast
qed

lemma context_room: "context_fits ctx \<Longrightarrow> length us = DECNUMUNITS \<Longrightarrow> D2U (ctx_digits ctx) \<le> length us"
  by (auto simp: context_fits_def D2U_eq DECNUMDIGITS_def nat_le_iff)

text \<open>Cutting a coefficient of any length: the coefficient that is kept and the fraction cut off.\<close>

lemma decSetCoeff_parts:
  assumes ctx: "context_fits ctx" and h: "holds us d V" "V \<noteq> 0" "d \<le> ctx_digits ctx \<or> 10 ^ (nat d - 1) \<le> V"
    and dn: "D2U (ctx_digits ctx) \<le> length (lsu dn)"
  shows "\<exists>dn2 c f r rounded. decSetCoeff dn ctx (Some us) d 0 st = Some (dn2, r, result_status rounded (f \<noteq> 0) st) \<and> bits dn2 = bits dn \<and>
      holds (lsu dn2) (digits dn2) c \<and> c \<noteq> 0 \<and> digits dn2 \<le> ctx_digits ctx \<and> length (lsu dn2) = length (lsu dn) \<and>
      residue_for f r \<and> 0 \<le> f \<and> (r \<noteq> 0 \<longrightarrow> digits dn2 = ctx_digits ctx) \<and> (r \<noteq> 0 \<or> 10 ^ (nat d - 1) \<le> V \<longrightarrow> 10 ^ (nat (digits dn2) - 1) \<le> c) \<and>
      of_nat V * 10 powi exponent dn = (of_nat c + f) * 10 powi exponent dn2"
proof -
  let ?p = "ctx_digits ctx" let ?x = "of_nat V * 10 powi exponent dn"
  have p: "2 \<le> ?p" "?p \<le> int DECNUMDIGITS" using ctx by (simp_all add: context_fits_def)
  have d: "1 \<le> d" "V < 10 ^ nat d" using h(1) by (simp_all add: holds_def)
  show ?thesis
  proof (cases "d \<le> ?p")
    case True
    have "D2U d \<le> length (lsu dn)" using True d(1) dn by (simp add: D2U_eq)
    then obtain l where l: "decSetCoeff dn ctx (Some us) d 0 st = Some (dn\<lparr>lsu := l, digits := d\<rparr>, 0, st)" "length l = length (lsu dn)" "holds l d V"
      using decSetCoeff_fit [OF h(1) True, of dn 0 st] by auto
    show ?thesis
      by (rule exI [of _ "dn\<lparr>lsu := l, digits := d\<rparr>"], rule exI [of _ V], rule exI [of _ 0], rule exI [of _ 0], rule exI [of _ False])
        (use l h(2,3) True in \<open>simp add: result_status_def\<close>)
  next
    case False
    define D where "D = nat (d - ?p)"
    have ne: "lsu dn \<noteq> []" using dn p(1) by (auto simp: D2U_eq)
    have lt: "0 \<le> ?p" "?p < d" using p False by simp_all
    obtain l r' where l: "decSetCoeff dn ctx (Some us) d 0 st =
        Some (dn\<lparr>exponent := exponent dn + (d - ?p), lsu := l, digits := max ?p 1\<rparr>, r', inexact_if r' (st OR DEC_Rounded))"
        "length l = length (lsu dn)" "holds l (max ?p 1) (V div 10 ^ D)" "residue_for ((of_nat (V mod 10 ^ D) + 0) / 10 ^ D) r'"
      using decSetCoeff_cut [where src = "Some us", OF _ h(1) refl lt ne dn residue_for_0(1) D_def, of st] by (simp only: option.case) blast
    have mp: "max ?p 1 = ?p" using p(1) by simp
    let ?f = "of_nat (V mod 10 ^ D) / 10 ^ D :: rat"
    have x: "?x = (of_nat (V div 10 ^ D) + ?f) * 10 powi (exponent dn + (d - ?p))"
    proof -
      have "(of_nat V :: rat) = of_nat (V div 10 ^ D) * 10 ^ D + of_nat (V mod 10 ^ D)"
        using arg_cong [OF div_mult_mod_eq [of V "10 ^ D"], of "of_nat :: nat \<Rightarrow> rat"]
        by (simp only: of_nat_add of_nat_mult of_nat_power of_nat_numeral)
      then have "of_nat V = (of_nat (V div 10 ^ D) + ?f) * (10 :: rat) ^ D" by (simp add: field_simps)
      moreover have "d - ?p = int D" using False by (simp add: D_def)
      ultimately show ?thesis by (simp add: power_int_add mult.assoc)
    qed
    have "r' \<noteq> 0 \<longleftrightarrow> ?f \<noteq> 0" using residue_zero_iff [OF l(4)] by simp
    then have st: "inexact_if r' (st OR DEC_Rounded) = result_status True (?f \<noteq> 0) st" by (simp add: inexact_if_def result_status_def)
    have "10 ^ (nat ?p - 1) \<le> V div 10 ^ D" using cut_leading [OF _ _ lt(2) D_def] h(3) False p(1) by simp
    moreover have "V div 10 ^ D \<noteq> 0" using leading_nonzero [OF calculation] .
    ultimately show ?thesis
      by (intro exI [of _ "dn\<lparr>exponent := exponent dn + (d - ?p), lsu := l, digits := max ?p 1\<rparr>"] exI [of _ "V div 10 ^ D"] exI [of _ ?f]
          exI [of _ r'] exI [of _ True]) (simp add: l(1,2) l(3) [unfolded mp] l(4) [unfolded add_0_right] st x mp del: of_nat_mult of_nat_power)
  qed
qed

text \<open>All the units of a run as a coefficient.\<close>

lemma D2U_whole [simp]: "D2U (int n * 3) = n"
  by (simp add: D2U_eq)

lemma holds_whole:
  assumes "units_ok us" "us \<noteq> []"
  shows "holds us (int (length us) * 3) (units_val us)"
proof -
  have "1 \<le> length us" using assms(2) by (simp add: Suc_le_eq)
  moreover have "units_val us < 10 ^ (length us * 3)" using units_val_less [OF assms(1)] by (simp add: mult.commute [of _ 3] power_mult)
  ultimately show ?thesis using assms(1) by (simp add: holds_def nat_mult_distrib)
qed

text \<open>Counting the digits again drops leading zeros.\<close>

lemma trimmed:
  assumes h: "holds us d c" and c: "c \<noteq> 0"
  shows "\<exists>k. decGetDigits us (D2U d) = Some k \<and> k \<le> d \<and> holds us k c \<and> 10 ^ (nat k - 1) \<le> c"
proof -
  let ?us = "take (D2U d) us"
  have hs: "1 \<le> d" "D2U d \<le> length us" "units_ok ?us" "units_val ?us = c" "c < 10 ^ nat d" using h by (simp_all add: holds_def)
  have "0 < D2U d" using hs(1) by (simp add: D2U_eq)
  then obtain k where k: "decGetDigits us (D2U d) = Some k" "digits_of c k" using decGetDigits_val [of "D2U d" us] hs by auto
  have k1: "1 \<le> k" "c < 10 ^ nat k" "10 ^ (nat k - 1) \<le> c" using k(2) c by (auto simp: digits_of_def)
  have "10 ^ (nat k - 1) < (10 :: nat) ^ nat d" using k1(3) hs(5) by (rule le_less_trans)
  then have "nat k - 1 < nat d" by (rule power_less_imp_less_exp [rotated]) simp
  then have kd: "k \<le> d" by simp
  then have n: "D2U k \<le> D2U d" using k1(1) by (simp add: D2U_eq)
  have "k \<le> 3 * ((k + 2) div 3)" by presburger
  then have "nat k \<le> 3 * D2U k" using k1(1) by (simp add: D2U_eq nat_le_iff)
  then have "(10 :: nat) ^ nat k \<le> 1000 ^ D2U k" using power_increasing [of "nat k" "3 * D2U k" "10 :: nat"] by (simp add: power_mult)
  then have "units_val (drop (D2U k) ?us) = 0" using units_val_drop [OF hs(3), of "D2U k"] n hs(2,4) k1(2) by simp
  moreover have "take (D2U k) ?us = take (D2U k) us" using n by simp
  ultimately have "units_val (take (D2U k) us) = c"
    using units_val_append [of "take (D2U k) ?us" "drop (D2U k) ?us"] hs(4) unfolding append_take_drop_id by simp
  moreover have "units_ok (take (D2U k) us)" using units_ok_take [OF hs(3), of "D2U k"] n by simp
  ultimately show ?thesis using k(1) k1 n kd hs(2) by (auto simp: holds_def)
qed

lemma setFinish_normal:
  assumes ctx: "context_fits ctx" and h: "holds us d V" "10 ^ (nat d - 1) \<le> V"
    and dn: "length (lsu dn) = DECNUMUNITS" "\<not> decNumberIsSpecial dn"
    and y: "normal_result ctx (decNumberIsNegative dn) (of_nat V * 10 powi exponent dn) y"
  shows "\<exists>dn' r st'. do { (dn, r, st) \<leftarrow> decSetCoeff dn ctx (Some us) d 0 st; decFinalize mem dn ctx r st } = Some (dn', r, st') \<and>
    rounded_result ctx (decNumberIsNegative dn) (of_nat V * 10 powi exponent dn) st (dn', st')"
proof -
  let ?p = "ctx_digits ctx" let ?x = "of_nat V * 10 powi exponent dn"
  have V: "V \<noteq> 0" by (rule leading_nonzero [OF h(2)])
  have room: "D2U ?p \<le> length (lsu dn)" using ctx dn(1) by (rule context_room)
  obtain dn2 c f r rounded where s: "decSetCoeff dn ctx (Some us) d 0 st = Some (dn2, r, result_status rounded (f \<noteq> 0) st)" "bits dn2 = bits dn"
      "holds (lsu dn2) (digits dn2) c" "10 ^ (nat (digits dn2) - 1) \<le> c" "digits dn2 \<le> ?p" "length (lsu dn2) = length (lsu dn)"
      "residue_for f r" "0 \<le> f" "r \<noteq> 0 \<Longrightarrow> digits dn2 = ?p" "?x = (of_nat c + f) * 10 powi exponent dn2"
    using decSetCoeff_parts [OF ctx h(1) V disjI2 [OF h(2)] room] h(2) by blast
  have b: "decNumberIsNegative dn2 = decNumberIsNegative dn" "\<not> decNumberIsSpecial dn2"
    using dn(2) s(2) by (simp_all add: decNumberIsNegative_def decNumberIsSpecial_def)
  have s8: "- 1 / 20 < f" using s(8) by simp
  obtain dn' where "decFinalize mem dn2 ctx r (result_status rounded (f \<noteq> 0) st) = Some (dn', r, result_status rounded (f \<noteq> 0) st)"
      "rounded_result ctx (decNumberIsNegative dn) ?x st (dn', result_status rounded (f \<noteq> 0) st)"
    using finish_rounded [OF ctx s(3-5) b(2) s(6) [unfolded dn(1)] s(7) s8 s(9,10) y [folded b(1)] refl, where mem = mem and rounded = rounded and st = st] unfolding b(1) by blast
  then show ?thesis using s(1) by (intro exI) auto
qed

section \<open>Signs\<close>

lemma sign_bit: "x AND DECNEG \<noteq> 0 \<longleftrightarrow> bit x 7" for x :: uByte
  using and_exp_eq_0_iff_not_bit [of x 7] by simp

lemma negative_bit: "decNumberIsNegative dn \<longleftrightarrow> bit (bits dn) 7"
  by (simp only: decNumberIsNegative_def sign_bit)

lemma xor_sign:
  "((bits a XOR bits b) AND DECNEG) AND DECNEG \<noteq> 0 \<longleftrightarrow> decNumberIsNegative a \<noteq> decNumberIsNegative b"
  "((bits a XOR bits b) AND DECNEG) AND DECSPECIAL = 0"
proof -
  show "((bits a XOR bits b) AND DECNEG) AND DECNEG \<noteq> 0 \<longleftrightarrow> decNumberIsNegative a \<noteq> decNumberIsNegative b"
    by (simp only: and.assoc and.idem sign_bit negative_bit bit_xor_iff)
  show "((bits a XOR bits b) AND DECNEG) AND DECSPECIAL = 0" by (simp add: and.assoc)
qed

end
