(* ===== verification/DnAddSpec.thy ===== *)
theory DnAddSpec
  imports DnAdd DnResultSpec
begin

text \<open>
  Addition and subtraction: on every path the result is the sum of the operands rounded to the precision.
\<close>

section \<open>Aligned operands\<close>

lemma power10_le: "10 ^ m \<le> c \<Longrightarrow> c < (10 :: nat) ^ n \<Longrightarrow> m < n"
  by (rule power_less_imp_less_exp [of "10 :: nat"]) (simp, rule le_less_trans)

lemma addTail_rounded:
  assumes ctx: "context_fits ctx" and dn: "holds (lsu dn) (digits dn) c" "c \<noteq> 0" "c < 10 ^ nat (ctx_digits ctx)" "\<not> decNumberIsSpecial dn"
      "length (lsu dn) = DECNUMUNITS"
    and r: "residue_for f r" "0 \<le> f" "r \<noteq> 0 \<Longrightarrow> digits dn = ctx_digits ctx \<and> 10 ^ (nat (digits dn) - 1) \<le> c"
    and x: "x = (of_nat c + f) * 10 powi exponent dn"
    and y: "normal_result ctx (decNumberIsNegative dn) x y" and st: "st' = result_status rounded (f \<noteq> 0) st"
  shows "\<exists>s. addTail mem ctx diffsign dn r st' = Some s \<and> rounded_result ctx (decNumberIsNegative dn) x st s"
proof -
  obtain k where k: "decGetDigits (lsu dn) (D2U (digits dn)) = Some k" "k \<le> digits dn" "holds (lsu dn) k c" "10 ^ (nat k - 1) \<le> c"
    using trimmed [OF dn(1,2)] by blast
  have k1: "1 \<le> k" "c < 10 ^ nat k" using k(3) by (simp_all add: holds_def)
  have kp: "k \<le> ctx_digits ctx" using power10_le [OF k(4) dn(3)] k1(1) by simp
  have rk: "k = ctx_digits ctx" if "r \<noteq> 0"
    using power10_le [of "nat (digits dn) - 1" c "nat k"] r(3) [OF that] k1 k(2) by auto
  let ?dn = "dn\<lparr>digits := k\<rparr>"
  have b: "decNumberIsNegative ?dn = decNumberIsNegative dn" "\<not> decNumberIsSpecial ?dn"
    using dn(4) by (simp_all add: decNumberIsNegative_def decNumberIsSpecial_def)
  have h: "holds (lsu ?dn) (digits ?dn) c" "10 ^ (nat (digits ?dn) - 1) \<le> c" "digits ?dn \<le> ctx_digits ctx" using k(3,4) kp by simp_all
  have len: "length (lsu ?dn) = DECNUMUNITS" using dn(5) by simp
  have f20: "- 1 / 20 < f" using r(2) by simp
  have xs: "x = (of_nat c + f) * 10 powi exponent ?dn" using x by simp
  obtain dn' where d: "decFinalize mem ?dn ctx r st' = Some (dn', r, st')" "coeff dn' \<noteq> 0"
      "rounded_result ctx (decNumberIsNegative dn) x st (dn', st')"
    using finish_rounded [OF ctx h b(2) len r(1) f20 _ xs y [folded b(1)] st, of mem] rk unfolding b(1) by auto
  have "\<not> decNumberIsZero dn'" using d(2,3) zero_coeff [of dn'] by (simp add: rounded_result_def)
  then have "addTail mem ctx diffsign dn r st' = Some (dn', st')" using k(1) d(1) by (simp add: addTail_def finishAdd_def)
  then show ?thesis using d(3) by blast
qed

text \<open>Padding is a shift by units and a multiplication.\<close>

lemma padding_split:
  assumes p: "0 \<le> padding"
    and s: "s = (if padding \<noteq> 0 then D2U (padding + 1) - 1 else 0)"
    and m: "m = (if padding \<noteq> 0 then uint (pow10 (nat (padding - int s * 3))) else 1)"
  shows "s = nat (padding div 3)" "m * 1000 ^ s = 10 ^ nat padding" "mult_ok m" "mult_ok (- m)"
proof -
  show s': "s = nat (padding div 3)"
  proof (cases "padding = 0")
    case False
    have "(padding + 1 + 2) div 3 = padding div 3 + 1" by presburger
    then show ?thesis unfolding s using False p by (simp add: D2U_eq nat_add_distrib pos_imp_zdiv_nonneg_iff)
  qed (simp add: s)
  have q: "0 \<le> padding div 3" using p by simp
  then have e: "padding - int s * 3 = padding mod 3" unfolding s' by (simp add: minus_div_mult_eq_mod)
  have lt: "nat (padding mod 3) \<le> 2" by simp
  have m': "m = 10 ^ nat (padding mod 3)"
  proof (cases "padding = 0")
    case False
    have "int (unat (pow10 (nat (padding mod 3)))) = 10 ^ nat (padding mod 3)" using pow10_small(2) [of "nat (padding mod 3)"] lt by simp
    then show ?thesis unfolding m e using False by simp
  qed (simp add: m)
  have "(10 :: int) ^ nat (padding mod 3) \<le> 10 ^ 2" using lt by (intro power_increasing) simp_all
  then have "0 < m" "m \<le> 100" unfolding m' by simp_all
  then show "mult_ok m" "mult_ok (- m)" by (simp_all add: mult_ok_def)
  have "padding mod 3 + 3 * (padding div 3) = padding" "0 \<le> padding mod 3" by simp_all
  then have "nat padding = nat (padding mod 3) + 3 * s" using q unfolding s' by linarith
  then have "(10 :: int) ^ nat padding = 10 ^ nat (padding mod 3) * (10 ^ 3) ^ s" by (simp only: power_add power_mult)
  then show "m * 1000 ^ s = 10 ^ nat padding" unfolding m' by simp
qed

text \<open>The units of an aligned sum and its value.\<close>

lemma aligned_sum:
  assumes l: "dn_ok l" and r: "dn_ok r" and p: "0 \<le> padding"
    and s: "s = (if padding \<noteq> 0 then D2U (padding + 1) - 1 else 0)"
    and m: "m = (if padding \<noteq> 0 then uint (pow10 (nat (padding - int s * 3))) else 1)"
    and u: "unitsOf l = Some a" "unitsOf r = Some b" "decUnitAddSub a b s (if diffsign then - m else m) = (c, neg)"
    and W: "W = int (coeff l) + (if diffsign then - 1 else 1) * int (coeff r) * 10 ^ nat padding"
    and M: "M = max (digits r + padding) (digits l)"
  shows "units_ok c" "c \<noteq> []" "int (units_val c) = \<bar>W\<bar>" "neg \<longleftrightarrow> W < 0" "units_val c < 2 * 10 ^ nat M"
    "M \<le> 38 \<Longrightarrow> length c \<le> 13"
proof -
  note ps = padding_split [OF p s m]
  have ab: "units_ok a" "units_ok b" "units_val a = coeff l" "units_val b = coeff r" "length a = D2U (digits l)" "length b = D2U (digits r)"
    using u l r by (auto simp: unitsOf_def dn_ok_def coeff_def split: if_splits)
  have mo: "mult_ok (if diffsign then - m else m)" using ps(3,4) by simp
  have sum: "int (units_val a) + int (units_val b) * (if diffsign then - m else m) * 1000 ^ s = W"
    using ps(2) unfolding W ab by (auto simp: algebra_simps)
  note x = decUnitAddSub_exact [OF ab(1,2) mo u(3), unfolded sum]
  have d: "1 \<le> digits l" "1 \<le> digits r" "coeff l < 10 ^ nat (digits l)" "coeff r < 10 ^ nat (digits r)" using l r by (simp_all add: dn_ok_def)
  show "units_ok c" "neg \<longleftrightarrow> W < 0" using x(1,5) by simp_all
  have "1 \<le> length a" using d(1) unfolding ab by (simp add: D2U_eq)
  then show "c \<noteq> []" using x(2) by auto
  show v: "int (units_val c) = \<bar>W\<bar>" using x(4,5) by (auto split: if_splits)
  have le: "10 ^ nat (digits l) \<le> (10 :: nat) ^ nat M" "10 ^ (nat (digits r) + nat padding) \<le> (10 :: nat) ^ nat M"
    using d(1,2) p unfolding M by (auto intro!: power_increasing simp: nat_add_distrib [symmetric])
  have "\<bar>W\<bar> \<le> int (coeff l + coeff r * 10 ^ nat padding)" unfolding W by (auto simp: abs_le_iff)
  then have "units_val c \<le> coeff l + coeff r * 10 ^ nat padding" unfolding v [symmetric] by linarith
  moreover have "coeff r * 10 ^ nat padding < 10 ^ nat (digits r) * 10 ^ nat padding" using d(4) by simp
  ultimately show lt: "units_val c < 2 * 10 ^ nat M" using d(3) le unfolding power_add by linarith
  show "length c \<le> 13" if "M \<le> 38"
  proof (rule ccontr)
    assume "\<not> length c \<le> 13"
    moreover have "max (length a) (length b + s) \<le> 13"
      using that d(1,2) p unfolding ab ps(1) M by (simp add: D2U_eq nat_le_iff nat_add_distrib [symmetric]) linarith
    ultimately have "max (length a) (length b + s) = 13" "length c = Suc (max (length a) (length b + s))" using x(3) by linarith+
    then have "last c \<noteq> 0" "length c = Suc 13" using x(6) by metis+
    then obtain t z where c: "c = t @ [z]" "length t = 13" "z \<noteq> 0" by (cases c rule: rev_cases) auto
    then have "1000 ^ 13 \<le> units_val c" by (simp add: units_val_append word_unat_eq_iff)
    moreover have "(10 :: nat) ^ nat M \<le> 10 ^ 38" using that by (intro power_increasing) auto
    ultimately show False using lt by simp
  qed
qed

text \<open>A finite operand that is no longer than the precision, with an exponent such that two exponents have a difference that is an integer.\<close>

definition addend :: "decContext \<Rightarrow> decNumber \<Rightarrow> bool" where
  "addend ctx dn \<longleftrightarrow> dn_ok dn \<and> \<not> decNumberIsSpecial dn \<and> digits dn \<le> ctx_digits ctx \<and> \<bar>exponent dn\<bar> < 1073741824"

text \<open>The course of an aligned sum, with the exact value \<open>W\<close> in units of the lower exponent.\<close>

lemma addAligned_parts:
  assumes ctx: "context_fits ctx" and ops: "addend ctx l" "addend ctx r" and res: "length (lsu res) = DECNUMUNITS"
    and p: "0 \<le> padding" "padding = 0 \<or> digits r + padding \<le> digits l + ctx_digits ctx + 1"
    and W: "W = int (coeff l) + (if diffsign then - 1 else 1) * int (coeff r) * 10 ^ nat padding"
  obtains acc M res1 where "units_ok acc" "acc \<noteq> []" "int (units_val acc) = \<bar>W\<bar>" "units_val acc < 2 * 10 ^ nat M" "M \<le> 38 \<Longrightarrow> length acc \<le> 13"
    "length (lsu res1) = DECNUMUNITS" "exponent res1 = exponent l" "digits res1 = int (length acc) * 3"
    "decNumberIsNegative res1 \<longleftrightarrow> (b AND DECNEG \<noteq> 0) \<noteq> (W < 0)" "\<not> decNumberIsSpecial res1"
    "addAligned mem res l r ctx b diffsign padding st = do {
      (res, residue, st) \<leftarrow>
         (if M \<ge> ctx_digits ctx then do {
            d \<leftarrow> (if digits res1 > ctx_digits ctx then decGetDigits acc (D2U (digits res1)) else Some (digits res1));
            decSetCoeff (res1\<lparr>digits := d\<rparr>) ctx (Some acc) d 0 st
          }
          else do { us \<leftarrow> writeUnits (lsu res1) acc; Some (res1\<lparr>lsu := us\<rparr>, 0, st) });
      addTail mem ctx diffsign res residue st }"
proof -
  define s where "s = (if padding \<noteq> 0 then D2U (padding + 1) - 1 else 0)"
  define m where "m = (if padding \<noteq> 0 then uint (pow10 (nat (padding - int s * 3))) else 1)"
  define M where "M = max (digits r + padding) (digits l)"
  have pc: "ctx_digits ctx \<le> 39" using ctx by (simp add: context_fits_def DECNUMDIGITS_def)
  have ok: "dn_ok l" "dn_ok r" "digits l \<le> ctx_digits ctx" "digits r \<le> ctx_digits ctx" using ops by (simp_all add: addend_def)
  have d1: "1 \<le> digits l" "1 \<le> digits r" using ok by (simp_all add: dn_ok_def)
  obtain a c where ac: "unitsOf l = Some a" "unitsOf r = Some c" using ok by (simp add: unitsOf_def dn_ok_def)
  obtain acc neg where acc: "decUnitAddSub a c s (if diffsign then - m else m) = (acc, neg)" by fastforce
  note as = aligned_sum [OF ok(1,2) p(1) s_def m_def ac acc W M_def]
  define res1 where "res1 = res\<lparr>bits := (if neg then (b AND DECNEG) XOR DECNEG else b AND DECNEG), exponent := exponent l, digits := int (length acc) * 3\<rparr>"
  have "M \<le> 79" unfolding M_def using p(2) ok(3,4) pc by auto
  then have need: "\<not> D2U M + 1 > accbuff_units" using d1 by (simp add: accbuff_units_def D2U_eq M_def) linarith
  show thesis
  proof (rule that [OF as(1-3,5,6)])
    show "decNumberIsNegative res1 \<longleftrightarrow> (b AND DECNEG \<noteq> 0) \<noteq> (W < 0)" "\<not> decNumberIsSpecial res1"
      unfolding res1_def negative_bit decNumberIsSpecial_def sign_bit using as(4) by (auto simp: bit_simps and.assoc bit.conj_xor_distrib2)
    show "addAligned mem res l r ctx b diffsign padding st = do {
      (res, residue, st) \<leftarrow>
         (if M \<ge> ctx_digits ctx then do {
            d \<leftarrow> (if digits res1 > ctx_digits ctx then decGetDigits acc (D2U (digits res1)) else Some (digits res1));
            decSetCoeff (res1\<lparr>digits := d\<rparr>) ctx (Some acc) d 0 st
          }
          else do { us \<leftarrow> writeUnits (lsu res1) acc; Some (res1\<lparr>lsu := us\<rparr>, 0, st) });
      addTail mem ctx diffsign res residue st }"
      unfolding addAligned_def Let_def s_def [symmetric] m_def [symmetric] M_def [symmetric] using need by (simp add: ac acc res1_def cong: if_cong)
  qed (simp_all add: res1_def res)
qed

lemma addAligned_rounded:
  assumes ctx: "context_fits ctx" and ops: "addend ctx l" "addend ctx r" and res: "length (lsu res) = DECNUMUNITS"
    and p: "0 \<le> padding" "padding = 0 \<or> digits r + padding \<le> digits l + ctx_digits ctx + 1"
    and W: "W = int (coeff l) + (if diffsign then - 1 else 1) * int (coeff r) * 10 ^ nat padding" "W \<noteq> 0"
    and y: "normal_result ctx ((b AND DECNEG \<noteq> 0) \<noteq> (W < 0)) (of_int \<bar>W\<bar> * 10 powi exponent l) y"
  shows "\<exists>s. addAligned mem res l r ctx b diffsign padding st = Some s \<and>
    rounded_result ctx ((b AND DECNEG \<noteq> 0) \<noteq> (W < 0)) (of_int \<bar>W\<bar> * 10 powi exponent l) st s"
proof -
  let ?p = "ctx_digits ctx" let ?neg = "(b AND DECNEG \<noteq> 0) \<noteq> (W < 0)" let ?x = "of_int \<bar>W\<bar> * 10 powi exponent l :: rat"
  have pc: "2 \<le> ?p" "?p \<le> 39" using ctx by (simp_all add: context_fits_def DECNUMDIGITS_def)
  obtain acc M res1 where as: "units_ok acc" "acc \<noteq> []" "int (units_val acc) = \<bar>W\<bar>" "units_val acc < 2 * 10 ^ nat M" "M \<le> 38 \<Longrightarrow> length acc \<le> 13"
    and len: "length (lsu res1) = DECNUMUNITS" and r1: "exponent res1 = exponent l" "digits res1 = int (length acc) * 3"
    and b1: "decNumberIsNegative res1 = ?neg" "\<not> decNumberIsSpecial res1"
    and eq: "addAligned mem res l r ctx b diffsign padding st = do {
      (res, residue, st) \<leftarrow>
         (if M \<ge> ?p then do {
            d \<leftarrow> (if digits res1 > ?p then decGetDigits acc (D2U (digits res1)) else Some (digits res1));
            decSetCoeff (res1\<lparr>digits := d\<rparr>) ctx (Some acc) d 0 st
          }
          else do { us \<leftarrow> writeUnits (lsu res1) acc; Some (res1\<lparr>lsu := us\<rparr>, 0, st) });
      addTail mem ctx diffsign res residue st }"
    by (rule addAligned_parts [OF ctx ops res p W(1), of b mem st]) blast
  have V: "?x = of_nat (units_val acc) * 10 powi exponent res1" "units_val acc \<noteq> 0"
    unfolding as(3) [symmetric] using W(2) as(3) by (auto simp: r1)
  note hw = holds_whole [OF as(1,2)]
  show ?thesis
  proof (cases "M \<ge> ?p")
    case True
    obtain d where d: "(if digits res1 > ?p then decGetDigits acc (D2U (digits res1)) else Some (digits res1)) = Some d" "holds acc d (units_val acc)"
        "d \<le> ?p \<or> 10 ^ (nat d - 1) \<le> units_val acc"
      using trimmed [OF hw V(2)] hw by (cases "digits res1 > ?p") (auto simp: r1)
    have room: "D2U ?p \<le> length (lsu (res1\<lparr>digits := d\<rparr>))" using context_room [OF ctx len] by simp
    have pr: "bits (res1\<lparr>digits := d\<rparr>) = bits res1" "exponent (res1\<lparr>digits := d\<rparr>) = exponent res1" "lsu (res1\<lparr>digits := d\<rparr>) = lsu res1" by simp_all
    obtain dn2 k f q rounded where t: "decSetCoeff (res1\<lparr>digits := d\<rparr>) ctx (Some acc) d 0 st = Some (dn2, q, result_status rounded (f \<noteq> 0) st)"
        "bits dn2 = bits res1" "holds (lsu dn2) (digits dn2) k" "k \<noteq> 0" "digits dn2 \<le> ?p" "residue_for f q" "0 \<le> f"
        "q \<noteq> 0 \<longrightarrow> digits dn2 = ?p \<and> 10 ^ (nat (digits dn2) - 1) \<le> k" "?x = (of_nat k + f) * 10 powi exponent dn2" "length (lsu dn2) = length (lsu res1)"
      using decSetCoeff_parts [OF ctx d(2) V(2) d(3) room, of st] unfolding V(1) pr by blast
    have "k < 10 ^ nat (digits dn2)" using t(3) by (simp add: holds_def)
    also have "\<dots> \<le> 10 ^ nat ?p" using t(5) by (intro power_increasing) auto
    finally have kp: "k < 10 ^ nat ?p" .
    have b2: "decNumberIsNegative dn2 = ?neg" "\<not> decNumberIsSpecial dn2"
      using b1 t(2) by (simp_all add: decNumberIsNegative_def decNumberIsSpecial_def)
    show ?thesis unfolding eq
      using True d(1) t(1) addTail_rounded [OF ctx t(3,4) kp b2(2) t(10) [unfolded len] t(6,7) t(8) [rule_format] t(9) y [folded b2(1)] refl, of mem diffsign rounded st]
      unfolding b2(1) by simp
  next
    case False
    have la: "length acc \<le> 13" using as(5) False pc(2) by simp
    let ?dn = "res1\<lparr>lsu := acc @ drop (length acc) (lsu res1)\<rparr>"
    have h: "holds (lsu ?dn) (digits ?dn) (units_val acc)" using hw la by (simp add: holds_def r1)
    have "2 * 10 ^ nat M \<le> (10 :: nat) ^ Suc (nat M)" by simp
    also have "\<dots> \<le> 10 ^ nat ?p" using False pc(1) by (intro power_increasing) simp_all
    finally have vp: "units_val acc < 10 ^ nat ?p" using as(4) by linarith
    have b2: "decNumberIsNegative ?dn = ?neg" "\<not> decNumberIsSpecial ?dn"
      using b1 by (simp_all add: decNumberIsNegative_def decNumberIsSpecial_def)
    have l2: "length (lsu ?dn) = DECNUMUNITS" using la len by simp
    have x: "?x = (of_nat (units_val acc) + 0) * 10 powi exponent ?dn" unfolding V(1) by simp
    have "writeUnits (lsu res1) acc = Some (lsu ?dn)" using la len by (simp add: writeUnits_def)
    then show ?thesis unfolding eq
      using False addTail_rounded [OF ctx h V(2) vp b2(2) l2 residue_for_0(1) order_refl _ x y [folded b2(1)], of st False st mem diffsign]
      unfolding b2(1) by (simp add: result_status_def)
  qed
qed

section \<open>Operands far apart\<close>

lemma addResidue_rounded:
  assumes ctx: "context_fits ctx" and ops: "addend ctx l" "addend ctx r" "coeff l \<noteq> 0" "coeff r \<noteq> 0" and res: "length (lsu res) = DECNUMUNITS"
    and far: "digits r + (exponent r - exponent l) > digits l + ctx_digits ctx + 1"
    and neg: "neg = bit (bits r XOR (if swapped then 0 else negate)) 7" "negate AND DECSPECIAL = 0"
    and x: "x = of_nat (coeff r) * 10 powi exponent r + (if diffsign then - 1 else 1) * (of_nat (coeff l) * 10 powi exponent l)"
    and y: "normal_result ctx neg x y"
  shows "\<exists>s. addResidue mem res r ctx negate diffsign swapped st = Some s \<and> rounded_result ctx neg x st s"
proof -
  let ?p = "ctx_digits ctx"
  define e :: int where "e = (if diffsign then - 1 else 1)"
  define shift where "shift = ?p - digits r"
  have pc: "2 \<le> ?p" "?p \<le> 39" using ctx by (simp_all add: context_fits_def DECNUMDIGITS_def)
  have ok: "dn_ok l" "dn_ok r" "digits r \<le> ?p" "\<not> decNumberIsSpecial r" using ops by (simp_all add: addend_def)
  have dr: "1 \<le> digits r" "1 \<le> digits l" "coeff l < 10 ^ nat (digits l)" using ok by (simp_all add: dn_ok_def)
  have s0: "0 \<le> shift" using ok(3) by (simp add: shift_def)
  let ?dn0 = "res\<lparr>bits := bits r, exponent := exponent r\<rparr>"
  have room: "D2U (digits r) \<le> length (lsu ?dn0)" using ok(3) pc(2) dr(1) res by (simp add: D2U_eq DECNUMUNITS_def DECNUMDIGITS_def)
  obtain u where u: "decCopyFit res r ctx e st = Some (?dn0\<lparr>lsu := u, digits := digits r\<rparr>, e, st OR (DEC_Inexact OR DEC_Rounded))"
      "length u = 13" "holds u (digits r) (coeff r)"
    using decSetCoeff_fit [OF dn_ok_holds [OF ok(2)] ok(3) room, of e st] res by (auto simp: decCopyFit_def e_def DECNUMUNITS_def DECNUMDIGITS_def)
  have hu: "units_ok (take (D2U (digits r)) u)" "units_val (take (D2U (digits r)) u) = coeff r" "coeff r < 10 ^ nat (digits r)" using u(3) by (simp_all add: holds_def)
  have room2: "D2U (digits r + shift) \<le> length u" using pc u(2) by (simp add: shift_def D2U_eq)
  obtain v where v: "dnShiftToMost u (digits r) shift = Some (digits r + shift, v @ drop (D2U (digits r + shift)) u)" "length v = D2U (digits r + shift)"
      "units_ok v" "units_val v = coeff r * 10 ^ nat shift"
    using dnShiftToMost_val [OF dr(1) s0 room2] hu by auto
  define b where "b = (if swapped then bits r else bits r XOR negate)"
  define dn where "dn = \<lparr>digits = ?p, exponent = exponent r - shift, bits = b, lsu = (if shift > 0 then v @ drop (D2U ?p) u else u)\<rparr>"
  have eq: "addResidue mem res r ctx negate diffsign swapped st = finishAdd mem dn ctx e (st OR (DEC_Inexact OR DEC_Rounded))"
    using u(1) v(1) s0 unfolding addResidue_def dn_def b_def e_def [symmetric] shift_def [symmetric] Let_def by (cases res) (auto simp: shift_def)
  have h: "holds (lsu dn) (digits dn) (coeff r * 10 ^ nat shift)"
  proof (cases "shift > 0")
    case True
    have "coeff r * 10 ^ nat shift < 10 ^ nat (digits r) * 10 ^ nat shift" using hu(3) by simp
    also have "\<dots> = 10 ^ nat ?p" using s0 dr(1) unfolding power_add [symmetric] shift_def by (simp add: nat_add_distrib [symmetric])
    finally show ?thesis using True v pc by (simp add: holds_def dn_def shift_def)
  qed (use u(3) s0 in \<open>simp add: dn_def shift_def\<close>)
  have lead: "10 ^ (nat (digits dn) - 1) \<le> coeff r * 10 ^ nat shift"
  proof -
    have "nat ?p - 1 = nat (digits r) - 1 + nat shift" using s0 dr(1) by (simp add: shift_def)
    then show ?thesis using dn_ok_leading [OF ok(2) ops(4)] by (simp add: dn_def power_add)
  qed
  have b: "decNumberIsNegative dn = neg" "\<not> decNumberIsSpecial dn"
    unfolding neg(1) negative_bit using ok(4) neg(2)
    by (simp_all add: dn_def b_def decNumberIsSpecial_def bit.conj_xor_distrib2 del: dec_bits)
  define g :: rat where "g = of_nat (coeff l) * 10 powi (exponent l - (exponent r - shift))"
  define f where "f = of_int e * g"
  have g0: "0 < g" using ops(3) by (simp add: g_def)
  have "g < 10 ^ nat (digits l) * 10 powi (exponent l - (exponent r - shift))"
    unfolding g_def using of_nat_less_iff [of "coeff l" "10 ^ nat (digits l)", where 'a = rat] dr(3) by simp
  also have "\<dots> = 10 powi (digits l + (exponent l - (exponent r - shift)))" using dr(2) by (simp add: power_int_add power_int_of_nat [symmetric])
  also have "\<dots> \<le> 10 powi (- 2)" using far unfolding shift_def by (intro power_int_increasing) auto
  also have "\<dots> = 1 / 100" by (simp add: power_int_def power2_eq_square)
  finally have "\<bar>f\<bar> < 1 / 100" "f < 0 \<longleftrightarrow> diffsign" "f \<noteq> 0" using g0 by (auto simp: f_def e_def abs_mult)
  then have f: "residue_for f e" "- 1 / 20 < f" "f \<noteq> 0" by (auto simp: residue_for_def e_def abs_less_iff)
  have xs: "x = (of_nat (coeff r * 10 ^ nat shift) + f) * 10 powi exponent dn"
  proof -
    have "of_nat (coeff r * 10 ^ nat shift) * (10 :: rat) powi (exponent r - shift) = of_nat (coeff r) * 10 powi exponent r"
      using powi_split [of "exponent r - shift" "exponent r"] s0 by simp
    moreover have "f * 10 powi (exponent r - shift) = of_int e * (of_nat (coeff l) * 10 powi exponent l)" by (simp add: f_def g_def mult.assoc power_int_add [symmetric])
    ultimately show ?thesis unfolding x distrib_right by (auto simp: dn_def e_def)
  qed
  have st: "st OR (DEC_Inexact OR DEC_Rounded) = result_status True (f \<noteq> 0) st" using f(3) by (simp add: result_status_def ac_simps)
  have len: "length (lsu dn) = DECNUMUNITS" using u(2) v(2) room2 by (simp add: dn_def shift_def)
  have dp: "digits dn \<le> ctx_digits ctx" "digits dn = ctx_digits ctx" by (simp_all add: dn_def)
  show ?thesis
    using finish_rounded [OF ctx h lead dp(1) b(2) len f(1,2) dp(2) xs y [folded b(1)] st, of mem] unfolding eq b(1) finishAdd_def by auto
qed

section \<open>Adding zero\<close>

lemma padZeros_rounded:
  assumes ctx: "context_fits ctx" and dn: "holds (lsu dn) (digits dn) c" "10 ^ (nat (digits dn) - 1) \<le> c" "digits dn \<le> ctx_digits ctx"
      "\<not> decNumberIsSpecial dn" "length (lsu dn) = DECNUMUNITS"
    and x: "x = of_nat c * 10 powi exponent dn" and y: "normal_result ctx (decNumberIsNegative dn) x y"
  shows "\<exists>s. do { (res, st) \<leftarrow> padZeros dn ctx adjust st; finishAdd mem res ctx 0 st } = Some s \<and> rounded_result ctx (decNumberIsNegative dn) x st s"
proof -
  let ?p = "ctx_digits ctx"
  have pc: "2 \<le> ?p" "?p \<le> 39" using ctx by (simp_all add: context_fits_def DECNUMDIGITS_def)
  define toolong where "toolong = (adjust < 0 \<and> digits dn - adjust > ?p)"
  define shift where "shift = (if toolong then ?p - digits dn else if adjust < 0 then - adjust else 0)"
  have s: "0 \<le> shift" "digits dn + shift \<le> ?p" using dn(3) by (auto simp: shift_def toolong_def)
  have d: "1 \<le> digits dn" "units_ok (take (D2U (digits dn)) (lsu dn))" "units_val (take (D2U (digits dn)) (lsu dn)) = c" "c < 10 ^ nat (digits dn)"
    using dn(1) by (simp_all add: holds_def)
  have room: "D2U (digits dn + shift) \<le> length (lsu dn)" using s d(1) pc dn(5) by (simp add: D2U_eq DECNUMUNITS_def DECNUMDIGITS_def)
  obtain us where us: "dnShiftToMost (lsu dn) (digits dn) shift = Some (digits dn + shift, us @ drop (D2U (digits dn + shift)) (lsu dn))"
      "length us = D2U (digits dn + shift)" "units_ok us" "units_val us = c * 10 ^ nat shift"
    using dnShiftToMost_val [OF d(1) s(1) room] d by auto
  define dn2 where "dn2 = dn\<lparr>lsu := (if adjust < 0 then us @ drop (D2U (digits dn + shift)) (lsu dn) else lsu dn), digits := digits dn + shift, exponent := exponent dn - shift\<rparr>"
  define st' where "st' = result_status toolong ((0 :: rat) \<noteq> 0) st"
  have eq: "padZeros dn ctx adjust st = Some (dn2, st')"
    using us(1) by (cases dn) (auto simp: padZeros_def dn2_def st'_def result_status_def shift_def toolong_def)
  have lt: "c * 10 ^ nat shift < 10 ^ nat (digits dn + shift)"
    using d(1,4) s(1) by (simp add: nat_add_distrib power_add)
  have h: "holds (lsu dn2) (digits dn2) (c * 10 ^ nat shift)"
  proof (cases "adjust < 0")
    case True
    then show ?thesis using us lt d(1) s(1) by (simp add: holds_def dn2_def)
  next
    case False
    then have "shift = 0" by (simp add: shift_def toolong_def)
    then show ?thesis using False dn(1) by (simp add: dn2_def)
  qed
  have "nat (digits dn2) - 1 = nat (digits dn) - 1 + nat shift" using d(1) s(1) by (simp add: dn2_def)
  then have lead: "10 ^ (nat (digits dn2) - 1) \<le> c * 10 ^ nat shift" using dn(2) by (simp add: power_add)
  have b: "decNumberIsNegative dn2 = decNumberIsNegative dn" "\<not> decNumberIsSpecial dn2" "digits dn2 \<le> ?p"
    using dn(4) s(2) by (simp_all add: dn2_def decNumberIsNegative_def decNumberIsSpecial_def)
  have len: "length (lsu dn2) = DECNUMUNITS" using us(2) room dn(5) by (simp add: dn2_def)
  have xs: "x = (of_nat (c * 10 ^ nat shift) + 0) * 10 powi exponent dn2"
    using powi_split [of "exponent dn - shift" "exponent dn"] s(1) by (simp add: x dn2_def)
  show ?thesis
    using finish_rounded [OF ctx h lead b(3,2) len residue_for_0(1) _ _ xs y [folded b(1)] st'_def, of mem]
    unfolding b(1) eq finishAdd_def by auto
qed

lemma copied:
  assumes ctx: "context_fits ctx" and o1: "addend ctx o1" "coeff o1 \<noteq> 0" and res: "length (lsu res) = DECNUMUNITS"
  shows "\<exists>u. decCopyFit res o1 ctx 0 st = Some (res\<lparr>bits := bits o1, exponent := exponent o1, lsu := u, digits := digits o1\<rparr>, 0, st) \<and> length u = DECNUMUNITS \<and>
    holds u (digits o1) (coeff o1) \<and> 10 ^ (nat (digits o1) - 1) \<le> coeff o1"
proof -
  have ok: "dn_ok o1" "digits o1 \<le> ctx_digits ctx" "1 \<le> digits o1" using o1 by (simp_all add: addend_def dn_ok_def)
  have "digits o1 \<le> 39" using ctx ok(2) by (simp add: context_fits_def DECNUMDIGITS_def)
  then have room: "D2U (digits o1) \<le> length (lsu (res\<lparr>bits := bits o1, exponent := exponent o1\<rparr>))"
    using ok(3) res by (simp add: D2U_eq DECNUMUNITS_def DECNUMDIGITS_def)
  show ?thesis using decSetCoeff_fit [OF dn_ok_holds [OF ok(1)] ok(2) room, of 0 st] res dn_ok_leading [OF ok(1) o1(2)]
    by (auto simp: decCopyFit_def)
qed

lemma copy_nonzero: "holds u d c \<Longrightarrow> c \<noteq> 0 \<Longrightarrow> 10 ^ (nat d - 1) \<le> c \<Longrightarrow> b AND DECSPECIAL = 0 \<Longrightarrow>
    \<not> decNumberIsZero (dn\<lparr>bits := b, lsu := u, digits := d\<rparr>)"
proof -
  assume h: "holds u d c" "c \<noteq> 0" "10 ^ (nat d - 1) \<le> c" "b AND DECSPECIAL = 0"
  let ?dn = "dn\<lparr>bits := b, lsu := u, digits := d\<rparr>"
  have "coeff ?dn = c" using h(1) by (intro holds_coeff) simp
  then show ?thesis using zero_coeff [of ?dn] h by (simp add: dn_ok_holds_iff decNumberIsSpecial_def)
qed

lemma addZero_rounded:
  assumes ctx: "context_fits ctx" and o1: "addend ctx o1" "coeff o1 \<noteq> 0" and res: "length (lsu res) = DECNUMUNITS"
    and x: "x = of_nat (coeff o1) * 10 powi exponent o1"
  shows "normal_result ctx (decNumberIsNegative o1) x y \<Longrightarrow>
      \<exists>s. addZeroRhs mem res o1 z ctx st = Some s \<and> rounded_result ctx (decNumberIsNegative o1) x st s"
    "negate AND DECSPECIAL = 0 \<Longrightarrow> normal_result ctx (bit (bits o1 XOR negate) 7) x y \<Longrightarrow>
      \<exists>s. addZeroLhs mem res z o1 ctx negate st = Some s \<and> rounded_result ctx (bit (bits o1 XOR negate) 7) x st s"
proof -
  obtain u where u: "decCopyFit res o1 ctx 0 st = Some (res\<lparr>bits := bits o1, exponent := exponent o1, lsu := u, digits := digits o1\<rparr>, 0, st)"
      "length u = DECNUMUNITS" "holds u (digits o1) (coeff o1)" "10 ^ (nat (digits o1) - 1) \<le> coeff o1"
    using copied [OF ctx o1 res] by blast
  have sp: "bits o1 AND DECSPECIAL = 0" "digits o1 \<le> ctx_digits ctx" using o1(1) by (simp_all add: addend_def decNumberIsSpecial_def)
  let ?dn = "\<lambda>b. res\<lparr>bits := b, exponent := exponent o1, lsu := u, digits := digits o1\<rparr>"
  have r: "\<exists>s. do { (res, st) \<leftarrow> padZeros (?dn b) ctx adjust st; finishAdd mem res ctx 0 st } = Some s \<and> rounded_result ctx (bit b 7) x st s"
    if b: "b AND DECSPECIAL = 0" and y: "normal_result ctx (bit b 7) x y" for b adjust
    using padZeros_rounded [of ctx "?dn b" "coeff o1" x y adjust st mem] ctx u(2-4) sp(2) b x y by (simp add: decNumberIsSpecial_def negative_bit)
  show "\<exists>s. addZeroRhs mem res o1 z ctx st = Some s \<and> rounded_result ctx (decNumberIsNegative o1) x st s"
    if "normal_result ctx (decNumberIsNegative o1) x y"
    using r [OF sp(1), of "exponent z - exponent o1"] that u(1) by (simp add: addZeroRhs_def negative_bit)
  show "\<exists>s. addZeroLhs mem res z o1 ctx negate st = Some s \<and> rounded_result ctx (bit (bits o1 XOR negate) 7) x st s"
    if n: "negate AND DECSPECIAL = 0" and y: "normal_result ctx (bit (bits o1 XOR negate) 7) x y"
  proof -
    have b: "(bits o1 XOR negate) AND DECSPECIAL = 0" using n sp(1) by (simp add: bit.conj_xor_distrib2 del: dec_bits)
    have "\<not> decNumberIsZero (?dn (bits o1 XOR negate))" using copy_nonzero [OF u(3) o1(2) u(4) b, of "res\<lparr>exponent := exponent o1\<rparr>"] by (cases res) simp
    then have "addZeroLhs mem res z o1 ctx negate st =
        do { (res, st) \<leftarrow> padZeros (?dn (bits o1 XOR negate)) ctx (exponent z - exponent o1) st; finishAdd mem res ctx 0 st }"
      using u(1) by (cases res) (simp add: addZeroLhs_def Let_def)
    then show ?thesis using r [OF b y] by simp
  qed
qed

section \<open>The fast path\<close>

lemma decNumberCopy_val:
  assumes "dn_ok src" "D2U (digits src) \<le> length (lsu dest)"
  shows "decNumberCopy dest src =
    Some (dest\<lparr>bits := bits src, exponent := exponent src, digits := digits src, lsu := take (D2U (digits src)) (lsu src) @ drop (D2U (digits src)) (lsu dest)\<rparr>)"
proof -
  define n where "n = D2U (digits src) - 1"
  have d: "1 \<le> digits src" "D2U (digits src) \<le> length (lsu src)" using assms(1) by (simp_all add: dn_ok_def)
  have n: "D2U (digits src) = Suc n" using d(1) by (simp add: n_def D2U_eq)
  obtain a ss b ds where l: "lsu src = a # ss" "lsu dest = b # ds" "n \<le> length ss" "n \<le> length ds"
    using d(2) assms(2) unfolding n by (cases "lsu src"; cases "lsu dest") auto
  have "digits src > 3 \<longleftrightarrow> n \<noteq> 0" using d(1) by (simp add: n_def D2U_eq) linarith
  then show ?thesis using l copyUnits_room [of 1 n "a # ss" 1 "a # ds"]
    unfolding decNumberCopy_def n by (auto simp: peek_def poke_def)
qed

lemma addFast_exact:
  assumes ops: "addend ctx lhs" "addend ctx rhs" and ctx: "context_fits ctx" and res: "length (lsu res) = DECNUMUNITS"
    and W: "W = int (coeff lhs) + (if diffsign then - 1 else 1) * int (coeff rhs)"
  shows "\<exists>fast. addFast res lhs rhs ctx diffsign = Some fast \<and> (\<forall>dn. fast = Some dn \<longrightarrow>
    exponent rhs = exponent lhs \<and> dn_ok dn \<and> length (lsu dn) = DECNUMUNITS \<and> bits dn = bits lhs \<and> exponent dn = exponent lhs \<and> digits dn \<le> digits lhs \<and> int (coeff dn) = W)"
proof (cases "exponent rhs = exponent lhs \<and> digits rhs \<le> 3 \<and> exponent rhs \<ge> emin ctx \<and> exponent rhs \<le> emax ctx - ctx_digits ctx + 1 \<and>
         digits rhs \<le> ctx_digits ctx \<and> digits lhs \<le> ctx_digits ctx")
  case False
  show ?thesis unfolding addFast_def if_not_P [OF False] by simp
next
  case guard: True
  have ok: "dn_ok lhs" "dn_ok rhs" using ops by (simp_all add: addend_def)
  define n where "n = D2U (digits lhs) - 1"
  have d: "1 \<le> digits lhs" "1 \<le> digits rhs" "digits lhs \<le> 39" using ok ctx guard by (simp_all add: dn_ok_def context_fits_def DECNUMDIGITS_def)
  have n: "D2U (digits lhs) = Suc n" "Suc n \<le> 13" using d by (simp_all add: n_def D2U_eq)
  have "digits rhs = 1 \<or> digits rhs = 2 \<or> digits rhs = 3" using d(2) guard by linarith
  then have n1: "D2U (digits rhs) = 1" by (auto simp: D2U_eq)
  obtain l ls where l: "lsu lhs = l # ls" "n \<le> length ls" "unat l < 1000" "units_ok (take n ls)" "coeff lhs = unat l + 1000 * units_val (take n ls)"
    using ok(1) n(1) by (cases "lsu lhs") (auto simp: dn_ok_def coeff_def)
  obtain r rs where r: "lsu rhs = r # rs" "unat r < 1000" "coeff rhs = unat r"
    using ok(2) n1 by (cases "lsu rhs") (auto simp: dn_ok_def coeff_def)
  have uw: "uint l = int (unat l)" "uint r = int (unat r)" by simp_all
  have copy: "decNumberCopy res lhs = Some (res\<lparr>bits := bits lhs, exponent := exponent lhs, digits := digits lhs, lsu := (l # take n ls) @ drop (Suc n) (lsu res)\<rparr>)"
    using decNumberCopy_val [OF ok(1), of res] n res l(1) by (simp add: DECNUMUNITS_def DECNUMDIGITS_def)
  let ?us = "\<lambda>k. (of_int k # take n ls) @ drop (Suc n) (lsu res) :: Unit list"
  have us: "units_ok (take (Suc n) (?us k))" "units_val (take (Suc n) (?us k)) = nat k + 1000 * units_val (take n ls)" "Suc n \<le> length (?us k)"
    if "0 \<le> k" "k \<le> 999" for k
    using that l(2,4) unit_literal [of "nat k"] by (simp_all add: min_absorb2)
  have len: "length (?us k) = DECNUMUNITS" for k using l(2) n(2) res by simp
  show ?thesis
  proof (cases diffsign)
    case False
    define k where "k = uint l + uint r"
    show ?thesis
    proof (cases "k \<le> 999 \<and> (digits lhs \<ge> 3 \<or> k < uint (pow10 (nat (digits lhs))))")
      case True
      let ?dn = "res\<lparr>bits := bits lhs, exponent := exponent lhs, digits := digits lhs, lsu := ?us k\<rparr>"
      have k: "0 \<le> k" "k \<le> 999" "nat k = unat l + unat r" using True by (simp_all add: k_def nat_add_distrib)
      have c: "coeff ?dn = coeff lhs + coeff rhs" using us(2) [OF k(1,2)] k(3) l(5) r(3) n(1) by (simp add: coeff_def)
      have "coeff ?dn < 10 ^ nat (digits lhs)"
      proof (cases "digits lhs \<ge> 3")
        case True
        define m where "m = nat (digits lhs) - 3"
        have p: "10 ^ nat (digits lhs) = 1000 * (10 :: nat) ^ m" using True power_add [of "10 :: nat" 3 m] by (simp add: m_def)
        have "coeff lhs < 1000 * 10 ^ m" using ok(1) p by (simp add: dn_ok_def)
        then have "units_val (take n ls) < 10 ^ m" using l(5) by linarith
        then have "1000 * (units_val (take n ls) + 1) \<le> 1000 * 10 ^ m" by (intro mult_le_mono2) simp
        moreover have "unat l + unat r \<le> 999" unfolding k(3) [symmetric] using k(2) by simp
        moreover have "1000 * (w + 1) \<le> q \<Longrightarrow> a + b \<le> 999 \<Longrightarrow> a + 1000 * w + b < q" for a b w q :: nat by simp
        ultimately show ?thesis unfolding c p l(5) r(3) by blast
      next
        case small: False
        then have "n = 0" using d(1) by (simp add: n_def D2U_eq)
        moreover have "int (unat (pow10 (nat (digits lhs)))) = 10 ^ nat (digits lhs)" using pow10_small(2) [of "nat (digits lhs)"] small d(1) by simp
        then have "int (nat k) < int (10 ^ nat (digits lhs))" using True small k(1) by simp
        then have "nat k < 10 ^ nat (digits lhs)" by (simp only: of_nat_less_iff)
        ultimately show ?thesis unfolding c using k(3) l(5) r(3) by simp
      qed
      moreover have "digits lhs = 1 \<or> 10 ^ (nat (digits lhs) - 1) \<le> coeff ?dn" unfolding c using ok(1) by (auto simp: dn_ok_def)
      ultimately have "dn_ok ?dn" unfolding dn_ok_def using us(1,3) [OF k(1,2)] d(1) n(1) by simp
      moreover have "addFast res lhs rhs ctx diffsign = Some (Some ?dn)"
        using guard True False copy l(1) r(1) unfolding addFast_def k_def by (simp add: peek_def)
      ultimately show ?thesis using c W False guard len [of k] by simp
    next
      case nofit: False
      then have "addFast res lhs rhs ctx diffsign = Some None" using guard False l(1) r(1) by (auto simp: addFast_def peek_def k_def Let_def)
      then show ?thesis by simp
    qed
  next
    case True
    define k where "k = uint l - uint r"
    show ?thesis
    proof (cases "k > 0")
      case pos: True
      let ?dn = "res\<lparr>bits := bits lhs, exponent := exponent lhs, digits := digits lhs, lsu := ?us k\<rparr>"
      have k: "0 \<le> k" "k \<le> 999" "int (nat k) = int (unat l) - int (unat r)" using pos l(3) uw unfolding k_def by linarith+
      have c: "int (coeff ?dn) = int (coeff lhs) - int (coeff rhs)" "coeff ?dn \<noteq> 0"
        using us(2) [OF k(1,2)] k(3) l(5) r(3) n(1) pos by (simp_all add: coeff_def)
      have "coeff ?dn < 10 ^ nat (digits lhs)" using c(1) ok(1) by (simp add: dn_ok_def)
      then have h: "holds (?us k) (digits lhs) (coeff ?dn)"
        using us(1,3) [OF k(1,2)] d(1) n(1) by (simp add: holds_def coeff_def)
      obtain m where m: "decGetDigits (?us k) (D2U (digits lhs)) = Some m" "m \<le> digits lhs" "holds (?us k) m (coeff ?dn)" "10 ^ (nat m - 1) \<le> coeff ?dn"
        using trimmed [OF h c(2)] by blast
      have c2: "coeff (?dn\<lparr>digits := m\<rparr>) = coeff ?dn" using m(3) by (intro holds_coeff) simp
      have "dn_ok (?dn\<lparr>digits := m\<rparr>)" unfolding dn_ok_holds_iff c2 using m(3,4) by simp
      moreover have "addFast res lhs rhs ctx diffsign = Some (Some (?dn\<lparr>digits := m\<rparr>))"
        using guard True pos copy l(1) r(1) m(1) unfolding addFast_def k_def by (simp add: peek_def)
      ultimately show ?thesis using c c2 W True guard m(2) len [of k] by simp
    next
      case False
      then have "addFast res lhs rhs ctx diffsign = Some None" using guard True l(1) r(1) by (auto simp: addFast_def peek_def k_def Let_def)
      then show ?thesis by simp
    qed
  qed
qed

section \<open>The operation\<close>

definition sgn_of :: "bool \<Rightarrow> rat" where "sgn_of s = (if s then - 1 else 1)"

lemma sgn_of_simps:
  "\<bar>sgn_of s * x\<bar> = \<bar>x\<bar>" "x \<noteq> 0 \<Longrightarrow> sgn_of s * x < 0 \<longleftrightarrow> s \<noteq> (x < 0)"
  "sgn_of s * a + sgn_of t * b = sgn_of s * (a + (if s \<noteq> t then - 1 else 1) * b)"
  by (auto simp: sgn_of_def)

lemma sgn_of_pos: "0 \<le> x \<Longrightarrow> sgn_of s * x \<noteq> 0 \<Longrightarrow> \<bar>sgn_of s * x\<bar> = x \<and> (sgn_of s * x < 0 \<longleftrightarrow> s) \<and> x \<noteq> 0"
  by (auto simp: sgn_of_def)

definition magnitude :: "decNumber \<Rightarrow> rat" where
  "magnitude dn = of_nat (coeff dn) * 10 powi exponent dn"

lemma magnitude_value: "dn_value dn = sgn_of (decNumberIsNegative dn) * magnitude dn"
  by (simp add: dn_value_def magnitude_def sgn_of_def)

text \<open>The two ways that align the operands: \<open>l\<close> has the lower exponent, \<open>sl\<close> and \<open>sr\<close> are the signs.\<close>

definition addMain ::
  "(nat \<Rightarrow> bool) \<Rightarrow> decNumber \<Rightarrow> decNumber \<Rightarrow> decNumber \<Rightarrow> decContext \<Rightarrow> uByte \<Rightarrow> uByte \<Rightarrow> bool \<Rightarrow> bool \<Rightarrow> int \<Rightarrow> uInt \<Rightarrow> (decNumber \<times> uInt) option" where
  "addMain mem res l r ctx negate b diffsign swapped padding st =
     (if padding \<noteq> 0 \<and> digits r + padding > digits l + ctx_digits ctx + 1 then addResidue mem res r ctx negate diffsign swapped st
      else addAligned mem res l r ctx b diffsign padding st)"

lemma addMain_rounded:
  assumes ctx: "context_fits ctx" and ops: "addend ctx l" "addend ctx r" "coeff l \<noteq> 0" "coeff r \<noteq> 0" and res: "length (lsu res) = DECNUMUNITS"
    and p: "padding = exponent r - exponent l" "0 \<le> padding" and n: "negate AND DECSPECIAL = 0"
    and sg: "sr = bit (bits r XOR (if swapped then 0 else negate)) 7" "diffsign \<longleftrightarrow> bit b 7 \<noteq> sr"
    and S: "S = sgn_of (bit b 7) * magnitude l + sgn_of sr * magnitude r" "S \<noteq> 0" and y: "normal_result ctx (S < 0) \<bar>S\<bar> y"
  shows "\<exists>s. addMain mem res l r ctx negate b diffsign swapped padding st = Some s \<and> rounded_result ctx (S < 0) \<bar>S\<bar> st s"
proof (cases "padding \<noteq> 0 \<and> digits r + padding > digits l + ctx_digits ctx + 1")
  case True
  let ?x = "magnitude r + (if diffsign then - 1 else 1) * magnitude l"
  have Sx: "S = sgn_of sr * ?x" using S(1) sgn_of_simps(3) [of sr "magnitude r" "bit b 7" "magnitude l"] sg(2) by (simp add: add.commute)
  have ok: "dn_ok l" "dn_ok r" "2 \<le> ctx_digits ctx" using ops ctx by (simp_all add: addend_def context_fits_def)
  have "magnitude l < 10 ^ nat (digits l) * 10 powi exponent l" unfolding magnitude_def
    using ok(1) of_nat_less_iff [of "coeff l" "10 ^ nat (digits l)", where 'a = rat] by (simp add: dn_ok_def)
  also have "\<dots> = 10 powi (digits l + exponent l)" using ok(1) powi_split [of "exponent l" "digits l + exponent l"] by (simp add: dn_ok_def)
  also have "\<dots> \<le> 10 powi (digits r - 1 + exponent r)" using True p(1) ok(3) by (intro power_int_increasing) auto
  also have "\<dots> = 10 ^ nat (digits r - 1) * 10 powi exponent r" using ok(2) powi_split [of "exponent r" "digits r - 1 + exponent r"] by (simp add: dn_ok_def)
  also have "\<dots> \<le> magnitude r" unfolding magnitude_def
    using dn_ok_leading [OF ok(2) ops(4)] of_nat_le_iff [of "10 ^ (nat (digits r) - 1)" "coeff r", where 'a = rat] ok(2)
    by (simp add: dn_ok_def nat_diff_distrib)
  finally have lt: "magnitude l < magnitude r" .
  moreover have "0 \<le> magnitude l" by (simp add: magnitude_def)
  ultimately have "0 < ?x" by auto
  then have neg: "S < 0 \<longleftrightarrow> sr" "\<bar>S\<bar> = ?x" unfolding Sx sgn_of_simps(1) by (auto simp: sgn_of_def)
  have "digits r + (exponent r - exponent l) > digits l + ctx_digits ctx + 1" using True p(1) by simp
  then show ?thesis
    using True addResidue_rounded [OF ctx ops res _ sg(1) n, of ?x diffsign y mem st] y unfolding neg addMain_def by (auto simp: magnitude_def)
next
  case False
  define W where "W = int (coeff l) + (if diffsign then - 1 else 1) * int (coeff r) * 10 ^ nat padding"
  have m: "magnitude r = of_nat (coeff r) * 10 ^ nat padding * 10 powi exponent l"
    using powi_split [of "exponent l" "exponent r"] p by (simp add: magnitude_def)
  have Sx: "S = sgn_of (bit b 7) * (of_int W * 10 powi exponent l)"
    unfolding S(1) sgn_of_simps(3) sg(2) [symmetric] m magnitude_def [of l] W_def by (auto simp: algebra_simps)
  have W: "W \<noteq> 0" using S(2) unfolding Sx by auto
  have wl: "of_int W * (10 :: rat) powi exponent l < 0 \<longleftrightarrow> W < 0" using pow10_pos [of "exponent l"] by (simp add: mult_less_0_iff less_le_not_le [of "10 powi exponent l :: rat"])
  have neg: "S < 0 \<longleftrightarrow> (b AND DECNEG \<noteq> 0) \<noteq> (W < 0)" "\<bar>S\<bar> = of_int \<bar>W\<bar> * 10 powi exponent l"
    unfolding sign_bit unfolding Sx sgn_of_simps(1) using sgn_of_simps(2) [of "of_int W * 10 powi exponent l" "bit b 7"] W
    unfolding wl by (simp_all add: abs_mult)
  show ?thesis
    using False addAligned_rounded [OF ctx ops(1,2) res p(2) _ W_def W y [unfolded neg], of mem st] unfolding neg addMain_def by auto
qed

lemma decAddOp_rounded:
  assumes ctx: "context_fits ctx" and ops: "addend ctx lhs" "addend ctx rhs" and negate: "negate = 0 \<or> negate = DECNEG"
    and res: "length (lsu res) = DECNUMUNITS" and S: "S = dn_value lhs + (if negate = 0 then dn_value rhs else - dn_value rhs)"
    and y: "normal_result ctx (S < 0) \<bar>S\<bar> y"
  shows "\<exists>r. decAddOp mem res lhs rhs ctx negate st = Some r \<and> rounded_result ctx (S < 0) \<bar>S\<bar> st r"
proof -
  define sl sr where "sl = bit (bits lhs) 7" and "sr = bit (bits rhs XOR negate) 7"
  define diffsign where "diffsign = ((bits lhs XOR bits rhs XOR negate) AND DECNEG \<noteq> 0)"
  have ok: "dn_ok lhs" "dn_ok rhs" "\<not> decNumberIsSpecial lhs" "\<not> decNumberIsSpecial rhs" using ops by (simp_all add: addend_def)
  have n: "negate AND DECSPECIAL = 0" using negate by auto
  have "bit negate 7 \<longleftrightarrow> negate \<noteq> 0" using negate sign_bit [of negate] by auto
  then have Ss: "S = sgn_of sl * magnitude lhs + sgn_of sr * magnitude rhs"
    unfolding S magnitude_value negative_bit sl_def sr_def by (auto simp: sgn_of_def bit_xor_iff)
  have ds: "diffsign \<longleftrightarrow> sl \<noteq> sr" unfolding diffsign_def sign_bit sl_def sr_def bit_xor_iff by blast
  have "10 powi emin ctx \<le> \<bar>S\<bar>" using y by (simp add: normal_result_def)
  with pow10_pos have "0 < \<bar>S\<bar>" by (rule less_le_trans)
  then have S0: "S \<noteq> 0" by simp
  have sp: "\<not> (bits lhs OR bits rhs) AND DECSPECIAL \<noteq> 0" using ok(3,4) by (simp add: decNumberIsSpecial_def bit.conj_disj_distrib2)
  have zero: "decNumberIsZero lhs \<longleftrightarrow> magnitude lhs = 0" "decNumberIsZero rhs \<longleftrightarrow> magnitude rhs = 0"
    using zero_coeff ok by (simp_all add: magnitude_def)
  have nn: "0 \<le> magnitude dn" for dn by (simp add: magnitude_def)
  consider (zl) "magnitude lhs = 0" | (zr) "magnitude lhs \<noteq> 0" "magnitude rhs = 0" | (nz) "magnitude lhs \<noteq> 0" "magnitude rhs \<noteq> 0" by blast
  then show ?thesis
  proof cases
    case zl
    then have x: "\<bar>S\<bar> = of_nat (coeff rhs) * 10 powi exponent rhs" "S < 0 \<longleftrightarrow> bit (bits rhs XOR negate) 7" "coeff rhs \<noteq> 0"
      using S0 sgn_of_pos [OF nn, of sr rhs] unfolding Ss sr_def magnitude_def [symmetric] by (auto simp: magnitude_def [of rhs])
    show ?thesis using addZero_rounded(2) [OF ctx ops(2) x(3) res x(1) n, of y mem lhs st] y sp zero zl unfolding x(2) decAddOp_def Let_def by auto
  next
    case zr
    then have x: "\<bar>S\<bar> = of_nat (coeff lhs) * 10 powi exponent lhs" "S < 0 \<longleftrightarrow> decNumberIsNegative lhs" "coeff lhs \<noteq> 0"
      using S0 sgn_of_pos [OF nn, of sl lhs] unfolding Ss sl_def negative_bit magnitude_def [symmetric] by (auto simp: magnitude_def [of lhs])
    show ?thesis using addZero_rounded(1) [OF ctx ops(1) x(3) res x(1), of y mem rhs st] y sp zero zr unfolding x(2) decAddOp_def Let_def by auto
  next
    case nz
    then have c: "coeff lhs \<noteq> 0" "coeff rhs \<noteq> 0" by (auto simp: magnitude_def)
    obtain fast where f: "addFast res lhs rhs ctx diffsign = Some fast" "\<And>dn. fast = Some dn \<Longrightarrow>
        exponent rhs = exponent lhs \<and> dn_ok dn \<and> length (lsu dn) = DECNUMUNITS \<and> bits dn = bits lhs \<and> exponent dn = exponent lhs \<and> digits dn \<le> digits lhs \<and>
        int (coeff dn) = int (coeff lhs) + (if diffsign then - 1 else 1) * int (coeff rhs)"
      using addFast_exact [OF ops ctx res refl] by blast
    show ?thesis
    proof (cases fast)
      case (Some dn)
      note fd = f(2) [OF Some]
      have "of_int (int (coeff dn)) = (of_int (int (coeff lhs) + (if diffsign then - 1 else 1) * int (coeff rhs)) :: rat)" using fd by simp
      then have "of_nat (coeff dn) = of_nat (coeff lhs) + (if diffsign then - 1 else 1) * (of_nat (coeff rhs) :: rat)" by (simp split: if_splits)
      then have "magnitude dn = magnitude lhs + (if sl \<noteq> sr then - 1 else 1) * magnitude rhs"
        using fd unfolding magnitude_def ds by (simp add: distrib_right)
      then have x: "S = sgn_of sl * magnitude dn" unfolding Ss sgn_of_simps(3) by simp
      then have "\<bar>S\<bar> = magnitude dn \<and> (S < 0 \<longleftrightarrow> sl) \<and> magnitude dn \<noteq> 0" using sgn_of_pos [OF nn, of sl dn] S0 by simp
      then have m: "\<bar>S\<bar> = of_nat (coeff dn) * 10 powi exponent dn" "S < 0 \<longleftrightarrow> sl" "coeff dn \<noteq> 0" "\<bar>dn_value dn\<bar> = \<bar>S\<bar>"
        using nn [of dn] unfolding magnitude_value sgn_of_simps(1) magnitude_def [symmetric] by (auto simp: magnitude_def [of dn])
      have d: "1 \<le> digits dn" "digits dn \<le> ctx_digits ctx" "coeff dn < 10 ^ nat (digits dn)" using fd ops(1) by (auto simp: dn_ok_def addend_def)
      have "rounds_to (ctx_round ctx) (S < 0) (ctx_digits ctx) \<bar>S\<bar> \<bar>S\<bar>"
        unfolding m(1) using rounds_exact [OF d(1,2) dn_ok_leading [OF _ m(3)] d(3)] fd by blast
      moreover have "\<exists>rounded. st = result_status rounded False st" by (intro exI [of _ False]) (simp add: result_status_def)
      moreover have "\<not> decNumberIsSpecial dn" "decNumberIsNegative dn = (S < 0)" using fd ok(3) m(2)
        by (simp_all add: negative_bit sl_def decNumberIsSpecial_def)
      ultimately have "rounded_result ctx (S < 0) \<bar>S\<bar> st (dn, st)"
        unfolding rounded_result_def using fd d by (simp add: m(4))
      then show ?thesis using f(1) Some sp zero nz by (simp add: decAddOp_def diffsign_def)
    next
      case None
      have eq: "decAddOp mem res lhs rhs ctx negate st =
          (if exponent rhs - exponent lhs < 0 then addMain mem res rhs lhs ctx negate (bits rhs XOR negate) diffsign True (- (exponent rhs - exponent lhs)) st
           else addMain mem res lhs rhs ctx negate (bits lhs) diffsign False (exponent rhs - exponent lhs) st)"
        using f(1) None sp zero nz unfolding decAddOp_def addMain_def Let_def diffsign_def [symmetric] by simp
      show ?thesis
      proof (cases "exponent rhs - exponent lhs < 0")
        case True
        show ?thesis unfolding eq
          using True addMain_rounded [OF ctx ops(2,1) c(2,1) res _ _ n, where swapped = True and b = "bits rhs XOR negate" and sr = sl
              and diffsign = diffsign and S = S and y = y and mem = mem and st = st and padding = "- (exponent rhs - exponent lhs)"] y Ss S0 ds
          by (auto simp: sl_def sr_def add.commute)
      next
        case False
        show ?thesis unfolding eq
          using False addMain_rounded [OF ctx ops c res _ _ n, where swapped = False and b = "bits lhs" and sr = sr
              and diffsign = diffsign and S = S and y = y and mem = mem and st = st and padding = "exponent rhs - exponent lhs"] y Ss S0 ds
          by (auto simp: sl_def sr_def)
      qed
    qed
  qed
qed

text \<open>
  C7. Addition and subtraction are correctly rounded.  For finite operands with no more digits than the precision of the context and for
  any rounding mode, when the exact sum (the difference, when \<^verbatim>\<open>negate\<close> is set) is not zero and lies in the normal range, \<^verbatim>\<open>decAddOp\<close> returns a well formed number
  with the sign of the sum whose magnitude is the exact sum rounded to the precision, and raises \<^verbatim>\<open>Inexact\<close> if and only if it is not the exact sum.
  This holds on each of its paths: a zero operand, the fast path, aligned operands and operands so far apart that the smaller one is a residue.
\<close>

theorem add_rounded:
  assumes ctx: "context_fits ctx" and ops: "addend ctx lhs" "addend ctx rhs" and negate: "negate = 0 \<or> negate = DECNEG"
    and res: "length (lsu res) = DECNUMUNITS" and S: "S = dn_value lhs + (if negate = 0 then dn_value rhs else - dn_value rhs)"
    and y: "normal_result ctx (S < 0) \<bar>S\<bar> y"
  shows "\<exists>r. decAddOp mem res lhs rhs ctx negate st = Some r \<and> rounded_result ctx (S < 0) \<bar>S\<bar> st r"
  using assms by (rule decAddOp_rounded)

text \<open>\<open>2.55 - 0.0025\<close> is \<open>2.5475\<close>; with three digits and rounding up it is \<open>2.55\<close>.\<close>

definition ctx3 :: decContext where
  "ctx3 = \<lparr>ctx_digits = 3, emax = 99, emin = - 99, ctx_round = DEC_ROUND_UP, traps = 0, status = 0, clamp = 0\<rparr>"

definition lhs3 :: decNumber where "lhs3 = \<lparr>digits = 3, exponent = - 2, bits = 0, lsu = [255]\<rparr>"
definition rhs3 :: decNumber where "rhs3 = \<lparr>digits = 2, exponent = - 4, bits = 0, lsu = [25]\<rparr>"

theorem add_rounded_witness:
  "\<exists>r. decAddOp (\<lambda>n. False) \<lparr>digits = 1, exponent = 0, bits = 0, lsu = replicate 13 0\<rparr> lhs3 rhs3 ctx3 DECNEG 0 = Some r \<and>
    rounded_result ctx3 False (25475 / 10000) 0 r"
proof -
  have pos: "\<not> decNumberIsNegative lhs3" "\<not> decNumberIsNegative rhs3" by (simp_all add: lhs3_def rhs3_def decNumberIsNegative_def)
  have x: "25475 / 10000 = dn_value lhs3 + (if DECNEG = 0 then dn_value rhs3 else - dn_value rhs3)"
    unfolding dn_value_def by (simp add: pos) (simp add: lhs3_def rhs3_def coeff_def D2U_eq power_int_def power_divide)
  have up: "\<lceil>1019 / 4 :: rat\<rceil> = 255" by (simp add: ceiling_eq_iff)
  have "rounds_to DEC_ROUND_UP False 3 (25475 / 10000) (255 / 100)"
    unfolding rounds_to_def by (intro exI [of _ "- 2"]) (simp add: power_int_def power_divide round_int_def Let_def up)
  then have y: "normal_result ctx3 (25475 / 10000 < (0 :: rat)) \<bar>25475 / 10000\<bar> (255 / 100)" by (simp add: normal_result_def ctx3_def power_int_def power_divide field_simps)
  have f: "addend ctx3 lhs3" "addend ctx3 rhs3"
    by (simp_all add: addend_def ctx3_def lhs3_def rhs3_def dn_ok_def coeff_def D2U_eq decNumberIsSpecial_def)
  have ctx: "context_fits ctx3" by (simp add: context_fits_def ctx3_def DECNUMDIGITS_def)
  show ?thesis using add_rounded [OF ctx f _ _ x y, of "\<lparr>digits = 1, exponent = 0, bits = 0, lsu = replicate 13 0\<rparr>"]
    by (simp add: DECNUMUNITS_def)
qed

text \<open>
  The operands may not be longer than the precision.  With three digits, \<open>1005E+35 + 1 - 1234.5\<close> is just below the middle of \<open>1.00E+38\<close> and
  \<open>1.01E+38\<close> and rounds to the first; the residue of the smaller operand is lost when the larger one is cut, and the result is the second.
\<close>

lemma subtract_misrounds:
  "decAddOp (\<lambda>n. False) localZero \<lparr>digits = 39, exponent = 0, bits = 0, lsu = [1, 0, 0, 0, 0, 0, 0, 0, 0, 0, 0, 500, 100]\<rparr>
     \<lparr>digits = 5, exponent = - 1, bits = 0, lsu = [345, 12]\<rparr> (ctx3\<lparr>ctx_round := DEC_ROUND_HALF_UP\<rparr>) DECNEG 0 =
   Some (\<lparr>digits = 3, exponent = 36, bits = 0, lsu = 101 # replicate 12 0\<rparr>, DEC_Inexact OR DEC_Rounded)"
  by code_simp

end
