(* ===== verification/DnMultiplySpec.thy ===== *)
theory DnMultiplySpec
  imports DnMultiply DnResultSpec
begin

text \<open>
  Multiplication: both ways to compute the product of the coefficients are exact, and the result is the product rounded to the precision.
\<close>

section \<open>Unit by unit\<close>

lemma mulUnits_val:
  assumes as: "units_ok as" "as \<noteq> []"
  shows "units_ok bs \<Longrightarrow> units_ok acc \<Longrightarrow> shift \<le> length acc \<Longrightarrow> length acc \<le> length as + shift \<Longrightarrow> length as + shift + length bs \<le> room \<Longrightarrow>
    \<exists>c. mulUnits room as bs shift acc = Some c \<and> units_ok c \<and> length c \<le> length as + shift + length bs \<and> length acc \<le> length c \<and>
      units_val c = units_val acc + 1000 ^ shift * units_val as * units_val bs"
proof (induction bs arbitrary: shift acc)
  case (Cons b bs)
  have b: "unat b < 1000" "units_ok bs" using Cons.prems(1) by simp_all
  define a' where "a' = (if b \<noteq> 0 then take shift acc @ fst (decUnitAddSub (drop shift acc) as 0 (uint b)) else acc @ [0])"
  have "units_ok a' \<and> shift + 1 \<le> length a' \<and> length a' \<le> length as + (shift + 1) \<and> length acc \<le> length a' \<and>
      units_val a' = units_val acc + 1000 ^ shift * units_val as * unat b"
  proof (cases "b = 0")
    case True
    then show ?thesis using Cons.prems by (simp add: a'_def units_val_append)
  next
    case False
    obtain c neg where r: "decUnitAddSub (drop shift acc) as 0 (uint b) = (c, neg)" by fastforce
    have ok: "units_ok (drop shift acc)" "units_ok (take shift acc)" using Cons.prems(2) units_ok_take by (auto simp: units_ok_def dest: in_set_dropD)
    have "mult_ok (uint b)" using unit_uint_bound [OF b(1)] unfolding mult_ok_def by linarith
    note x = decUnitAddSub_exact [OF ok(1) as(1) this r]
    have "units_val acc = units_val (take shift acc) + 1000 ^ shift * units_val (drop shift acc)"
      using units_val_append [of "take shift acc" "drop shift acc"] Cons.prems(3) by simp
    moreover have "\<not> neg" using x(5) by (simp add: not_less)
    then have "int (units_val c) = int (units_val (drop shift acc) + units_val as * unat b)" using x(4) by simp
    then have "units_val c = units_val (drop shift acc) + units_val as * unat b" by (simp only: of_nat_eq_iff)
    moreover have "1 \<le> length as" using as(2) by (simp add: Suc_le_eq)
    ultimately show ?thesis using False r x(1-3) ok(2) Cons.prems(3,4) by (auto simp: a'_def units_val_append algebra_simps)
  qed
  moreover have "mulUnits room as (b # bs) shift acc = (if length a' > room then None else mulUnits room as bs (shift + 1) a')"
    by (simp add: a'_def Let_def)
  ultimately show ?case using Cons.IH [OF b(2), of a' "shift + 1"] Cons.prems(5) by (fastforce simp: algebra_simps)
qed simp

section \<open>Chunks of nine digits\<close>

fun base9 :: "'a::len word list \<Rightarrow> nat" where
  "base9 [] = 0"
| "base9 (a # as) = unat a + 1000000000 * base9 as"

lemma base9_append: "base9 (as @ bs) = base9 as + 1000000000 ^ length as * base9 bs"
  by (induction as) (simp_all add: algebra_simps)

lemma base9_replicate: "base9 (replicate n 0) = 0"
  by (induction n) simp_all

definition items_below :: "nat \<Rightarrow> 'a::len word list \<Rightarrow> bool" where
  "items_below m as \<longleftrightarrow> list_all (\<lambda>a. unat a < m) as"

lemma items_below_simps [simp]:
  "items_below m []" "items_below m (a # as) \<longleftrightarrow> unat a < m \<and> items_below m as" "items_below m (as @ bs) \<longleftrightarrow> items_below m as \<and> items_below m bs"
  by (simp_all add: items_below_def)

lemma base9_less: "items_below 1000000000 as \<Longrightarrow> base9 as < 1000000000 ^ length as"
  by (induction as) auto

lemma unat_add_32: "unat (a :: uInt) + unat b < 4294967296 \<Longrightarrow> unat (a + b) = unat a + unat b"
  by (simp add: unat_word_ariths)

lemma unat_mult_32: "unat (a :: uInt) * unat b < 4294967296 \<Longrightarrow> unat (a * b) = unat a * unat b"
  by (simp add: unat_word_ariths)

lemma unat_add_64: "unat (a :: uLong) + unat b < 18446744073709551616 \<Longrightarrow> unat (a + b) = unat a + unat b"
  by (simp add: unat_word_ariths)

lemma unat_mult_64: "unat (a :: uLong) * unat b < 18446744073709551616 \<Longrightarrow> unat (a * b) = unat a * unat b"
  by (simp add: unat_word_ariths)

lemma unat_scaled:
  assumes "unat (a :: Unit) < 1000"
  shows "unat (ucast a * pow10 0) = unat a" "unat (ucast a * pow10 3) = unat a * 1000" "unat (ucast a * pow10 6) = unat a * 1000000"
proof -
  have u: "unat (ucast a :: uInt) = unat a" by (rule unat_ucast_uInt)
  have p: "unat (pow10 0) = 1" "unat (pow10 3) = 1000" "unat (pow10 6) = 1000000" using pow10_small(2) [of 0] pow10_small(2) [of 3] pow10_small(2) [of 6] by simp_all
  show "unat (ucast a * pow10 0) = unat a" using unat_mult_32 [of "ucast a" "pow10 0", unfolded u p] assms by simp
  show "unat (ucast a * pow10 3) = unat a * 1000" using unat_mult_32 [of "ucast a" "pow10 3", unfolded u p] assms by simp
  show "unat (ucast a * pow10 6) = unat a * 1000000" using unat_mult_32 [of "ucast a" "pow10 6", unfolded u p] assms by simp
qed

lemma chunkUnits_val:
  "units_ok us \<Longrightarrow> base9 (chunkUnits us) = units_val us \<and> items_below 1000000000 (chunkUnits us) \<and> length (chunkUnits us) = (length us + 2) div 3"
proof (induction us rule: chunkUnits.induct)
  case (2 a)
  then show ?case using unat_scaled(1) [of a] by simp
next
  case (3 a b)
  have "unat (ucast a * pow10 0 + ucast b * pow10 3) = unat a + unat b * 1000"
    using 3 unat_scaled(1) [of a] unat_scaled(2) [of b] by (subst unat_add_32) simp_all
  then show ?case using 3 by simp
next
  case (4 a b c us)
  have x: "unat (ucast a * pow10 0 + ucast b * pow10 3) = unat a + unat b * 1000"
    using 4 unat_scaled(1) [of a] unat_scaled(2) [of b] by (subst unat_add_32) simp_all
  have "unat (ucast a * pow10 0 + ucast b * pow10 3 + ucast c * pow10 6) = unat a + unat b * 1000 + unat c * 1000000"
    using 4 x unat_scaled(3) [of c] by (subst unat_add_32) simp_all
  then show ?case using 4 by simp
qed simp

lemma product_bound: "a < 1000000000 \<Longrightarrow> b < 1000000000 \<Longrightarrow> a * b \<le> (999999998000000001 :: nat)"
proof -
  assume "a < 1000000000" "b < 1000000000"
  then have "a * b \<le> 999999999 * 999999999" by (intro mult_le_mono) simp_all
  then show ?thesis by simp
qed

lemma unat_ucast_64: "unat (ucast (a :: uInt) :: uLong) = unat a"
proof -
  have "unat a < 2 ^ 64" using unsigned_less [of a, where 'a = nat] by simp
  then show ?thesis by (simp add: unsigned_ucast_eq take_bit_eq_mod)
qed

lemma unat_ucast_32: "unat a < 1000000000 \<Longrightarrow> unat (ucast (a :: uLong) :: uInt) = unat a"
  by (simp add: unsigned_ucast_eq take_bit_eq_mod)

lemma addRow_val:
  assumes M: "M + 1000000000000000000 \<le> 18446744073709551616"
  shows "unat r < 1000000000 \<Longrightarrow> items_below 1000000000 ls \<Longrightarrow> items_below M acc \<Longrightarrow> length ls \<le> length acc \<Longrightarrow>
    \<exists>row. addRow ls r acc = Some row \<and> length row = length acc \<and> base9 row = base9 acc + base9 ls * unat r \<and> items_below (M + 1000000000000000000) row"
proof (induction ls r acc rule: addRow.induct)
  case (1 r acc)
  then have "items_below (M + 1000000000000000000) acc" by (auto simp: items_below_def list_all_iff)
  then show ?case by simp
next
  case (3 l ls r a acc)
  have b: "unat l * unat r \<le> 999999998000000001" using product_bound [of "unat l" "unat r"] 3 by simp
  then have m: "unat (ucast l * ucast r :: uLong) = unat l * unat r"
    using unat_mult_64 [of "ucast l" "ucast r"] unfolding unat_ucast_64 by simp
  then have "unat (a + ucast l * ucast r) = unat a + unat l * unat r" using 3 b M by (subst unat_add_64) simp_all
  then show ?case using 3 b by (auto simp: algebra_simps)
qed simp

text \<open>
  Resolving carries keeps the value and brings every item below \<open>10 ^ 9\<close>.  An item takes at most a carry from the item before it and
  one from the item before that.
\<close>

lemma unat_FASTBASE: "unat FASTBASE = 1000000000" "unat (FASTBASE * FASTBASE) = 1000000000000000000"
  by (simp_all add: FASTBASE_def)

lemma carry_split:
  fixes a :: uLong
  defines "lc \<equiv> a div FASTBASE"
  shows "unat lc = unat a div 1000000000" "a < FASTBASE \<longleftrightarrow> unat a < 1000000000" "lc < FASTBASE \<longleftrightarrow> unat a div 1000000000 < 1000000000"
    "unat (lc div FASTBASE) = unat a div 1000000000000000000"
proof -
  show l: "unat lc = unat a div 1000000000" unfolding lc_def unat_div unat_FASTBASE ..
  show "a < FASTBASE \<longleftrightarrow> unat a < 1000000000" "lc < FASTBASE \<longleftrightarrow> unat a div 1000000000 < 1000000000"
    by (simp_all add: word_less_nat_alt unat_FASTBASE l)
  show "unat (lc div FASTBASE) = unat a div 1000000000000000000" unfolding unat_div l unat_FASTBASE by (simp flip: div_mult2_eq)
qed

lemma small_carry:
  fixes a :: uLong
  assumes "unat a div 1000000000 < 1000000000"
  defines "carry \<equiv> ucast (a div FASTBASE) :: uInt"
  shows "unat (ucast carry :: uLong) = unat a div 1000000000" "unat (a - FASTBASE * ucast carry) = unat a mod 1000000000"
proof -
  show c: "unat (ucast carry :: uLong) = unat a div 1000000000"
    unfolding carry_def unat_ucast_64 using carry_split(1) [of a] assms(1) by (simp add: unat_ucast_32)
  have "1000000000 * (unat a div 1000000000) \<le> unat a" by simp
  moreover have lt: "unat a < 18446744073709551616" using unsigned_less [of a, where 'a = nat] by simp
  ultimately have m: "unat (FASTBASE * ucast carry :: uLong) = 1000000000 * (unat a div 1000000000)"
    using unat_mult_64 [of FASTBASE "ucast carry"] c unat_FASTBASE by simp
  then have "FASTBASE * ucast carry \<le> a" by (simp add: word_le_nat_alt)
  then show "unat (a - FASTBASE * ucast carry) = unat a mod 1000000000" by (simp add: unat_sub m minus_mult_div_eq_mod)
qed

lemma big_carry:
  fixes a :: uLong
  defines "lc \<equiv> a div FASTBASE"
  defines "carry2 \<equiv> ucast (lc div FASTBASE) :: uInt"
  defines "a' \<equiv> a - FASTBASE * FASTBASE * ucast carry2"
  defines "carry \<equiv> ucast (lc - FASTBASE * ucast carry2) :: uInt"
  shows "unat (ucast carry2 :: uLong) = unat a div 1000000000000000000" "unat a div 1000000000000000000 \<le> 18"
    "unat (ucast carry :: uLong) = unat a div 1000000000 mod 1000000000" "unat (a' - FASTBASE * ucast carry) = unat a mod 1000000000"
proof -
  have lt: "unat a < 18446744073709551616" using unsigned_less [of a, where 'a = nat] by simp
  then show s: "unat a div 1000000000000000000 \<le> 18" by (simp add: less_mult_imp_div_less less_Suc_eq_le [symmetric])
  show c2: "unat (ucast carry2 :: uLong) = unat a div 1000000000000000000"
    unfolding carry2_def lc_def unat_ucast_64 using carry_split(4) [of a] s by (simp add: unat_ucast_32)
  have dd: "unat a div 1000000000 div 1000000000 = unat a div 1000000000000000000" by (simp flip: div_mult2_eq)
  have "unat (FASTBASE * ucast carry2 :: uLong) = 1000000000 * (unat a div 1000000000000000000)"
    using unat_mult_64 [of FASTBASE "ucast carry2"] c2 unat_FASTBASE s by simp
  note m1 = this
  have le1: "1000000000 * (unat a div 1000000000000000000) \<le> unat a div 1000000000" unfolding dd [symmetric] by simp
  have "FASTBASE * ucast carry2 \<le> lc" unfolding word_le_nat_alt m1 lc_def carry_split(1) by (rule le1)
  then have "unat (lc - FASTBASE * ucast carry2) = unat a div 1000000000 mod 1000000000"
    by (simp add: unat_sub m1) (simp add: lc_def carry_split(1) dd [symmetric] minus_mult_div_eq_mod)
  then show c: "unat (ucast carry :: uLong) = unat a div 1000000000 mod 1000000000"
    unfolding carry_def unat_ucast_64 by (simp add: unat_ucast_32)
  have m2: "unat (FASTBASE * FASTBASE * ucast carry2 :: uLong) = 1000000000000000000 * (unat a div 1000000000000000000)"
    using unat_mult_64 [of "FASTBASE * FASTBASE" "ucast carry2"] c2 unat_FASTBASE s by simp
  have "FASTBASE * FASTBASE * ucast carry2 \<le> a" unfolding word_le_nat_alt m2 by simp
  then have a': "unat a' = unat a mod 1000000000000000000" by (simp add: a'_def unat_sub m2 minus_mult_div_eq_mod)
  have "unat a div 1000000000 mod 1000000000 < 1000000000" by simp
  then have m3: "unat (FASTBASE * ucast carry :: uLong) = 1000000000 * (unat a div 1000000000 mod 1000000000)"
    using unat_mult_64 [of FASTBASE "ucast carry"] c unat_FASTBASE by simp
  have e: "unat a mod 1000000000000000000 = 1000000000 * (unat a div 1000000000 mod 1000000000) + unat a mod 1000000000"
    using mod_mult2_eq [of "unat a" 1000000000 1000000000] by simp
  have "FASTBASE * ucast carry \<le> a'" unfolding word_le_nat_alt m3 a' e by simp
  then show "unat (a' - FASTBASE * ucast carry) = unat a mod 1000000000" by (simp add: unat_sub m3 a' e)
qed

text \<open>The bound on items before a pass: the first two may have taken carries already.\<close>

fun carried :: "nat \<Rightarrow> uLong list \<Rightarrow> bool" where
  "carried m [] = True"
| "carried m [a] = (unat a < m + 1000000019)"
| "carried m (a # b # acc) = (unat a < m + 1000000019 \<and> unat b < m + 19 \<and> items_below m acc)"

lemma carried_below: "items_below m acc \<Longrightarrow> carried m acc"
  by (cases "(m, acc)" rule: carried.cases) auto

lemma carried_tail: "carried m (a # acc) \<Longrightarrow> carried m acc"
  by (cases "(m, acc)" rule: carried.cases) auto

lemma resolve_val:
  assumes M: "m \<le> 18000000000000000000"
  shows "carried m acc \<Longrightarrow> base9 acc < 1000000000 ^ length acc \<Longrightarrow>
    \<exists>c. resolve acc = Some c \<and> length c = length acc \<and> base9 c = base9 acc \<and> items_below 1000000000 c"
proof (induction acc rule: measure_induct_rule [of length])
  case (less acc)
  show ?case
  proof (cases acc)
    case Nil
    then show ?thesis by (simp add: resolve.simps)
  next
    case acc: (Cons a rest)
    note cs = carry_split [of a]
    consider (fits) "unat a < 1000000000" | (one) "\<not> unat a < 1000000000" "unat a div 1000000000 < 1000000000"
      | (two) "\<not> unat a < 1000000000" "\<not> unat a div 1000000000 < 1000000000" by blast
    then show ?thesis
    proof cases
      case fits
      then have "base9 rest < 1000000000 ^ length rest" using less.prems(2) acc by simp
      then obtain c where "resolve rest = Some c" "length c = length rest" "base9 c = base9 rest" "items_below 1000000000 c"
        using less.IH [of rest] carried_tail less.prems(1) acc by auto
      then show ?thesis using fits acc cs by (auto simp: resolve.simps)
    next
      case one
      then obtain b acc2 where rest: "rest = b # acc2" using less.prems(2) acc by (cases rest) auto
      define carry where "carry = (ucast (a div FASTBASE) :: uInt)"
      note sc = small_carry [OF one(2), folded carry_def]
      have bb: "unat b < m + 19" using less.prems(1) acc rest by (cases acc2) auto
      have b': "unat (b + ucast carry) = unat b + unat a div 1000000000" using bb M one(2) sc(1) by (subst unat_add_64) simp_all
      have "carried m ((b + ucast carry) # acc2)" using less.prems(1) acc rest bb b' one(2) by (cases acc2) auto
      moreover have v: "unat a mod 1000000000 + 1000000000 * base9 ((b + ucast carry) # acc2) = base9 acc"
        using b' acc rest by (simp add: algebra_simps)
      moreover have "base9 ((b + ucast carry) # acc2) < 1000000000 ^ length (b # acc2)"
        using less.prems(2) v acc rest by simp
      ultimately obtain c where "resolve ((b + ucast carry) # acc2) = Some c" "length c = length (b # acc2)"
          "base9 c = base9 ((b + ucast carry) # acc2)" "items_below 1000000000 c"
        using less.IH [of "(b + ucast carry) # acc2"] acc rest by auto
      moreover have "resolve acc = do { c \<leftarrow> resolve ((b + ucast carry) # acc2); Some ((a - FASTBASE * ucast carry) # c) }"
        unfolding acc rest by (subst resolve.simps) (use one cs in \<open>simp add: Let_def carry_def\<close>)
      ultimately show ?thesis using sc(2) v acc rest by simp
    next
      case two
      then have a2: "1000000000000000000 \<le> unat a" by (simp add: not_less less_eq_div_iff_mult_less_eq)
      then obtain b c acc2 where rest: "rest = b # c # acc2" using less.prems(2) acc by (cases rest; cases "tl rest") auto
      define carry2 where "carry2 = (ucast (a div FASTBASE div FASTBASE) :: uInt)"
      define carry where "carry = (ucast (a div FASTBASE - FASTBASE * ucast carry2) :: uInt)"
      note bc = big_carry [of a, folded carry2_def, folded carry_def]
      have bb: "unat b < m + 19" "unat c < m" "items_below m acc2" using less.prems(1) acc rest by auto
      have k: "unat a div 1000000000 mod 1000000000 < 1000000000" by simp
      have b': "unat (b + ucast carry) = unat b + unat a div 1000000000 mod 1000000000" using bb(1) M k bc(3) by (subst unat_add_64) simp_all
      have c': "unat (c + ucast carry2) = unat c + unat a div 1000000000000000000" using bb(2) M bc(1,2) by (subst unat_add_64) simp_all
      let ?acc = "(b + ucast carry) # (c + ucast carry2) # acc2"
      have "carried m ?acc" using bb b' c' k bc(2) by auto
      moreover have v: "unat a mod 1000000000 + 1000000000 * base9 ?acc = base9 acc"
      proof -
        have "unat a = unat a mod 1000000000 + 1000000000 * (unat a div 1000000000 mod 1000000000 + 1000000000 * (unat a div 1000000000000000000))"
          using div_mult2_eq [of "unat a" 1000000000 1000000000] by simp
        then show ?thesis using b' c' acc rest by (simp add: algebra_simps)
      qed
      moreover have "base9 ?acc < 1000000000 ^ length (b # c # acc2)" using less.prems(2) v acc rest by simp
      ultimately obtain d where "resolve ?acc = Some d" "length d = length (b # c # acc2)" "base9 d = base9 ?acc" "items_below 1000000000 d"
        using less.IH [of ?acc] acc rest by auto
      moreover have "resolve acc = do { c \<leftarrow> resolve ?acc; Some ((a - FASTBASE * FASTBASE * ucast carry2 - FASTBASE * ucast carry) # c) }"
        unfolding acc rest by (subst resolve.simps) (use two cs in \<open>simp add: Let_def carry_def carry2_def\<close>)
      ultimately show ?thesis using bc(4) v acc rest by simp
    qed
  qed
qed

text \<open>With at most eighteen rows the carries are resolved once, after the last row.\<close>

lemma mulRows_val:
  assumes ls: "items_below 1000000000 ls"
  shows "rs \<noteq> [] \<Longrightarrow> items_below 1000000000 rs \<Longrightarrow> length rs \<le> lazy \<Longrightarrow> k + length rs + length ls \<le> length acc + 1 \<Longrightarrow> items_below m acc \<Longrightarrow>
    m + length rs * 1000000000000000000 \<le> 18000000000000000000 \<Longrightarrow>
    base9 acc + 1000000000 ^ k * base9 ls * base9 rs < 1000000000 ^ length acc \<Longrightarrow>
    \<exists>c. mulRows ls rs k lazy acc = Some c \<and> length c = length acc \<and> base9 c = base9 acc + 1000000000 ^ k * base9 ls * base9 rs \<and> items_below 1000000000 c"
proof (induction rs arbitrary: k lazy acc m)
  case (Cons r rs)
  have kl: "k \<le> length acc" "length ls \<le> length (drop k acc)" using Cons.prems(4) by auto
  have ok: "unat r < 1000000000" "items_below 1000000000 rs" using Cons.prems(2) by simp_all
  have bd: "items_below m (drop k acc)" "items_below m (take k acc)"
    using Cons.prems(5) by (auto simp: items_below_def list_all_iff dest: in_set_takeD in_set_dropD)
  have m64: "m + 1000000000000000000 \<le> 18446744073709551616" using Cons.prems(6) by simp
  obtain row where row: "addRow ls r (drop k acc) = Some row" "length row = length (drop k acc)" "base9 row = base9 (drop k acc) + base9 ls * unat r"
      "items_below (m + 1000000000000000000) row"
    using addRow_val [OF m64 ok(1) ls bd(1) kl(2)] by blast
  define acc' where "acc' = take k acc @ row"
  have len: "length acc' = length acc" using kl(1) row(2) by (simp add: acc'_def)
  have ib: "items_below (m + 1000000000000000000) acc'" using row(4) bd(2) by (auto simp: acc'_def items_below_def list_all_iff)
  have sp: "base9 acc = base9 (take k acc) + 1000000000 ^ k * base9 (drop k acc)" using base9_append [of "take k acc" "drop k acc"] kl(1) by simp
  have val: "base9 acc' = base9 acc + 1000000000 ^ k * base9 ls * unat r"
    using row(3) kl(1) unfolding acc'_def base9_append sp by (simp add: algebra_simps)
  have tot: "base9 acc' + 1000000000 ^ (k + 1) * base9 ls * base9 rs = base9 acc + 1000000000 ^ k * base9 ls * base9 (r # rs)"
    unfolding val by (simp add: algebra_simps)
  show ?case
  proof (cases "rs = []")
    case True
    have lt: "base9 acc' < 1000000000 ^ length acc'" using tot Cons.prems(7) True len by simp
    have "m + 1000000000000000000 \<le> 18000000000000000000" using Cons.prems(6) True by simp
    then obtain c where "resolve acc' = Some c" "length c = length acc'" "base9 c = base9 acc'" "items_below 1000000000 c"
      using resolve_val [OF _ carried_below [OF ib] lt] by blast
    then show ?thesis using row(1) True tot len by (auto simp: acc'_def)
  next
    case False
    have "length rs \<le> lazy - 1" "0 < lazy - 1" "k + 1 + length rs + length ls \<le> length acc' + 1"
      using Cons.prems(3,4) False len by (cases rs; simp)+
    moreover have "m + 1000000000000000000 + length rs * 1000000000000000000 \<le> 18000000000000000000" using Cons.prems(6) by (simp add: algebra_simps)
    moreover have "base9 acc' + 1000000000 ^ (k + 1) * base9 ls * base9 rs < 1000000000 ^ length acc'" unfolding tot len by (rule Cons.prems(7))
    moreover have "mulRows ls (r # rs) k lazy acc = mulRows ls rs (k + 1) (lazy - 1) acc'" using row(1) False calculation(2) by (simp add: acc'_def Let_def)
    ultimately show ?thesis using Cons.IH [OF False ok(2), of "lazy - 1" "k + 1" acc' "m + 1000000000000000000"] ib tot len by simp
  qed
qed simp

lemma unchunk_val:
  assumes "unat a < 1000000000"
  shows "units_ok (unchunk a) \<and> units_val (unchunk a) = unat a \<and> length (unchunk a) = 3"
proof -
  define i where "i = (ucast a :: uInt)"
  have i: "unat i = unat a" unfolding i_def using assms by (rule unat_ucast_32)
  define p where "p = i div 1000" define q where "q = p div 1000"
  have p: "unat p = unat a div 1000" by (simp add: p_def unat_div i)
  have q: "unat q = unat a div 1000000" unfolding q_def unat_div p by (simp flip: div_mult2_eq)
  have part: "unat (ucast (x - y * 1000) :: Unit) = unat x mod 1000" if "unat y = unat x div 1000" "unat x < 1000000000" for x y :: uInt
  proof -
    have m: "unat (y * 1000) = unat x div 1000 * 1000" using that unat_mult_32 [of y 1000] by (simp add: le_less_trans [OF div_times_less_eq_dividend])
    have "y * 1000 \<le> x" unfolding word_le_nat_alt m by simp
    then have "unat (x - y * 1000) = unat x mod 1000" by (simp add: unat_sub m minus_div_mult_eq_mod)
    then show ?thesis by (simp add: unsigned_ucast_eq take_bit_eq_mod)
  qed
  have u1: "unat (ucast (i - p * 1000) :: Unit) = unat a mod 1000" using part [of p i] p i assms by simp
  have u2: "unat (ucast (p - q * 1000) :: Unit) = unat a div 1000 mod 1000" using part [of q p] p assms q by (simp flip: div_mult2_eq)
  have "unat a div 1000000 < 1000" using assms by (simp add: less_mult_imp_div_less)
  then have u3: "unat (ucast q :: Unit) = unat a div 1000000" using q by (simp add: unsigned_ucast_eq take_bit_eq_mod)
  have "unat a = unat a mod 1000 + 1000 * (unat a div 1000 mod 1000 + 1000 * (unat a div 1000000))"
    using div_mult2_eq [of "unat a" 1000 1000] by simp
  then show ?thesis using u1 u2 u3 assms unfolding unchunk_def i_def [symmetric] p_def [symmetric] q_def [symmetric] Let_def
    by (simp add: less_mult_imp_div_less)
qed

lemma unchunks_val:
  "items_below 1000000000 acc \<Longrightarrow> units_ok (concat (map unchunk acc)) \<and> units_val (concat (map unchunk acc)) = base9 acc \<and>
   length (concat (map unchunk acc)) = 3 * length acc"
  by (induction acc) (auto simp: units_val_append unchunk_val)

section \<open>The product\<close>

lemma mulFast_val:
  assumes a: "units_ok as" "length as = D2U ld" "1 \<le> ld" "ld \<le> 39" and b: "units_ok bs" "length bs = D2U rd" "1 \<le> rd" "rd \<le> 39"
  shows "\<exists>c. mulFast mem ld rd as bs = Some (Some c) \<and> units_ok c \<and> c \<noteq> [] \<and> units_val c = units_val as * units_val bs"
proof -
  define i j where "i = nat ((ld + 9 - 1) div 9)" and "j = nat ((rd + 9 - 1) div 9)"
  note ca = chunkUnits_val [OF a(1)] and cb = chunkUnits_val [OF b(1)]
  have chunks: "(nat ((d + 2) div 3) + 2) div 3 = nat ((d + 9 - 1) div 9)" if "1 \<le> d" for d :: int
  proof -
    have "int ((nat ((d + 2) div 3) + 2) div 3) = (((d + 2) div 3) + 2) div 3" using that by (simp add: zdiv_int add.commute)
    also have "(d + 2) div 3 + 2 = (d + 8) div 3" by linarith
    also have "(d + 8) div 3 div 3 = (d + 9 - 1) div 9" using zdiv_zmult2_eq [of 3 "d + 8" 3] by simp
    finally show ?thesis by linarith
  qed
  have li: "length (chunkUnits as) = i" "length (chunkUnits bs) = j"
    unfolding i_def j_def chunks [OF a(3), symmetric] chunks [OF b(3), symmetric] using ca cb a(2,3) b(2,3) by (simp_all add: D2U_eq del: add_2_eq_Suc')
  have ij: "1 \<le> i" "i \<le> 5" "1 \<le> j" "j \<le> 5" unfolding i_def j_def using a(3,4) b(3,4) by linarith+
  have ne: "chunkUnits bs \<noteq> []" using li(2) ij(3) by auto
  have "base9 (chunkUnits as) * base9 (chunkUnits bs) < 1000000000 ^ i * 1000000000 ^ j"
    using base9_less [of "chunkUnits as"] base9_less [of "chunkUnits bs"] ca cb li by (intro mult_strict_mono') auto
  then have lt: "base9 (chunkUnits as) * base9 (chunkUnits bs) < 1000000000 ^ (i + j)" by (simp add: power_add)
  have "items_below 1 (replicate (i + j) (0 :: uLong))" by (simp add: items_below_def list_all_iff)
  then obtain c where c: "mulRows (chunkUnits as) (chunkUnits bs) 0 FASTLAZY (replicate (i + j) 0) = Some c" "length c = i + j"
      "base9 c = base9 (chunkUnits as) * base9 (chunkUnits bs)" "items_below 1000000000 c"
    using mulRows_val [of "chunkUnits as" "chunkUnits bs" FASTLAZY 0 "replicate (i + j) 0" 1] ca cb li ij lt ne by (simp add: FASTLAZY_def base9_replicate) blast
  have "mulFast mem ld rd as bs = Some (Some (concat (map unchunk c)))"
    using c(1) ij unfolding mulFast_def Let_def i_def [symmetric] j_def [symmetric] by (simp add: zhibuff_items_def zaccbuff_items_def)
  moreover have "concat (map unchunk c) \<noteq> []" using unchunks_val [OF c(4)] c(2) ij by (metis list.size(3) mult_eq_0_iff add_eq_0_iff_both_eq_0 not_one_le_zero zero_neq_numeral)
  ultimately show ?thesis using unchunks_val [OF c(4)] c(3) ca cb by simp
qed

lemma mulSlow_val:
  assumes a: "units_ok as" "as \<noteq> []" "length as \<le> 13" and b: "units_ok bs" "length bs \<le> 13"
  shows "\<exists>c. mulSlow mem as bs = Some (Some c) \<and> units_ok c \<and> c \<noteq> [] \<and> units_val c = units_val as * units_val bs"
proof -
  have room: "max (length as + length bs) mulbuff_units = mulbuff_units" using a(3) b(2) by (simp add: mulbuff_units_def)
  obtain c where c: "mulUnits mulbuff_units as bs 0 [0] = Some c" "units_ok c" "1 \<le> length c" "units_val c = units_val as * units_val bs"
    using mulUnits_val [OF a(1,2) b(1), of "[0]" 0 mulbuff_units] a(2,3) b(2) by (auto simp: mulbuff_units_def Suc_le_eq)
  then show ?thesis using a(3) b(2) room by (auto simp: mulSlow_def Let_def mulbuff_units_def)
qed

lemma mulExponent_val: "\<bar>l\<bar> < 1073741824 \<Longrightarrow> \<bar>r\<bar> < 1073741824 \<Longrightarrow> mulExponent l r = l + r"
proof -
  assume "\<bar>l\<bar> < 1073741824" "\<bar>r\<bar> < 1073741824"
  then have b: "- 2147483648 \<le> l + r" "l + r < 2147483648" by linarith+
  have "sint (of_int (l + r) :: uInt) = l + r"
    unfolding signed_of_int using b by (simp add: signed_take_bit_int_eq_self)
  then show ?thesis by (simp add: mulExponent_def Let_def)
qed

section \<open>The operation\<close>

text \<open>An operand of a multiplication: finite, not zero, at most 39 digits and an exponent that fits an integer with room for a sum.\<close>

definition factor :: "decNumber \<Rightarrow> bool" where
  "factor dn \<longleftrightarrow> dn_ok dn \<and> \<not> decNumberIsSpecial dn \<and> coeff dn \<noteq> 0 \<and> digits dn \<le> int DECNUMDIGITS \<and> \<bar>exponent dn\<bar> < 1073741824"

lemma factor_units:
  assumes "factor dn"
  shows "unitsOf dn = Some (take (D2U (digits dn)) (lsu dn))" "units_ok (take (D2U (digits dn)) (lsu dn))" "length (take (D2U (digits dn)) (lsu dn)) = D2U (digits dn)"
    "units_val (take (D2U (digits dn)) (lsu dn)) = coeff dn" "1 \<le> digits dn" "digits dn \<le> 39" "1 \<le> D2U (digits dn)" "D2U (digits dn) \<le> 13"
proof -
  show d: "1 \<le> digits dn" "digits dn \<le> 39" using assms by (simp_all add: factor_def dn_ok_def DECNUMDIGITS_def)
  show "1 \<le> D2U (digits dn)" "D2U (digits dn) \<le> 13" using d by (simp_all add: D2U_eq)
qed (use assms in \<open>simp_all add: factor_def dn_ok_def unitsOf_def coeff_def\<close>)

lemma mulUnits_either:
  assumes "factor l" "factor r" "unitsOf l = Some as" "unitsOf r = Some bs"
  shows "\<exists>acc. (if digits r > 6 then mulFast mem (digits l) (digits r) as bs else mulSlow mem as bs) = Some (Some acc) \<and>
    units_ok acc \<and> acc \<noteq> [] \<and> units_val acc = coeff l * coeff r"
proof -
  note fl = factor_units [OF assms(1)] and fr = factor_units [OF assms(2)]
  have as: "as = take (D2U (digits l)) (lsu l)" "bs = take (D2U (digits r)) (lsu r)" using assms(3,4) fl(1) fr(1) by simp_all
  have "as \<noteq> []" using fl(3,7) as(1) by (cases as) auto
  then show ?thesis
    using mulFast_val [of as "digits l" bs "digits r" mem] mulSlow_val [of as bs mem] fl(2-) fr(2-) unfolding as [symmetric] by auto
qed

lemma decMultiplyOp_factors:
  assumes f: "factor lhs" "factor rhs"
  shows "\<exists>acc d. units_val acc = coeff lhs * coeff rhs \<and> holds acc d (coeff lhs * coeff rhs) \<and> 10 ^ (nat d - 1) \<le> coeff lhs * coeff rhs \<and>
    decMultiplyOp mem res lhs rhs ctx st = do {
      (dn, r, st) \<leftarrow> decSetCoeff (res\<lparr>bits := (bits lhs XOR bits rhs) AND DECNEG, digits := d, exponent := exponent lhs + exponent rhs\<rparr>) ctx (Some acc) d 0 st;
      finishAdd mem dn ctx r st }"
proof -
  define l r where "l = (if digits lhs < digits rhs then rhs else lhs)" and "r = (if digits lhs < digits rhs then lhs else rhs)"
  have lr: "(if digits lhs < digits rhs then (rhs, lhs) else (lhs, rhs)) = (l, r)" by (simp add: l_def r_def)
  have fs: "factor l" "factor r" using f by (simp_all add: l_def r_def)
  have c: "coeff l * coeff r = coeff lhs * coeff rhs" "exponent l + exponent r = exponent lhs + exponent rhs"
    by (simp_all add: l_def r_def)
  obtain as bs where u: "unitsOf l = Some as" "unitsOf r = Some bs" using factor_units(1) fs by blast
  obtain acc where acc: "(if digits r > 6 then mulFast mem (digits l) (digits r) as bs else mulSlow mem as bs) = Some (Some acc)"
      "units_ok acc" "acc \<noteq> []" "units_val acc = coeff lhs * coeff rhs"
    using mulUnits_either [OF fs u, of mem] unfolding c by blast
  obtain d where d: "decGetDigits acc (length acc) = Some d" "holds acc d (coeff lhs * coeff rhs)" "10 ^ (nat d - 1) \<le> coeff lhs * coeff rhs"
    using trimmed [OF holds_whole [OF acc(2,3)]] f unfolding acc(4) by (auto simp: factor_def)
  have e: "mulExponent (exponent l) (exponent r) = exponent lhs + exponent rhs"
    using mulExponent_val fs c(2) by (simp add: factor_def)
  have "\<not> (bits lhs OR bits rhs) AND DECSPECIAL \<noteq> 0"
    using f by (simp add: factor_def decNumberIsSpecial_def bit.conj_disj_distrib2)
  then have "decMultiplyOp mem res lhs rhs ctx st = do {
      (dn, r, st) \<leftarrow> decSetCoeff (res\<lparr>bits := (bits lhs XOR bits rhs) AND DECNEG, digits := d, exponent := exponent lhs + exponent rhs\<rparr>) ctx (Some acc) d 0 st;
      finishAdd mem dn ctx r st }"
    unfolding decMultiplyOp_def Let_def lr by (simp add: u acc(1) d(1) e)
  then show ?thesis using acc(4) d(2,3) by blast
qed

lemma decMultiplyOp_rounded:
  assumes ctx: "context_fits ctx" and f: "factor lhs" "factor rhs" and res: "length (lsu res) = DECNUMUNITS"
    and y: "normal_result ctx (decNumberIsNegative lhs \<noteq> decNumberIsNegative rhs) \<bar>dn_value lhs * dn_value rhs\<bar> y"
  shows "\<exists>r. decMultiplyOp mem res lhs rhs ctx st = Some r \<and>
    rounded_result ctx (decNumberIsNegative lhs \<noteq> decNumberIsNegative rhs) \<bar>dn_value lhs * dn_value rhs\<bar> st r"
proof -
  obtain acc d where acc: "holds acc d (coeff lhs * coeff rhs)" "10 ^ (nat d - 1) \<le> coeff lhs * coeff rhs"
      "decMultiplyOp mem res lhs rhs ctx st = do {
        (dn, r, st) \<leftarrow> decSetCoeff (res\<lparr>bits := (bits lhs XOR bits rhs) AND DECNEG, digits := d, exponent := exponent lhs + exponent rhs\<rparr>) ctx (Some acc) d 0 st;
        finishAdd mem dn ctx r st }"
    using decMultiplyOp_factors [OF f] by blast
  define dn where "dn = res\<lparr>bits := (bits lhs XOR bits rhs) AND DECNEG, digits := d, exponent := exponent lhs + exponent rhs\<rparr>"
  have neg: "decNumberIsNegative dn = (decNumberIsNegative lhs \<noteq> decNumberIsNegative rhs)" using xor_sign(1) [of lhs rhs] unfolding dn_def decNumberIsNegative_def by simp
  have x: "\<bar>dn_value lhs * dn_value rhs\<bar> = of_nat (coeff lhs * coeff rhs) * 10 powi exponent dn"
    by (simp add: dn_value_def abs_mult dn_def power_int_add)
  have sp: "\<not> decNumberIsSpecial dn" using xor_sign(2) by (simp add: dn_def decNumberIsSpecial_def del: dec_bits)
  have room: "length (lsu dn) = DECNUMUNITS" using res by (simp add: dn_def)
  obtain dn' r' st' where "do { (dn, r, st) \<leftarrow> decSetCoeff dn ctx (Some acc) d 0 st; decFinalize mem dn ctx r st } = Some (dn', r', st')"
      "rounded_result ctx (decNumberIsNegative dn) \<bar>dn_value lhs * dn_value rhs\<bar> st (dn', st')"
    using setFinish_normal [OF ctx acc(1,2) room sp, where mem = mem and st = st and y = y] y unfolding neg x [symmetric] by blast
  then show ?thesis unfolding acc(3) dn_def [symmetric] neg
    by (cases "decSetCoeff dn ctx (Some acc) d 0 st") (auto simp: finishAdd_def)
qed

text \<open>
  C8. Multiplication is correctly rounded.  For two finite nonzero operands of up to 39 digits, in a context of at most 39 digits and
  for any rounding mode, when the product lies in the normal range, \<^verbatim>\<open>decMultiplyOp\<close> returns a well formed number with the sign of the product
  whose magnitude is the exact product rounded to the precision of the context, and raises \<^verbatim>\<open>Inexact\<close> if and only if it is not the exact product.
  No memory is asked for, whichever of the two algorithms is used.
\<close>

theorem multiply_rounded:
  assumes ctx: "context_fits ctx" and f: "factor lhs" "factor rhs" and res: "length (lsu res) = DECNUMUNITS"
    and y: "normal_result ctx (decNumberIsNegative lhs \<noteq> decNumberIsNegative rhs) \<bar>dn_value lhs * dn_value rhs\<bar> y"
  shows "\<exists>r. decMultiplyOp mem res lhs rhs ctx st = Some r \<and>
    rounded_result ctx (decNumberIsNegative lhs \<noteq> decNumberIsNegative rhs) \<bar>dn_value lhs * dn_value rhs\<bar> st r"
  using assms by (rule decMultiplyOp_rounded)

text \<open>\<open>- 2.5 * 1.5\<close> is \<open>- 3.75\<close>; with two digits and ties to even it is \<open>- 3.8\<close>.\<close>

definition ctx2 :: decContext where
  "ctx2 = \<lparr>ctx_digits = 2, emax = 99, emin = - 99, ctx_round = DEC_ROUND_HALF_EVEN, traps = 0, status = 0, clamp = 0\<rparr>"

definition lhs2 :: decNumber where "lhs2 = \<lparr>digits = 2, exponent = - 1, bits = DECNEG, lsu = [25]\<rparr>"
definition rhs2 :: decNumber where "rhs2 = \<lparr>digits = 2, exponent = - 1, bits = 0, lsu = [15]\<rparr>"

theorem multiply_rounded_witness:
  "\<exists>r. decMultiplyOp (\<lambda>n. False) \<lparr>digits = 1, exponent = 0, bits = 0, lsu = replicate 13 0\<rparr> lhs2 rhs2 ctx2 0 = Some r \<and>
    rounded_result ctx2 True (375 / 100) 0 r"
proof -
  have neg: "decNumberIsNegative lhs2" "\<not> decNumberIsNegative rhs2" by (simp_all add: lhs2_def rhs2_def decNumberIsNegative_def)
  have x: "\<bar>dn_value lhs2 * dn_value rhs2\<bar> = 375 / 100"
    unfolding dn_value_def by (simp add: neg) (simp add: lhs2_def rhs2_def coeff_def D2U_eq power_int_def)
  have half: "\<lfloor>75 / 2 :: rat\<rfloor> = 37" by (simp add: floor_eq_iff)
  have "rounds_to DEC_ROUND_HALF_EVEN True 2 (375 / 100) (38 / 10)"
    unfolding rounds_to_def by (intro exI [of _ "- 1"]) (simp add: power_int_def round_int_def Let_def half)
  then have y: "normal_result ctx2 True (375 / 100) (38 / 10)" by (simp add: normal_result_def ctx2_def power_int_def power_divide field_simps)
  have f: "factor lhs2" "factor rhs2"
    by (simp_all add: factor_def lhs2_def rhs2_def dn_ok_def coeff_def D2U_eq decNumberIsSpecial_def DECNUMDIGITS_def)
  have ctx: "context_fits ctx2" by (simp add: context_fits_def ctx2_def DECNUMDIGITS_def)
  show ?thesis using multiply_rounded [OF ctx f, of "\<lparr>digits = 1, exponent = 0, bits = 0, lsu = replicate 13 0\<rparr>"] y neg
    unfolding x by (simp add: DECNUMUNITS_def)
qed

end
