(* ===== verification/DnDivideSpec.thy ===== *)
theory DnDivideSpec
  imports DnDivide DnMultiplySpec UnitShift
begin

text \<open>
  Division: every unit of the quotient is found exactly, the long division ends with enough digits, and the result is the quotient rounded to the precision.
\<close>

section \<open>One unit of the quotient\<close>

definition stripped :: "Unit list \<Rightarrow> bool" where
  "stripped v \<longleftrightarrow> v \<noteq> [] \<and> units_ok v \<and> (length v = 1 \<or> last v \<noteq> 0)"

lemma stripTop_val: "units_ok v \<Longrightarrow> v \<noteq> [] \<Longrightarrow> stripped (stripTop v) \<and> units_val (stripTop v) = units_val v"
proof (induction v rule: stripTop.induct)
  case (1 v)
  show ?case
  proof (cases "length v > 1 \<and> last v = 0")
    case True
    have v: "v = butlast v @ [0]" using 1(3) True append_butlast_last_id by metis
    have "units_val v = units_val (butlast v)" using arg_cong [OF v, of units_val] by (simp add: units_val_append)
    moreover have "units_ok (butlast v)" using 1(2) v by (metis units_ok_simps(3))
    moreover have "butlast v \<noteq> []" using True by (cases v rule: rev_cases) auto
    ultimately show ?thesis using 1(1) [OF True] True by (simp add: stripTop.simps [of v])
  next
    case False
    then have "length v = 1 \<or> last v \<noteq> 0" using 1(3) by (cases v) auto
    then show ?thesis using False 1(2,3) by (auto simp: stripTop.simps [of v] stripped_def)
  qed
qed

lemma stripped_zero: "stripped v \<Longrightarrow> units_val v = 0 \<longleftrightarrow> v = [0]"
proof
  assume s: "stripped v" "units_val v = 0"
  then have "\<not> last v \<noteq> 0" using units_val_lower [of v] by (auto simp: stripped_def)
  then show "v = [0]" using s(1) by (cases v) (auto simp: stripped_def)
qed simp

lemma sgn_cmp_nat: "sgn_cmp (int p - int q) = (if p < q then - 1 else if q < p then 1 else 0)"
  by (simp add: sgn_cmp_def)

lemma topCompare_val:
  "units_ok a \<Longrightarrow> units_ok b \<Longrightarrow> length b \<le> length a \<Longrightarrow>
   topCompare (rev a) (rev b) = sgn_cmp (int (units_val a) - int (units_val b * 1000 ^ (length a - length b)))"
proof (induction a arbitrary: b rule: rev_induct)
  case (snoc x a)
  obtain y b' where b: "(if b = [] then y = 0 \<and> b' = [] else b = b' @ [y])" "length b' \<le> length a" "units_ok b'" "unat y < 1000"
    using snoc.prems by (cases b rule: rev_cases) auto
  define A B where "A = units_val a" and "B = units_val b' * 1000 ^ (length a - length b')"
  have ok: "units_ok a" using snoc.prems by simp
  have A: "A < 1000 ^ length a" using units_val_less [OF ok] by (simp add: A_def)
  have "B < 1000 ^ length b' * 1000 ^ (length a - length b')" unfolding B_def using units_val_less [OF b(3)] by simp
  then have B: "B < 1000 ^ length a" using b(2) by (simp flip: power_add)
  have va: "units_val (a @ [x]) = A + 1000 ^ length a * unat x" by (simp add: units_val_append A_def)
  have vb: "units_val b * 1000 ^ (length (a @ [x]) - length b) = B + 1000 ^ length a * unat y"
    using b(1,2) by (auto simp: B_def units_val_append distrib_right mult.assoc mult.left_commute simp flip: power_add split: if_splits)
  have cmp: "topCompare (rev (a @ [x])) (rev b) = (if x < y then - 1 else if x > y then 1 else topCompare (rev a) (rev b'))"
    using b(1) by (auto split: if_splits)
  have less: "P + 1000 ^ length a * p < Q + 1000 ^ length a * q" if "p < q" "P < 1000 ^ length a" for p q P Q :: nat
  proof -
    have "P + 1000 ^ length a * p < 1000 ^ length a * Suc p" using that(2) by simp
    also have "\<dots> \<le> 1000 ^ length a * q" using that(1) by (intro mult_le_mono2) simp
    finally show ?thesis by simp
  qed
  consider "x < y" | "y < x" | "x = y" by (metis linorder_neqE)
  then show ?case
  proof cases
    case 1
    then have "A + 1000 ^ length a * unat x < B + 1000 ^ length a * unat y" using A by (intro less) (simp_all add: word_less_nat_alt)
    then show ?thesis unfolding cmp va vb sgn_cmp_nat using 1 by simp
  next
    case 2
    then have "B + 1000 ^ length a * unat y < A + 1000 ^ length a * unat x" using B by (intro less) (simp_all add: word_less_nat_alt)
    then show ?thesis unfolding cmp va vb sgn_cmp_nat using 2 by simp
  next
    case 3
    then show ?thesis unfolding cmp va vb using snoc.IH [OF ok b(3,2)] by (simp add: A_def B_def)
  qed
qed (simp add: sgn_cmp_def)

text \<open>A divisor, and the padded divisor that is subtracted.\<close>

definition divisor_units :: "Unit list \<Rightarrow> bool" where
  "divisor_units y \<longleftrightarrow> y \<noteq> [] \<and> units_ok y \<and> last y \<noteq> 0"

definition padded :: "Unit list \<Rightarrow> nat \<Rightarrow> nat" where
  "padded y ulen = units_val y * 1000 ^ (ulen - length y)"

lemma padded_lower:
  assumes "divisor_units y" "length y \<le> ulen"
  shows "1000 ^ (ulen - 1) \<le> padded y ulen" "0 < padded y ulen" "padded y ulen < 1000 ^ ulen"
proof -
  have y: "1000 ^ (length y - 1) \<le> units_val y" "0 < length y" "units_val y < 1000 ^ length y"
    using assms(1) units_val_lower units_val_less by (auto simp: divisor_units_def)
  have "ulen - 1 = length y - 1 + (ulen - length y)" using assms(2) y(2) by linarith
  then have "(1000 :: nat) ^ (ulen - 1) = 1000 ^ (length y - 1) * 1000 ^ (ulen - length y)" by (simp only: power_add)
  also have "\<dots> \<le> padded y ulen" unfolding padded_def using y(1) by simp
  finally show l: "1000 ^ (ulen - 1) \<le> padded y ulen" .
  show "0 < padded y ulen" using less_le_trans [OF _ l] by simp
  have "padded y ulen < 1000 ^ length y * 1000 ^ (ulen - length y)" unfolding padded_def using y(3) by simp
  then show "padded y ulen < 1000 ^ ulen" using assms(2) by (simp flip: power_add)
qed

text \<open>The two leading units of a number bound it from below.\<close>

lemma leading_pair:
  assumes "2 \<le> length v"
  defines "n \<equiv> length v"
  defines "pair \<equiv> unat (v ! (n - 1)) * 1000 + unat (v ! (n - 2))"
  shows "units_val v = units_val (take (n - 2) v) + pair * 1000 ^ (n - 2)"
proof -
  have n: "2 \<le> n" "length v = n" using assms by simp_all
  obtain k where k: "n = Suc (Suc k)" using n(1) by (metis Suc_le_D numeral_2_eq_2 Suc_le_mono)
  have "drop k v = v ! k # drop (Suc k) v" "drop (Suc k) v = v ! Suc k # drop (Suc (Suc k)) v" 
    by (rule Cons_nth_drop_Suc [symmetric], use n k in simp)+
  then have "drop (n - 2) v = [v ! (n - 2), v ! (n - 1)]" using n k by simp
  then have "units_val (drop (n - 2) v) = pair" by (simp add: pair_def)
  then show ?thesis using units_val_append [of "take (n - 2) v" "drop (n - 2) v"] n by (simp add: mult.commute)
qed

text \<open>The estimates of the divisor bound it from above.\<close>

lemma divisor_estimates:
  assumes y: "divisor_units y" and u: "length y \<le> ulen"
  shows "0 < msu2plus (mkDivisor y)" "int (padded y ulen) \<le> msu2plus (mkDivisor y) * 1000 ^ (ulen - 1)"
    "2 \<le> ulen \<Longrightarrow> int (padded y ulen) \<le> msu2pair (mkDivisor y) * 1000 ^ (ulen - 2)" "0 < msu2pair (mkDivisor y)"
proof -
  have nz: "0 < unat (last y)" and ne: "0 < length y" using y by (simp_all add: divisor_units_def unat_gt_0)
  define n where "n = length y"
  have n: "1 \<le> n" "n \<le> ulen" using ne u by (simp_all add: n_def Suc_le_eq)
  have lst: "y ! (n - 1) = last y" using ne by (simp add: n_def last_conv_nth)
  have low: "units_val (take k y) < 1000 ^ k" if "k \<le> n" for k
    using units_val_less [of "take k y"] y that units_ok_take by (simp add: divisor_units_def n_def min_absorb2)
  have "y = take (n - 1) y @ [last y]" using lst ne by (metis n_def One_nat_def Suc_pred append_take_drop_id lessI take_Suc_conv_app_nth take_all_iff diff_less zero_less_one order_refl)
  then have v1: "units_val y = units_val (take (n - 1) y) + 1000 ^ (n - 1) * unat (last y)"
    using units_val_append [of "take (n - 1) y" "[last y]"] n by (simp add: n_def)
  have pl: "msu2plus (mkDivisor y) = int (if n > 1 then unat (last y) + 1 else unat (last y))" by (simp add: mkDivisor_def Let_def n_def)
  show "0 < msu2plus (mkDivisor y)" unfolding pl using nz by simp
  have pad: "padded y ulen \<le> b * 1000 ^ (ulen - k)" if "units_val y \<le> b * 1000 ^ (n - k)" "k \<le> n" for b k
  proof -
    have "padded y ulen \<le> b * 1000 ^ (n - k) * 1000 ^ (ulen - n)" unfolding padded_def n_def [symmetric] using that(1) by simp
    also have "\<dots> = b * 1000 ^ (ulen - k)" using that(2) n(2) by (simp add: mult.assoc flip: power_add)
    finally show ?thesis .
  qed
  have "units_val y \<le> (if n > 1 then unat (last y) + 1 else unat (last y)) * 1000 ^ (n - 1)"
    using v1 low [of "n - 1"] n by (cases "n = 1") (auto simp: algebra_simps)
  then have "padded y ulen \<le> (if n > 1 then unat (last y) + 1 else unat (last y)) * 1000 ^ (ulen - 1)" by (rule pad) (rule n)
  then show "int (padded y ulen) \<le> msu2plus (mkDivisor y) * 1000 ^ (ulen - 1)"
    unfolding pl by (metis of_nat_le_iff of_nat_mult of_nat_numeral of_nat_power)
  define b where "b = unat (last y) * 1000 + (if n > 1 then unat (y ! (n - 2)) + (if n > 2 then 1 else 0) else 0)"
  have pr: "msu2pair (mkDivisor y) = int b" by (simp add: mkDivisor_def Let_def n_def b_def)
  show "0 < msu2pair (mkDivisor y)" unfolding pr of_nat_0_less_iff b_def using nz by simp
  assume u2: "2 \<le> ulen"
  have "padded y ulen \<le> b * 1000 ^ (ulen - 2)"
  proof (cases "n = 1")
    case True
    then have "padded y ulen = unat (last y) * 1000 ^ (ulen - 1)" using v1 by (simp add: padded_def n_def)
    also have "(1000 :: nat) ^ (ulen - 1) = 1000 * 1000 ^ (ulen - 2)" using u2 by (simp flip: power_Suc add: Suc_diff_le numeral_2_eq_2)
    finally show ?thesis using True by (simp add: b_def)
  next
    case False
    then have n2: "2 \<le> n" using n by simp
    then have "units_val y = units_val (take (n - 2) y) + (unat (last y) * 1000 + unat (y ! (n - 2))) * 1000 ^ (n - 2)"
      using leading_pair [of y] lst by (simp add: n_def)
    then have "units_val y \<le> b * 1000 ^ (n - 2)" using low [of "n - 2"] n2 by (cases "n = 2") (auto simp: b_def algebra_simps)
    then show ?thesis by (rule pad) (rule n2)
  qed
  then show "int (padded y ulen) \<le> msu2pair (mkDivisor y) * 1000 ^ (ulen - 2)"
    unfolding pr by (metis of_nat_le_iff of_nat_mult of_nat_numeral of_nat_power)
qed

text \<open>The multiplier never exceeds the quotient, and it is the quotient when the divisor has one unit and is not padded.\<close>

lemma estimateMult_bounds:
  assumes y: "divisor_units y" and u: "length y \<le> ulen" and v: "stripped v" "2 \<le> length v" and len: "length v = ulen \<or> length v = Suc ulen"
    and ge: "padded y ulen \<le> units_val v"
  defines "m \<equiv> estimateMult v (if length v = ulen then msu2pair (mkDivisor y) else msu2plus (mkDivisor y))"
  shows "1 \<le> m" "m * int (padded y ulen) \<le> int (units_val v)" "ulen = 1 \<Longrightarrow> m = int (units_val v div padded y ulen)"
proof -
  let ?d = "if length v = ulen then msu2pair (mkDivisor y) else msu2plus (mkDivisor y)"
  define n where "n = length v"
  define pair where "pair = unat (v ! (n - 1)) * 1000 + unat (v ! (n - 2))"
  note est = divisor_estimates [OF y u]
  have pos: "0 < ?d" using est(1,4) by simp
  have val: "units_val v = units_val (take (n - 2) v) + pair * 1000 ^ (n - 2)" using leading_pair [OF v(2)] by (simp add: n_def pair_def)
  have m: "m = (if int pair div ?d = 0 then 1 else int pair div ?d)" by (simp add: m_def estimateMult_def Let_def n_def pair_def)
  have "0 \<le> int pair div ?d" using pos by (simp add: pos_imp_zdiv_nonneg_iff)
  then show "1 \<le> m" unfolding m by simp
  have pad: "int (padded y ulen) \<le> ?d * 1000 ^ (n - 2)" using len est(2,3) v(2) by (auto simp: n_def)
  show "m * int (padded y ulen) \<le> int (units_val v)"
  proof (cases "int pair div ?d = 0")
    case True
    then show ?thesis using m ge by simp
  next
    case False
    have q: "0 \<le> int pair div ?d" using pos by (simp add: pos_imp_zdiv_nonneg_iff)
    have "0 \<le> int pair mod ?d" using pos by (rule pos_mod_sign)
    then have q2: "int pair div ?d * ?d \<le> int pair" using div_mult_mod_eq [of "int pair" ?d] by linarith
    have "int pair div ?d * int (padded y ulen) \<le> int pair div ?d * (?d * 1000 ^ (n - 2))" using pad q by (rule mult_left_mono)
    also have "\<dots> = int pair div ?d * ?d * 1000 ^ (n - 2)" by (simp add: mult.assoc)
    also have "\<dots> \<le> int pair * 1000 ^ (n - 2)" using q2 by (rule mult_right_mono) simp
    also have "\<dots> \<le> int (units_val v)" unfolding val by simp
    finally show ?thesis using False m by simp
  qed
  assume one: "ulen = 1"
  then obtain w where w: "y = [w]" using u y by (cases y) (auto simp: divisor_units_def)
  have n2: "length v = 2" "n = 2" using len v(2) one by (auto simp: n_def)
  have d: "?d = int (padded y ulen)" using n2 one w by (simp add: mkDivisor_def Let_def padded_def)
  have "int pair div ?d \<noteq> 0" using val n2(2) ge pos unfolding d by (simp add: div_eq_0_iff flip: zdiv_int)
  then show "m = int (units_val v div padded y ulen)" using m val n2(2) d by (simp add: zdiv_int)
qed

lemma divStep_val:
  assumes y: "divisor_units y" and u: "length y \<le> ulen" "ulen \<le> length v" and v: "units_ok v"
    and m: "0 \<le> m" "m \<le> 999" "m * int (padded y ulen) \<le> int (units_val v)"
  shows "\<exists>v'. divStep (mkDivisor y) ulen v m = Some v' \<and> units_ok v' \<and> v' \<noteq> [] \<and> int (units_val v') = int (units_val v) - m * int (padded y ulen)"
proof -
  let ?s = "ulen - length y"
  obtain c neg where r: "decUnitAddSub (drop ?s v) y 0 (- m) = (c, neg)" by fastforce
  have ok: "units_ok (drop ?s v)" "units_ok (take ?s v)" "units_ok y" using v y units_ok_take by (auto simp: units_ok_def divisor_units_def dest: in_set_dropD)
  have "mult_ok (- m)" using m by (simp add: mult_ok_def)
  note x = decUnitAddSub_exact [OF ok(1,3) this r]
  have val: "units_val v = units_val (take ?s v) + 1000 ^ ?s * units_val (drop ?s v)"
    using units_val_append [of "take ?s v" "drop ?s v"] u by simp
  have lt: "units_val (take ?s v) < 1000 ^ ?s" using units_val_less [OF ok(2)] u by (simp add: min_absorb2)
  have "1000 ^ ?s * (m * int (units_val y)) \<le> int (units_val v)" using m(3) by (simp add: padded_def mult.commute mult.left_commute)
  also have "\<dots> < 1000 ^ ?s * (int (units_val (drop ?s v)) + 1)" unfolding val using lt by (simp add: distrib_left)
  finally have "m * int (units_val y) < int (units_val (drop ?s v)) + 1" by simp
  then have "\<not> neg" using x(5) by (simp add: mult.commute)
  then have c: "int (units_val c) = int (units_val (drop ?s v)) - m * int (units_val y)" using x(4) by (simp add: mult.commute)
  have "c \<noteq> []" using x(2) y by (auto simp: divisor_units_def)
  moreover have "int (units_val (take ?s v @ c)) = int (units_val v) - m * int (padded y ulen)"
    using u by (simp add: units_val_append c val padded_def min_absorb2 algebra_simps)
  ultimately show ?thesis using u x(1) ok(2) r by (auto simp: divStep_def mkDivisor_def Let_def)
qed

lemma stripped_length:
  assumes "stripped v" "units_val v < 1000 ^ n" "0 < n"
  shows "length v \<le> n"
proof (cases "length v = 1")
  case False
  then have "1000 ^ (length v - 1) \<le> units_val v" using assms(1) units_val_lower by (auto simp: stripped_def)
  then have "(1000 :: nat) ^ (length v - 1) < 1000 ^ n" using assms(2) by linarith
  then show ?thesis by (auto dest: power_less_imp_less_exp [rotated])
qed (use assms(3) in simp)

lemma divUnit_val:
  assumes y: "divisor_units y" and u: "length y \<le> ulen"
  shows "units_ok v \<Longrightarrow> v \<noteq> [] \<Longrightarrow> units_val v < 1000 * padded y ulen \<Longrightarrow> 2 \<le> ulen \<or> 1000 dvd units_val v \<or> units_val v < padded y ulen \<Longrightarrow>
    \<exists>v'. divUnit (mkDivisor y) ulen v t = Some (v', t + of_nat (units_val v div padded y ulen)) \<and> stripped v' \<and> units_val v' = units_val v mod padded y ulen"
proof (induction "units_val v" arbitrary: v t rule: less_induct)
  case less
  define D where "D = padded y ulen"
  define w where "w = stripTop v"
  have w: "stripped w" "units_val w = units_val v" using stripTop_val less.prems(1,2) by (auto simp: w_def)
  have wu: "units_ok w" using w(1) by (simp add: stripped_def)
  note D = padded_lower [OF y u, folded D_def]
  have u1: "1 \<le> ulen" using u y by (auto simp: divisor_units_def Suc_le_eq intro: Suc_leI less_le_trans [of 0 "length y"])
  have "1000 * D < 1000 * 1000 ^ ulen" using D(3) by simp
  then have "units_val w < 1000 ^ Suc ulen" using less.prems(3) w(2) by (simp add: D_def)
  then have wl: "length w \<le> Suc ulen" by (rule stripped_length [OF w(1)]) simp
  have cmp: "topCompare (rev w) (rev y) = sgn_cmp (int (units_val v) - int D)" if "length w = ulen"
    using topCompare_val [OF wu, of y] y u that w(2) by (simp add: divisor_units_def D_def padded_def)
  have step: "divUnit (mkDivisor y) ulen v t = (if length w < ulen then Some (w, t)
      else if length w = ulen \<and> topCompare (rev w) (rev y) < 0 then Some (w, t)
      else if length w = ulen \<and> topCompare (rev w) (rev y) = 0 then Some ([0], t + 1)
      else if length w < 2 then None
      else (let mult = estimateMult w (if length w = ulen then msu2pair (mkDivisor y) else msu2plus (mkDivisor y)) in
         case divStep (mkDivisor y) ulen w mult of None \<Rightarrow> None | Some v \<Rightarrow> divUnit (mkDivisor y) ulen v (t + of_int mult)))"
    by (subst divUnit.simps) (simp add: w_def [symmetric] Let_def mkDivisor_def)
  consider (low) "length w < ulen \<or> length w = ulen \<and> units_val v < D" | (equal) "length w = ulen" "units_val v = D"
    | (high) "\<not> length w < ulen" "D < units_val v"
  proof -
    have "D < units_val v" if "\<not> length w \<le> ulen"
    proof -
      have "1000 ^ (length w - 1) \<le> units_val v" using w u1 that units_val_lower [of w] by (auto simp: stripped_def)
      moreover have "(1000 :: nat) ^ ulen \<le> 1000 ^ (length w - 1)" using that by (intro power_increasing) auto
      ultimately show ?thesis using D(3) by linarith
    qed
    then show thesis using that by (metis linorder_neqE_nat not_less order.strict_implies_order le_eq_less_or_eq)
  qed
  then show ?case
  proof cases
    case low
    have "units_val v < D"
    proof (cases "length w < ulen")
      case True
      have "units_val v < 1000 ^ length w" using units_val_less [OF wu] w(2) by simp
      also have "(1000 :: nat) ^ length w \<le> 1000 ^ (ulen - 1)" using True by (intro power_increasing) auto
      finally show ?thesis using D(1) by linarith
    qed (use low in simp)
    then show ?thesis using low w cmp unfolding step D_def [symmetric] by (auto simp: sgn_cmp_def)
  next
    case equal
    then show ?thesis using cmp D(2) unfolding step D_def [symmetric] by (auto simp: sgn_cmp_def stripped_def)
  next
    case high
    have len: "length w = ulen \<or> length w = Suc ulen" using high(1) wl by linarith
    have w2: "2 \<le> length w"
    proof (rule ccontr)
      assume "\<not> 2 \<le> length w"
      then have l: "length w = 1" "ulen = 1" using len u1 w(1) by auto
      then have "units_val v < 1000" using units_val_less [OF wu] w(2) by simp
      then show False using less.prems(4) l(2) high(2) D(2) by (auto simp: D_def dest: nat_dvd_not_less)
    qed
    define m where "m = estimateMult w (if length w = ulen then msu2pair (mkDivisor y) else msu2plus (mkDivisor y))"
    have "padded y ulen \<le> units_val w" using high(2) w(2) by (simp add: D_def)
    note m = estimateMult_bounds [OF y u w(1) w2 len this, folded m_def, folded D_def, unfolded w(2)]
    define k where "k = nat m"
    have mk: "m = int k" "1 \<le> k" using m(1) by (simp_all add: k_def)
    have "int (k * D) \<le> int (units_val v)" using m(2) mk(1) by simp
    then have k: "k * D \<le> units_val v" by (simp only: of_nat_le_iff)
    have "k * D < 1000 * D" using k less.prems(3) unfolding D_def by (rule le_less_trans)
    then have "m \<le> 999" using mk by simp
    then obtain v' where v': "divStep (mkDivisor y) ulen w m = Some v'" "units_ok v'" "v' \<noteq> []" "int (units_val v') = int (units_val v) - m * int D"
      using divStep_val [OF y u _ wu, of m] high(1) m(1,2) w(2) by (auto simp: D_def)
    have val: "units_val v = units_val v' + k * D" using v'(4) mk(1) by (metis add.commute diff_add_cancel of_nat_add of_nat_eq_iff of_nat_mult)
    then have lt: "units_val v' < units_val v" using mk(2) D(2) by simp
    have "units_val v' < D" if "\<not> 2 \<le> ulen"
    proof -
      have "ulen = 1" using that u1 by simp
      then have "k = units_val v div D" using m(3) mk(1) by simp
      then have "units_val v' = units_val v mod D" using val by (metis add_diff_cancel_right' minus_div_mult_eq_mod)
      then show ?thesis using D(2) by simp
    qed
    then obtain v2 where v2: "divUnit (mkDivisor y) ulen v' (t + of_int m) = Some (v2, t + of_int m + of_nat (units_val v' div D))" "stripped v2"
        "units_val v2 = units_val v' mod D"
      using less.hyps [OF lt v'(2,3), of "t + of_int m"] lt less.prems(3) by (fastforce simp: D_def)
    have dm: "units_val v div D = units_val v' div D + k" "units_val v mod D = units_val v' mod D" using val D(2) by simp_all
    have "divUnit (mkDivisor y) ulen v t = divUnit (mkDivisor y) ulen v' (t + of_int m)"
      using high w2 cmp v'(1) unfolding step by (auto simp: sgn_cmp_def Let_def m_def [symmetric])
    then show ?thesis using v2 mk(1) unfolding D_def [symmetric] dm by (simp add: add.assoc add.commute [of "of_nat k"])
  qed
qed

section \<open>The long division\<close>

lemma powersIn_val:
  assumes "unat u < 1000" "u \<noteq> 0"
  obtains j where "powersIn u = int j" "j \<le> 2" "10 ^ j \<le> unat u" "unat u < 10 ^ Suc j"
proof -
  have c: "(10 :: uInt) \<le> ucast u \<longleftrightarrow> 10 \<le> unat u" "(100 :: uInt) \<le> ucast u \<longleftrightarrow> 100 \<le> unat u" "(1000 :: uInt) \<le> ucast u \<longleftrightarrow> 1000 \<le> unat u"
    by (simp_all add: word_le_nat_alt unat_ucast_uInt)
  have nz: "1 \<le> unat u" using assms(2) by (simp add: Suc_le_eq unat_gt_0)
  consider "unat u < 10" | "10 \<le> unat u" "unat u < 100" | "100 \<le> unat u" by linarith
  then show thesis
  proof cases
    case 1
    then show thesis using nz c by (intro that [of 0]) (simp_all add: powersIn_def DECPOWERS_def)
  next
    case 2
    then show thesis using c by (intro that [of 1]) (simp_all add: powersIn_def DECPOWERS_def)
  next
    case 3
    then show thesis using c assms(1) by (intro that [of 2]) (simp_all add: powersIn_def DECPOWERS_def)
  qed
qed

text \<open>Units without a leading zero unit, and their number of digits.\<close>

definition counted :: "Unit list \<Rightarrow> int \<Rightarrow> bool" where
  "counted us d \<longleftrightarrow> divisor_units us \<and> d = 3 * (int (length us) - 1) + 1 + powersIn (last us)"

lemma counted_digits:
  assumes "counted us d"
  shows "digits_of (units_val us) d" "D2U d = length us" "holds us d (units_val us)" "10 ^ (nat d - 1) \<le> units_val us" "1 \<le> d"
proof -
  obtain vs u where us: "us = vs @ [u]" using assms by (cases us rule: rev_cases) (auto simp: counted_def divisor_units_def)
  have ok: "units_ok vs" "unat u < 1000" "u \<noteq> 0" using assms us by (auto simp: counted_def divisor_units_def)
  obtain j where j: "powersIn u = int j" "j \<le> 2" "10 ^ j \<le> unat u" "unat u < 10 ^ Suc j" using powersIn_val [OF ok(2,3)] .
  have d: "d = int (3 * length vs + j) + 1" using assms us j(1) by (simp add: counted_def)
  show dg: "digits_of (units_val us) d" unfolding d us units_val_append using digits_of_unit [OF units_val_less [OF ok(1)] j(3,4)] by simp
  show d1: "1 \<le> d" unfolding d by simp
  have "(int (3 * length vs + j) + 1 + 2) div 3 = int (length vs) + 1" using j(2) by simp
  then show l: "D2U d = length us" using d1 unfolding d by (simp add: D2U_eq us nat_add_distrib)
  have "units_val us \<noteq> 0" using units_val_lower [of us] us ok(3) less_le_trans [of 0 "1000 ^ length vs" "units_val us"] by simp
  then show "10 ^ (nat d - 1) \<le> units_val us" using dg by (auto simp: digits_of_def)
  show "holds us d (units_val us)" using dg l assms by (simp add: holds_def digits_of_def counted_def divisor_units_def)
qed

lemma counted_push: "counted us d \<Longrightarrow> unat u < 1000 \<Longrightarrow> counted (u # us) (d + 3)"
  by (auto simp: counted_def divisor_units_def)

lemma counted_single: "unat u < 1000 \<Longrightarrow> u \<noteq> 0 \<Longrightarrow> counted [u] (1 + powersIn u)"
  by (auto simp: counted_def divisor_units_def)

text \<open>What is known before a unit of the quotient is found: with the room that is left there will be enough digits.\<close>

definition dividing :: "Unit list \<Rightarrow> int \<Rightarrow> nat \<Rightarrow> nat \<Rightarrow> quotient \<Rightarrow> bool" where
  "dividing y req Z ulen q \<longleftrightarrow> length y \<le> ulen \<and> units_ok (rest q) \<and> rest q \<noteq> [] \<and> units_val (rest q) < 1000 * padded y ulen \<and>
     Z = units_val (acc q) * (1000 * padded y ulen) + units_val (rest q) \<and>
     (if acc q = [] then padded y ulen \<le> units_val (rest q) \<and> req \<le> 3 * (int ulen - int (length y))
      else counted (acc q) (accdigits q) \<and> accdigits q \<le> req \<and> req < accdigits q + 3 * (int ulen - int (length y) + 1))"

text \<open>What is known when it is found.\<close>

definition divided :: "Unit list \<Rightarrow> nat \<Rightarrow> nat \<Rightarrow> quotient \<Rightarrow> bool" where
  "divided y Z ulen q \<longleftrightarrow> length y \<le> ulen \<and> counted (acc q) (accdigits q) \<and> stripped (rest q) \<and> units_val (rest q) < padded y ulen \<and>
     Z = units_val (acc q) * padded y ulen + units_val (rest q)"

lemma unit_found:
  assumes y: "divisor_units y" and q: "dividing y req Z ulen q" and Z: "1000 dvd Z" and req: "1 \<le> req"
  obtains v u where "divUnit (mkDivisor y) ulen (rest q) 0 = Some (v, u)" "divided y Z ulen (pushUnit u (q\<lparr>rest := v\<rparr>))"
    "rest (pushUnit u (q\<lparr>rest := v\<rparr>)) = v" "qexp (pushUnit u (q\<lparr>rest := v\<rparr>)) = qexp q" "acc (pushUnit u (q\<lparr>rest := v\<rparr>)) = u # acc q"
    "accdigits (pushUnit u (q\<lparr>rest := v\<rparr>)) \<le> req + 3"
    "req < accdigits (pushUnit u (q\<lparr>rest := v\<rparr>)) + 3 * (int ulen - int (length y))"
proof -
  let ?D = "padded y ulen" let ?R = "units_val (rest q)"
  have qs: "length y \<le> ulen" "units_ok (rest q)" "rest q \<noteq> []" "?R < 1000 * ?D" "Z = units_val (acc q) * (1000 * ?D) + ?R"
    using q by (simp_all add: dividing_def)
  have "1000 dvd units_val (acc q) * (1000 * ?D)" by simp
  then have dvd: "1000 dvd ?R" using Z qs(5) dvd_add_right_iff by blast
  obtain v where v: "divUnit (mkDivisor y) ulen (rest q) 0 = Some (v, 0 + of_nat (?R div ?D))" "stripped v" "units_val v = ?R mod ?D"
    using divUnit_val [OF y qs(1-4), of 0] dvd by blast
  define u where "u = (of_nat (?R div ?D) :: Unit)"
  have pos: "0 < ?D" using padded_lower [OF y qs(1)] by simp
  have lt: "?R div ?D < 1000" using qs(4) by (simp add: less_mult_imp_div_less)
  then have u: "unat u = ?R div ?D" by (simp add: u_def unsigned_of_nat take_bit_nat_eq_self)
  have ne: "acc q \<noteq> [] \<or> u \<noteq> 0"
  proof (cases "acc q = []")
    case True
    then have "?D \<le> ?R" using q by (simp add: dividing_def)
    then have "0 < unat u" using pos unfolding u by (simp add: div_greater_zero_iff)
    then show ?thesis by (simp add: unat_gt_0)
  qed simp
  define q' where "q' = pushUnit u (q\<lparr>rest := v\<rparr>)"
  have acc: "acc q' = u # acc q" "rest q' = v" "qexp q' = qexp q" "accdigits q' = (if acc q = [] then 1 + powersIn u else accdigits q + 3)"
    using ne by (auto simp: q'_def pushUnit_def)
  have ub: "unat u < 1000" using lt u by simp
  have c: "counted (acc q') (accdigits q')"
  proof (cases "acc q = []")
    case True
    then show ?thesis using ne counted_single [OF ub] by (simp add: acc)
  next
    case False
    then have "counted (acc q) (accdigits q)" using q by (simp add: dividing_def)
    then show ?thesis using False counted_push ub by (simp add: acc)
  qed
  have p: "0 \<le> powersIn u" "powersIn u \<le> 2" if "u \<noteq> 0" by (rule powersIn_val [OF ub that], simp)+
  have "Z = (unat u + 1000 * units_val (acc q)) * ?D + ?R mod ?D"
    using qs(5) div_mult_mod_eq [of ?R ?D, symmetric] unfolding u by (simp add: distrib_right mult.assoc mult.left_commute)
  then have "divided y Z ulen q'" using c v qs(1) pos by (simp add: divided_def acc)
  moreover have "accdigits q' \<le> req + 3" "req < accdigits q' + 3 * (int ulen - int (length y))"
    unfolding acc using q ne p req by (cases "acc q = []"; simp add: dividing_def)+
  ultimately show thesis using that v(1) acc unfolding q'_def u_def by simp
qed

lemma divLoop_val:
  assumes y: "divisor_units y" and Z: "1000 dvd Z" and req: "1 \<le> req"
  shows "dividing y req Z ulen q \<Longrightarrow> \<exists>q' ulen'. divLoop DIVIDE (mkDivisor y) (D2U (req + 3)) req maxe ulen q = Some q' \<and> divided y Z ulen' q' \<and>
    qexp q' = qexp q - 3 * (int ulen - int ulen') \<and> (rest q' = [0] \<or> req < accdigits q')"
proof (induction ulen arbitrary: q)
  case 0
  then show ?case using y by (simp add: dividing_def divisor_units_def)
next
  case (Suc n)
  obtain v u where v: "divUnit (mkDivisor y) (Suc n) (rest q) 0 = Some (v, u)" "divided y Z (Suc n) (pushUnit u (q\<lparr>rest := v\<rparr>))"
      "rest (pushUnit u (q\<lparr>rest := v\<rparr>)) = v" "qexp (pushUnit u (q\<lparr>rest := v\<rparr>)) = qexp q" "acc (pushUnit u (q\<lparr>rest := v\<rparr>)) = u # acc q"
      "accdigits (pushUnit u (q\<lparr>rest := v\<rparr>)) \<le> req + 3"
      "req < accdigits (pushUnit u (q\<lparr>rest := v\<rparr>)) + 3 * (int (Suc n) - int (length y))"
    using unit_found [OF y Suc.prems Z req] .
  define q1 where "q1 = pushUnit u (q\<lparr>rest := v\<rparr>)"
  note d = v(2-7) [folded q1_def]
  have c: "counted (acc q1) (accdigits q1)" using d(1) by (simp add: divided_def)
  note cd = counted_digits [OF c]
  have "D2U (accdigits q1) \<le> D2U (req + 3)" using cd(5) d(5) req by (simp add: D2U_eq nat_mono zdiv_mono1)
  then have room: "\<not> length (acc q1) > D2U (req + 3)" using cd(2) by simp
  have step: "divLoop DIVIDE (mkDivisor y) (D2U (req + 3)) req maxe (Suc n) q =
      (if accdigits q1 > req then Some q1 else if v = [0] \<and> qexp q1 \<le> maxe then Some q1
       else divLoop DIVIDE (mkDivisor y) (D2U (req + 3)) req maxe n (q1\<lparr>qexp := qexp q1 - 3\<rparr>))"
    using room by (subst divLoop.simps) (auto simp: v(1) q1_def Let_def)
  show ?case
  proof (cases "accdigits q1 > req \<or> v = [0] \<and> qexp q1 \<le> maxe")
    case True
    then have "divLoop DIVIDE (mkDivisor y) (D2U (req + 3)) req maxe (Suc n) q = Some q1" unfolding step by auto
    then show ?thesis using d(1-3) True by (intro exI [of _ q1] exI [of _ "Suc n"]) auto
  next
    case False
    then have le: "accdigits q1 \<le> req" by simp
    then have n: "length y \<le> n" using d(6) by presburger
    have D: "padded y (Suc n) = 1000 * padded y n" using n by (simp add: padded_def Suc_diff_le)
    have "dividing y req Z n (q1\<lparr>qexp := qexp q1 - 3\<rparr>)"
      using d(1,6) le n c d(4) by (simp add: dividing_def divided_def D stripped_def)
    then obtain q' ulen' where "divLoop DIVIDE (mkDivisor y) (D2U (req + 3)) req maxe n (q1\<lparr>qexp := qexp q1 - 3\<rparr>) = Some q'" "divided y Z ulen' q'"
        "qexp q' = qexp q1 - 3 - 3 * (int n - int ulen')" "rest q' = [0] \<or> req < accdigits q'"
      using Suc.IH by fastforce
    then show ?thesis using False d(3) unfolding step by (intro exI [of _ q'] exI [of _ ulen']) auto
  qed
qed

section \<open>The result\<close>

text \<open>Below the digits that are cut off it only matters that something is left.\<close>

lemma residue_for_pos: "0 < x \<Longrightarrow> residue_for x r \<longleftrightarrow> x < 1 \<and> 0 < r \<and> (5 < r \<longleftrightarrow> 1 / 2 < x) \<and> (r = 5 \<longleftrightarrow> x = 1 / 2)"
  by (auto simp: residue_for_def)

lemma residue_below:
  assumes r: "residue_for ((of_nat m + g) / 10 ^ D) r" and g: "0 < g" "g < 1" and f: "0 < f" "f < 1" and m: "m < 10 ^ D" and D: "0 < D"
  shows "residue_for ((of_nat m + f) / 10 ^ D) r"
proof -
  define H :: nat where "H = 5 * 10 ^ (D - 1)"
  have P: "(10 :: rat) ^ D = 2 * of_nat H" "(10 :: nat) ^ D = 2 * H" using D by (cases D; simp add: H_def)+
  have H: "0 < H" by (simp add: H_def)
  have whole: "of_nat m + h \<noteq> of_nat H" "of_nat H < of_nat m + h \<longleftrightarrow> H \<le> m" "0 < of_nat m + h" "of_nat m + h < 2 * of_nat H" if "0 < h" "h < 1" for h :: rat
  proof -
    have l: "H \<le> m \<or> of_nat m + 1 \<le> (of_nat H :: rat)" using of_nat_le_iff [of "Suc m" H, where 'a = rat] by (auto simp: not_le Suc_le_eq)
    have g: "of_nat H \<le> (of_nat m :: rat)" if "H \<le> m" using that by simp
    have t: "of_nat m + 1 \<le> 2 * (of_nat H :: rat)" using of_nat_le_iff [of "Suc m" "2 * H", where 'a = rat] m P(2) by simp
    show "of_nat m + h \<noteq> of_nat H" "of_nat H < of_nat m + h \<longleftrightarrow> H \<le> m" using l g that by auto
    show "0 < of_nat m + h" "of_nat m + h < 2 * of_nat H" using t that by (simp_all add: add_nonneg_pos)
  qed
  have e: "1 / 2 < (of_nat m + h) / 10 ^ D \<longleftrightarrow> of_nat H < of_nat m + h" "(of_nat m + h) / 10 ^ D = 1 / 2 \<longleftrightarrow> of_nat m + h = of_nat H"
    "0 < (of_nat m + h) / 10 ^ D \<longleftrightarrow> 0 < of_nat m + h" "(of_nat m + h) / 10 ^ D < 1 \<longleftrightarrow> of_nat m + h < 2 * of_nat H" for h :: rat
    unfolding P(1) using H by (auto simp: field_simps)
  have "0 < (of_nat m + g) / 10 ^ D" "0 < (of_nat m + f) / 10 ^ D" using e(3) whole(3) g f by blast+
  then show ?thesis using r whole [OF g] whole [OF f] by (simp only: residue_for_pos e)
qed

lemma divResult_cut:
  assumes ctx: "context_fits ctx" and h: "holds us d V" "10 ^ (nat d - 1) \<le> V" "ctx_digits ctx < d" and f: "0 < f" "f < 1"
    and res: "length (lsu res) = DECNUMUNITS"
    and y: "normal_result ctx (b AND DECNEG \<noteq> 0) ((of_nat V + f) * 10 powi e) y"
  shows "\<exists>s. divResult mem res ctx b e us d 1 st = Some s \<and> rounded_result ctx (b AND DECNEG \<noteq> 0) ((of_nat V + f) * 10 powi e) st s"
proof -
  let ?p = "ctx_digits ctx" define D where "D = nat (d - ?p)"
  define dn where "dn = res\<lparr>exponent := e, bits := b AND DECNEG\<rparr>"
  have p: "2 \<le> ?p" "0 \<le> ?p" "max ?p 1 = ?p" using ctx by (simp_all add: context_fits_def)
  have room: "lsu dn \<noteq> []" "D2U ?p \<le> length (lsu dn)" using ctx context_room [OF ctx, of "lsu dn"] res by (auto simp: dn_def)
  have tiny: "residue_for (1 / 4) 1" by (simp add: residue_for_def)
  obtain l r' where l: "decSetCoeff dn ctx (Some us) d 1 st =
      Some (dn\<lparr>exponent := exponent dn + (d - ?p), lsu := l, digits := max ?p 1\<rparr>, r', inexact_if r' (st OR DEC_Rounded))"
      "length l = length (lsu dn)" "holds l (max ?p 1) (V div 10 ^ D)" "residue_for ((of_nat (V mod 10 ^ D) + 1 / 4) / 10 ^ D) r'"
    using decSetCoeff_cut [where src = "Some us", OF _ h(1) refl p(2) h(3) room tiny D_def, of st] by (simp only: option.case) blast
  define c F where "c = V div 10 ^ D" and "F = (of_nat (V mod 10 ^ D) + f) / (10 :: rat) ^ D"
  have D: "0 < D" "d - ?p = int D" using h(3) by (simp_all add: D_def)
  have r: "residue_for F r'" unfolding F_def using residue_below [OF l(4) _ _ f _ D(1)] by simp
  have F: "0 < F" using f by (simp add: F_def add_nonneg_pos)
  then have r0: "r' \<noteq> 0" using r by (auto simp: residue_for_def)
  have lead: "10 ^ (nat ?p - 1) \<le> c" unfolding c_def using cut_leading [OF h(2) _ h(3) D_def] p(1) by simp
  have "(of_nat V :: rat) = of_nat c * 10 ^ D + of_nat (V mod 10 ^ D)"
    using arg_cong [OF div_mult_mod_eq [of V "10 ^ D"], of "of_nat :: nat \<Rightarrow> rat"] unfolding c_def
    by (simp only: of_nat_add of_nat_mult of_nat_power of_nat_numeral)
  then have "of_nat V + f = (of_nat c + F) * 10 ^ D" by (simp add: F_def field_simps)
  then have x: "(of_nat V + f) * 10 powi e = (of_nat c + F) * 10 powi (e + (d - ?p))" unfolding D(2) by (simp add: power_int_add mult.assoc mult.commute)
  define dn2 where "dn2 = dn\<lparr>exponent := e + (d - ?p), lsu := l, digits := ?p\<rparr>"
  have b2: "bits dn2 = b AND DECNEG" by (simp add: dn2_def dn_def)
  have b: "decNumberIsNegative dn2 \<longleftrightarrow> b AND DECNEG \<noteq> 0" "\<not> decNumberIsSpecial dn2"
    unfolding decNumberIsNegative_def decNumberIsSpecial_def b2 by (simp_all add: and.assoc)
  have h2: "holds (lsu dn2) (digits dn2) c" "10 ^ (nat (digits dn2) - 1) \<le> c" "digits dn2 \<le> ?p" "length (lsu dn2) = DECNUMUNITS"
      "(of_nat V + f) * 10 powi e = (of_nat c + F) * 10 powi exponent dn2"
    using l(2,3) lead res x unfolding p(3) by (simp_all add: dn2_def dn_def c_def)
  have st: "inexact_if r' (st OR DEC_Rounded) = result_status True (F \<noteq> 0) st" using r0 F by (simp add: inexact_if_def result_status_def)
  have dd: "digits dn2 = ctx_digits ctx" by (simp add: dn2_def)
  have Fb: "- 1 / 20 < F" using F by simp
  obtain dn' where "decFinalize mem dn2 ctx r' (inexact_if r' (st OR DEC_Rounded)) = Some (dn', r', inexact_if r' (st OR DEC_Rounded))"
      "rounded_result ctx (b AND DECNEG \<noteq> 0) ((of_nat V + f) * 10 powi e) st (dn', inexact_if r' (st OR DEC_Rounded))"
    using finish_rounded [OF ctx h2(1-3) b(2) h2(4) r Fb dd h2(5) y [folded b(1)] st, of mem] unfolding b(1) by blast
  then show ?thesis using l(1) unfolding divResult_def finishAdd_def p(3)
    by (simp add: dn_def [symmetric]) (simp add: dn2_def dn_def)
qed

lemma divResult_exact:
  assumes ctx: "context_fits ctx" and h: "holds us d V" "10 ^ (nat d - 1) \<le> V" and res: "length (lsu res) = DECNUMUNITS"
    and y: "normal_result ctx (b AND DECNEG \<noteq> 0) (of_nat V * 10 powi e) y"
  shows "\<exists>s. divResult mem res ctx b e us d 0 st = Some s \<and> rounded_result ctx (b AND DECNEG \<noteq> 0) (of_nat V * 10 powi e) st s"
proof -
  define dn where "dn = res\<lparr>exponent := e, bits := b AND DECNEG\<rparr>"
  have b2: "bits dn = b AND DECNEG" "exponent dn = e" "length (lsu dn) = DECNUMUNITS" using res by (simp_all add: dn_def)
  have b: "decNumberIsNegative dn \<longleftrightarrow> b AND DECNEG \<noteq> 0" "\<not> decNumberIsSpecial dn"
    unfolding decNumberIsNegative_def decNumberIsSpecial_def b2 by (simp_all add: and.assoc)
  obtain dn' r st' where "do { (dn, r, st) \<leftarrow> decSetCoeff dn ctx (Some us) d 0 st; decFinalize mem dn ctx r st } = Some (dn', r, st')"
      "rounded_result ctx (decNumberIsNegative dn) (of_nat V * 10 powi exponent dn) st (dn', st')"
    using setFinish_normal [OF ctx h b2(3) b(2), where y = y and mem = mem and st = st] y unfolding b(1) b2 by blast
  then show ?thesis unfolding divResult_def dn_def [symmetric] b(1) b2
    by (cases "decSetCoeff dn ctx (Some us) d 0 st") (auto simp: finishAdd_def)
qed

lemma QUOT10_3: "unat u < 1000 \<Longrightarrow> QUOT10 u 3 = 0"
proof -
  assume u: "unat u < 1000"
  define w :: uInt where "w = drop_bit 3 (ucast u)"
  have "unat w = unat u div 8" by (simp add: w_def drop_bit_eq_div unat_div unat_ucast_uInt)
  then have "unat w \<le> 124" using u by simp
  then have "unat (w * 1049) < 2 ^ 17" using unat_mult_32 [of w 1049] by simp
  then have "unat (drop_bit 17 (w * 1049)) = 0" by (simp add: drop_bit_eq_div unat_div)
  then show ?thesis by (simp add: QUOT10_def multies_def w_def [symmetric] unsigned_eq_0_iff)
qed

lemma dropZeros_val:
  "unat u < 1000 \<Longrightarrow> u \<noteq> 0 \<Longrightarrow> drp \<le> 2 \<Longrightarrow> 10 ^ drp dvd unat u \<Longrightarrow> 3 \<le> n + drp \<Longrightarrow>
   \<exists>k. dropZeros n u maxe drp e = Some (k, e + int k - int drp) \<and> k \<le> 2 \<and> 10 ^ k dvd unat u"
proof (induction n u maxe drp e rule: dropZeros.induct)
  case (2 n u maxe drp e)
  let ?r = "ucast u - QUOT10 u (drp + 1) * pow10 (drp + 1) :: uInt"
  show ?case
  proof (cases "e \<ge> maxe \<or> ?r \<noteq> 0")
    case True
    then show ?thesis using 2(4,5) by auto
  next
    case False
    have "drp \<noteq> 2"
    proof
      assume "drp = 2"
      then have "?r = ucast u" using QUOT10_3 [OF 2(2)] by (simp add: numeral_3_eq_3)
      then have "unat (ucast u :: uInt) = 0" using False by simp
      then show False using 2(3) by (simp add: unat_ucast_uInt unsigned_eq_0_iff)
    qed
    then have ct: "drp + 1 = 1 \<or> drp + 1 = 2" using 2(4) by linarith
    have "unat u mod 10 ^ (drp + 1) = 0" using slice_unit(2) [OF 2(2) ct] False by simp
    then have "10 ^ (drp + 1) dvd unat u" by (simp add: dvd_eq_mod_eq_0)
    then obtain k where "dropZeros n u maxe (drp + 1) (e + 1) = Some (k, e + 1 + int k - int (drp + 1))" "k \<le> 2" "10 ^ k dvd unat u"
      using 2(1) [OF _ _ 2(2,3)] False ct 2(6) by auto
    then show ?thesis using False by auto
  qed
qed simp

lemma exactQuotient_val:
  assumes c: "counted (acc q) (accdigits q)"
  shows "\<exists>q' V. exactQuotient maxe q = Some q' \<and> holds (acc q') (accdigits q') V \<and> 10 ^ (nat (accdigits q') - 1) \<le> V \<and>
    of_nat V * 10 powi qexp q' = (of_nat (units_val (acc q)) * 10 powi qexp q :: rat)"
proof -
  note cd = counted_digits [OF c]
  obtain u us where us: "acc q = u # us" using c by (cases "acc q") (auto simp: counted_def divisor_units_def)
  have ok: "units_ok (acc q)" "unat u < 1000" using c us by (auto simp: counted_def divisor_units_def)
  show ?thesis
  proof (cases "u AND 1 = 0 \<and> u \<noteq> 0")
    case False
    then have "exactQuotient maxe q = Some q" using us by (auto simp: exactQuotient_def peek_def)
    then show ?thesis using cd by blast
  next
    case True
    then obtain k where k: "dropZeros 4 u maxe 0 (qexp q) = Some (k, qexp q + int k)" "k \<le> 2" "10 ^ k dvd unat u"
      using dropZeros_val [OF ok(2), of 0 4 maxe "qexp q"] by auto
    show ?thesis
    proof (cases "k = 0")
      case True
      then have "exactQuotient maxe q = Some (q\<lparr>qexp := qexp q\<rparr>)" using us k(1) \<open>u AND 1 = 0 \<and> u \<noteq> 0\<close> by (simp add: exactQuotient_def peek_def)
      then show ?thesis using cd by auto
    next
      case False
      obtain n ws where w: "decShiftToLeast (acc q) (length (acc q)) (int k) = Some (n, ws @ drop n (acc q))" "length ws = n" "n \<le> length (acc q)"
          "n = nat ((3 * int (length (acc q)) - int k + 2) div 3)" "units_ok ws" "units_val ws = units_val (acc q) div 10 ^ k"
        using decShiftToLeast_val [of "length (acc q)" "acc q" "int k"] us ok(1) k(2) by (auto simp: split: if_splits)
      have n: "0 < n" using us k(2) unfolding w(4) by simp
      have "10 ^ k dvd (1000 :: nat)" using k(2) by (auto simp: le_Suc_eq numeral_2_eq_2)
      then have dvd: "10 ^ k dvd units_val (acc q)" using k(3) us by simp
      then have V: "units_val (acc q) = units_val ws * 10 ^ k" unfolding w(6) by simp
      have "units_val (acc q) \<noteq> 0" using leading_nonzero [OF cd(4)] .
      then have nz: "units_val ws \<noteq> 0" using V by auto
      have "ws \<noteq> []" using n w(2) by auto
      then have "holds (ws @ drop n (acc q)) (int n * 3) (units_val ws)" using holds_whole [OF w(5)] w(2,3) by (simp add: holds_def)
      then obtain d where d: "decGetDigits (ws @ drop n (acc q)) n = Some d" "holds (ws @ drop n (acc q)) d (units_val ws)" "10 ^ (nat d - 1) \<le> units_val ws"
        using trimmed [OF _ nz] by fastforce
      have "exactQuotient maxe q = Some (q\<lparr>acc := ws @ drop n (acc q), accdigits := d, qexp := qexp q + int k\<rparr>)"
        using us k(1) True False w(1) d(1) by (simp add: exactQuotient_def peek_def)
      moreover have "of_nat (units_val ws) * 10 powi (qexp q + int k) = (of_nat (units_val (acc q)) * 10 powi qexp q :: rat)"
        unfolding V by (simp add: power_int_add mult.commute mult.left_commute)
      ultimately show ?thesis using d(2,3)
        by (intro exI [of _ "q\<lparr>acc := ws @ drop n (acc q), accdigits := d, qexp := qexp q + int k\<rparr>"] exI [of _ "units_val ws"]) simp
    qed
  qed
qed

section \<open>The operation\<close>

text \<open>Memory for the work areas: with a precision and operands of up to 39 digits, at most 58 bytes are asked for.\<close>

definition memory_granted :: "(nat \<Rightarrow> bool) \<Rightarrow> bool" where
  "memory_granted mem \<longleftrightarrow> list_all mem [0..<59]"

lemma factor_counted:
  assumes "factor dn"
  shows "counted (take (D2U (digits dn)) (lsu dn)) (digits dn)"
proof -
  note fu = factor_units [OF assms]
  let ?us = "take (D2U (digits dn)) (lsu dn)"
  have nz: "coeff dn \<noteq> 0" "dn_ok dn" using assms by (simp_all add: factor_def)
  note lead = dn_ok_leading [OF nz(2,1)]
  have ne: "?us \<noteq> []" using fu(3,7) by (metis list.size(3) not_one_le_zero)
  have "last ?us \<noteq> 0"
  proof
    assume z: "last ?us = 0"
    have us: "?us = butlast ?us @ [0]" using ne z append_butlast_last_id by metis
    then have ok: "units_ok (butlast ?us)" using fu(2) by (metis units_ok_simps(3))
    have "coeff dn = units_val (butlast ?us)" using arg_cong [OF us, of units_val] fu(4) by (simp add: units_val_append)
    also have "\<dots> < 1000 ^ (D2U (digits dn) - 1)" using units_val_less [OF ok] fu(3) by simp
    also have "\<dots> = 10 ^ (3 * (D2U (digits dn) - 1))" by (simp add: power_mult)
    also have "(10 :: nat) ^ (3 * (D2U (digits dn) - 1)) \<le> 10 ^ (nat (digits dn) - 1)" using fu(5) by (intro power_increasing) (simp_all add: D2U_eq)
    finally show False using lead by simp
  qed
  then have d: "divisor_units ?us" using fu(2) ne by (simp add: divisor_units_def)
  then have "counted ?us (3 * (int (length ?us) - 1) + 1 + powersIn (last ?us))" by (simp add: counted_def)
  moreover from counted_digits(1) [OF this] have "digits dn = 3 * (int (length ?us) - 1) + 1 + powersIn (last ?us)"
    using digits_of_unique [of "coeff dn" "digits dn"] fu(4,5) lead nz(2) by (simp add: digits_of_def dn_ok_def)
  ultimately show ?thesis by simp
qed

text \<open>The units of the work area: room for every unit of the quotient that may be needed.\<close>

definition work_units :: "int \<Rightarrow> int \<Rightarrow> int \<Rightarrow> nat" where
  "work_units dl dr req = D2U (max (dr + req - 1) dl) + 2"

lemma work_units_room:
  assumes "1 \<le> dl" "1 \<le> dr" "1 \<le> req"
  shows "D2U dl + 2 \<le> work_units dl dr req" "D2U dr + 2 \<le> work_units dl dr req" "req \<le> 3 * (int (work_units dl dr req) - 1 - int (D2U dr))"
proof -
  define m where "m = max (dr + req - 1) dl"
  have m: "dl \<le> m" "dr + req - 1 \<le> m" "1 \<le> m" using assms by (auto simp: m_def)
  have d: "int (D2U k) = (k + 2) div 3" if "1 \<le> k" for k using that by (simp add: D2U_eq)
  have mono: "D2U k \<le> D2U m" if "1 \<le> k" "k \<le> m" for k using that m(3) zdiv_mono1 [of "k + 2" "m + 2" 3] by (simp add: D2U_eq nat_mono)
  show "D2U dl + 2 \<le> work_units dl dr req" "D2U dr + 2 \<le> work_units dl dr req"
    using mono [OF assms(1) m(1)] mono [OF assms(2)] m(2) assms(3) by (simp_all add: work_units_def m_def)
  have b: "m \<le> 3 * ((m + 2) div 3)" "3 * ((dr + 2) div 3) \<le> dr + 2" by presburger+
  have lin: "req \<le> 3 * (a + 1 - c)" if "m \<le> 3 * a" "3 * c \<le> dr + 2" for a c using that m(2) by (simp add: algebra_simps)
  have "req \<le> 3 * ((m + 2) div 3 + 1 - (dr + 2) div 3)" using b by (rule lin)
  then show "req \<le> 3 * (int (work_units dl dr req) - 1 - int (D2U dr))" using d [OF m(3)] d [OF assms(2)] by (simp add: work_units_def m_def)
qed

text \<open>The first unit: the dividend is aligned with the divisor, or one unit to its left.\<close>

lemma leading_unit_bounds:
  assumes "divisor_units x" "length x \<le> n"
  shows "unat (last x) * 1000 ^ (n - 1) \<le> padded x n" "padded x n < (unat (last x) + 1) * 1000 ^ (n - 1)"
proof -
  obtain ws u where x: "x = ws @ [u]" using assms by (cases x rule: rev_cases) (auto simp: divisor_units_def)
  have ok: "units_val ws < 1000 ^ length ws" using assms(1) x units_val_less by (simp add: divisor_units_def)
  have n: "n - 1 = length ws + (n - length x)" "0 < n" using assms(2) x by auto
  have v: "padded x n = (units_val ws + 1000 ^ length ws * unat u) * 1000 ^ (n - length x)" by (simp add: padded_def x units_val_append)
  have "unat u * 1000 ^ length ws \<le> units_val ws + 1000 ^ length ws * unat u" "units_val ws + 1000 ^ length ws * unat u < (unat u + 1) * 1000 ^ length ws"
    using ok by (simp_all add: distrib_right mult.commute)
  then show "unat (last x) * 1000 ^ (n - 1) \<le> padded x n" "padded x n < (unat (last x) + 1) * 1000 ^ (n - 1)"
    unfolding v n(1) power_add mult.assoc [symmetric] using x by simp_all
qed

lemma started:
  fixes e :: int
  assumes x: "counted x dl" and y: "counted y dr" and req: "1 \<le> req" and N: "N = work_units dl dr req"
  defines "v \<equiv> replicate (N - length x) 0 @ x"
  defines "start \<equiv> (if last x < last y then (N - 1, e - 3) else (N, e))"
  shows "\<exists>q ulen. divLoop DIVIDE (mkDivisor y) (D2U (req + 3)) req maxe (fst start) \<lparr>rest = v, acc = [], accdigits = 0, qexp = snd start\<rparr> = Some q \<and>
    divided y (padded x N) ulen q \<and> qexp q = e - 3 * (int N - int ulen) \<and> (rest q = [0] \<or> req < accdigits q)"
proof -
  note cx = counted_digits [OF x] and cy = counted_digits [OF y]
  have dx: "divisor_units x" and dy: "divisor_units y" using x y by (simp_all add: counted_def)
  have room: "length x + 2 \<le> N" "length y + 2 \<le> N" "req \<le> 3 * (int N - 1 - int (length y))"
    using work_units_room [OF cx(5) cy(5) req] cx(2) cy(2) by (simp_all add: N)
  have Z: "units_val v = padded x N" by (simp add: v_def units_val_replicate padded_def mult.commute)
  have ok: "units_ok v" "v \<noteq> []" using dx by (simp_all add: v_def divisor_units_def)
  have "1000 dvd (1000 :: nat) ^ (N - length x)" using room(1) by (intro dvd_power) simp
  then have dvd: "1000 dvd padded x N" by (simp add: padded_def)
  have D: "padded y N = 1000 * padded y (N - 1)"
  proof -
    have "N - length y = Suc (N - 1 - length y)" using room(2) by linarith
    then show ?thesis by (simp add: padded_def)
  qed
  have ny: "length y \<le> N - 1" "length x \<le> N" "length y \<le> N" "int (N - 1) = int N - 1" using room by auto
  have ge: "padded y (N - 1) \<le> padded x N"
    using padded_lower(3) [OF dy ny(1)] padded_lower(1) [OF dx ny(2)] by linarith
  have late: "dividing y req (padded x N) (N - 1) \<lparr>rest = w, acc = [], accdigits = 0, qexp = g\<rparr>"
    if "padded x N < padded y N" "units_ok w" "w \<noteq> []" "units_val w = padded x N" for w g
    using that ge ny room(3) unfolding D by (simp add: dividing_def)
  note run = divLoop_val [OF dy dvd req, of _ _ maxe]
  show ?thesis
  proof (cases "last x < last y")
    case True
    have "padded x N < padded y N"
    proof -
      have "(unat (last x) + 1) * 1000 ^ (N - 1) \<le> unat (last y) * 1000 ^ (N - 1)" using True by (intro mult_le_mono1) (simp add: word_less_nat_alt)
      then show ?thesis using leading_unit_bounds(2) [OF dx ny(2)] leading_unit_bounds(1) [OF dy ny(3)] by linarith
    qed
    then obtain q ulen where "divLoop DIVIDE (mkDivisor y) (D2U (req + 3)) req maxe (N - 1) \<lparr>rest = v, acc = [], accdigits = 0, qexp = e - 3\<rparr> = Some q"
        "divided y (padded x N) ulen q" "qexp q = e - 3 - 3 * (int (N - 1) - int ulen)" "rest q = [0] \<or> req < accdigits q"
      using run [OF late [OF _ ok Z, of "e - 3"]] by auto
    then show ?thesis using True ny(4) by (intro exI [of _ q] exI [of _ ulen]) (simp add: start_def)
  next
    case False
    let ?q = "\<lparr>rest = v, acc = [], accdigits = 0, qexp = e\<rparr>"
    have "1000 ^ Suc (N - 1) \<le> 1000 * padded y N" using padded_lower(1) [OF dy ny(3)] by simp
    moreover have "Suc (N - 1) = N" using room(1) by simp
    ultimately have lt: "padded x N < 1000 * padded y N" using padded_lower(3) [OF dx ny(2)] by (metis less_le_trans)
    show ?thesis
    proof (cases "padded y N \<le> padded x N")
      case True
      then have "dividing y req (padded x N) N ?q" using ok Z lt ny room(3) by (simp add: dividing_def)
      then show ?thesis using run [of N ?q] False by (auto simp: start_def)
    next
      case le: False
      have div: "\<exists>w. divUnit (mkDivisor y) N v 0 = Some (w, 0 + of_nat (padded x N div padded y N)) \<and> stripped w \<and> units_val w = padded x N mod padded y N"
        using divUnit_val [OF dy ny(3) ok, of 0] Z lt dvd by simp
      then obtain w where w: "divUnit (mkDivisor y) N v 0 = Some (w, 0)" "stripped w" "units_val w = padded x N" using le by auto
      have w0: "w \<noteq> [0]" using stripped_zero [OF w(2)] w(3) padded_lower(2) [OF dx ny(2)] by simp
      have "divLoop DIVIDE (mkDivisor y) (D2U (req + 3)) req maxe N ?q =
          divLoop DIVIDE (mkDivisor y) (D2U (req + 3)) req maxe (N - 1) \<lparr>rest = w, acc = [], accdigits = 0, qexp = e - 3\<rparr>"
        using w0 req room(1) by (subst divLoop.simps) (simp add: w(1) pushUnit_def)
      moreover have "dividing y req (padded x N) (N - 1) \<lparr>rest = w, acc = [], accdigits = 0, qexp = e - 3\<rparr>"
        using le w by (intro late) (simp_all add: stripped_def)
      ultimately obtain q ulen where "divLoop DIVIDE (mkDivisor y) (D2U (req + 3)) req maxe N ?q = Some q"
          "divided y (padded x N) ulen q" "qexp q = e - 3 - 3 * (int (N - 1) - int ulen)" "rest q = [0] \<or> req < accdigits q"
        using run by fastforce
      then show ?thesis using False ny(4) by (intro exI [of _ q] exI [of _ ulen]) (simp add: start_def)
    qed
  qed
qed

lemma quotient_value:
  fixes X Y A R :: nat
  assumes "X * 1000 ^ a = A * (Y * 1000 ^ b) + R" "0 < Y" "k = g + 3 * int b - 3 * int a"
  shows "(of_nat A + of_nat R / of_nat (Y * 1000 ^ b)) * 10 powi k = (of_nat X / of_nat Y * 10 powi g :: rat)"
proof -
  have t: "(10 :: rat) powi (3 * int n) = 1000 ^ n" for n
  proof -
    have "(10 :: rat) powi int (3 * n) = (10 ^ 3) ^ n" by (simp only: power_int_of_nat power_mult)
    then show ?thesis by simp
  qed
  have "10 powi k = (10 :: rat) powi g * 1000 ^ b / 1000 ^ a" unfolding assms(3) by (simp add: power_int_add power_int_diff t)
  moreover have "(of_nat X :: rat) * 1000 ^ a = of_nat A * (of_nat Y * 1000 ^ b) + of_nat R"
    using arg_cong [OF assms(1), of "of_nat :: nat \<Rightarrow> rat"] by simp
  then have "of_nat A + of_nat R / of_nat (Y * 1000 ^ b) = (of_nat X * 1000 ^ a / (of_nat Y * 1000 ^ b) :: rat)"
    using assms(2) by (simp add: field_simps)
  ultimately show ?thesis using assms(2) by (simp add: field_simps)
qed

lemma work_units_bound:
  assumes "1 \<le> dl" "dl \<le> 39" "1 \<le> dr" "dr \<le> 39" "2 \<le> req" "req \<le> 39"
  shows "work_units dl dr req \<le> 28" "D2U (req + 3) \<le> 14"
proof -
  define m where "m = max (dr + req - 1) dl"
  have m: "1 \<le> m" "m \<le> 77" using assms by (auto simp: m_def)
  then have "(m + 2) div 3 \<le> 26" by linarith
  then show "work_units dl dr req \<le> 28" using m by (simp add: work_units_def D2U_eq nat_le_iff flip: m_def)
  show "D2U (req + 3) \<le> 14" using assms by (simp add: D2U_eq nat_le_iff)
qed

text \<open>The long division and what follows it.\<close>

lemma divLong_start:
  assumes ctx: "context_fits ctx" and f: "factor lhs" "factor rhs" and mem: "memory_granted mem"
  shows "\<exists>q A R D. divLong mem res lhs rhs ctx DIVIDE (exponent lhs + digits lhs - (exponent rhs + digits rhs)) st =
      divFinish mem res lhs rhs ctx DIVIDE (exponent lhs - exponent rhs) 0 q st \<and>
    counted (acc q) (accdigits q) \<and> units_val (acc q) = A \<and> (rest q = [0] \<longleftrightarrow> R = 0) \<and> R < D \<and> (R = 0 \<or> ctx_digits ctx < accdigits q) \<and>
    \<bar>dn_value lhs / dn_value rhs\<bar> = (of_nat A + of_nat R / of_nat D) * 10 powi qexp q"
proof -
  let ?req = "ctx_digits ctx"
  define x y where "x = take (D2U (digits lhs)) (lsu lhs)" and "y = take (D2U (digits rhs)) (lsu rhs)"
  note xu = factor_units [OF f(1), folded x_def] and yu = factor_units [OF f(2), folded y_def]
  have c: "counted x (digits lhs)" "counted y (digits rhs)" using factor_counted f by (simp_all add: x_def y_def)
  have p: "2 \<le> ?req" "?req \<le> 39" "1 \<le> ?req" using ctx by (simp_all add: context_fits_def DECNUMDIGITS_def)
  define N where "N = work_units (digits lhs) (digits rhs) ?req"
  have N: "N \<le> 28" "D2U (?req + 3) \<le> 14" using work_units_bound xu(5,6) yu(5,6) p by (auto simp: N_def)
  have nx: "length x \<le> N" "length y \<le> N" using work_units_room [OF xu(5) yu(5) p(3)] xu(3) yu(3) by (auto simp: N_def)
  have m: "mem (2 * (N + 1))" using mem N(1) by (simp add: memory_granted_def list_all_iff)
  define e where "e = exponent lhs + digits lhs - (exponent rhs + digits rhs) - powersIn (last x) + powersIn (last y)"
  have e: "e = exponent lhs - exponent rhs + 3 * int (length x) - 3 * int (length y)" using c by (simp add: e_def counted_def)
  obtain q ulen where q: "divLoop DIVIDE (mkDivisor y) (D2U (?req + 3)) ?req (exponent lhs - exponent rhs) (fst (if last x < last y then (N - 1, e - 3) else (N, e)))
        \<lparr>rest = replicate (N - length x) 0 @ x, acc = [], accdigits = 0, qexp = snd (if last x < last y then (N - 1, e - 3) else (N, e))\<rparr> = Some q"
      "divided y (padded x N) ulen q" "qexp q = e - 3 * (int N - int ulen)" "rest q = [0] \<or> ?req < accdigits q"
    using started [OF c p(3) N_def, of "exponent lhs - exponent rhs" e] by blast
  have "divLong mem res lhs rhs ctx DIVIDE (exponent lhs + digits lhs - (exponent rhs + digits rhs)) st =
      divFinish mem res lhs rhs ctx DIVIDE (exponent lhs - exponent rhs) 0 q st"
  proof -
    define k where "k = D2U (max (digits rhs + ?req - 1) (digits lhs))"
    have k: "N = Suc (Suc k)" by (simp add: N_def work_units_def k_def)
    show ?thesis using q(1) m N unfolding divLong_def Let_def divacc_units_def varbuff_units_def xu(1) yu(1) k_def [symmetric] k
      by (cases "last x < last y") (simp_all add: e_def [symmetric])
  qed
  moreover have d: "length y \<le> ulen" "counted (acc q) (accdigits q)" "stripped (rest q)" "units_val (rest q) < padded y ulen"
      "padded x N = units_val (acc q) * padded y ulen + units_val (rest q)"
    using q(2) by (simp_all add: divided_def)
  moreover have "\<bar>dn_value lhs / dn_value rhs\<bar> = (of_nat (units_val (acc q)) + of_nat (units_val (rest q)) / of_nat (padded y ulen)) * 10 powi qexp q"
  proof -
    have "qexp q = (exponent lhs - exponent rhs) + 3 * int (ulen - length y) - 3 * int (N - length x)" using q(3) e d(1) nx by simp
    moreover have "coeff lhs * 1000 ^ (N - length x) = units_val (acc q) * (coeff rhs * 1000 ^ (ulen - length y)) + units_val (rest q)"
      using d(5) xu(4) yu(4) by (simp add: padded_def)
    moreover have "0 < coeff rhs" using f(2) by (simp add: factor_def)
    ultimately have "(of_nat (units_val (acc q)) + of_nat (units_val (rest q)) / of_nat (coeff rhs * 1000 ^ (ulen - length y))) * 10 powi qexp q =
        (of_nat (coeff lhs) / of_nat (coeff rhs) * 10 powi (exponent lhs - exponent rhs) :: rat)" by (intro quotient_value)
    then show ?thesis using yu(4) by (simp add: dn_value_def abs_mult abs_divide padded_def power_int_diff)
  qed
  moreover have "rest q = [0] \<longleftrightarrow> units_val (rest q) = 0" using stripped_zero [OF d(3)] by blast
  ultimately show ?thesis using q(4) by (intro exI [of _ q]) auto
qed

lemma decDivideOp_rounded:
  assumes ctx: "context_fits ctx" and f: "factor lhs" "factor rhs" and mem: "memory_granted mem" and res: "length (lsu res) = DECNUMUNITS"
    and y: "normal_result ctx (decNumberIsNegative lhs \<noteq> decNumberIsNegative rhs) \<bar>dn_value lhs / dn_value rhs\<bar> y"
  shows "\<exists>r. decDivideOp mem res lhs rhs ctx DIVIDE st = Some r \<and>
    rounded_result ctx (decNumberIsNegative lhs \<noteq> decNumberIsNegative rhs) \<bar>dn_value lhs / dn_value rhs\<bar> st r"
proof -
  let ?neg = "decNumberIsNegative lhs \<noteq> decNumberIsNegative rhs" and ?b = "(bits lhs XOR bits rhs) AND DECNEG"
  have sp: "(bits lhs OR bits rhs) AND DECSPECIAL = 0" using f by (simp add: factor_def decNumberIsSpecial_def bit.conj_disj_distrib2)
  have nz: "\<not> decNumberIsZero rhs" "\<not> decNumberIsZero lhs" using f zero_coeff by (auto simp: factor_def)
  obtain q A R D where q: "divLong mem res lhs rhs ctx DIVIDE (exponent lhs + digits lhs - (exponent rhs + digits rhs)) st =
        divFinish mem res lhs rhs ctx DIVIDE (exponent lhs - exponent rhs) 0 q st"
      "counted (acc q) (accdigits q)" "units_val (acc q) = A" "rest q = [0] \<longleftrightarrow> R = 0" "R < D" "R = 0 \<or> ctx_digits ctx < accdigits q"
      "\<bar>dn_value lhs / dn_value rhs\<bar> = (of_nat A + of_nat R / of_nat D) * 10 powi qexp q"
    using divLong_start [OF ctx f mem, of res st] by (elim exE conjE) (rule that; assumption)
  have neg: "?b AND DECNEG \<noteq> 0 \<longleftrightarrow> ?neg" by (rule xor_sign(1))
  have ne: "acc q \<noteq> []" using q(2) by (simp add: counted_def divisor_units_def)
  note cd = counted_digits [OF q(2), unfolded q(3)]
  have op: "decDivideOp mem res lhs rhs ctx DIVIDE st = divFinish mem res lhs rhs ctx DIVIDE (exponent lhs - exponent rhs) 0 q st"
    using nz q(1) unfolding decDivideOp_def sp Let_def by simp
  show ?thesis
  proof (cases "R = 0")
    case False
    have fr: "0 < of_nat R / (of_nat D :: rat)" "of_nat R / (of_nat D :: rat) < 1" using False q(5) by simp_all
    have "divFinish mem res lhs rhs ctx DIVIDE (exponent lhs - exponent rhs) 0 q st = divResult mem res ctx ?b (qexp q) (acc q) (accdigits q) 1 st"
      using False q(4) ne by (simp add: divFinish_def Let_def)
    then show ?thesis using divResult_cut [OF ctx cd(3,4) _ fr res, of ?b "qexp q" y mem st] q(6) y False unfolding op q(7) neg by simp
  next
    case True
    then have x: "\<bar>dn_value lhs / dn_value rhs\<bar> = of_nat A * 10 powi qexp q" using q(7) by simp
    obtain q' V where q': "exactQuotient (exponent lhs - exponent rhs) q = Some q'" "holds (acc q') (accdigits q') V" "10 ^ (nat (accdigits q') - 1) \<le> V"
        "\<bar>dn_value lhs / dn_value rhs\<bar> = of_nat V * 10 powi qexp q'"
      using exactQuotient_val [OF q(2), unfolded q(3), folded x] by metis
    have "divFinish mem res lhs rhs ctx DIVIDE (exponent lhs - exponent rhs) 0 q st = divResult mem res ctx ?b (qexp q') (acc q') (accdigits q') 0 st"
      using True q(4) ne q'(1) by (simp add: divFinish_def Let_def)
    then show ?thesis using divResult_exact [OF ctx q'(2,3) res, of ?b "qexp q'" y mem st] y unfolding op q'(4) neg by simp
  qed
qed

section \<open>Property\<close>

text \<open>
  C9. Division is correctly rounded.  For two finite nonzero operands of up to 39 digits, in a context of at most 39 digits and for any
  rounding mode, when memory for the work area is available and the quotient lies in the normal range, the long division of \<^verbatim>\<open>decDivideOp\<close> ends, without an
  access outside its buffers, and the result is a well formed number with the sign of the quotient whose magnitude is the exact quotient rounded to the
  precision of the context; \<^verbatim>\<open>Inexact\<close> is raised if and only if it is not the exact quotient.
\<close>

theorem divide_rounded:
  assumes "context_fits ctx" "factor lhs" "factor rhs" "memory_granted mem" "length (lsu res) = DECNUMUNITS"
    and "normal_result ctx (decNumberIsNegative lhs \<noteq> decNumberIsNegative rhs) \<bar>dn_value lhs / dn_value rhs\<bar> y"
  shows "\<exists>r. decDivideOp mem res lhs rhs ctx DIVIDE st = Some r \<and>
    rounded_result ctx (decNumberIsNegative lhs \<noteq> decNumberIsNegative rhs) \<bar>dn_value lhs / dn_value rhs\<bar> st r"
  using assms by (rule decDivideOp_rounded)

text \<open>\<open>- 2.5 / 1.5\<close> is \<open>- 1.666...\<close>; with two digits it is \<open>- 1.7\<close>.\<close>

theorem divide_rounded_witness:
  "\<exists>r. decDivideOp (\<lambda>n. True) \<lparr>digits = 1, exponent = 0, bits = 0, lsu = replicate 13 0\<rparr> lhs2 rhs2 ctx2 DIVIDE 0 = Some r \<and>
    rounded_result ctx2 True (5 / 3) 0 r"
proof -
  have neg: "decNumberIsNegative lhs2" "\<not> decNumberIsNegative rhs2" by (simp_all add: lhs2_def rhs2_def decNumberIsNegative_def)
  have x: "\<bar>dn_value lhs2 / dn_value rhs2\<bar> = 5 / 3"
    unfolding dn_value_def by (simp add: neg) (simp add: lhs2_def rhs2_def coeff_def D2U_eq power_int_def)
  have fl: "\<lfloor>50 / 3 :: rat\<rfloor> = 16" by (simp add: floor_eq_iff)
  have "rounds_to DEC_ROUND_HALF_EVEN True 2 (5 / 3) (17 / 10)"
    unfolding rounds_to_def by (intro exI [of _ "- 1"]) (simp add: power_int_def round_int_def Let_def fl)
  then have y: "normal_result ctx2 True (5 / 3) (17 / 10)" by (simp add: normal_result_def ctx2_def power_int_def power_divide field_simps)
  have f: "factor lhs2" "factor rhs2"
    by (simp_all add: factor_def lhs2_def rhs2_def dn_ok_def coeff_def D2U_eq decNumberIsSpecial_def DECNUMDIGITS_def)
  have ctx: "context_fits ctx2" by (simp add: context_fits_def ctx2_def DECNUMDIGITS_def)
  show ?thesis using divide_rounded [OF ctx f, of "\<lambda>n. True" "\<lparr>digits = 1, exponent = 0, bits = 0, lsu = replicate 13 0\<rparr>"] y neg
    unfolding x by (simp add: DECNUMUNITS_def memory_granted_def list_all_iff)
qed

end
