(* ===== verification/DnArith.thy ===== *)
theory DnArith
  imports DnAddSpec DnMultiplySpec DnDivideSpec
begin

text \<open>
  What a client of the arithmetic relies on: an operation returns the exact value rounded once.  The laws that follow from this alone, order and
  exactness, are proved for any such operation and hold for addition, subtraction, multiplication and division.
\<close>

section \<open>Rounding keeps the order\<close>

lemma round_int_bounds: "\<lfloor>q\<rfloor> \<le> round_int m neg q" "round_int m neg q \<le> \<lceil>q\<rceil>"
proof -
  have c: "\<lceil>q\<rceil> = (if q = of_int \<lfloor>q\<rfloor> then \<lfloor>q\<rfloor> else \<lfloor>q\<rfloor> + 1)" by (simp add: ceiling_altdef)
  show "\<lfloor>q\<rfloor> \<le> round_int m neg q" unfolding round_int_def Let_def c by (cases m) auto
  show "round_int m neg q \<le> \<lceil>q\<rceil>" unfolding round_int_def Let_def c by (cases m) auto
qed

lemma round_int_mono:
  assumes "q \<le> q'"
  shows "round_int m neg q \<le> round_int m neg q'"
proof (cases "\<lfloor>q\<rfloor> = \<lfloor>q'\<rfloor>")
  case True
  have "\<lceil>q\<rceil> \<le> \<lceil>q'\<rceil>" using assms by (rule ceiling_mono)
  moreover have "of_int \<lfloor>q'\<rfloor> \<le> q" using of_int_floor_le [of q] unfolding True .
  ultimately show ?thesis unfolding round_int_def Let_def True using assms by (cases m) auto
next
  case False
  then have "\<lfloor>q\<rfloor> + 1 \<le> \<lfloor>q'\<rfloor>" using floor_mono [OF assms] by linarith
  moreover have "\<lceil>q\<rceil> \<le> \<lfloor>q\<rfloor> + 1" by (simp add: ceiling_altdef)
  ultimately show ?thesis using round_int_bounds(2) [of m neg q] round_int_bounds(1) [of q' m neg] by linarith
qed

lemma rounds_mono:
  assumes y: "rounds_to m neg p x y" "rounds_to m neg p x' y'" and p: "1 \<le> p" and le: "x \<le> x'"
  shows "y \<le> y'"
proof -
  obtain e where e: "10 ^ (nat p - 1) \<le> x / 10 powi e" "x / 10 powi e < 10 ^ nat p" "y = of_int (round_int m neg (x / 10 powi e)) * 10 powi e"
    using y(1) by (auto simp: rounds_to_def)
  obtain e' where e': "10 ^ (nat p - 1) \<le> x' / 10 powi e'" "x' / 10 powi e' < 10 ^ nat p" "y' = of_int (round_int m neg (x' / 10 powi e')) * 10 powi e'"
    using y(2) by (auto simp: rounds_to_def)
  have up: "round_int m neg (x / 10 powi e) \<le> 10 ^ nat p"
    using round_int_bounds(2) [of m neg "x / 10 powi e"] e(2) by (simp add: ceiling_le_iff order.trans [OF _ ceiling_le [of _ "10 ^ nat p"]])
  have lo: "10 ^ (nat p - 1) \<le> round_int m neg (x' / 10 powi e')"
    using round_int_bounds(1) [of "x' / 10 powi e'" m neg] e'(1) by (simp add: order.trans [OF le_floor_iff [THEN iffD2]])
  have s: "10 ^ nat p = 10 * (10 :: rat) ^ (nat p - 1)" using p by (subst power_Suc [symmetric]) simp
  consider "e = e'" | "e + 1 \<le> e'" | "e' + 1 \<le> e" by linarith
  then show ?thesis
  proof cases
    case 1
    have "x / 10 powi e \<le> x' / 10 powi e" using le by (intro divide_right_mono) auto
    then have "round_int m neg (x / 10 powi e) \<le> round_int m neg (x' / 10 powi e)" by (rule round_int_mono)
    then show ?thesis unfolding e(3) e'(3) 1 [symmetric] by (intro mult_right_mono) (simp_all only: of_int_le_iff, simp)
  next
    case 2
    have "y \<le> of_int (10 ^ nat p) * 10 powi e" unfolding e(3) using up by (intro mult_right_mono) (simp_all only: of_int_le_iff, simp)
    also have "\<dots> = 10 ^ (nat p - 1) * 10 powi (e + 1)" by (simp add: s power_int_add)
    also have "\<dots> \<le> 10 ^ (nat p - 1) * 10 powi e'" using 2 by (intro mult_left_mono power_int_increasing) auto
    also have "\<dots> = of_int (10 ^ (nat p - 1)) * 10 powi e'" by simp
    also have "\<dots> \<le> y'" unfolding e'(3) using lo by (intro mult_right_mono) (simp_all only: of_int_le_iff, simp)
    finally show ?thesis .
  next
    case 3
    have "x' < 10 ^ nat p * 10 powi e'" using e'(2) by (simp add: pos_divide_less_eq)
    also have "\<dots> = 10 ^ (nat p - 1) * 10 powi (e' + 1)" by (simp add: s power_int_add)
    also have "\<dots> \<le> 10 ^ (nat p - 1) * 10 powi e" using 3 by (intro mult_left_mono power_int_increasing) auto
    also have "\<dots> \<le> x" using e(1) by (simp add: pos_le_divide_eq)
    finally show ?thesis using le by simp
  qed
qed

section \<open>Operations that round once\<close>

text \<open>The exact value \<open>x\<close> is neither subnormal nor too large for the context.\<close>

definition in_range :: "decContext \<Rightarrow> rat \<Rightarrow> bool" where
  "in_range ctx x \<longleftrightarrow> (\<exists>y. normal_result ctx (x < 0) \<bar>x\<bar> y)"

lemma in_range_nonzero: "in_range ctx x \<Longrightarrow> x \<noteq> 0"
  using less_le_trans [OF pow10_pos [of "emin ctx"]] by (fastforce simp: in_range_def normal_result_def)

lemma digit_count: "0 < c \<Longrightarrow> c < (10 :: nat) ^ n \<Longrightarrow> \<exists>d. 1 \<le> d \<and> d \<le> n \<and> 10 ^ (d - 1) \<le> c \<and> c < 10 ^ d"
proof (induction n)
  case (Suc n)
  then show ?case
  proof (cases "c < 10 ^ n")
    case False
    then show ?thesis using Suc.prems by (intro exI [of _ "Suc n"]) auto
  qed fastforce
qed simp

text \<open>Values that fit the precision and the exponent limits are in range.\<close>

lemma in_range_exact:
  assumes ctx: "context_fits ctx" and x: "\<bar>x\<bar> = of_nat c * 10 powi e" "0 < c" "c < 10 ^ nat (ctx_digits ctx)"
    and e: "emin ctx \<le> e" "e + ctx_digits ctx \<le> emax ctx + 1"
  shows "in_range ctx x"
proof -
  let ?p = "ctx_digits ctx"
  have p: "1 \<le> ?p" using ctx by (simp add: context_fits_def)
  obtain d where d: "1 \<le> d" "d \<le> nat ?p" "10 ^ (d - 1) \<le> c" "c < 10 ^ d" using digit_count [OF x(2,3)] by blast
  have "rounds_to (ctx_round ctx) (x < 0) ?p \<bar>x\<bar> \<bar>x\<bar>" unfolding x(1) using rounds_exact [of "int d" ?p c] d by simp
  moreover have "10 powi emin ctx \<le> \<bar>x\<bar>"
  proof -
    have "(10 :: rat) powi emin ctx \<le> 10 powi e" using e(1) by (intro power_int_increasing) auto
    also have "\<dots> \<le> of_nat c * 10 powi e" using x(2) by simp
    finally show ?thesis unfolding x(1) .
  qed
  moreover have "\<bar>x\<bar> < 10 powi (emax ctx + 1)"
  proof -
    have "of_nat c * (10 :: rat) powi e < 10 ^ nat ?p * 10 powi e" using x(3) of_nat_less_iff [of c "10 ^ nat ?p", where 'a = rat] by simp
    also have "\<dots> = 10 powi (e + ?p)" using powi_split [of e "e + ?p"] p by simp
    also have "\<dots> \<le> 10 powi (emax ctx + 1)" using e(2) by (intro power_int_increasing) auto
    finally show ?thesis unfolding x(1) .
  qed
  ultimately show ?thesis by (auto simp: in_range_def normal_result_def)
qed

lemma result_value:
  assumes "rounded_result ctx (x < 0) \<bar>x\<bar> st (dn, st')" "rounds_to (ctx_round ctx) (x < 0) (ctx_digits ctx) \<bar>x\<bar> y" "context_fits ctx"
  shows "dn_value dn = (if x < 0 then - y else y)"
proof -
  have "\<bar>dn_value dn\<bar> = y" "decNumberIsNegative dn = (x < 0)"
    using assms rounds_same by (auto simp: rounded_result_def context_fits_def)
  moreover have "dn_value dn = sgn_of (decNumberIsNegative dn) * magnitude dn" "0 \<le> magnitude dn" by (simp_all add: magnitude_value magnitude_def)
  ultimately show ?thesis by (auto simp: sgn_of_def)
qed

locale rounded_operation =
  fixes operand :: "decContext \<Rightarrow> decNumber \<Rightarrow> bool"
    and exact :: "decNumber \<Rightarrow> decNumber \<Rightarrow> rat"
    and operate :: "(nat \<Rightarrow> bool) \<Rightarrow> decNumber \<Rightarrow> decNumber \<Rightarrow> decNumber \<Rightarrow> decContext \<Rightarrow> uInt \<Rightarrow> (decNumber \<times> uInt) option"
    and granted :: "(nat \<Rightarrow> bool) \<Rightarrow> bool"
  assumes correct: "context_fits ctx \<Longrightarrow> operand ctx l \<Longrightarrow> operand ctx r \<Longrightarrow> length (lsu res) = DECNUMUNITS \<Longrightarrow>
    normal_result ctx (exact l r < 0) \<bar>exact l r\<bar> y \<Longrightarrow> granted mem \<Longrightarrow>
    \<exists>s. operate mem res l r ctx st = Some s \<and> rounded_result ctx (exact l r < 0) \<bar>exact l r\<bar> st s"
begin

lemma returns:
  assumes "context_fits ctx" "operand ctx l" "operand ctx r" "length (lsu res) = DECNUMUNITS" "in_range ctx (exact l r)" "granted mem"
  obtains dn st' y where "operate mem res l r ctx st = Some (dn, st')" "rounded_result ctx (exact l r < 0) \<bar>exact l r\<bar> st (dn, st')"
    "rounds_to (ctx_round ctx) (exact l r < 0) (ctx_digits ctx) \<bar>exact l r\<bar> y" "0 \<le> y" "dn_value dn = (if exact l r < 0 then - y else y)"
proof -
  obtain y where y: "normal_result ctx (exact l r < 0) \<bar>exact l r\<bar> y" using assms(5) by (auto simp: in_range_def)
  then have yr: "rounds_to (ctx_round ctx) (exact l r < 0) (ctx_digits ctx) \<bar>exact l r\<bar> y" by (simp add: normal_result_def)
  obtain dn st' where s: "operate mem res l r ctx st = Some (dn, st')" "rounded_result ctx (exact l r < 0) \<bar>exact l r\<bar> st (dn, st')"
    using correct [OF assms(1-4) y assms(6), of st] by auto
  have "\<bar>dn_value dn\<bar> = y" using s(2) yr rounds_same assms(1) by (auto simp: rounded_result_def context_fits_def)
  then have "0 \<le> y" by auto
  then show thesis using that s yr result_value [OF s(2) yr assms(1)] by blast
qed

text \<open>The result follows the order of the exact values: it does not depend on the operands otherwise, on the old result or on the memory.\<close>

lemma ordered:
  assumes ctx: "context_fits ctx" and ops: "operand ctx l" "operand ctx r" "operand ctx l'" "operand ctx r'"
    and res: "length (lsu res) = DECNUMUNITS" "length (lsu res') = DECNUMUNITS"
    and rng: "in_range ctx (exact l r)" "in_range ctx (exact l' r')" and le: "exact l r \<le> exact l' r'" and mem: "granted mem" "granted mem'"
  shows "\<exists>dn dn' s s'. operate mem res l r ctx st = Some (dn, s) \<and> operate mem' res' l' r' ctx st' = Some (dn', s') \<and> dn_value dn \<le> dn_value dn'"
proof -
  let ?x = "exact l r" let ?x' = "exact l' r'"
  obtain dn s y where a: "operate mem res l r ctx st = Some (dn, s)" "rounds_to (ctx_round ctx) (?x < 0) (ctx_digits ctx) \<bar>?x\<bar> y" "0 \<le> y"
      "dn_value dn = (if ?x < 0 then - y else y)"
    using returns [OF ctx ops(1,2) res(1) rng(1) mem(1)] by metis
  obtain dn' s' y' where b: "operate mem' res' l' r' ctx st' = Some (dn', s')" "rounds_to (ctx_round ctx) (?x' < 0) (ctx_digits ctx) \<bar>?x'\<bar> y'" "0 \<le> y'"
      "dn_value dn' = (if ?x' < 0 then - y' else y')"
    using returns [OF ctx ops(3,4) res(2) rng(2) mem(2)] by metis
  have p: "1 \<le> ctx_digits ctx" using ctx by (simp add: context_fits_def)
  have "dn_value dn \<le> dn_value dn'"
  proof (cases "(?x < 0) = (?x' < 0)")
    case True
    then have "\<bar>?x\<bar> \<le> \<bar>?x'\<bar> \<Longrightarrow> y \<le> y'" "\<bar>?x'\<bar> \<le> \<bar>?x\<bar> \<Longrightarrow> y' \<le> y"
      using rounds_mono [OF a(2) _ p, of "\<bar>?x'\<bar>" y'] rounds_mono [OF b(2) _ p, of "\<bar>?x\<bar>" y] a(2) b(2) by auto
    then show ?thesis using le True unfolding a(4) b(4) by auto
  qed (use le a(3,4) b(3,4) in auto)
  then show ?thesis using a(1) b(1) by blast
qed

text \<open>An exact value that fits the precision is the result, and \<^verbatim>\<open>Inexact\<close> is not raised.\<close>

lemma exact_kept:
  assumes ctx: "context_fits ctx" and ops: "operand ctx l" "operand ctx r" and res: "length (lsu res) = DECNUMUNITS"
    and rng: "in_range ctx (exact l r)" and fits: "\<bar>exact l r\<bar> = of_nat c * 10 powi e" "c < 10 ^ nat (ctx_digits ctx)" and mem: "granted mem"
  shows "\<exists>dn s. operate mem res l r ctx st = Some (dn, s) \<and> rounded_result ctx (exact l r < 0) \<bar>exact l r\<bar> st (dn, s) \<and>
    dn_value dn = exact l r \<and> (s = st \<or> s = st OR DEC_Rounded)"
proof -
  let ?x = "exact l r" let ?p = "ctx_digits ctx"
  obtain dn s y where a: "operate mem res l r ctx st = Some (dn, s)" "rounded_result ctx (?x < 0) \<bar>?x\<bar> st (dn, s)"
      "rounds_to (ctx_round ctx) (?x < 0) ?p \<bar>?x\<bar> y" "dn_value dn = (if ?x < 0 then - y else y)"
    using returns [OF ctx ops res rng mem] by metis
  have p: "1 \<le> ?p" using ctx by (simp add: context_fits_def)
  have c: "0 < c" using in_range_nonzero [OF rng] fits(1) by (cases c) auto
  obtain d where d: "1 \<le> d" "d \<le> nat ?p" "10 ^ (d - 1) \<le> c" "c < 10 ^ d" using digit_count [OF c fits(2)] by blast
  have "rounds_to (ctx_round ctx) (?x < 0) ?p \<bar>?x\<bar> \<bar>?x\<bar>" unfolding fits(1) using rounds_exact [of "int d" ?p c] d by simp
  then have "y = \<bar>?x\<bar>" using rounds_same [OF a(3) _ p] by blast
  then have v: "dn_value dn = ?x" using a(4) by auto
  then have "s = st \<or> s = st OR DEC_Rounded" using a(2) by (auto simp: rounded_result_def result_status_def)
  then show ?thesis using a(1,2) v by blast
qed

end

interpretation added: rounded_operation addend "\<lambda>l r. dn_value l + dn_value r" "\<lambda>mem res l r ctx st. decAddOp mem res l r ctx 0 st" "\<lambda>mem. True"
  by unfold_locales (rule decAddOp_rounded; simp)

interpretation subtracted: rounded_operation addend "\<lambda>l r. dn_value l - dn_value r" "\<lambda>mem res l r ctx st. decAddOp mem res l r ctx DECNEG st" "\<lambda>mem. True"
  by unfold_locales (rule decAddOp_rounded; simp)

lemma factor_sign: "factor x \<Longrightarrow> dn_value x < 0 \<longleftrightarrow> decNumberIsNegative x" "factor x \<Longrightarrow> dn_value x \<noteq> 0"
proof -
  assume "factor x"
  then have "0 < magnitude x" by (simp add: magnitude_def factor_def)
  moreover have "dn_value x = sgn_of (decNumberIsNegative x) * magnitude x" by (simp add: magnitude_value)
  ultimately show "dn_value x < 0 \<longleftrightarrow> decNumberIsNegative x" "dn_value x \<noteq> 0" by (auto simp: sgn_of_def)
qed

lemma product_sign: "factor l \<Longrightarrow> factor r \<Longrightarrow> dn_value l * dn_value r < 0 \<longleftrightarrow> decNumberIsNegative l \<noteq> decNumberIsNegative r"
  using factor_sign [of l] factor_sign [of r] by (auto simp: mult_less_0_iff)

lemma quotient_sign: "factor l \<Longrightarrow> factor r \<Longrightarrow> dn_value l / dn_value r < 0 \<longleftrightarrow> decNumberIsNegative l \<noteq> decNumberIsNegative r"
  using factor_sign [of l] factor_sign [of r] by (auto simp: divide_less_0_iff)

interpretation multiplied: rounded_operation "\<lambda>ctx. factor" "\<lambda>l r. dn_value l * dn_value r" decMultiplyOp "\<lambda>mem. True"
proof (unfold_locales, goal_cases)
  case (1 ctx l r res y mem st)
  then show ?case using decMultiplyOp_rounded [of ctx l r res y mem st] unfolding product_sign [OF 1(2,3)] by blast
qed

interpretation quotients: rounded_operation "\<lambda>ctx. factor" "\<lambda>l r. dn_value l / dn_value r" "\<lambda>mem res l r ctx st. decDivideOp mem res l r ctx DIVIDE st" memory_granted
proof (unfold_locales, goal_cases)
  case (1 ctx l r res y mem st)
  then show ?case using decDivideOp_rounded [of ctx l r mem res y st] unfolding quotient_sign [OF 1(2,3)] by blast
qed

section \<open>Properties\<close>

lemma in_rangeI: "normal_result ctx (x < 0) \<bar>x\<bar> y \<Longrightarrow> in_range ctx x"
  by (auto simp: in_range_def)

text \<open>
  C15. A product that fits the precision is exact: when the product of two factors is an integer below \<open>10 ^ p\<close> times a power of ten,
  in the normal range of a context of precision \<open>p\<close>, \<^verbatim>\<open>decMultiplyOp\<close> returns that value, and adds to the status at most \<^verbatim>\<open>Rounded\<close>,
  for zeros that it cuts.
\<close>

theorem multiply_exact:
  assumes "context_fits ctx" "factor a" "factor b" "length (lsu res) = DECNUMUNITS" "in_range ctx (dn_value a * dn_value b)"
    and "\<bar>dn_value a * dn_value b\<bar> = of_nat c * 10 powi e" "c < 10 ^ nat (ctx_digits ctx)"
  shows "\<exists>x s. decMultiplyOp mem res a b ctx st = Some (x, s) \<and> dn_value x = dn_value a * dn_value b \<and> (s = st \<or> s = st OR DEC_Rounded)"
  using multiplied.exact_kept [OF assms TrueI] by blast

text \<open>\<open>2.50 * 4\<close> with two digits is \<open>10\<close>: a zero is cut.\<close>

definition four :: decNumber where "four = \<lparr>digits = 1, exponent = 0, bits = 0, lsu = [4]\<rparr>"
definition two_and_half :: decNumber where "two_and_half = \<lparr>digits = 3, exponent = - 2, bits = 0, lsu = [250]\<rparr>"

theorem multiply_exact_witness:
  "\<exists>x s. decMultiplyOp (\<lambda>n. False) localZero two_and_half four ctx2 0 = Some (x, s) \<and> dn_value x = dn_value two_and_half * dn_value four \<and>
    (s = 0 \<or> s = 0 OR DEC_Rounded)"
proof (rule multiply_exact)
  show "context_fits ctx2" by (simp add: context_fits_def ctx2_def DECNUMDIGITS_def)
  show "factor two_and_half" "factor four"
    by (simp_all add: factor_def two_and_half_def four_def dn_ok_def coeff_def D2U_eq decNumberIsSpecial_def DECNUMDIGITS_def)
  have x: "dn_value two_and_half * dn_value four = 10"
    by (simp add: dn_value_def two_and_half_def four_def coeff_def D2U_eq power_int_def power_divide decNumberIsNegative_def)
  have "rounds_to DEC_ROUND_HALF_EVEN False 2 10 10"
    unfolding rounds_to_def by (intro exI [of _ 0]) (simp add: round_int_def Let_def)
  then show "in_range ctx2 (dn_value two_and_half * dn_value four)" unfolding x
    by (intro in_rangeI [of _ _ 10]) (simp add: normal_result_def ctx2_def power_int_def power_divide field_simps)
  show "\<bar>dn_value two_and_half * dn_value four\<bar> = of_nat 10 * 10 powi 0" unfolding x by simp
  show "10 < (10 :: nat) ^ nat (ctx_digits ctx2)" by (simp add: ctx2_def)
qed (simp add: localZero_def)

end
