(* ===== verification/SqlArith.thy ===== *)
theory SqlArith
  imports BlobSpec DnArith
begin

text \<open>
  Arithmetic on stored values, from blob to blob: the SQL functions decode their arguments, compute, look at the status and encode, and what they
  return is the encoding of the exact result of the encoded numbers, rounded once.
\<close>

section \<open>Operands and results as blobs\<close>

text \<open>A shared context at full precision, no trapped condition pending, rounding not trapped.\<close>

definition full_context :: "decContext \<Rightarrow> bool" where
  "full_context ctx \<longleftrightarrow> context_fits ctx \<and> ctx_digits ctx = int DECNUMDIGITS \<and> emax ctx \<le> 999999999 \<and> - 999999999 \<le> emin ctx \<and>
     settled ctx \<and> traps ctx AND (DEC_Inexact OR DEC_Rounded) = 0"

definition finite_number :: "decNumber \<Rightarrow> bool" where
  "finite_number x \<longleftrightarrow> encodable x \<and> \<not> decNumberIsSpecial x"

lemma finite_operand: "finite_number x \<Longrightarrow> dn_ok x \<and> digits x \<le> int DECNUMDIGITS \<and> \<bar>exponent x\<bar> < 1073741824"
  by (auto simp: finite_number_def encodable_def adjusted_def dn_ok_def DECNUMDIGITS_def)

lemma same_key:
  assumes "dn_key y = dn_key x" "\<not> decNumberIsSpecial x"
  shows "\<not> decNumberIsSpecial y" "dn_value y = dn_value x"
proof -
  show s: "\<not> decNumberIsSpecial y" using assms by (auto simp: dn_key_def dn_rank_def split: if_splits)
  show "dn_value y = dn_value x" using assms s by (simp add: dn_key_def)
qed

lemma decode_finite:
  assumes "finite_number x" "blob r x = Some a" "DECINF_MAXSIZE \<le> length r" "env_ok env" "settled ctx"
  obtains y where "decode env ctx (SQLITE_BLOB a) = Some (ctx, Inr y)" "finite_number y" "dn_value y = dn_value x" "length (lsu y) = DECNUMUNITS"
proof -
  have x: "encodable x" "\<not> decNumberIsSpecial x" using assms(1) by (simp_all add: finite_number_def)
  have a: "a = encode x" using assms(2,3) blob_encode [OF x(1)] by simp
  obtain y where y: "decode env ctx (SQLITE_BLOB a) = Some (ctx, Inr y)" "dn_key y = dn_key x" "encodable y"
    unfolding a using decode_blob [OF x(1) assms(4,5)] by blast
  show thesis using that [OF y(1)] y(3) same_key [OF y(2) x(2)] by (simp add: finite_number_def encodable_def)
qed

text \<open>A rounded result in the range of the context can be encoded.\<close>

lemma rounded_encodable:
  assumes ctx: "full_context ctx" and r: "rounded_result ctx (x < 0) \<bar>x\<bar> st (dn, st')" and y: "normal_result ctx (x < 0) \<bar>x\<bar> y"
  shows "encodable dn"
proof -
  have c: "context_fits ctx" "1 \<le> ctx_digits ctx" "ctx_digits ctx \<le> int DECNUMDIGITS" using ctx by (simp_all add: full_context_def context_fits_def)
  have dn: "dn_ok dn" "length (lsu dn) = DECNUMUNITS" "digits dn \<le> ctx_digits ctx" using r by (simp_all add: rounded_result_def)
  have yr: "rounds_to (ctx_round ctx) (x < 0) (ctx_digits ctx) \<bar>x\<bar> y" and yb: "10 powi emin ctx \<le> \<bar>x\<bar>" "y < 10 powi (emax ctx + 1)"
    using y by (simp_all add: normal_result_def)
  have "rounds_to (ctx_round ctx) (x < 0) (ctx_digits ctx) \<bar>x\<bar> \<bar>dn_value dn\<bar>" using r by (simp add: rounded_result_def)
  then have "\<bar>dn_value dn\<bar> = y" using yr c(2) by (rule rounds_same)
  moreover have "0 \<le> magnitude dn" by (simp add: magnitude_def)
  ultimately have v: "magnitude dn = y" by (simp add: magnitude_value sgn_of_simps(1))
  have "rounds_to (ctx_round ctx) (x < 0) (ctx_digits ctx) (10 powi emin ctx) (10 powi emin ctx)"
    using rounds_exact [of 1 "ctx_digits ctx" 1 "ctx_round ctx" "x < 0" "emin ctx"] c(2) by simp
  then have lo: "10 powi emin ctx \<le> magnitude dn" using rounds_mono [OF _ yr c(2) yb(1)] v by simp
  have d: "1 \<le> digits dn" "coeff dn < 10 ^ nat (digits dn)" using dn(1) by (simp_all add: dn_ok_def)
  have "magnitude dn \<noteq> 0" using less_le_trans [OF pow10_pos lo] by simp
  then have c0: "coeff dn \<noteq> 0" by (simp add: magnitude_def)
  have "magnitude dn < 10 ^ nat (digits dn) * 10 powi exponent dn" unfolding magnitude_def
    using d(2) of_nat_less_iff [of "coeff dn" "10 ^ nat (digits dn)", where 'a = rat] by simp
  also have "\<dots> = 10 powi (adjusted dn + 1)" using powi_split [of "exponent dn" "digits dn + exponent dn"] d(1) by (simp add: adjusted_def add.commute)
  finally have "(10 :: rat) powi emin ctx < 10 powi (adjusted dn + 1)" using lo by linarith
  then have a: "emin ctx < adjusted dn + 1" by (simp only: powi_less_iff)
  have "10 powi adjusted dn = (10 :: rat) ^ (nat (digits dn) - 1) * 10 powi exponent dn"
    using powi_split [of "exponent dn" "adjusted dn"] d(1) by (simp add: adjusted_def nat_diff_distrib)
  also have "\<dots> \<le> magnitude dn" unfolding magnitude_def
    using dn_ok_leading [OF dn(1) c0] of_nat_le_iff [of "10 ^ (nat (digits dn) - 1)" "coeff dn", where 'a = rat] by simp
  finally have "(10 :: rat) powi adjusted dn < 10 powi (emax ctx + 1)" using yb(2) v by linarith
  then have "adjusted dn < emax ctx + 1" by (simp only: powi_less_iff)
  then show ?thesis using a dn c(3) ctx by (auto simp: encodable_def full_context_def)
qed

text \<open>The status a rounded result leaves.\<close>

lemma result_status_bits: "result_status rounded inexact 0 AND NOT (DEC_Inexact OR DEC_Rounded) = 0"
  "result_status rounded inexact 0 AND DEC_NaNs = 0"
  by (cases rounded; cases inexact; simp only: bool_simps; code_simp)+

lemma addStatus_rounded: "addStatus (Some (dn, result_status rounded inexact 0)) ctx =
    Some (dn, ctx\<lparr>status := status ctx OR result_status rounded inexact 0\<rparr>)"
  using result_status_bits(2) [of rounded inexact] by (simp add: addStatus_def applyStatus_def decStatus_def decContextSetStatus_def)

lemma untrapped:
  assumes "full_context ctx"
  shows "settled (ctx\<lparr>status := status ctx OR result_status rounded inexact 0\<rparr>)"
proof -
  have "status ctx AND traps ctx = 0" "traps ctx AND (DEC_Inexact OR DEC_Rounded) = 0" using assms by (simp_all add: full_context_def settled_def)
  then show ?thesis using result_status_bits(1) [of rounded inexact] unfolding settled_def
    by (auto simp: bit_eq_iff [where 'a = "32 word"] bit_simps)
qed

lemma checked_settled: "settled ctx \<Longrightarrow> checked_result env ctx dn = blob_result env ctx dn"
  by (simp add: checked_result_def checkStatus_def decContextTestStatus_def settled_def)

text \<open>The result of a call: the encoding of \<open>x\<close> rounded to the precision, and its conditions added to the shared status.\<close>

definition sql_rounded :: "uByte list \<Rightarrow> decContext \<Rightarrow> rat \<Rightarrow> call \<Rightarrow> bool" where
  "sql_rounded r ctx x c \<longleftrightarrow> (\<exists>dn st a. c = Some (ctx\<lparr>status := status ctx OR st\<rparr>, result_blob a) \<and> blob r dn = Some a \<and>
     rounded_result ctx (x < 0) \<bar>x\<bar> 0 (dn, st))"

section \<open>Binary operators in SQL\<close>

locale sql_operation = rounded_operation +
  fixes f :: binary
  assumes applied: "f mem res l r ctx = addStatus (operate mem res l r ctx 0) ctx"
    and by_value: "dn_value l = dn_value l' \<Longrightarrow> dn_value r = dn_value r' \<Longrightarrow> exact l r = exact l' r'"
    and operands: "full_context ctx \<Longrightarrow> finite_number l \<Longrightarrow> finite_number r \<Longrightarrow> exact l r \<noteq> 0 \<Longrightarrow> operand ctx l \<and> operand ctx r"
begin

lemma applied_result:
  assumes ctx: "full_context ctx" and ops: "finite_number l" "finite_number r" and res: "length (lsu res) = DECNUMUNITS" and rng: "in_range ctx (exact l r)" and mem: "granted mem"
  obtains dn st where "f mem res l r ctx = Some (dn, ctx\<lparr>status := status ctx OR st\<rparr>)" "settled (ctx\<lparr>status := status ctx OR st\<rparr>)"
    "encodable dn" "rounded_result ctx (exact l r < 0) \<bar>exact l r\<bar> 0 (dn, st)"
proof -
  have c: "context_fits ctx" using ctx by (simp add: full_context_def)
  have op: "operand ctx l" "operand ctx r" using operands [OF ctx ops in_range_nonzero [OF rng]] by simp_all
  obtain y where y: "normal_result ctx (exact l r < 0) \<bar>exact l r\<bar> y" using rng by (auto simp: in_range_def)
  obtain dn st where s: "operate mem res l r ctx 0 = Some (dn, st)" "rounded_result ctx (exact l r < 0) \<bar>exact l r\<bar> 0 (dn, st)"
    using correct [OF c op res y mem, of 0] by auto
  then obtain rounded inexact where st: "st = result_status rounded inexact 0" by (auto simp: rounded_result_def)
  show thesis
  proof (rule that)
    show "f mem res l r ctx = Some (dn, ctx\<lparr>status := status ctx OR st\<rparr>)" unfolding applied s(1) st by (rule addStatus_rounded)
    show "settled (ctx\<lparr>status := status ctx OR st\<rparr>)" unfolding st by (rule untrapped [OF ctx])
    show "encodable dn" using rounded_encodable [OF ctx s(2) y] .
  qed (rule s(2))
qed

lemma on_blobs:
  assumes ctx: "full_context ctx" and env: "env_ok env" "env_mem env DECINF_MAXSIZE" and ops: "finite_number x" "finite_number y"
    and blobs: "blob r x = Some a" "blob r y = Some b" "DECINF_MAXSIZE \<le> length r" and rng: "in_range ctx (exact x y)" and mem: "granted (env_mem env)"
  shows "sql_rounded r ctx (exact x y) (decimalOp2 f env ctx (SQLITE_BLOB a) (SQLITE_BLOB b))"
    and "sql_rounded r ctx (exact x y) (decimalOpn f dflt env ctx [SQLITE_BLOB a, SQLITE_BLOB b])"
proof -
  have st: "settled ctx" using ctx by (simp add: full_context_def)
  obtain x' where x': "decode env ctx (SQLITE_BLOB a) = Some (ctx, Inr x')" "finite_number x'" "dn_value x' = dn_value x" "length (lsu x') = DECNUMUNITS"
    using decode_finite [OF ops(1) blobs(1,3) env(1) st] .
  obtain y' where y': "decode env ctx (SQLITE_BLOB b) = Some (ctx, Inr y')" "finite_number y'" "dn_value y' = dn_value y"
    using decode_finite [OF ops(2) blobs(2,3) env(1) st] .
  have v: "exact x' y' = exact x y" using by_value [OF x'(3) y'(3)] .
  have rng': "in_range ctx (exact x' y')" using rng unfolding v .
  have finished: "sql_rounded r ctx (exact x y) (checked_result env (ctx\<lparr>status := status ctx OR st\<rparr>) dn)"
    if "settled (ctx\<lparr>status := status ctx OR st\<rparr>)" "encodable dn" "rounded_result ctx (exact x' y' < 0) \<bar>exact x' y'\<bar> 0 (dn, st)" for dn st
    unfolding checked_settled [OF that(1)] blob_result_encode [OF that(2) env] sql_rounded_def
    using that(3) blob_encode [OF that(2) blobs(3)] unfolding v by blast
  have e: "length (lsu (env_num env)) = DECNUMUNITS" using env(1) by (simp add: env_ok_def)
  obtain dn s where d: "f (env_mem env) (env_num env) x' y' ctx = Some (dn, ctx\<lparr>status := status ctx OR s\<rparr>)" "settled (ctx\<lparr>status := status ctx OR s\<rparr>)"
      "encodable dn" "rounded_result ctx (exact x' y' < 0) \<bar>exact x' y'\<bar> 0 (dn, s)"
    using applied_result [OF ctx x'(2) y'(2) e rng' mem] .
  show "sql_rounded r ctx (exact x y) (decimalOp2 f env ctx (SQLITE_BLOB a) (SQLITE_BLOB b))"
    using finished [OF d(2-4)] x'(1) y'(1) d(1) by (simp add: decimalOp2_def with_arg_def)
  obtain dn s where d: "f (env_mem env) x' x' y' ctx = Some (dn, ctx\<lparr>status := status ctx OR s\<rparr>)" "settled (ctx\<lparr>status := status ctx OR s\<rparr>)"
      "encodable dn" "rounded_result ctx (exact x' y' < 0) \<bar>exact x' y'\<bar> 0 (dn, s)"
    using applied_result [OF ctx x'(2) y'(2) x'(4) rng' mem] .
  show "sql_rounded r ctx (exact x y) (decimalOpn f dflt env ctx [SQLITE_BLOB a, SQLITE_BLOB b])"
    using finished [OF d(2-4)] x'(1) y'(1) d(1) by (simp add: decimalOpn_def with_arg_def)
qed

end

lemma finite_addend: "full_context ctx \<Longrightarrow> finite_number x \<Longrightarrow> addend ctx x"
  using finite_operand [of x] by (auto simp: addend_def full_context_def finite_number_def)

lemma finite_factor: "finite_number x \<Longrightarrow> dn_value x \<noteq> 0 \<Longrightarrow> factor x"
  using finite_operand [of x] by (auto simp: factor_def finite_number_def dn_value_def)

interpretation sql_add: sql_operation addend "\<lambda>l r. dn_value l + dn_value r" "\<lambda>mem res l r ctx st. decAddOp mem res l r ctx 0 st" "\<lambda>mem. True" decNumberAdd
  by unfold_locales (simp_all add: decNumberAdd_def finite_addend)

interpretation sql_subtract: sql_operation addend "\<lambda>l r. dn_value l - dn_value r" "\<lambda>mem res l r ctx st. decAddOp mem res l r ctx DECNEG st" "\<lambda>mem. True" decNumberSubtract
  by unfold_locales (simp_all add: decNumberSubtract_def finite_addend del: dec_bits)

interpretation sql_multiply: sql_operation "\<lambda>ctx. factor" "\<lambda>l r. dn_value l * dn_value r" decMultiplyOp "\<lambda>mem. True" decNumberMultiply
  by unfold_locales (simp_all add: decNumberMultiply_def finite_factor)

interpretation sql_divide: sql_operation "\<lambda>ctx. factor" "\<lambda>l r. dn_value l / dn_value r" "\<lambda>mem res l r ctx st. decDivideOp mem res l r ctx DIVIDE st" memory_granted decNumberDivide
  by unfold_locales (simp_all add: decNumberDivide_def finite_factor)

section \<open>Properties\<close>

text \<open>
  C6. Arithmetic from blob to blob.  When the shared context has precision 39 and traps neither \<^verbatim>\<open>Inexact\<close> nor \<^verbatim>\<open>Rounded\<close>, memory is available and no
  trapped condition is pending, \<^verbatim>\<open>decAdd\<close>, \<^verbatim>\<open>decSub\<close>, \<^verbatim>\<open>decMul\<close> and \<^verbatim>\<open>decDiv\<close> on the encodings of two finite numbers return the encoding of the exact sum,
  difference, product or quotient of these numbers rounded once, if it is not zero and lies in the normal range, and add at most \<^verbatim>\<open>Inexact\<close> and \<^verbatim>\<open>Rounded\<close> to the shared status.
\<close>

theorem sql_arithmetic:
  assumes "full_context ctx" "env_ok env" "env_mem env DECINF_MAXSIZE" "finite_number x" "finite_number y"
    and "blob r x = Some a" "blob r y = Some b" "DECINF_MAXSIZE \<le> length r" and mem: "memory_granted (env_mem env)"
  shows "(in_range ctx (dn_value x + dn_value y) \<longrightarrow>
      sql_rounded r ctx (dn_value x + dn_value y) (decimalAdd env ctx [SQLITE_BLOB a, SQLITE_BLOB b])) \<and>
    (in_range ctx (dn_value x - dn_value y) \<longrightarrow>
      sql_rounded r ctx (dn_value x - dn_value y) (decimalSubtract env ctx (SQLITE_BLOB a) (SQLITE_BLOB b))) \<and>
    (in_range ctx (dn_value x * dn_value y) \<longrightarrow>
      sql_rounded r ctx (dn_value x * dn_value y) (decimalMultiply env ctx [SQLITE_BLOB a, SQLITE_BLOB b])) \<and>
    (in_range ctx (dn_value x / dn_value y) \<longrightarrow>
      sql_rounded r ctx (dn_value x / dn_value y) (decimalDivide env ctx (SQLITE_BLOB a) (SQLITE_BLOB b)))"
  unfolding decimalAdd_def decimalSubtract_def decimalMultiply_def decimalDivide_def
  using sql_add.on_blobs(2) [OF assms(1-8) _ TrueI] sql_subtract.on_blobs(1) [OF assms(1-8) _ TrueI] sql_multiply.on_blobs(2) [OF assms(1-8) _ TrueI]
    sql_divide.on_blobs(1) [OF assms(1-8) _ mem] by blast

text \<open>In the default context, on the encodings of \<open>12.5\<close> and \<open>4\<close>.\<close>

definition value_a :: decNumber where "value_a = \<lparr>digits = 3, exponent = - 1, bits = 0, lsu = 125 # replicate 12 0\<rparr>"
definition value_b :: decNumber where "value_b = \<lparr>digits = 1, exponent = 0, bits = 0, lsu = 4 # replicate 12 0\<rparr>"

lemma finite_value_a: "finite_number value_a" and finite_value_b: "finite_number value_b"
  by (simp_all add: finite_number_def value_a_def value_b_def encodable_def dn_ok_def coeff_def D2U_eq adjusted_def decNumberIsSpecial_def DECNUMDIGITS_def)

theorem sql_arithmetic_witness:
  "\<exists>a b. blob (replicate 24 0) value_a = Some a \<and> blob (replicate 24 0) value_b = Some b \<and>
    sql_rounded (replicate 24 0) ctx0 (33 / 2) (decimalAdd env0 ctx0 [SQLITE_BLOB a, SQLITE_BLOB b]) \<and>
    sql_rounded (replicate 24 0) ctx0 (17 / 2) (decimalSubtract env0 ctx0 (SQLITE_BLOB a) (SQLITE_BLOB b)) \<and>
    sql_rounded (replicate 24 0) ctx0 50 (decimalMultiply env0 ctx0 [SQLITE_BLOB a, SQLITE_BLOB b]) \<and>
    sql_rounded (replicate 24 0) ctx0 (25 / 8) (decimalDivide env0 ctx0 (SQLITE_BLOB a) (SQLITE_BLOB b))"
proof -
  note f = finite_value_a finite_value_b
  have v: "dn_value value_a = 25 / 2" "dn_value value_b = 4"
    by (simp_all add: value_a_def value_b_def dn_value_def coeff_def D2U_eq power_int_def decNumberIsNegative_def)
  have bl: "blob (replicate 24 0) z = Some (encode z)" if "finite_number z" for z using blob_encode [of z "replicate 24 0"] that by (simp add: finite_number_def)
  have c: "full_context ctx0" unfolding full_context_def context_fits_def settled_def by code_simp
  have e: "env_ok env0" "env_mem env0 DECINF_MAXSIZE" by (simp_all add: env_ok_def env0_def localZero_def)
  have limits: "emin ctx0 = - 999999999" "emax ctx0 = 999999999" by code_simp+
  have "in_range ctx0 (33 / 2)" "in_range ctx0 (17 / 2)" "in_range ctx0 50" "in_range ctx0 (25 / 8)"
    using in_range_exact [of ctx0 "33 / 2" 165 "- 1"] in_range_exact [of ctx0 "17 / 2" 85 "- 1"] in_range_exact [of ctx0 50 50 0]
      in_range_exact [of ctx0 "25 / 8" 3125 "- 3"] c limits
    by (simp_all add: power_int_def power_divide full_context_def DECNUMDIGITS_def)
  moreover have "memory_granted (env_mem env0)" by (simp add: memory_granted_def list_all_iff env0_def)
  ultimately show ?thesis using sql_arithmetic [OF c e f bl [OF f(1)] bl [OF f(2)]] bl [OF f(1)] bl [OF f(2)] unfolding v by simp
qed

end
