(* ===== verification/SqlAggregate.thy ===== *)
theory SqlAggregate
  imports SqlSpec
begin

text \<open>
  The aggregates: the steps over the rows of a group and the final call are the function of many arguments applied to the column.
\<close>

section \<open>Running an aggregate\<close>

text \<open>The steps over the rows; an error of a step ends the statement.\<close>

fun run_steps ::
  "(decContext \<Rightarrow> AggregateData option \<Rightarrow> sqlite3_value list \<Rightarrow> (decContext \<times> AggregateData option \<times> sql_result option) option) \<Rightarrow>
    decContext \<Rightarrow> AggregateData option \<Rightarrow> sqlite3_value list \<Rightarrow> (decContext \<times> (sql_result + AggregateData option)) option" where
  "run_steps step ctx data [] = Some (ctx, Inr data)"
| "run_steps step ctx data (v # vs) = do {
     (ctx, data, e) \<leftarrow> step ctx data [v];
     (case e of Some (result_error m) \<Rightarrow> Some (ctx, Inl (result_error m)) | Some result_error_nomem \<Rightarrow> Some (ctx, Inl result_error_nomem)
      | _ \<Rightarrow> run_steps step ctx data vs)
   }"

definition run_aggregate ::
  "(decContext \<Rightarrow> AggregateData option \<Rightarrow> sqlite3_value \<Rightarrow> (decContext \<times> AggregateData option \<times> sql_result option) option) \<Rightarrow>
    (decContext \<Rightarrow> AggregateData option \<Rightarrow> (decContext \<times> sql_result option) option) \<Rightarrow>
    decContext \<Rightarrow> AggregateData \<Rightarrow> sqlite3_value list \<Rightarrow> call" where
  "run_aggregate step final ctx fresh vs = do {
     (ctx, r) \<leftarrow> run_steps (stepFunc step) ctx (Some fresh) vs;
     (case r of Inl e \<Rightarrow> Some (ctx, e) | Inr data \<Rightarrow> do { (ctx, res) \<leftarrow> final ctx data; Some (ctx, case res of Some r \<Rightarrow> r | None \<Rightarrow> result_null) })
   }"

text \<open>The errors of decoding are error results.\<close>

definition is_error :: "sql_result \<Rightarrow> bool" where
  "is_error r \<longleftrightarrow> (case r of result_error m \<Rightarrow> True | result_error_nomem \<Rightarrow> True | _ \<Rightarrow> False)"

lemma decode_error: "decode env ctx v = Some (ctx', Inl e) \<Longrightarrow> \<exists>m. e = result_error m"
  by (auto simp: decode_def bind_eq_Some_conv checkStatus_def Let_def split: option.splits if_splits prod.splits)

text \<open>Rows that are NULL are passed over.\<close>

lemma run_steps_null: "run_steps (stepFunc f) ctx data (filter (\<lambda>v. \<not> is_null v) vs) = run_steps (stepFunc f) ctx data vs"
proof (induction vs arbitrary: ctx data)
  case (Cons v vs)
  then show ?case by (cases "is_null v"; cases "f ctx data v") (auto simp: stepFunc_def split: option.split sql_result.split)
qed simp

section \<open>Sums and extremes\<close>

text \<open>With a row in the group already, the steps are the loop over further arguments.\<close>

lemma run_steps_fold:
  assumes "0 < n" "n + length vs < 2 ^ 32" "list_all (\<lambda>v. \<not> is_null v) vs"
  shows "run_steps (stepFunc (aggregateStep f env)) ctx (Some \<lparr>agg_value = res, agg_count = of_nat n\<rparr>) vs =
    map_option (\<lambda>(ctx, r). (ctx, case r of Inl e \<Rightarrow> Inl e | Inr res \<Rightarrow> Inr (Some \<lparr>agg_value = res, agg_count = of_nat (n + length vs)\<rparr>)))
      (decimalFold f env ctx res vs)"
  using assms
proof (induction vs arbitrary: n ctx res)
  case (Cons v vs)
  have nz: "of_nat n \<noteq> (0 :: uInt)" using Cons.prems(1,2) by (simp add: word_of_nat_eq_0_iff nat_dvd_not_less)
  have nn: "\<not> is_null v" using Cons.prems(3) by simp
  show ?case
  proof (cases "decode env ctx v")
    case None
    then show ?thesis using nn by (simp add: stepFunc_def aggregateStep_def)
  next
    case (Some p)
    then obtain c r where d: "decode env ctx v = Some (c, r)" by (cases p) auto
    show ?thesis
    proof (cases r)
      case (Inl e)
      then obtain m where "e = result_error m" using d decode_error by blast
      then show ?thesis using nn d Inl by (simp add: stepFunc_def aggregateStep_def)
    next
      case (Inr dn)
      show ?thesis
      proof (cases "f (env_mem env) res res dn c")
        case None
        then show ?thesis using nn d Inr nz by (simp add: stepFunc_def aggregateStep_def)
      next
        case (Some q)
        then obtain res' c' where q: "f (env_mem env) res res dn c = Some (res', c')" by (cases q) auto
        have e: "n + length (v # vs) = n + 1 + length vs" by simp
        have "run_steps (stepFunc (aggregateStep f env)) ctx (Some \<lparr>agg_value = res, agg_count = of_nat n\<rparr>) (v # vs) =
            run_steps (stepFunc (aggregateStep f env)) c' (Some \<lparr>agg_value = res', agg_count = of_nat (n + 1)\<rparr>) vs"
          using nn d Inr nz q by (simp add: stepFunc_def aggregateStep_def add.commute)
        moreover have "decimalFold f env ctx res (v # vs) = decimalFold f env c' res' vs" using d Inr q by simp
        ultimately show ?thesis unfolding e using Cons.IH [of "n + 1" c' res'] Cons.prems(2,3) by simp
      qed
    qed
  qed
qed simp

lemma run_aggregate_opn:
  assumes vs: "vs \<noteq> []" "length vs < 2 ^ 32" "list_all (\<lambda>v. \<not> is_null v) vs" and fresh: "agg_count fresh = 0"
    and fin: "\<And>data ctx. finalize env data ctx = Some (agg_value data, ctx)"
  shows "run_aggregate (aggregateStep f env) (aggregateFinal dflt finalize env) ctx fresh vs = decimalOpn f dflt' env ctx vs"
proof -
  obtain v ws where v: "vs = v # ws" using vs(1) by (cases vs) auto
  have nn: "\<not> is_null v" using vs(3) v by simp
  show ?thesis
  proof (cases "decode env ctx v")
    case None
    then show ?thesis using nn by (simp add: v run_aggregate_def stepFunc_def aggregateStep_def decimalOpn_def with_arg_def)
  next
    case (Some p)
    then obtain c r where d: "decode env ctx v = Some (c, r)" by (cases p) auto
    show ?thesis
    proof (cases r)
      case (Inl e)
      then obtain m where "e = result_error m" using d decode_error by blast
      then show ?thesis using nn d Inl
        by (simp add: v run_aggregate_def stepFunc_def aggregateStep_def decimalOpn_def with_arg_def)
    next
      case (Inr dn)
      have step: "run_steps (stepFunc (aggregateStep f env)) ctx (Some fresh) vs =
          run_steps (stepFunc (aggregateStep f env)) c (Some \<lparr>agg_value = dn, agg_count = of_nat 1\<rparr>) ws"
        using nn d Inr fresh by (cases fresh) (simp add: v stepFunc_def aggregateStep_def)
      have nz: "of_nat (1 + length ws) \<noteq> (0 :: uInt)" using vs(2) unfolding v word_of_nat_eq_0_iff by (simp add: nat_dvd_not_less)
      show ?thesis
      proof (cases "decimalFold f env c dn ws")
        case None
        then show ?thesis using step run_steps_fold [of 1 ws f env c dn] vs v d Inr
          by (simp add: run_aggregate_def decimalOpn_def with_arg_def)
      next
        case (Some q)
        then obtain c' r' where q: "decimalFold f env c dn ws = Some (c', r')" by (cases q) auto
        then show ?thesis using step run_steps_fold [of 1 ws f env c dn] vs v d Inr nz
          by (cases r') (simp_all add: run_aggregate_def decimalOpn_def with_arg_def aggregateFinal_def fin split_beta)
      qed
    qed
  qed
qed

lemma run_aggregate_null:
  "run_aggregate step final ctx fresh (filter (\<lambda>v. \<not> is_null v) vs) = run_aggregate step final ctx fresh vs"
  by (simp add: run_aggregate_def run_steps_null)

lemma run_aggregate_column:
  assumes "filter (\<lambda>v. \<not> is_null v) vs \<noteq> []" "length vs < 2 ^ 32" "agg_count fresh = 0"
  shows "run_aggregate (aggregateStep f env) (aggregateFinal dflt aggrNoOp env) ctx fresh vs =
    decimalOpn f dflt' env ctx (filter (\<lambda>v. \<not> is_null v) vs)"
  unfolding run_aggregate_null [of _ _ _ _ vs, symmetric]
  using assms le_less_trans [OF length_filter_le assms(2)]
  by (intro run_aggregate_opn) (auto simp: aggrNoOp_def list_all_iff)

section \<open>Properties\<close>



section \<open>A limit\<close>

text \<open>After \<open>2 ^ 32\<close> rows the count of rows is zero again, and the next row replaces the sum.\<close>

lemma row_count_wraps:
  assumes "decode env ctx v = Some (c, Inr x)" "decNumberAdd (env_mem env) s s x c = Some (s', c')" "decode env c' w = Some (c'', Inr y)"
    and "\<not> is_null v" "\<not> is_null w"
  shows "run_steps (stepFunc (decimalSumStep env)) ctx (Some \<lparr>agg_value = s, agg_count = 0xFFFFFFFF\<rparr>) [v, w] =
    Some (c'', Inr (Some \<lparr>agg_value = y, agg_count = 1\<rparr>))"
  using assms by (simp add: decimalSumStep_def stepFunc_def aggregateStep_def)

end
