(* ===== verification/DnCancel.thy ===== *)
theory DnCancel
  imports DnArith
begin

text \<open>
  Sums that are zero, and what a running sum needs: a result of addition can be an operand of the next one.
\<close>

section \<open>Finishing a zero\<close>

text \<open>A context whose exponent limits have at most nine digits.\<close>

definition nine_digit_limits :: "decContext \<Rightarrow> bool" where
  "nine_digit_limits ctx \<longleftrightarrow> context_fits ctx \<and> 0 \<le> emax ctx \<and> emax ctx \<le> 999999999 \<and> emin ctx \<le> 0 \<and> - 999999999 \<le> emin ctx"

text \<open>Exponents of numbers with 39 digits and an adjusted exponent of nine digits.\<close>

definition exponent_bounded :: "int \<Rightarrow> bool" where
  "exponent_bounded e \<longleftrightarrow> - 1000000037 \<le> e \<and> e \<le> 999999999"

lemma zero_is_zero: "dn_ok dn \<Longrightarrow> coeff dn = 0 \<Longrightarrow> \<not> decNumberIsSpecial dn \<Longrightarrow> decNumberIsZero dn"
  using zero_coeff by blast

lemma finishNormal_zero:
  assumes ctx: "nine_digit_limits ctx" and dn: "decNumberIsZero dn" "exponent_bounded (exponent dn)"
  shows "\<exists>e st'. finishNormal dn ctx 0 st = Some (dn\<lparr>exponent := e\<rparr>, 0, st') \<and> exponent_bounded e \<and> (st' = st \<or> st' = st OR DEC_Clamped)"
proof -
  have c: "clamp ctx = 0" "exponent_bounded (emax ctx)" using ctx by (simp_all add: nine_digit_limits_def context_fits_def exponent_bounded_def)
  have same: "dn\<lparr>exponent := exponent dn\<rparr> = dn" by simp
  show ?thesis
  proof (cases "exponent dn > emax ctx")
    case True
    moreover have "1 \<le> digits dn" using dn(1) by (simp add: decNumberIsZero_def)
    ultimately have "finishNormal dn ctx 0 st = Some (dn\<lparr>exponent := emax ctx\<rparr>, 0, st OR DEC_Clamped)"
      using dn(1) c(1) ctx unfolding finishNormal_def decSetOverflow_def by (simp add: nine_digit_limits_def context_fits_def)
    then show ?thesis using c(2) by blast
  next
    case False
    then have "finishNormal dn ctx 0 st = Some (dn\<lparr>exponent := exponent dn\<rparr>, 0, st)"
      using dn(1) c(1) unfolding finishNormal_def decSetOverflow_def by (simp add: Let_def)
    then show ?thesis using dn(2) by blast
  qed
qed

lemma decFinalize_zero:
  assumes ctx: "nine_digit_limits ctx" and dn: "dn_ok dn" "coeff dn = 0" "\<not> decNumberIsSpecial dn" "exponent_bounded (exponent dn)"
  shows "\<exists>e st'. decFinalize mem dn ctx 0 st = Some (dn\<lparr>exponent := e\<rparr>, 0, st') \<and> exponent_bounded e \<and> (st' = st \<or> st' = st OR DEC_Clamped)"
proof -
  have z: "decNumberIsZero dn" by (rule zero_is_zero [OF dn(1-3)])
  have d: "digits dn = 1" using z by (simp add: decNumberIsZero_def)
  define nmin where "nmin = \<lparr>digits = 1, exponent = emin ctx, bits = 0, lsu = 1 # replicate (DECNUMUNITS - 1) 0\<rparr>"
  have nm: "numeric nmin" by (simp add: nmin_def numeric_def dn_ok_def coeff_def D2U_eq decNumberIsNaN_def decNumberIsInfinite_def DECNUMDIGITS_def)
  have fin: "numeric dn" using dn d by (simp add: numeric_def special_kinds DECNUMDIGITS_def)
  obtain c where c: "decCompare mem dn nmin True = Some (Some c)"
    using decCompare_signless [of mem dn nmin] decCompare_signed [of "dn_abs dn" "dn_abs nmin" mem] fin nm by auto
  consider (sub) "exponent dn < emin ctx" | (nor) "\<not> exponent dn < emin ctx" by blast
  then show ?thesis
  proof cases
    case sub
    have "exponent_bounded (emin ctx - (ctx_digits ctx - 1))"
      using ctx by (simp add: nine_digit_limits_def context_fits_def exponent_bounded_def DECNUMDIGITS_def)
    moreover have "decFinalize mem dn ctx 0 st = (if exponent dn < emin ctx - (ctx_digits ctx - 1)
        then Some (dn\<lparr>exponent := emin ctx - (ctx_digits ctx - 1)\<rparr>, 0, st OR DEC_Clamped) else Some (dn\<lparr>exponent := exponent dn\<rparr>, 0, st))"
      using sub d z by (simp add: decFinalize_def decSetSubnormal_def Let_def)
    ultimately show ?thesis using dn(4) by (cases "exponent dn < emin ctx - (ctx_digits ctx - 1)") (simp only: if_True if_False, blast)+
  next
    case nor
    then have "decFinalize mem dn ctx 0 st = finishNormal dn ctx 0 st"
      using d c unfolding decFinalize_def Let_def nmin_def [symmetric] by auto
    then show ?thesis using finishNormal_zero [OF ctx z dn(4)] by simp
  qed
qed

section \<open>Sums that are zero\<close>

text \<open>A zero as a result.\<close>

definition zero_result :: "uInt \<Rightarrow> decNumber \<times> uInt \<Rightarrow> bool" where
  "zero_result st r \<longleftrightarrow> (case r of (dn, st') \<Rightarrow>
     dn_ok dn \<and> length (lsu dn) = DECNUMUNITS \<and> \<not> decNumberIsSpecial dn \<and> digits dn = 1 \<and> coeff dn = 0 \<and> exponent_bounded (exponent dn) \<and>
     (st' = st \<or> st' = st OR DEC_Clamped))"

text \<open>A zero of one digit, however its units are held.\<close>

lemma zero_holds:
  assumes "holds us d 0" "\<not> decNumberIsSpecial dn"
  shows "dn_ok (dn\<lparr>lsu := us, digits := 1\<rparr>)" "coeff (dn\<lparr>lsu := us, digits := 1\<rparr>) = 0" "\<not> decNumberIsSpecial (dn\<lparr>lsu := us, digits := 1\<rparr>)"
proof -
  obtain n where n: "D2U d = Suc n" using assms(1) by (cases "D2U d") (auto simp: holds_def D2U_eq)
  obtain u vs where us: "us = u # vs" using assms(1) n by (cases us) (auto simp: holds_def)
  have u: "u = 0" "D2U 1 = 1" using assms(1) n us by (auto simp: holds_def word_unat_eq_iff D2U_eq)
  show c: "coeff (dn\<lparr>lsu := us, digits := 1\<rparr>) = 0" by (simp add: coeff_def us u)
  show "dn_ok (dn\<lparr>lsu := us, digits := 1\<rparr>)" unfolding dn_ok_def c by (simp add: us u)
  show "\<not> decNumberIsSpecial (dn\<lparr>lsu := us, digits := 1\<rparr>)" using assms(2) by (simp add: decNumberIsSpecial_def)
qed

lemma finishAdd_zero:
  assumes ctx: "nine_digit_limits ctx" and dn: "dn_ok dn" "coeff dn = 0" "\<not> decNumberIsSpecial dn" "exponent_bounded (exponent dn)" "length (lsu dn) = DECNUMUNITS"
  obtains e st' where "finishAdd mem dn ctx 0 st = Some (dn\<lparr>exponent := e\<rparr>, st')" "zero_result st (dn\<lparr>exponent := e\<rparr>, st')"
proof -
  obtain e st' where f: "decFinalize mem dn ctx 0 st = Some (dn\<lparr>exponent := e\<rparr>, 0, st')" "exponent_bounded e" "st' = st \<or> st' = st OR DEC_Clamped"
    using decFinalize_zero [OF ctx dn(1-4)] by blast
  have "digits dn = 1" using zero_is_zero [OF dn(1-3)] by (simp add: decNumberIsZero_def)
  then have "zero_result st (dn\<lparr>exponent := e\<rparr>, st')" using dn f(2,3) by (simp add: zero_result_def dn_ok_def coeff_def decNumberIsSpecial_def)
  then show thesis using that f(1) by (simp add: finishAdd_def)
qed

text \<open>The sign of a zero does not matter to this.\<close>

lemma zero_result_bits: "zero_result st (dn, st') \<Longrightarrow> b AND DECSPECIAL = 0 \<Longrightarrow> zero_result st (dn\<lparr>bits := b\<rparr>, st')"
  by (auto simp: zero_result_def dn_ok_def coeff_def decNumberIsSpecial_def)

lemma addTail_zero:
  assumes ctx: "nine_digit_limits ctx" and dn: "holds (lsu dn) (digits dn) 0" "\<not> decNumberIsSpecial dn" "exponent_bounded (exponent dn)" "length (lsu dn) = DECNUMUNITS"
  shows "\<exists>s. addTail mem ctx diffsign dn 0 st = Some s \<and> zero_result st s"
proof -
  have h: "0 < D2U (digits dn)" "D2U (digits dn) \<le> length (lsu dn)" "units_ok (take (D2U (digits dn)) (lsu dn))" "units_val (take (D2U (digits dn)) (lsu dn)) = 0"
    using dn(1) D2U_eq [of "digits dn"] by (auto simp: holds_def)
  then have d: "decGetDigits (lsu dn) (D2U (digits dn)) = Some 1" using decGetDigits_val [OF h(1-3)] by (auto simp: digits_of_def)
  have z: "dn_ok (dn\<lparr>digits := 1\<rparr>)" "coeff (dn\<lparr>digits := 1\<rparr>) = 0" "\<not> decNumberIsSpecial (dn\<lparr>digits := 1\<rparr>)" using zero_holds [OF dn(1,2)] by simp_all
  obtain e st' where f: "finishAdd mem (dn\<lparr>digits := 1\<rparr>) ctx 0 st = Some (dn\<lparr>digits := 1, exponent := e\<rparr>, st')" "zero_result st (dn\<lparr>digits := 1, exponent := e\<rparr>, st')"
    by (rule finishAdd_zero [OF ctx z, of mem st]) (use dn(3,4) in simp_all)
  let ?b = "if ctx_round ctx = DEC_ROUND_FLOOR then bits dn OR DECNEG else bits dn AND NOT DECNEG"
  have "(bits dn OR DECNEG) AND DECSPECIAL = 0" "(bits dn AND NOT DECNEG) AND DECSPECIAL = 0"
    using dn(2) by (simp_all add: decNumberIsSpecial_def bit.conj_disj_distrib2 and.assoc)
  then show ?thesis using d f zero_result_bits [OF f(2), of ?b] by (auto simp: addTail_def)
qed

lemma addAligned_zero:
  assumes ctx: "nine_digit_limits ctx" and ops: "addend ctx l" "addend ctx r" "exponent_bounded (exponent l)" and res: "length (lsu res) = DECNUMUNITS"
    and p: "0 \<le> padding" "padding = 0 \<or> digits r + padding \<le> digits l + ctx_digits ctx + 1"
    and W: "int (coeff l) + (if diffsign then - 1 else 1) * int (coeff r) * 10 ^ nat padding = 0"
  shows "\<exists>s. addAligned mem res l r ctx b diffsign padding st = Some s \<and> zero_result st s"
proof -
  let ?p = "ctx_digits ctx"
  have cf: "context_fits ctx" and pc: "2 \<le> ?p" "?p \<le> 39" using ctx by (simp_all add: nine_digit_limits_def context_fits_def DECNUMDIGITS_def)
  obtain acc M res1 where as: "units_ok acc" "acc \<noteq> []" "units_val acc = 0" "M \<le> 38 \<Longrightarrow> length acc \<le> 13"
    and len: "length (lsu res1) = DECNUMUNITS" and r1: "exponent res1 = exponent l" "digits res1 = int (length acc) * 3" and sp: "\<not> decNumberIsSpecial res1"
    and eq: "addAligned mem res l r ctx b diffsign padding st = do {
      (res, residue, st) \<leftarrow>
         (if M \<ge> ?p then do {
            d \<leftarrow> (if digits res1 > ?p then decGetDigits acc (D2U (digits res1)) else Some (digits res1));
            decSetCoeff (res1\<lparr>digits := d\<rparr>) ctx (Some acc) d 0 st
          }
          else do { us \<leftarrow> writeUnits (lsu res1) acc; Some (res1\<lparr>lsu := us\<rparr>, 0, st) });
      addTail mem ctx diffsign res residue st }"
    by (rule addAligned_parts [OF cf ops(1,2) res p refl, of diffsign b mem st]) (simp only: W abs_zero of_nat_0_eq_iff int_eq_iff_numeral of_nat_eq_0_iff, blast)
  have hw: "holds acc (int (length acc) * 3) 0" using holds_whole [OF as(1,2)] as(3) by simp
  show ?thesis
  proof (cases "M \<ge> ?p")
    case True
    have h1: "holds acc 1 0" using dn_ok_holds [OF zero_holds(1) [OF hw sp]] zero_holds(2) [OF hw sp] by simp
    have "decGetDigits acc (length acc) = Some 1" using decGetDigits_val [of "length acc" acc] as(1-3) by (auto simp: digits_of_def)
    then obtain d where d: "(if digits res1 > ?p then decGetDigits acc (D2U (digits res1)) else Some (digits res1)) = Some d" "holds acc d 0" "d \<le> ?p"
      using hw h1 pc by (cases "digits res1 > ?p") (auto simp: r1)
    have "1 \<le> d" using d(2) by (simp add: holds_def)
    then have "D2U d \<le> D2U ?p" using d(3) by (simp add: D2U_eq)
    then have room: "D2U d \<le> length (lsu (res1\<lparr>digits := d\<rparr>))" using context_room [OF cf len] by simp
    obtain u where u: "decSetCoeff (res1\<lparr>digits := d\<rparr>) ctx (Some acc) d 0 st = Some (res1\<lparr>digits := d, lsu := u\<rparr>, 0, st)" "length u = DECNUMUNITS" "holds u d 0"
      using decSetCoeff_fit [OF d(2,3) room, of 0 st] len by (cases res1) auto
    show ?thesis unfolding eq using True d(1) u addTail_zero [OF ctx, of "res1\<lparr>digits := d, lsu := u\<rparr>" mem diffsign st] sp ops(3)
      by (simp add: r1 decNumberIsSpecial_def)
  next
    case False
    have la: "length acc \<le> 13" using as(4) False pc(2) by simp
    let ?dn = "res1\<lparr>lsu := acc @ drop (length acc) (lsu res1)\<rparr>"
    have h: "holds (lsu ?dn) (digits ?dn) 0" using hw la by (simp add: holds_def r1)
    have "writeUnits (lsu res1) acc = Some (lsu ?dn)" using la len by (simp add: writeUnits_def)
    then show ?thesis unfolding eq using False addTail_zero [OF ctx h, of mem diffsign st] sp ops(3) la len by (simp add: r1 decNumberIsSpecial_def)
  qed
qed

text \<open>Operands so far apart that the smaller one is a residue do not cancel.\<close>

lemma far_nonzero:
  assumes "dn_ok l" "dn_ok r" "coeff r \<noteq> 0" "digits r + padding > digits l + 1" "0 \<le> padding"
  shows "int (coeff l) + (if diffsign then - 1 else 1) * int (coeff r) * 10 ^ nat padding \<noteq> 0"
proof -
  have d: "1 \<le> digits l" "1 \<le> digits r" "coeff l < 10 ^ nat (digits l)" using assms(1,2) by (simp_all add: dn_ok_def)
  have "nat (digits l) \<le> nat (digits r) - 1 + nat padding" using assms(4,5) d by linarith
  then have "(10 :: nat) ^ nat (digits l) \<le> 10 ^ (nat (digits r) - 1) * 10 ^ nat padding" unfolding power_add [symmetric] by (rule power_increasing) simp
  also have "\<dots> \<le> coeff r * 10 ^ nat padding" using dn_ok_leading [OF assms(2,3)] by simp
  finally have "int (coeff l) < int (coeff r * 10 ^ nat padding)" using d(3) by linarith
  then show ?thesis by auto
qed

lemma zero_addend: "addend ctx dn \<Longrightarrow> coeff dn = 0 \<Longrightarrow> digits dn = 1"
  using zero_is_zero [of dn] by (simp add: addend_def decNumberIsZero_def)

lemma addZeroLhs_zero:
  assumes ctx: "nine_digit_limits ctx" and ops: "addend ctx lhs" "addend ctx rhs" "coeff rhs = 0" "exponent_bounded (exponent lhs)" "exponent_bounded (exponent rhs)"
    and res: "length (lsu res) = DECNUMUNITS" and n: "negate AND DECSPECIAL = 0"
  shows "\<exists>s. addZeroLhs mem res lhs rhs ctx negate st = Some s \<and> zero_result st s"
proof -
  have cf: "context_fits ctx" using ctx by (simp add: nine_digit_limits_def)
  have d: "digits rhs = 1" "dn_ok rhs" "bits rhs AND DECSPECIAL = 0" "digits rhs \<le> ctx_digits ctx"
    using zero_addend [OF ops(2,3)] ops(2) by (simp_all add: addend_def decNumberIsSpecial_def)
  have h: "holds (lsu rhs) (digits rhs) 0" using dn_ok_holds [OF d(2)] ops(3) by simp
  have room: "D2U (digits rhs) \<le> length (lsu (res\<lparr>bits := bits rhs, exponent := exponent rhs\<rparr>))" using d(1) res by (simp add: D2U_eq)
  obtain u where u: "decCopyFit res rhs ctx 0 st = Some (res\<lparr>bits := bits rhs, exponent := exponent rhs, lsu := u, digits := 1\<rparr>, 0, st)"
      "length u = DECNUMUNITS" "holds u 1 0"
    using decSetCoeff_fit [OF h d(4) room, of 0 st] res d(1) by (auto simp: decCopyFit_def)
  have z: "dn_ok (\<lparr>digits = 1, exponent = e, bits = b, lsu = u\<rparr>) \<and> coeff (\<lparr>digits = 1, exponent = e, bits = b, lsu = u\<rparr>) = 0 \<and>
      \<not> decNumberIsSpecial (\<lparr>digits = 1, exponent = e, bits = b, lsu = u\<rparr>)" if "b AND DECSPECIAL = 0" for e b
    using zero_holds [OF u(3), of "\<lparr>digits = 1, exponent = e, bits = b, lsu = u\<rparr>"] that by (simp add: decNumberIsSpecial_def)
  define b1 where "b1 = bits rhs XOR negate"
  have b1: "b1 AND DECSPECIAL = 0" using d(3) n by (simp add: b1_def bit.conj_xor_distrib2 del: dec_bits)
  define diffsign where "diffsign = ((bits lhs XOR bits rhs XOR negate) AND DECNEG \<noteq> 0)"
  define b2 where "b2 = (if diffsign then if ctx_round ctx \<noteq> DEC_ROUND_FLOOR then 0 else DECNEG else b1)"
  define e where "e = min (exponent lhs) (exponent rhs)"
  have b2: "b2 AND DECSPECIAL = 0" using b1 by (simp add: b2_def)
  have iz: "decNumberIsZero \<lparr>digits = 1, exponent = exponent rhs, bits = b1, lsu = u\<rparr>" using z [OF b1] zero_is_zero by blast
  have "addZeroLhs mem res lhs rhs ctx negate st = finishAdd mem \<lparr>digits = 1, exponent = e, bits = b2, lsu = u\<rparr> ctx 0 st"
    using u(1) iz by (cases res) (auto simp: addZeroLhs_def Let_def diffsign_def b2_def b1_def e_def min_def)
  moreover have "exponent_bounded e" using ops(4,5) by (auto simp: e_def exponent_bounded_def)
  ultimately show ?thesis using finishAdd_zero [OF ctx, of "\<lparr>digits = 1, exponent = e, bits = b2, lsu = u\<rparr>" mem st] z [OF b2] u(2) by fastforce
qed

text \<open>A sum of two numbers that is zero is returned as a zero, and no other condition than \<^verbatim>\<open>Clamped\<close> is raised.\<close>

lemma sum_in_units:
  assumes "padding = exponent r - exponent l" "0 \<le> padding"
  shows "sgn_of sl * magnitude l + sgn_of sr * magnitude r =
    sgn_of sl * (of_int (int (coeff l) + (if sl \<noteq> sr then - 1 else 1) * int (coeff r) * 10 ^ nat padding) * 10 powi exponent l)"
proof -
  have "magnitude r = of_nat (coeff r) * 10 ^ nat padding * 10 powi exponent l"
    using powi_split [of "exponent l" "exponent r"] assms by (simp add: magnitude_def)
  then show ?thesis unfolding sgn_of_simps(3) magnitude_def [of l] by (auto simp: algebra_simps)
qed

lemma signed_zero: "sgn_of s * (of_int w * 10 powi e) = 0 \<Longrightarrow> w = 0"
  by (auto simp: sgn_of_def split: if_splits)

lemma addMain_zero:
  assumes ctx: "nine_digit_limits ctx" and ops: "addend ctx l" "addend ctx r" "exponent_bounded (exponent l)" "coeff r \<noteq> 0" and res: "length (lsu res) = DECNUMUNITS"
    and p: "padding = exponent r - exponent l" "0 \<le> padding" and ds: "diffsign \<longleftrightarrow> sl \<noteq> sr"
    and S: "sgn_of sl * magnitude l + sgn_of sr * magnitude r = 0"
  shows "\<exists>s. addMain mem res l r ctx negate b diffsign swapped padding st = Some s \<and> zero_result st s"
proof -
  let ?W = "int (coeff l) + (if diffsign then - 1 else 1) * int (coeff r) * 10 ^ nat padding"
  have "sgn_of sl * (of_int ?W * 10 powi exponent l) = 0" using S unfolding sum_in_units [OF p] ds .
  then have W: "?W = 0" by (rule signed_zero)
  have ok: "dn_ok l" "dn_ok r" "2 \<le> ctx_digits ctx" using ops ctx by (simp_all add: addend_def nine_digit_limits_def context_fits_def)
  have near: "\<not> (padding \<noteq> 0 \<and> digits r + padding > digits l + ctx_digits ctx + 1)"
    using far_nonzero [OF ok(1,2) ops(4), of padding diffsign] W p(2) ok(3) by linarith
  then show ?thesis unfolding addMain_def using addAligned_zero [OF ctx ops(1-3) res p(2) _ W, of mem b st] by auto
qed

lemma decAddOp_zero:
  assumes ctx: "nine_digit_limits ctx" and ops: "addend ctx lhs" "addend ctx rhs" "exponent_bounded (exponent lhs)" "exponent_bounded (exponent rhs)"
    and negate: "negate = 0 \<or> negate = DECNEG" and res: "length (lsu res) = DECNUMUNITS"
    and S: "dn_value lhs + (if negate = 0 then dn_value rhs else - dn_value rhs) = 0"
  shows "\<exists>s. decAddOp mem res lhs rhs ctx negate st = Some s \<and> zero_result st s"
proof -
  define sl sr where "sl = bit (bits lhs) 7" and "sr = bit (bits rhs XOR negate) 7"
  define diffsign where "diffsign = ((bits lhs XOR bits rhs XOR negate) AND DECNEG \<noteq> 0)"
  have cf: "context_fits ctx" using ctx by (simp add: nine_digit_limits_def)
  have ok: "dn_ok lhs" "dn_ok rhs" "\<not> decNumberIsSpecial lhs" "\<not> decNumberIsSpecial rhs" using ops by (simp_all add: addend_def)
  have n: "negate AND DECSPECIAL = 0" using negate by auto
  have "bit negate 7 \<longleftrightarrow> negate \<noteq> 0" using negate sign_bit [of negate] by auto
  then have Ss: "sgn_of sl * magnitude lhs + sgn_of sr * magnitude rhs = 0"
    using S unfolding magnitude_value negative_bit sl_def sr_def by (auto simp: sgn_of_def bit_xor_iff)
  have ds: "diffsign \<longleftrightarrow> sl \<noteq> sr" unfolding diffsign_def sign_bit sl_def sr_def bit_xor_iff by blast
  have sp: "\<not> (bits lhs OR bits rhs) AND DECSPECIAL \<noteq> 0" using ok(3,4) by (simp add: decNumberIsSpecial_def bit.conj_disj_distrib2)
  have zero: "decNumberIsZero lhs \<longleftrightarrow> coeff lhs = 0" "decNumberIsZero rhs \<longleftrightarrow> coeff rhs = 0" using zero_coeff ok by simp_all
  have both: "coeff lhs = 0 \<longleftrightarrow> coeff rhs = 0" using Ss by (auto simp: magnitude_def sgn_of_def split: if_splits)
  show ?thesis
  proof (cases "coeff lhs = 0")
    case True
    then show ?thesis using addZeroLhs_zero [OF ctx ops(1,2) _ ops(3,4) res n, of mem st] both sp zero unfolding decAddOp_def Let_def by auto
  next
    case False
    then have nz: "coeff lhs \<noteq> 0" "coeff rhs \<noteq> 0" using both by simp_all
    obtain fast where f: "addFast res lhs rhs ctx diffsign = Some fast" "\<And>dn. fast = Some dn \<Longrightarrow>
        exponent rhs = exponent lhs \<and> dn_ok dn \<and> length (lsu dn) = DECNUMUNITS \<and> bits dn = bits lhs \<and> exponent dn = exponent lhs \<and> digits dn \<le> digits lhs \<and>
        int (coeff dn) = int (coeff lhs) + (if diffsign then - 1 else 1) * int (coeff rhs)"
      using addFast_exact [OF ops(1,2) cf res refl] by blast
    show ?thesis
    proof (cases fast)
      case (Some dn)
      note fd = f(2) [OF Some]
      have "exponent rhs - exponent lhs = 0" using fd by simp
      then have "sgn_of sl * (of_int (int (coeff lhs) + (if diffsign then - 1 else 1) * int (coeff rhs)) * 10 powi exponent lhs) = 0"
        using Ss sum_in_units [of 0 rhs lhs sl sr] unfolding ds by simp
      then have "int (coeff lhs) + (if diffsign then - 1 else 1) * int (coeff rhs) = 0" by (rule signed_zero)
      then have c: "coeff dn = 0" using fd by simp
      have sd: "\<not> decNumberIsSpecial dn" using fd ok(3) by (simp add: decNumberIsSpecial_def)
      have "digits dn = 1" using zero_is_zero [OF _ c sd] fd by (simp add: decNumberIsZero_def)
      then have "zero_result st (dn, st)" using fd c sd ops(3) by (simp add: zero_result_def)
      then show ?thesis using f(1) Some sp zero nz by (simp add: decAddOp_def diffsign_def)
    next
      case None
      have eq: "decAddOp mem res lhs rhs ctx negate st =
          (if exponent rhs - exponent lhs < 0 then addMain mem res rhs lhs ctx negate (bits rhs XOR negate) diffsign True (- (exponent rhs - exponent lhs)) st
           else addMain mem res lhs rhs ctx negate (bits lhs) diffsign False (exponent rhs - exponent lhs) st)"
        using f(1) None sp zero nz unfolding decAddOp_def addMain_def Let_def diffsign_def [symmetric] by simp
      show ?thesis
      proof (cases "exponent rhs - exponent lhs < 0")
        case True
        show ?thesis unfolding eq using True Ss ds
            addMain_zero [OF ctx ops(2,1,4) nz(1) res, of "- (exponent rhs - exponent lhs)" diffsign sr sl mem negate "bits rhs XOR negate" True st]
          by (auto simp: add.commute)
      next
        case False
        show ?thesis unfolding eq using False Ss ds
            addMain_zero [OF ctx ops(1-3) nz(2) res, of "exponent rhs - exponent lhs" diffsign sl sr mem negate "bits lhs" False st] by auto
      qed
    qed
  qed
qed

end
