(* ===== verification/SqlSum.thy ===== *)
theory SqlSum
  imports SqlArith SqlAggregate DnCancel
begin

text \<open>
  The sum of a column, from the blobs of the rows to the blob of the result: as long as the partial sums fit the precision, it is the exact sum.
\<close>

section \<open>A running sum\<close>

text \<open>What the running sum is after each row: an operand of the next addition that can be encoded.\<close>

definition running :: "rat \<Rightarrow> decNumber \<Rightarrow> bool" where
  "running v dn \<longleftrightarrow> dn_ok dn \<and> length (lsu dn) = DECNUMUNITS \<and> \<not> decNumberIsSpecial dn \<and> digits dn \<le> int DECNUMDIGITS \<and>
     exponent_bounded (exponent dn) \<and> (coeff dn \<noteq> 0 \<longrightarrow> encodable dn) \<and> dn_value dn = v"

definition sum_context :: "decContext \<Rightarrow> bool" where
  "sum_context ctx \<longleftrightarrow> full_context ctx \<and> nine_digit_limits ctx \<and> traps ctx AND DEC_Clamped = 0"

lemma encodable_exponent: "encodable dn \<Longrightarrow> \<not> decNumberIsSpecial dn \<Longrightarrow> exponent_bounded (exponent dn)"
  by (auto simp: encodable_def exponent_bounded_def adjusted_def dn_ok_def DECNUMDIGITS_def)

lemma finite_running: "finite_number x \<Longrightarrow> running (dn_value x) x"
  using encodable_exponent [of x] by (auto simp: finite_number_def running_def encodable_def)

lemma running_addend: "sum_context ctx \<Longrightarrow> running v dn \<Longrightarrow> addend ctx dn"
  by (auto simp: running_def addend_def exponent_bounded_def sum_context_def full_context_def)

text \<open>The result is written whether or not it is zero.\<close>

lemma running_blob:
  assumes "running v dn" "env_ok env" "env_mem env DECINF_MAXSIZE"
  obtains a where "blob_result env ctx dn = Some (ctx, result_blob a)" "\<And>r. DECINF_MAXSIZE \<le> length r \<Longrightarrow> blob r dn = Some a"
proof (cases "coeff dn = 0")
  case True
  let ?a = "[if decNumberIsNegative dn then 0x60 else 0x80] :: uByte list"
  have z: "decNumberIsZero dn" using assms(1) True zero_is_zero by (auto simp: running_def)
  have len: "0 < length (lsu dn)" using assms(1) by (auto simp: running_def)
  have w: "decInfiniteFromNumber r dn = Some (1, r[0 := hd ?a], dn)" if "0 < length r" for r
    using z len that assms(1) by (simp add: decInfiniteFromNumber_def decNumberIsZero_def running_def poke_def peek_def)
  have t: "take 1 (r[0 := x]) = [x]" if "0 < length r" for r and x :: uByte using that by (cases r) auto
  have e: "0 < length (env_bytes env)" using assms(2) by (simp add: env_ok_def)
  show thesis
  proof (rule that)
    show "blob_result env ctx dn = Some (ctx, result_blob ?a)" using w [OF e] t [OF e] assms(3) by (simp add: blob_result_def decNumberToSQLite3Blob_def)
    show "blob r dn = Some ?a" if "DECINF_MAXSIZE \<le> length r" for r
    proof -
      have "0 < length r" using that by auto
      then show ?thesis using w [of r] t [of r] by (simp add: blob_def)
    qed
  qed
next
  case False
  then have "encodable dn" using assms(1) by (simp add: running_def)
  then show thesis using that blob_result_encode [OF _ assms(2,3)] blob_encode by blast
qed

section \<open>One addition\<close>

text \<open>The conditions a sum may raise when nothing is lost.\<close>

definition harmless :: "uInt \<Rightarrow> bool" where
  "harmless st \<longleftrightarrow> st AND NOT (DEC_Rounded OR DEC_Clamped) = 0"

lemma harmless_cases: "harmless 0" "harmless DEC_Rounded" "harmless DEC_Clamped"
  by (simp_all add: harmless_def, code_simp+)

lemma harmless_or: "harmless a \<Longrightarrow> harmless b \<Longrightarrow> harmless (a OR b)"
  by (simp add: harmless_def bit.conj_disj_distrib2)

lemma sum_context_status:
  assumes "sum_context ctx" "harmless st"
  shows "sum_context (ctx\<lparr>status := status ctx OR st\<rparr>)" "settled (ctx\<lparr>status := status ctx OR st\<rparr>)"
proof -
  have t: "status ctx AND traps ctx = 0" "traps ctx AND (DEC_Inexact OR DEC_Rounded) = 0" "traps ctx AND DEC_Clamped = 0"
    using assms(1) by (simp_all add: sum_context_def full_context_def settled_def)
  then show s: "settled (ctx\<lparr>status := status ctx OR st\<rparr>)" using assms(2) unfolding settled_def harmless_def
    by (auto simp: bit_eq_iff [where 'a = "32 word"] bit_simps)
  then show "sum_context (ctx\<lparr>status := status ctx OR st\<rparr>)"
    using assms(1) by (simp add: sum_context_def full_context_def context_fits_def nine_digit_limits_def)
qed

lemma harmless_applied:
  assumes "harmless st"
  shows "addStatus (Some (dn, st)) ctx = Some (dn, ctx\<lparr>status := status ctx OR st\<rparr>)"
proof -
  have "(DEC_Rounded OR DEC_Clamped) AND DEC_NaNs = 0" by code_simp
  then have "st AND DEC_NaNs = 0" using assms unfolding harmless_def by (auto simp: bit_eq_iff [where 'a = "32 word"] bit_simps)
  then show ?thesis by (simp add: addStatus_def applyStatus_def decStatus_def decContextSetStatus_def)
qed

lemma running_add:
  assumes ctx: "sum_context ctx" and ops: "running a x" "running b y" and s: "a + b = of_int k * 10 powi e" "\<bar>k\<bar> < 10 ^ DECNUMDIGITS"
    and e: "emin ctx \<le> e" "e + int DECNUMDIGITS \<le> emax ctx + 1"
  obtains dn st where "decNumberAdd mem x x y ctx = Some (dn, ctx\<lparr>status := status ctx OR st\<rparr>)" "harmless st" "running (a + b) dn"
proof -
  have full: "full_context ctx" "nine_digit_limits ctx" "context_fits ctx" "ctx_digits ctx = int DECNUMDIGITS"
    using ctx by (simp_all add: sum_context_def full_context_def)
  have ad: "addend ctx x" "addend ctx y" using running_addend [OF ctx] ops by blast+
  have x: "length (lsu x) = DECNUMUNITS" "exponent_bounded (exponent x)" "exponent_bounded (exponent y)" and v: "dn_value x + dn_value y = a + b"
    using ops by (simp_all add: running_def)
  obtain dn st where r: "decAddOp mem x x y ctx 0 0 = Some (dn, st)" "harmless st" "running (a + b) dn"
  proof (cases "a + b = 0")
    case True
    then obtain dn st where "decAddOp mem x x y ctx 0 0 = Some (dn, st)" "zero_result 0 (dn, st)"
      using decAddOp_zero [OF full(2) ad x(2,3) _ x(1), of 0 mem 0] v by auto
    then show thesis using that [of dn st] True harmless_cases by (auto simp: zero_result_def running_def dn_value_def DECNUMDIGITS_def)
  next
    case False
    have m: "\<bar>dn_value x + dn_value y\<bar> = of_nat (nat \<bar>k\<bar>) * 10 powi e" unfolding v s(1) by (simp add: abs_mult)
    have k: "0 < nat \<bar>k\<bar>" "nat \<bar>k\<bar> < 10 ^ nat (ctx_digits ctx)" using False s full(4) by (auto simp: nat_less_iff)
    have rng: "in_range ctx (dn_value x + dn_value y)" using in_range_exact [OF full(3) m k e(1)] e(2) full(4) by simp
    obtain dn st where d: "decAddOp mem x x y ctx 0 0 = Some (dn, st)" "rounded_result ctx (dn_value x + dn_value y < 0) \<bar>dn_value x + dn_value y\<bar> 0 (dn, st)"
        "dn_value dn = a + b" "st = 0 \<or> st = DEC_Rounded"
      using added.exact_kept [OF full(3) ad x(1) rng m k(2) TrueI, of mem 0] unfolding v by auto
    obtain q where "normal_result ctx (dn_value x + dn_value y < 0) \<bar>dn_value x + dn_value y\<bar> q" using rng by (auto simp: in_range_def)
    then have en: "encodable dn" by (rule rounded_encodable [OF full(1) d(2)])
    then have "running (a + b) dn" using d(2,3) full(4) encodable_exponent [OF en] by (simp add: running_def rounded_result_def)
    then show thesis using that [OF d(1)] d(4) harmless_cases by blast
  qed
  have "decNumberAdd mem x x y ctx = Some (dn, ctx\<lparr>status := status ctx OR st\<rparr>)" unfolding decNumberAdd_def r(1) by (rule harmless_applied [OF r(2)])
  then show thesis using that r(2,3) by blast
qed

section \<open>The rows\<close>

text \<open>Every partial sum, in units of the last place, has at most 39 digits.\<close>

fun sums_fit :: "int \<Rightarrow> int list \<Rightarrow> bool" where
  "sums_fit k [] \<longleftrightarrow> \<bar>k\<bar> < 10 ^ DECNUMDIGITS"
| "sums_fit k (j # js) \<longleftrightarrow> \<bar>k\<bar> < 10 ^ DECNUMDIGITS \<and> sums_fit (k + j) js"

lemma sums_fit_hd: "sums_fit k js \<Longrightarrow> \<bar>k\<bar> < 10 ^ DECNUMDIGITS"
  by (cases js) simp_all

text \<open>The value of a row is the blob of a finite number.\<close>

definition row_of :: "uByte list \<Rightarrow> sqlite3_value \<Rightarrow> decNumber \<Rightarrow> bool" where
  "row_of r v x \<longleftrightarrow> finite_number x \<and> (\<exists>a. v = SQLITE_BLOB a \<and> blob r x = Some a)"

lemma decode_row:
  assumes "row_of r v x" "DECINF_MAXSIZE \<le> length r" "env_ok env" "settled ctx"
  obtains y where "decode env ctx v = Some (ctx, Inr y)" "running (dn_value x) y"
proof -
  obtain a where a: "v = SQLITE_BLOB a" "blob r x = Some a" "finite_number x" using assms(1) by (auto simp: row_of_def)
  obtain y where "decode env ctx v = Some (ctx, Inr y)" "finite_number y" "dn_value y = dn_value x"
    unfolding a(1) using decode_finite [OF a(3,2) assms(2-4)] .
  then show thesis using that finite_running by metis
qed

lemma fold_rows:
  assumes r: "DECINF_MAXSIZE \<le> length r" and env: "env_ok env"
  shows "list_all2 (row_of r) vs xs \<Longrightarrow> map dn_value xs = map (\<lambda>k. of_int k * 10 powi e) ks \<Longrightarrow> sum_context ctx \<Longrightarrow>
    emin ctx \<le> e \<Longrightarrow> e + int DECNUMDIGITS \<le> emax ctx + 1 \<Longrightarrow> sums_fit k ks \<Longrightarrow> running (of_int k * 10 powi e) res \<Longrightarrow>
    \<exists>dn st. decimalFold decNumberAdd env ctx res vs = Some (ctx\<lparr>status := status ctx OR st\<rparr>, Inr dn) \<and> harmless st \<and>
      running (of_int (k + sum_list ks) * 10 powi e) dn"
proof (induction vs xs arbitrary: ks k ctx res rule: list_all2_induct)
  case Nil
  then show ?case using harmless_cases(1) by (intro exI [of _ res] exI [of _ 0]) simp
next
  case (Cons v vs x xs)
  obtain j js where ks: "ks = j # js" "dn_value x = of_int j * 10 powi e" "map dn_value xs = map (\<lambda>k. of_int k * 10 powi e) js"
    using Cons.prems(1) by (cases ks) auto
  have settled: "settled ctx" using Cons.prems(2) by (simp add: sum_context_def full_context_def)
  obtain y where y: "decode env ctx v = Some (ctx, Inr y)" "running (dn_value x) y" using decode_row [OF Cons.hyps(1) r env settled] .
  have s: "of_int k * 10 powi e + dn_value x = of_int (k + j) * (10 :: rat) powi e" unfolding ks(2) by (simp add: distrib_right)
  have fit: "sums_fit (k + j) js" "\<bar>k + j\<bar> < 10 ^ DECNUMDIGITS" using Cons.prems(5) ks(1) sums_fit_hd by auto
  obtain dn st where d: "decNumberAdd (env_mem env) res res y ctx = Some (dn, ctx\<lparr>status := status ctx OR st\<rparr>)" "harmless st"
      "running (of_int (k + j) * 10 powi e) dn"
    using running_add [OF Cons.prems(2,6) y(2) s fit(2) Cons.prems(3,4)] unfolding s .
  let ?ctx = "ctx\<lparr>status := status ctx OR st\<rparr>"
  obtain dn' st' where d': "decimalFold decNumberAdd env ?ctx dn vs = Some (?ctx\<lparr>status := status ?ctx OR st'\<rparr>, Inr dn')" "harmless st'"
      "running (of_int (k + j + sum_list js) * 10 powi e) dn'"
    using Cons.IH [OF ks(3) sum_context_status(1) [OF Cons.prems(2) d(2)] _ _ fit(1) d(3)] Cons.prems(3,4) by auto
  have "decimalFold decNumberAdd env ctx res (v # vs) = Some (ctx\<lparr>status := status ctx OR (st OR st')\<rparr>, Inr dn')"
    using y(1) d(1) d'(1) by (simp add: or.assoc)
  then show ?case using harmless_or [OF d(2) d'(2)] d'(3) ks(1) by (auto simp: add.assoc)
qed

section \<open>Property\<close>

text \<open>
  C3. The sum of a column is exact.  Let the rows of a group that are not NULL hold the encodings of finite numbers that are all multiples of
  one power of ten, such as amounts with two decimals, and let every partial sum have at most 39 digits in this unit.  Then \<^verbatim>\<open>decSum\<close>, with the steps over
  the rows and the final call, in a context of precision 39 that traps none of \<^verbatim>\<open>Inexact\<close>, \<^verbatim>\<open>Rounded\<close> and \<^verbatim>\<open>Clamped\<close> and has no trapped condition pending, with memory for
  the result, returns the encoding of a number whose value is exactly the sum of the values, and of the
  conditions at most \<^verbatim>\<open>Rounded\<close> and \<^verbatim>\<open>Clamped\<close>, never \<^verbatim>\<open>Inexact\<close>, are added to the shared status.
\<close>

theorem sum_exact:
  assumes ctx: "sum_context ctx" and env: "env_ok env" "env_mem env DECINF_MAXSIZE" and r: "DECINF_MAXSIZE \<le> length r"
    and rows: "length vs < 2 ^ 32" "list_all2 (row_of r) (filter (\<lambda>v. \<not> is_null v) vs) xs" "xs \<noteq> []" and fresh: "agg_count fresh = 0"
    and val: "map dn_value xs = map (\<lambda>k. of_int k * 10 powi e) ks" "sums_fit 0 ks" "emin ctx \<le> e" "e + int DECNUMDIGITS \<le> emax ctx + 1"
  shows "\<exists>dn st a. run_aggregate (decimalSumStep env) (decimalSumFinal env) ctx fresh vs = Some (ctx\<lparr>status := status ctx OR st\<rparr>, result_blob a) \<and>
    blob r dn = Some a \<and> dn_value dn = of_int (sum_list ks) * 10 powi e \<and> harmless st"
proof -
  obtain v ws x zs where vs: "filter (\<lambda>v. \<not> is_null v) vs = v # ws" "xs = x # zs" using rows(2,3) by (cases "filter (\<lambda>v. \<not> is_null v) vs"; cases xs) auto
  have row: "row_of r v x" "list_all2 (row_of r) ws zs" using rows(2) vs by simp_all
  obtain j js where ks: "ks = j # js" "dn_value x = of_int j * 10 powi e" "map dn_value zs = map (\<lambda>k. of_int k * 10 powi e) js"
    using val(1) vs(2) by (cases ks) auto
  have settled: "settled ctx" using ctx by (simp add: sum_context_def full_context_def)
  obtain y where y: "decode env ctx v = Some (ctx, Inr y)" "running (dn_value x) y" using decode_row [OF row(1) r env(1) settled] .
  obtain dn st where d: "decimalFold decNumberAdd env ctx y ws = Some (ctx\<lparr>status := status ctx OR st\<rparr>, Inr dn)" "harmless st"
      "running (of_int (j + sum_list js) * 10 powi e) dn"
    using fold_rows [OF r env(1) row(2) ks(3) ctx val(3,4), of j y] val(2) y(2) ks(1,2) by auto
  obtain a where a: "blob_result env (ctx\<lparr>status := status ctx OR st\<rparr>) dn = Some (ctx\<lparr>status := status ctx OR st\<rparr>, result_blob a)" "blob r dn = Some a"
    using running_blob [OF d(3) env] r by metis
  have "decimalAdd env ctx (v # ws) = Some (ctx\<lparr>status := status ctx OR st\<rparr>, result_blob a)"
    using y(1) d(1) a(1) checked_settled [OF sum_context_status(2) [OF ctx d(2)]] by (simp add: decimalAdd_def decimalOpn_def with_arg_def)
  moreover have "run_aggregate (decimalSumStep env) (decimalSumFinal env) ctx fresh vs = decimalAdd env ctx (v # ws)"
    unfolding decimalSumStep_def decimalSumFinal_def decimalAdd_def vs(1) [symmetric]
    using vs(1) by (intro run_aggregate_column rows(1) fresh) simp
  ultimately show ?thesis using a(2) d(2,3) ks(1) by (auto simp: running_def)
qed

text \<open>In the default context, the column with \<open>12.5\<close>, NULL and \<open>4\<close>.\<close>

theorem sum_exact_witness:
  "\<exists>p q. blob (replicate 24 0) value_a = Some p \<and> blob (replicate 24 0) value_b = Some q \<and>
    (\<exists>dn st a. run_aggregate (decimalSumStep env0) (decimalSumFinal env0) ctx0 \<lparr>agg_value = localZero, agg_count = 0\<rparr> [SQLITE_BLOB p, SQLITE_NULL, SQLITE_BLOB q] =
        Some (ctx0\<lparr>status := status ctx0 OR st\<rparr>, result_blob a) \<and>
      blob (replicate 24 0) dn = Some a \<and> dn_value dn = of_int (sum_list [125, 40]) * 10 powi (- 1) \<and> harmless st)"
proof -
  note f = finite_value_a finite_value_b
  have v: "map dn_value [value_a, value_b] = map (\<lambda>k. of_int k * 10 powi (- 1)) [125, 40]"
    by (simp add: value_a_def value_b_def dn_value_def coeff_def D2U_eq power_int_def decNumberIsNegative_def)
  have bl: "blob (replicate 24 0) z = Some (encode z)" if "finite_number z" for z using blob_encode [of z "replicate 24 0"] that by (simp add: finite_number_def)
  have c: "sum_context ctx0" unfolding sum_context_def full_context_def nine_digit_limits_def context_fits_def settled_def by code_simp
  have e: "env_ok env0" "env_mem env0 DECINF_MAXSIZE" by (simp_all add: env_ok_def env0_def localZero_def)
  have limits: "emin ctx0 \<le> - 1" "- 1 + int DECNUMDIGITS \<le> emax ctx0 + 1" by code_simp+
  let ?vs = "[SQLITE_BLOB (encode value_a), SQLITE_NULL, SQLITE_BLOB (encode value_b)]"
  have rows: "list_all2 (row_of (replicate 24 0)) (filter (\<lambda>v. \<not> is_null v) ?vs) [value_a, value_b]" using f bl by (simp add: row_of_def is_null_def)
  have fit: "sums_fit 0 [125, 40]" by (simp add: DECNUMDIGITS_def)
  show ?thesis using sum_exact [OF c e _ _ rows _ _ v fit limits, of "\<lparr>agg_value = localZero, agg_count = 0\<rparr>"] bl [OF f(1)] bl [OF f(2)] by simp
qed

end
