(* ===== verification/DnInt.thy ===== *)
theory DnInt
  imports DnMultiplySpec
begin

text \<open>
  Conversions between numbers and 32-bit integers are exact, and they refuse what does not fit.
\<close>

section \<open>From integers\<close>

lemma uintUnits_val:
  "unat uin < 1000 ^ k \<Longrightarrow> up + k \<le> length us \<Longrightarrow>
   \<exists>ws. uintUnits uin us up = Some (up + length ws, take up us @ ws @ drop (up + length ws) us) \<and> length ws \<le> k \<and> units_ok ws \<and> units_val ws = unat uin"
proof (induction k arbitrary: uin us up)
  case 0
  then show ?case by (intro exI [of _ "[]"]) (simp add: uintUnits.simps unsigned_eq_0_iff)
next
  case (Suc k)
  show ?case
  proof (cases "uin = 0")
    case True
    then show ?thesis by (intro exI [of _ "[]"]) (simp add: uintUnits.simps)
  next
    case False
    define u where "u = (ucast (uin mod 1000) :: Unit)"
    have m: "unat (uin mod 1000) = unat uin mod 1000" "unat (uin div 1000) = unat uin div 1000" by (simp_all add: unat_mod unat_div)
    then have u: "unat u = unat uin mod 1000" using unat_ucast_Unit [of "uin mod 1000"] by (simp add: u_def)
    have up: "up < length us" using Suc.prems(2) by simp
    have "unat (uin div 1000) < 1000 ^ k" using Suc.prems(1) unfolding m by (simp add: less_mult_imp_div_less mult.commute)
    then obtain ws where ws: "uintUnits (uin div 1000) (us[up := u]) (up + 1) =
          Some (up + 1 + length ws, take (up + 1) (us[up := u]) @ ws @ drop (up + 1 + length ws) (us[up := u]))"
        "length ws \<le> k" "units_ok ws" "units_val ws = unat (uin div 1000)"
      using Suc.IH [of "uin div 1000" "up + 1" "us[up := u]"] Suc.prems(2) by auto
    have "uintUnits uin us up = uintUnits (uin div 1000) (us[up := u]) (up + 1)"
      using False up by (simp add: uintUnits.simps [of uin] word_gt_0 u_def poke_def)
    also have "\<dots> = Some (up + length (u # ws), take up us @ (u # ws) @ drop (up + length (u # ws)) us)"
      unfolding ws(1) using up by (simp add: take_Suc_conv_app_nth list_update_append)
    finally show ?thesis using ws(2-4) u m(2) by (intro exI [of _ "u # ws"]) simp
  qed
qed

lemma decNumberFromUInt32_val:
  assumes "4 \<le> length (lsu dn0)"
  obtains dn where "decNumberFromUInt32 dn0 uin = Some dn" "dn_ok dn" "coeff dn = unat uin" "exponent dn = 0" "bits dn = 0"
    "length (lsu dn) = length (lsu dn0)" "digits dn \<le> 12"
proof -
  obtain u us where us: "lsu dn0 = u # us" using assms by (cases "lsu dn0") auto
  let ?z = "decNumberZero dn0"
  have z: "lsu ?z = 0 # us" "digits ?z = 1" "exponent ?z = 0" "bits ?z = 0" using us by (simp_all add: decNumberZero_def)
  have D1: "D2U 1 = 1" by (simp add: D2U_eq)
  show thesis
  proof (cases "uin = 0")
    case True
    have "dn_ok ?z" "coeff ?z = 0" using z us by (simp_all add: dn_ok_def coeff_def D1)
    then show thesis using that [of ?z] True z us by (simp add: decNumberFromUInt32_def)
  next
    case False
    have "unat uin < 1000 ^ 4" using unsigned_less [of uin, where 'a = nat] by simp
    then obtain ws where ws: "uintUnits uin (lsu ?z) 0 = Some (length ws, ws @ drop (length ws) (lsu ?z))" "length ws \<le> 4" "units_ok ws" "units_val ws = unat uin"
      using uintUnits_val [of uin 4 0 "lsu ?z"] assms us z by auto
    have nz: "units_val ws \<noteq> 0" using ws(4) False by (simp add: unsigned_eq_0_iff)
    then have ne: "ws \<noteq> []" by auto
    let ?l = "ws @ drop (length ws) (lsu ?z)"
    have "holds ?l (int (length ws) * 3) (units_val ws)" using holds_whole [OF ws(3) ne] by (simp add: holds_def)
    then obtain d where d: "decGetDigits ?l (length ws) = Some d" "d \<le> int (length ws) * 3" "holds ?l d (units_val ws)" "10 ^ (nat d - 1) \<le> units_val ws"
      using trimmed [OF _ nz] by fastforce
    let ?n = "?z\<lparr>lsu := ?l, digits := d\<rparr>"
    have c: "coeff ?n = unat uin" using holds_coeff [of ?n] d(3) ws(4) by simp
    have "dn_ok ?n" unfolding dn_ok_holds_iff c using d(3,4) ws(4) by simp
    moreover have "decNumberFromUInt32 dn0 uin = Some ?n" using ws(1) d(1) False by (simp add: decNumberFromUInt32_def Let_def)
    ultimately show thesis using that [of ?n] c z d(2) ws(2) us assms by simp
  qed
qed

lemma decNumberFromInt32_val:
  assumes "4 \<le> length (lsu dn0)" "- (2 ^ 31) \<le> i" "i < 2 ^ 31"
  obtains dn where "decNumberFromInt32 dn0 i = Some dn" "dn_ok dn" "dn_value dn = of_int i" "exponent dn = 0" "\<not> decNumberIsSpecial dn"
    "length (lsu dn) = length (lsu dn0)" "digits dn \<le> 12"
proof -
  define uin :: uInt where "uin = (if i \<ge> 0 then of_int i else if i = BADINT then 1073741824 * 2 else of_int (- i))"
  have "unat (of_int k :: uInt) = nat k" if "0 \<le> k" "k < 2 ^ 32" for k using that by (simp add: unat_eq_nat_uint uint_word_of_int_eq take_bit_int_eq_self)
  then have uin: "unat uin = nat \<bar>i\<bar>" using assms(2,3) by (auto simp: uin_def BADINT_def simp del: of_int_minus)
  obtain dn where dn: "decNumberFromUInt32 dn0 uin = Some dn" "dn_ok dn" "coeff dn = unat uin" "exponent dn = 0" "bits dn = 0"
      "length (lsu dn) = length (lsu dn0)" "digits dn \<le> 12"
    using decNumberFromUInt32_val [OF assms(1)] .
  let ?n = "if i < 0 then dn\<lparr>bits := DECNEG\<rparr> else dn"
  have "dn_ok ?n" "coeff ?n = coeff dn" using dn(2) by (simp_all add: dn_ok_def coeff_def)
  moreover have "decNumberFromInt32 dn0 i = Some ?n" using dn(1) by (simp add: decNumberFromInt32_def uin_def [symmetric])
  moreover have "dn_value ?n = of_int i" using dn(4,5) uin dn(3) by (auto simp: dn_value_def decNumberIsNegative_def coeff_def)
  ultimately show thesis using that [of ?n] dn(4-7) by (simp add: decNumberIsSpecial_def split: if_splits)
qed

section \<open>To integers\<close>

lemma collectHi_val:
  assumes d1: "1 \<le> digits dn" and d: "digits dn \<le> 10" "n = D2U (digits dn)" "n \<le> length (lsu dn)" "units_ok (take n (lsu dn))" "units_val (take n (lsu dn)) < 10 ^ 10"
  shows "1 \<le> up \<Longrightarrow> up \<le> n \<Longrightarrow> unat hi = units_val (take up (lsu dn)) div 10 \<Longrightarrow>
    \<exists>h. collectHi dn hi up (3 * int up) = Some h \<and> unat h = units_val (take n (lsu dn)) div 10"
proof (induction "n - up" arbitrary: up hi)
  case 0
  have "digits dn \<le> 3 * int n" unfolding d(2) using d1 by (simp add: D2U_eq, linarith)
  then show ?case using 0 by (simp add: collectHi.simps)
next
  case (Suc k)
  let ?us = "lsu dn" let ?u = "?us ! up"
  have up: "up < n" using Suc.hyps(2) by simp
  have "3 * int up < digits dn"
  proof -
    have "int up < (digits dn + 2) div 3" using up d1 unfolding d(2) by (simp add: D2U_eq)
    then show ?thesis by linarith
  qed
  then have lt: "3 * int up < digits dn" "up \<le> 3" using d(1) by simp_all
  have ok: "unat ?u < 1000" using units_ok_nth [OF d(4), of up] up d(3) by simp
  have tk: "units_val (take (up + 1) ?us) = units_val (take up ?us) + 1000 ^ up * unat ?u"
    using up d(3) by (simp add: take_Suc_conv_app_nth units_val_append)
  have le: "units_val (take (up + 1) ?us) \<le> units_val (take n ?us)"
  proof -
    have "take (up + 1) (take n ?us) = take (up + 1) ?us" using up by simp
    then have "take n ?us = take (up + 1) ?us @ drop (up + 1) (take n ?us)" using append_take_drop_id [of "up + 1" "take n ?us"] by simp
    then show ?thesis by (metis le_add1 units_val_append)
  qed
  obtain j where j: "up = Suc j" "j \<le> 2" using Suc.prems(1) lt(2) by (cases up) auto
  have p: "(1000 :: nat) ^ up = 10 * 10 ^ (3 * up - 1)" unfolding j(1) by (simp add: power_add power_mult)
  have dv: "units_val (take (up + 1) ?us) div 10 = unat hi + unat ?u * 10 ^ (3 * up - 1)" unfolding tk p Suc.prems(3) by (simp add: mult.assoc mult.commute)
  have bound: "unat hi + unat ?u * 10 ^ (3 * up - 1) < 1000000000" unfolding dv [symmetric] using le d(5) by (simp add: less_mult_imp_div_less)
  have pw: "unat (pow10 (3 * up - 1)) = 10 ^ (3 * up - 1)" using pow10_small(2) [of "3 * up - 1"] lt(2) by simp
  have m: "unat (ucast ?u * pow10 (3 * up - 1)) = unat ?u * 10 ^ (3 * up - 1)"
    using unat_mult_32 [of "ucast ?u" "pow10 (3 * up - 1)"] bound unfolding unat_ucast_uInt pw by simp
  then have "unat (hi + ucast ?u * pow10 (3 * up - 1)) = units_val (take (up + 1) ?us) div 10"
    unfolding dv using bound by (subst unat_add_32) simp_all
  moreover have k: "k = n - (up + 1)" using Suc.hyps(2) by simp
  ultimately obtain h where "collectHi dn (hi + ucast ?u * pow10 (3 * up - 1)) (up + 1) (3 * int (up + 1)) = Some h" "unat h = units_val (take n ?us) div 10"
    using Suc.hyps(1) [OF k, of "hi + ucast ?u * pow10 (3 * up - 1)"] up by fastforce
  moreover have "nat (3 * int up - 1) = 3 * up - 1" by linarith
  ultimately show ?case using lt(1) up d(3) by (simp add: collectHi.simps [of dn hi] peek_def add.commute)
qed

text \<open>The integer that a number with exponent zero stands for.\<close>

definition int_of :: "decNumber \<Rightarrow> int" where
  "int_of dn = (if decNumberIsNegative dn then - int (coeff dn) else int (coeff dn))"

lemma int_of_value: "exponent dn = 0 \<Longrightarrow> dn_value dn = of_int (int_of dn)"
  by (simp add: dn_value_def int_of_def)

lemma decNumberToInt32_val:
  assumes ok: "dn_ok dn" "\<not> decNumberIsSpecial dn" "exponent dn = 0"
  shows "decNumberToInt32 dn ctx = Some (if - (2 ^ 31) \<le> int_of dn \<and> int_of dn < 2 ^ 31 then (int_of dn, ctx) else (0, fst (decContextSetStatus ctx DEC_Invalid_operation)))"
proof (cases "digits dn > 10")
  case True
  then have "\<not> digits dn = 1" by simp
  have "(10 :: nat) ^ 10 \<le> 10 ^ (nat (digits dn) - 1)" using True by (intro power_increasing) auto
  also have "\<dots> \<le> coeff dn" using ok(1) True by (auto simp: dn_ok_def)
  finally have "\<not> (- (2 ^ 31) \<le> int_of dn \<and> int_of dn < 2 ^ 31)" by (auto simp: int_of_def)
  then have "(if - (2 ^ 31) \<le> int_of dn \<and> int_of dn < 2 ^ 31 then (int_of dn, ctx) else (0, fst (decContextSetStatus ctx DEC_Invalid_operation))) =
      (0, fst (decContextSetStatus ctx DEC_Invalid_operation))" by (rule if_not_P)
  then show ?thesis using True by (simp add: decNumberToInt32_def Let_def)
next
  case False
  let ?us = "lsu dn" define n where "n = D2U (digits dn)"
  have d: "1 \<le> digits dn" "n \<le> length ?us" "units_ok (take n ?us)" "units_val (take n ?us) = coeff dn" "coeff dn < 10 ^ nat (digits dn)"
    using ok(1) by (simp_all add: dn_ok_def coeff_def n_def)
  have "(10 :: nat) ^ nat (digits dn) \<le> 10 ^ 10" using False by (intro power_increasing) auto
  then have c10: "coeff dn < 10 ^ 10" using d(5) by linarith
  have n1: "1 \<le> n" using d(1) by (simp add: n_def D2U_eq)
  obtain u vs where us: "?us = u # vs" using d(2) n1 by (cases ?us) auto
  have u: "unat u < 1000" using d(3) n1 us by (cases n) auto
  have cu: "coeff dn mod 10 = unat u mod 10"
  proof -
    obtain k where k: "n = Suc k" using n1 by (cases n) auto
    have "coeff dn = unat u + 1000 * units_val (take k vs)" using d(4) us k by simp
    moreover have "(unat u + 1000 * units_val (take k vs)) mod 10 = unat u mod 10" by presburger
    ultimately show ?thesis by simp
  qed
  have "unat (ucast u div 10 :: uInt) = units_val (take 1 ?us) div 10" by (simp add: us unat_div unat_ucast_uInt)
  then obtain hi where hi: "collectHi dn (ucast u div 10) 1 3 = Some hi" "unat hi = coeff dn div 10"
    using collectHi_val [OF d(1) _ n_def d(2,3), of 1] False c10 d(4) n1 by auto
  define lo where "lo = (ucast u :: uInt) mod 10"
  have lo: "unat lo = coeff dn mod 10" by (simp add: lo_def cu unat_mod unat_ucast_uInt)
  have hb: "unat hi < 1000000000" using hi(2) c10 by (simp add: less_mult_imp_div_less)
  have split: "coeff dn = 10 * unat hi + unat lo" "unat lo < 10" unfolding hi(2) lo by simp_all
  define big where "big \<longleftrightarrow> hi > 214748364 \<or> hi = 214748364 \<and> lo > 7"
  have cmp: "hi > 214748364 \<longleftrightarrow> unat hi > 214748364" "hi = 214748364 \<longleftrightarrow> unat hi = 214748364" "lo > 7 \<longleftrightarrow> unat lo > 7" "lo = 8 \<longleftrightarrow> unat lo = 8"
    by (simp_all add: word_less_nat_alt word_unat_eq_iff)
  have big: "big \<longleftrightarrow> 2147483647 < coeff dn" "hi = 214748364 \<and> lo = 8 \<longleftrightarrow> coeff dn = 2147483648"
    unfolding big_def cmp split(1) using split(2) by presburger+
  have step: "decNumberToInt32 dn ctx = Some (if big then
        (if decNumberIsNegative dn \<and> hi = 214748364 \<and> lo = 8 then (BADINT, ctx) else (0, fst (decContextSetStatus ctx DEC_Invalid_operation)))
      else (if decNumberIsNegative dn then - sint (push_bit 1 hi + push_bit 3 hi + lo) else sint (push_bit 1 hi + push_bit 3 hi + lo), ctx))"
    using False ok hi(1) us unfolding decNumberToInt32_def Let_def big_def decNumberIsNegative_def decNumberIsSpecial_def lo_def by (simp add: peek_def)
  show ?thesis
  proof (cases big)
    case True
    then show ?thesis unfolding step big using big(1) by (auto simp: int_of_def BADINT_def)
  next
    case nb: False
    then have c: "coeff dn \<le> 2147483647" using big(1) by simp
    have "unat (push_bit 1 hi) = 2 * unat hi" "unat (push_bit 3 hi) = 8 * unat hi"
      using unat_mult_32 [of 2 hi] unat_mult_32 [of 8 hi] c split by (simp_all add: push_bit_eq_mult mult.commute)
    then have "unat (push_bit 1 hi + push_bit 3 hi + lo) = coeff dn"
      using unat_add_32 [of "push_bit 1 hi" "push_bit 3 hi"] unat_add_32 [of "push_bit 1 hi + push_bit 3 hi" lo] c split by simp
    then have "sint (push_bit 1 hi + push_bit 3 hi + lo) = int (coeff dn)" 
      using c uint_nat [of "push_bit 1 hi + push_bit 3 hi + lo"] by (simp add: sint_uint signed_take_bit_int_eq_self)
    then show ?thesis unfolding step using nb c by (auto simp: int_of_def)
  qed
qed

section \<open>Property\<close>

text \<open>
  C16. Conversion between numbers and 32-bit integers.  A signed 32-bit integer, the least one included, becomes a number of exactly its value,
  which converts back to the integer and leaves the context as it is; and a well formed finite number with exponent zero, of any length, converts to the
  integer it stands for if a signed 32-bit integer can hold it and otherwise to zero with \<^verbatim>\<open>Invalid operation\<close> raised.
\<close>

theorem int32_exact:
  assumes "4 \<le> length (lsu dn0)" "- (2 ^ 31) \<le> i" "i < 2 ^ 31" "dn_ok dn" "\<not> decNumberIsSpecial dn" "exponent dn = 0" "dn_value dn = of_int j"
  shows "(\<exists>x. decNumberFromInt32 dn0 i = Some x \<and> dn_value x = of_int i \<and> decNumberToInt32 x ctx = Some (i, ctx)) \<and>
    decNumberToInt32 dn ctx = Some (if - (2 ^ 31) \<le> j \<and> j < 2 ^ 31 then (j, ctx) else (0, fst (decContextSetStatus ctx DEC_Invalid_operation)))"
proof
  obtain x where x: "decNumberFromInt32 dn0 i = Some x" "dn_ok x" "dn_value x = of_int i" "exponent x = 0" "\<not> decNumberIsSpecial x"
    using decNumberFromInt32_val [OF assms(1-3)] .
  have "int_of x = i" using x(3) int_of_value [OF x(4)] by (simp only: of_int_eq_iff)
  then have "decNumberToInt32 x ctx = Some (i, ctx)" using decNumberToInt32_val [OF x(2,5,4), of ctx] assms(2,3) by simp
  then show "\<exists>x. decNumberFromInt32 dn0 i = Some x \<and> dn_value x = of_int i \<and> decNumberToInt32 x ctx = Some (i, ctx)" using x(1,3) by blast
  have "int_of dn = j" using assms(7) int_of_value [OF assms(6)] by (simp only: of_int_eq_iff)
  then show "decNumberToInt32 dn ctx = Some (if - (2 ^ 31) \<le> j \<and> j < 2 ^ 31 then (j, ctx) else (0, fst (decContextSetStatus ctx DEC_Invalid_operation)))"
    using decNumberToInt32_val [OF assms(4-6), of ctx] by simp
qed

text \<open>The least integer there and back, and \<open>2147483648\<close>, one more than the greatest.\<close>

definition too_large :: decNumber where
  "too_large = \<lparr>digits = 10, exponent = 0, bits = 0, lsu = [648, 483, 147, 2]\<rparr>"

theorem int32_exact_witness:
  "(\<exists>x. decNumberFromInt32 too_large (- 2147483648) = Some x \<and> dn_value x = - 2147483648 \<and> decNumberToInt32 x ctx2 = Some (- 2147483648, ctx2)) \<and>
    decNumberToInt32 too_large ctx2 = Some (0, fst (decContextSetStatus ctx2 DEC_Invalid_operation))"
proof -
  have v: "dn_ok too_large" "dn_value too_large = of_int 2147483648"
    by (simp_all add: too_large_def dn_ok_def dn_value_def coeff_def D2U_eq decNumberIsNegative_def)
  show ?thesis using int32_exact [of too_large "- 2147483648" too_large 2147483648 ctx2] v
    by (simp add: too_large_def decNumberIsSpecial_def)
qed

end
