(* ===== verification/SqlMean.thy ===== *)
theory SqlMean
  imports SqlSum DnInt
begin

text \<open>
  The mean of a column, from the blobs of the rows to the blob of the result: the exact mean, rounded once.
\<close>

section \<open>The final call\<close>

text \<open>What an aggregate returns when all its rows were folded.\<close>

lemma run_aggregate_folded:
  assumes first: "\<not> is_null v" "decode env ctx v = Some (ctx, Inr y)" and fold: "decimalFold f env ctx y ws = Some (ctx', Inr res)"
    and ws: "list_all (\<lambda>v. \<not> is_null v) ws" "length (v # ws) < 2 ^ 32" and fresh: "agg_count fresh = 0"
  shows "run_aggregate (aggregateStep f env) (aggregateFinal dflt fin env) ctx fresh (v # ws) = do {
    (x, ctx) \<leftarrow> fin env \<lparr>agg_value = res, agg_count = of_nat (length (v # ws))\<rparr> ctx';
    checked_result env ctx x }"
proof -
  have nz: "of_nat (1 + length ws) \<noteq> (0 :: uInt)" using ws(2) unfolding word_of_nat_eq_0_iff by (simp add: nat_dvd_not_less)
  have "run_steps (stepFunc (aggregateStep f env)) ctx (Some fresh) (v # ws) =
      run_steps (stepFunc (aggregateStep f env)) ctx (Some \<lparr>agg_value = y, agg_count = of_nat 1\<rparr>) ws"
    using first fresh by (cases fresh) (simp add: stepFunc_def aggregateStep_def)
  also have "\<dots> = Some (ctx', Inr (Some \<lparr>agg_value = res, agg_count = of_nat (1 + length ws)\<rparr>))"
    using run_steps_fold [of 1 ws f env ctx y] ws fold by simp
  finally show ?thesis using nz by (simp add: run_aggregate_def aggregateFinal_def case_prod_unfold del: run_steps.simps)
qed

text \<open>The number of rows as a divisor.\<close>

lemma count_operand:
  assumes "0 < n" "n < 2 ^ 32" "length (lsu dn0) = DECNUMUNITS"
  obtains x where "decNumberFromUInt32 dn0 (of_nat n) = Some x" "finite_number x" "dn_value x = of_nat n"
proof -
  have n: "unat (of_nat n :: uInt) = n" using assms(2) by (simp add: unsigned_of_nat take_bit_nat_eq_self)
  obtain x where x: "decNumberFromUInt32 dn0 (of_nat n) = Some x" "dn_ok x" "coeff x = n" "exponent x = 0" "bits x = 0" "length (lsu x) = DECNUMUNITS" "digits x \<le> 12"
    using decNumberFromUInt32_val [of dn0 "of_nat n"] assms(3) n by auto
  have "finite_number x" using x by (auto simp: finite_number_def encodable_def adjusted_def dn_ok_def decNumberIsSpecial_def DECNUMDIGITS_def)
  moreover have "dn_value x = of_nat n" using x by (simp add: dn_value_def decNumberIsNegative_def)
  ultimately show thesis using that x(1) by blast
qed

section \<open>Property\<close>

text \<open>
  C4. The mean of a column is rounded once.  Under the conditions of the exact sum, when the sum is not zero and the mean lies in the normal
  range, \<^verbatim>\<open>decAvg\<close>, with the steps over the rows, the count of the rows that are not NULL and the division of the final call, returns the encoding of the exact mean of
  the values rounded to the precision of the context, and of the conditions at most \<^verbatim>\<open>Inexact\<close>, \<^verbatim>\<open>Rounded\<close> and \<^verbatim>\<open>Clamped\<close> are added to the
  shared status.
\<close>

theorem mean_rounded:
  assumes ctx: "sum_context ctx" and env: "env_ok env" "env_mem env DECINF_MAXSIZE" "memory_granted (env_mem env)" and r: "DECINF_MAXSIZE \<le> length r"
    and rows: "length vs < 2 ^ 32" "list_all2 (row_of r) (filter (\<lambda>v. \<not> is_null v) vs) xs" and fresh: "agg_count fresh = 0"
    and val: "map dn_value xs = map (\<lambda>k. of_int k * 10 powi e) ks" "sums_fit 0 ks" "emin ctx \<le> e" "e + int DECNUMDIGITS \<le> emax ctx + 1"
    and mean: "sum_list ks \<noteq> 0" "m = of_int (sum_list ks) * 10 powi e / of_nat (length xs)" "in_range ctx m"
  shows "\<exists>dn st st' a. run_aggregate (decimalAvgStep env) (decimalAvgFinal env) ctx fresh vs = Some (ctx\<lparr>status := status ctx OR (st OR st')\<rparr>, result_blob a) \<and>
    blob r dn = Some a \<and> harmless st \<and> rounded_result ctx (m < 0) \<bar>m\<bar> 0 (dn, st')"
proof -
  have "xs \<noteq> []" using mean(1) val(1) by auto
  then obtain v ws x zs where vs: "filter (\<lambda>v. \<not> is_null v) vs = v # ws" "xs = x # zs" using rows(2) by (cases "filter (\<lambda>v. \<not> is_null v) vs"; cases xs) auto
  have row: "row_of r v x" "list_all2 (row_of r) ws zs" using rows(2) vs by simp_all
  obtain j js where ks: "ks = j # js" "dn_value x = of_int j * 10 powi e" "map dn_value zs = map (\<lambda>k. of_int k * 10 powi e) js"
    using val(1) vs(2) by (cases ks) auto
  have settled: "settled ctx" using ctx by (simp add: sum_context_def full_context_def)
  obtain y where y: "decode env ctx v = Some (ctx, Inr y)" "running (dn_value x) y" using decode_row [OF row(1) r env(1) settled] .
  obtain s st where s: "decimalFold decNumberAdd env ctx y ws = Some (ctx\<lparr>status := status ctx OR st\<rparr>, Inr s)" "harmless st"
      "running (of_int (j + sum_list js) * 10 powi e) s"
    using fold_rows [OF r env(1) row(2) ks(3) ctx val(3,4), of j y] val(2) y(2) ks(1,2) by auto
  let ?ctx = "ctx\<lparr>status := status ctx OR st\<rparr>"
  have full: "full_context ?ctx" using sum_context_status(1) [OF ctx s(2)] by (simp add: sum_context_def)
  have sv: "dn_value s = of_int (sum_list ks) * 10 powi e" using s(3) ks(1) by (simp add: running_def)
  have "dn_value s \<noteq> 0" using mean(1) unfolding sv by simp
  then have fs: "finite_number s" "length (lsu s) = DECNUMUNITS" using s(3) by (auto simp: running_def finite_number_def dn_value_def)
  have len: "length (v # ws) < 2 ^ 32" "length (v # ws) = length xs" "list_all (\<lambda>v. \<not> is_null v) ws" "\<not> is_null v"
  proof -
    show "length (v # ws) < 2 ^ 32" unfolding vs(1) [symmetric] using rows(1) length_filter_le by (rule le_less_trans [rotated])
    show "length (v # ws) = length xs" unfolding vs(1) [symmetric] using rows(2) by (rule list_all2_lengthD)
    have "list_all (\<lambda>v. \<not> is_null v) (v # ws)" unfolding vs(1) [symmetric] by (simp add: list_all_iff)
    then show "list_all (\<lambda>v. \<not> is_null v) ws" "\<not> is_null v" by simp_all
  qed
  obtain n where n: "decNumberFromUInt32 (env_num env) (of_nat (length (v # ws))) = Some n" "finite_number n" "dn_value n = of_nat (length (v # ws))"
    using count_operand [of "length (v # ws)" "env_num env"] len(1) env(1) by (auto simp: env_ok_def)
  have m: "dn_value s / dn_value n = m" unfolding mean(2) sv n(3) len(2) ..
  have rng: "in_range ?ctx (dn_value s / dn_value n)" using mean(3) unfolding m by (simp add: in_range_def normal_result_def)
  obtain dn st' where d: "decNumberDivide (env_mem env) s s n ?ctx = Some (dn, ?ctx\<lparr>status := status ?ctx OR st'\<rparr>)" "settled (?ctx\<lparr>status := status ?ctx OR st'\<rparr>)"
      "encodable dn" "rounded_result ?ctx (m < 0) \<bar>m\<bar> 0 (dn, st')"
    using sql_divide.applied_result [OF full fs(1) n(2) fs(2) rng env(3)] unfolding m .
  have "run_aggregate (decimalAvgStep env) (decimalAvgFinal env) ctx fresh vs =
      run_aggregate (aggregateStep decNumberAdd env) (aggregateFinal avgAggrDefault avgAggrFinOp env) ctx fresh (v # ws)"
    unfolding decimalAvgStep_def decimalAvgFinal_def vs(1) [symmetric] by (rule run_aggregate_null [symmetric])
  also have "\<dots> = checked_result env (?ctx\<lparr>status := status ?ctx OR st'\<rparr>) dn"
    using run_aggregate_folded [OF len(4) y(1) s(1) len(3,1) fresh, of avgAggrDefault avgAggrFinOp] n(1) d(1) by (simp add: avgAggrFinOp_def)
  also have "\<dots> = Some (ctx\<lparr>status := status ctx OR (st OR st')\<rparr>, result_blob (encode dn))"
    using checked_settled [OF d(2)] blob_result_encode [OF d(3) env(1,2)] by (simp add: or.assoc)
  finally show ?thesis using s(2) d(4) blob_encode [OF d(3) r]
    by (intro exI [of _ dn] exI [of _ st] exI [of _ st'] exI [of _ "encode dn"]) (simp add: rounded_result_def)
qed

text \<open>In the default context, the mean of \<open>12.5\<close>, NULL and \<open>4\<close> is \<open>8.25\<close>.\<close>

theorem mean_rounded_witness:
  "\<exists>p q. blob (replicate 24 0) value_a = Some p \<and> blob (replicate 24 0) value_b = Some q \<and>
    (\<exists>dn st st' a. run_aggregate (decimalAvgStep env0) (decimalAvgFinal env0) ctx0 \<lparr>agg_value = localZero, agg_count = 0\<rparr> [SQLITE_BLOB p, SQLITE_NULL, SQLITE_BLOB q] =
        Some (ctx0\<lparr>status := status ctx0 OR (st OR st')\<rparr>, result_blob a) \<and>
      blob (replicate 24 0) dn = Some a \<and> harmless st \<and> rounded_result ctx0 False (33 / 4) 0 (dn, st'))"
proof -
  note f = finite_value_a finite_value_b
  have v: "map dn_value [value_a, value_b] = map (\<lambda>k. of_int k * 10 powi (- 1)) [125, 40]"
    by (simp add: value_a_def value_b_def dn_value_def coeff_def D2U_eq power_int_def decNumberIsNegative_def)
  have bl: "blob (replicate 24 0) z = Some (encode z)" if "finite_number z" for z using blob_encode [of z "replicate 24 0"] that by (simp add: finite_number_def)
  have c: "sum_context ctx0" unfolding sum_context_def full_context_def nine_digit_limits_def context_fits_def settled_def by code_simp
  have e: "env_ok env0" "env_mem env0 DECINF_MAXSIZE" "memory_granted (env_mem env0)"
    by (simp_all add: env_ok_def env0_def localZero_def memory_granted_def list_all_iff)
  have limits: "emin ctx0 \<le> - 1" "- 1 + int DECNUMDIGITS \<le> emax ctx0 + 1" by code_simp+
  let ?vs = "[SQLITE_BLOB (encode value_a), SQLITE_NULL, SQLITE_BLOB (encode value_b)]"
  have rows: "list_all2 (row_of (replicate 24 0)) (filter (\<lambda>v. \<not> is_null v) ?vs) [value_a, value_b]" using f bl by (simp add: row_of_def is_null_def)
  have fit: "sums_fit 0 [125, 40]" by (simp add: DECNUMDIGITS_def)
  have "emin ctx0 = - 999999999" "emax ctx0 = 999999999" by code_simp+
  then have rng: "in_range ctx0 (33 / 4)" using in_range_exact [of ctx0 "33 / 4" 825 "- 2"] c
    by (simp add: power_int_def power_divide sum_context_def full_context_def DECNUMDIGITS_def)
  have m: "33 / 4 = of_int (sum_list [125, 40]) * 10 powi (- 1) / (of_nat (length [value_a, value_b]) :: rat)" by (simp add: power_int_def)
  show ?thesis using mean_rounded [OF c e _ _ rows _ v fit limits _ m rng, of "\<lparr>agg_value = localZero, agg_count = 0\<rparr>"] bl [OF f(1)] bl [OF f(2)] by simp
qed

end
