(* ===== verification/SqlExtremes.thy ===== *)
theory SqlExtremes
  imports SqlSum
begin

text \<open>
  The greatest and the least value of a column: what decNumber selects by comparing numbers is, byte for byte, what SQLite selects by comparing blobs.
\<close>

section \<open>Numbers that are kept as they are\<close>

text \<open>A shared context with the precision and the exponent range of the format, and no trapped condition pending.\<close>

definition widest_context :: "decContext \<Rightarrow> bool" where
  "widest_context ctx \<longleftrightarrow> context_fits ctx \<and> ctx_digits ctx = int DECNUMDIGITS \<and> emax ctx = 999999999 \<and> emin ctx = - 999999999 \<and> settled ctx"

text \<open>A number that can be encoded and compared; an infinity has the digits of a zero, as the decoder leaves it.\<close>

definition candidate :: "decNumber \<Rightarrow> bool" where
  "candidate x \<longleftrightarrow> length (lsu x) = DECNUMUNITS \<and> dn_ok x \<and> digits x \<le> int DECNUMDIGITS \<and> \<bar>adjusted x\<bar> \<le> 999999999 \<and> \<not> decNumberIsNaN x"

lemma candidate_facts:
  assumes "candidate x"
  shows "encodable x" "numeric x" "dn_ok x" "digits x \<le> int DECNUMDIGITS" "1 \<le> digits x"
  using assms by (simp_all add: candidate_def encodable_def numeric_def dn_ok_def)

lemma decFinalize_same:
  assumes ctx: "widest_context ctx" and dn: "candidate dn"
  shows "decFinalize mem dn ctx 0 st = Some (dn, 0, st)"
proof -
  have rng: "emin ctx - digits dn + 1 \<le> exponent dn" "exponent dn \<le> emax ctx - digits dn + 1" "clamp ctx = 0"
    using ctx dn by (auto simp: candidate_def adjusted_def widest_context_def context_fits_def)
  define nmin where "nmin = \<lparr>digits = 1, exponent = emin ctx, bits = 0, lsu = 1 # replicate (DECNUMUNITS - 1) 0\<rparr>"
  have nm: "numeric nmin" by (simp add: nmin_def numeric_def dn_ok_def coeff_def D2U_eq decNumberIsNaN_def decNumberIsInfinite_def DECNUMDIGITS_def)
  obtain c where c: "decCompare mem dn nmin True = Some (Some c)"
    using decCompare_signless [of mem dn nmin] decCompare_signed [of "dn_abs dn" "dn_abs nmin" mem] candidate_facts(2) [OF dn] nm by auto
  have "finishNormal dn ctx 0 st = Some (dn, 0, st)" using rng(2,3) by (simp add: finishNormal_def)
  then show ?thesis using rng(1) c unfolding decFinalize_def Let_def nmin_def [symmetric] by auto
qed

lemma copied_same:
  assumes ctx: "widest_context ctx" and x: "candidate x" and res: "length (lsu res) = DECNUMUNITS"
  obtains z where "do { (res, residue, st) \<leftarrow> decCopyFit res x ctx 0 st; decFinalize mem res ctx residue st } = Some (z, 0, st)"
    "candidate z" "encode z = encode x"
proof -
  have ok: "dn_ok x" "digits x \<le> ctx_digits ctx" "digits x \<le> 39" "1 \<le> digits x"
    using ctx candidate_facts [OF x] by (simp_all add: widest_context_def DECNUMDIGITS_def)
  then have room: "D2U (digits x) \<le> length (lsu (res\<lparr>bits := bits x, exponent := exponent x\<rparr>))"
    using res by (simp add: D2U_eq DECNUMUNITS_def DECNUMDIGITS_def)
  obtain u where u: "decCopyFit res x ctx 0 st = Some (res\<lparr>bits := bits x, exponent := exponent x, lsu := u, digits := digits x\<rparr>, 0, st)"
      "length u = DECNUMUNITS" "holds u (digits x) (coeff x)"
    using decSetCoeff_fit [OF dn_ok_holds [OF ok(1)] ok(2) room, of 0 st] res by (auto simp: decCopyFit_def)
  define z where "z = res\<lparr>bits := bits x, exponent := exponent x, lsu := u, digits := digits x\<rparr>"
  have f: "bits z = bits x" "exponent z = exponent x" "digits z = digits x" "lsu z = u" by (simp_all add: z_def)
  have c: "coeff z = coeff x" using holds_coeff [of z] u(3) f by simp
  have "dn_ok z" using ok(1) u(3) unfolding dn_ok_holds_iff c f by simp
  then have z: "candidate z" using x u(2) f by (simp add: candidate_def adjusted_def decNumberIsNaN_def)
  have "dn_key z = dn_key x"
    by (simp add: dn_key_def dn_rank_def dn_value_def c f decNumberIsSpecial_def decNumberIsInfinite_def decNumberIsNegative_def)
  then have "encode z = encode x" using encode_key_eq candidate_facts(1) z x by blast
  then show thesis using that [OF _ z] u(1) decFinalize_same [OF ctx z, of mem st] by (simp add: z_def [symmetric])
qed

section \<open>Selecting one of two numbers\<close>

text \<open>The number that the comparison operators for the maximum (or, reversed, for the minimum) return.\<close>

definition picked :: "bool \<Rightarrow> decNumber \<Rightarrow> decNumber \<Rightarrow> decNumber" where
  "picked least l r = (let c = (if dn_cmp l r = 0 then chooseEqual l r else dn_cmp l r) in if (if least then - c else c) > 0 then l else r)"

lemma not_nan_bits:
  assumes "\<not> decNumberIsNaN l" "\<not> decNumberIsNaN r"
  shows "(bits l OR bits r) AND (DECSNAN OR DECNAN) = 0"
  using assms unfolding decNumberIsNaN_def by (simp add: bit.conj_disj_distrib2 or.commute)

lemma decCompareOp_picked:
  assumes ctx: "widest_context ctx" and l: "candidate l" and r: "candidate r" and res: "length (lsu res) = DECNUMUNITS"
    and op: "op = (if least then COMPMIN else COMPMAX)"
  obtains z where "decCompareOp mem res l r ctx op st = Some (z, st)" "candidate z" "encode z = encode (picked least l r)"
proof -
  have nan: "(bits l OR bits r) AND (DECSNAN OR DECNAN) = 0" using not_nan_bits [of l r] l r by (simp add: candidate_def)
  have n: "numeric l" "numeric r" using candidate_facts(2) l r by blast+
  have p: "candidate (picked least l r)" using l r by (simp add: picked_def Let_def)
  obtain z where z: "do { (res, residue, st) \<leftarrow> decCopyFit res (picked least l r) ctx 0 st; decFinalize mem res ctx residue st } = Some (z, 0, st)"
      "candidate z" "encode z = encode (picked least l r)"
    using copied_same [OF ctx p res] .
  have "compareNumbers mem res l r ctx op st = Some (op, Some (dn_cmp l r), res, st)"
    unfolding compareNumbers_def nan using decCompare_signed [OF n, of mem] op by (simp add: Let_def)
  then have "decCompareOp mem res l r ctx op st = Some (z, st)"
    using z(1) op unfolding decCompareOp_def picked_def Let_def
    by (cases least) (auto simp: bind_eq_Some_conv split: prod.splits)
  then show thesis using that z(2,3) by blast
qed

lemma picked_order:
  assumes "candidate l" "candidate r"
  shows "picked least l r = l \<and> \<not> lex_less (if least then encode r else encode l) (if least then encode l else encode r) \<or>
    picked least l r = r \<and> \<not> lex_less (if least then encode l else encode r) (if least then encode r else encode l)"
proof -
  have n: "numeric l" "numeric r" and e: "encodable l" "encodable r" using candidate_facts assms by blast+
  have lt: "lex_less (encode z) (encode w) \<longleftrightarrow> dn_less z w" if "encodable z" "encodable w" for z w using blob_order.enc_less_iff [OF that] .
  have anti: "\<not> dn_less y x" if "dn_less x y" for x y using that by (auto simp: dn_less_def key_less_def)
  consider (below) "dn_below l r" | (above) "\<not> dn_below l r" "dn_below r l" | (same) "\<not> dn_below l r" "\<not> dn_below r l" "dn_key l = dn_key r"
    | (zeros) "\<not> dn_below l r" "\<not> dn_below r l" "coeff l = 0" "coeff r = 0" "decNumberIsNegative l \<noteq> decNumberIsNegative r"
    using not_below_key [OF n] by metis
  then show ?thesis
  proof cases
    case below
    then show ?thesis using anti [OF below_less [OF n]] lt [OF e(2,1)] by (simp add: picked_def dn_cmp_def)
  next
    case above
    then show ?thesis using anti [OF below_less [OF n(2,1)]] lt [OF e] by (simp add: picked_def dn_cmp_def)
  next
    case same
    then show ?thesis using encode_key_eq [OF e same(3)] by (auto simp: picked_def Let_def)
  next
    case zeros
    have sign: "bits l AND DECNEG \<noteq> bits r AND DECNEG" "bits l AND DECNEG \<noteq> 0 \<longleftrightarrow> decNumberIsNegative l"
      using zeros(5) by (auto simp: decNumberIsNegative_def simp del: dec_bits)
    have k: "decNumberIsSpecial z \<longleftrightarrow> decNumberIsInfinite z" if "numeric z" for z using that special_kinds [of z] by (auto simp: numeric_def)
    have "\<not> decNumberIsInfinite l" "\<not> decNumberIsInfinite r" using zeros by (auto simp: dn_below_def dn_place_def split: if_splits)
    then have "dn_less l r \<longleftrightarrow> decNumberIsNegative l" "dn_less r l \<longleftrightarrow> decNumberIsNegative r"
      using zeros(3-5) k n by (auto simp: dn_less_def key_less_def dn_key_def dn_rank_def dn_value_def)
    then show ?thesis using zeros lt [OF e] lt [OF e(2,1)] sign by (simp add: picked_def dn_cmp_def chooseEqual_def Let_def del: dec_bits)
  qed
qed

section \<open>Selecting one of many\<close>

text \<open>A value of a row: the blob of a number that is not NaN.\<close>

definition stored :: "uByte list \<Rightarrow> sqlite3_value \<Rightarrow> bool" where
  "stored r v \<longleftrightarrow> (\<exists>x a. encodable x \<and> \<not> decNumberIsNaN x \<and> blob r x = Some a \<and> v = SQLITE_BLOB a)"

lemma decode_infinite:
  assumes "decNumberIsInfinite x" "length (lsu dn0) = DECNUMUNITS"
  shows "\<exists>y. decInfiniteToNumber (encode x) dn0 = Some (True, y) \<and> candidate y \<and> dn_key y = dn_key x"
proof -
  obtain u us where us: "lsu dn0 = u # us" using assms(2) by (cases "lsu dn0") auto
  have c: "coeff (decNumberZero dn0\<lparr>bits := b\<rparr>) = 0" for b by (simp add: coeff_def decNumberZero_def D2U_eq us)
  have s: "decNumberIsSpecial x" using assms(1) special_kinds by blast
  show ?thesis using assms s c
    by (cases "decNumberIsNegative x")
      (simp_all add: encode_def decInfiniteToNumber_def candidate_def dn_key_def dn_rank_def decNumberIsSpecial_def decNumberIsInfinite_def decNumberIsNegative_def
        decNumberIsNaN_def dn_ok_def adjusted_def D2U_eq, simp_all add: decNumberZero_def us DECNUMDIGITS_def D2U_eq)
qed

lemma decode_stored:
  assumes "stored r v" "DECINF_MAXSIZE \<le> length r" "env_ok env" "settled ctx"
  obtains y where "decode env ctx v = Some (ctx, Inr y)" "candidate y" "v = SQLITE_BLOB (encode y)"
proof -
  obtain x where x: "encodable x" "\<not> decNumberIsNaN x" "v = SQLITE_BLOB (encode x)"
    using assms(1,2) by (auto simp: stored_def blob_encode)
  obtain y where y: "decode env ctx v = Some (ctx, Inr y)" "dn_key y = dn_key x" "candidate y"
  proof (cases "decNumberIsInfinite x")
    case True
    then show thesis using that decode_infinite [OF True, of "env_num env"] assms(3,4) x(3)
      by (auto simp: env_ok_def decode_def decNumberFromSQLite3Blob_def checkStatus_def decContextTestStatus_def settled_def)
  next
    case False
    then have s: "\<not> decNumberIsSpecial x" using x(2) special_kinds by blast
    obtain y where y: "decode env ctx v = Some (ctx, Inr y)" "dn_key y = dn_key x" "encodable y"
      using decode_blob [OF x(1) assms(3,4)] x(3) by auto
    then show thesis using that same_key(1) [OF y(2) s] special_kinds [of y] by (auto simp: encodable_def candidate_def)
  qed
  then show thesis using that encode_key_eq [OF candidate_facts(1) [OF y(3)] x(1) y(2)] x(3) by simp
qed

text \<open>A blob among some values that no other blob among them is better than.\<close>

definition best :: "(uByte list \<Rightarrow> uByte list \<Rightarrow> bool) \<Rightarrow> uByte list \<Rightarrow> sqlite3_value list \<Rightarrow> bool" where
  "best better a vs \<longleftrightarrow> SQLITE_BLOB a \<in> set vs \<and> (\<forall>b. SQLITE_BLOB b \<in> set vs \<longrightarrow> \<not> better b a)"

locale selection =
  fixes f :: binary and better :: "uByte list \<Rightarrow> uByte list \<Rightarrow> bool"
  assumes select: "widest_context ctx \<Longrightarrow> candidate l \<Longrightarrow> candidate r \<Longrightarrow> length (lsu res) = DECNUMUNITS \<Longrightarrow>
      \<exists>z. f mem res l r ctx = Some (z, ctx) \<and> candidate z \<and>
        (encode z = encode l \<and> \<not> better (encode r) (encode l) \<or> encode z = encode r \<and> \<not> better (encode l) (encode r))"
    and irreflexive: "\<not> better a a"
    and negatively_transitive: "\<not> better a b \<Longrightarrow> \<not> better b c \<Longrightarrow> \<not> better a c"
begin

lemma fold_best:
  assumes ctx: "widest_context ctx" and env: "env_ok env" and r: "DECINF_MAXSIZE \<le> length r"
  shows "\<forall>v\<in>set vs. stored r v \<Longrightarrow> candidate res \<Longrightarrow>
    \<exists>z. decimalFold f env ctx res vs = Some (ctx, Inr z) \<and> candidate z \<and> best better (encode z) (SQLITE_BLOB (encode res) # vs)"
proof (induction vs arbitrary: res)
  case Nil
  then show ?case by (simp add: best_def irreflexive)
next
  case (Cons v vs)
  have settled: "settled ctx" using ctx by (simp add: widest_context_def)
  obtain y where y: "decode env ctx v = Some (ctx, Inr y)" "candidate y" "v = SQLITE_BLOB (encode y)"
    using decode_stored [OF _ r env settled] Cons.prems(1) by auto
  obtain z where z: "f (env_mem env) res res y ctx = Some (z, ctx)" "candidate z"
      "encode z = encode res \<and> \<not> better (encode y) (encode res) \<or> encode z = encode y \<and> \<not> better (encode res) (encode y)"
    using select [OF ctx Cons.prems(2) y(2), of res "env_mem env"] Cons.prems(2) by (auto simp: candidate_def)
  obtain w where w: "decimalFold f env ctx z vs = Some (ctx, Inr w)" "candidate w" "best better (encode w) (SQLITE_BLOB (encode z) # vs)"
    using Cons.IH [OF _ z(2)] Cons.prems(1) by auto
  have nz: "\<not> better b (encode z)" if "b = encode res \<or> b = encode y" for b using z(3) that irreflexive by auto
  then have "\<not> better b (encode w)" if "b = encode res \<or> b = encode y" for b
    using that negatively_transitive [of b "encode z" "encode w"] w(3) by (auto simp: best_def)
  then have "best better (encode w) (SQLITE_BLOB (encode res) # v # vs)" using w(3) z(3) y(3) by (auto simp: best_def)
  then show ?case using y(1) z(1) w(1,2) by auto
qed

lemma best_of_arguments:
  assumes ctx: "widest_context ctx" and env: "env_ok env" "env_mem env DECINF_MAXSIZE" and r: "DECINF_MAXSIZE \<le> length r"
    and vs: "\<forall>v\<in>set vs. stored r v" "vs \<noteq> []"
  shows "\<exists>a. decimalOpn f dflt env ctx vs = Some (ctx, result_blob a) \<and> best better a vs"
proof -
  obtain v ws where v: "vs = v # ws" using vs(2) by (cases vs) auto
  have settled: "settled ctx" using ctx by (simp add: widest_context_def)
  obtain y where y: "decode env ctx v = Some (ctx, Inr y)" "candidate y" "v = SQLITE_BLOB (encode y)"
    using decode_stored [OF _ r env(1) settled] vs(1) v by auto
  obtain z where z: "decimalFold f env ctx y ws = Some (ctx, Inr z)" "candidate z" "best better (encode z) vs"
    using fold_best [OF ctx env(1) r _ y(2), of ws] vs(1) y(3) v by auto
  then show ?thesis using y(1) v checked_settled [OF settled] blob_result_encode [OF candidate_facts(1) [OF z(2)] env, of ctx]
    by (auto simp: decimalOpn_def with_arg_def)
qed

lemma best_of_column:
  assumes ctx: "widest_context ctx" and env: "env_ok env" "env_mem env DECINF_MAXSIZE" and r: "DECINF_MAXSIZE \<le> length r"
    and vs: "\<forall>v\<in>set vs. \<not> is_null v \<longrightarrow> stored r v" "\<exists>v\<in>set vs. \<not> is_null v" "length vs < 2 ^ 32" and fresh: "agg_count fresh = 0"
  shows "\<exists>a. run_aggregate (aggregateStep f env) (aggregateFinal dflt aggrNoOp env) ctx fresh vs = Some (ctx, result_blob a) \<and> best better a vs"
proof -
  let ?ws = "filter (\<lambda>v. \<not> is_null v) vs"
  have ws: "\<forall>v\<in>set ?ws. stored r v" "?ws \<noteq> []" using vs(1,2) by (auto simp: filter_empty_conv)
  obtain a where a: "decimalOpn f dflt env ctx ?ws = Some (ctx, result_blob a)" "best better a ?ws"
    using best_of_arguments [OF ctx env r ws] by blast
  then show ?thesis using run_aggregate_column [OF ws(2) vs(3) fresh, of f env dflt ctx dflt]
    by (auto simp: best_def is_null_def)
qed

end

lemma addStatus_none: "addStatus (Some (dn, 0)) ctx = Some (dn, ctx)"
  by (simp add: addStatus_def applyStatus_def)

lemma lex_less_negatively_transitive: "\<not> lex_less a b \<Longrightarrow> \<not> lex_less b c \<Longrightarrow> \<not> lex_less a c"
  using lex_less_total lex_less_trans by metis

interpretation greatest: selection decNumberMax "\<lambda>a b. lex_less b a"
proof
  fix ctx :: decContext and l r res :: decNumber and mem :: "nat \<Rightarrow> bool"
  assume a: "widest_context ctx" "candidate l" "candidate r" "length (lsu res) = DECNUMUNITS"
  obtain z where "decCompareOp mem res l r ctx COMPMAX 0 = Some (z, 0)" "candidate z" "encode z = encode (picked False l r)"
    using decCompareOp_picked [OF a, of COMPMAX False mem 0] by auto
  then show "\<exists>z. decNumberMax mem res l r ctx = Some (z, ctx) \<and> candidate z \<and>
      (encode z = encode l \<and> \<not> lex_less (encode l) (encode r) \<or> encode z = encode r \<and> \<not> lex_less (encode r) (encode l))"
    using picked_order [OF a(2,3), of False] by (auto simp: decNumberMax_def addStatus_none)
qed (auto dest: lex_less_negatively_transitive)

interpretation least: selection decNumberMin lex_less
proof
  fix ctx :: decContext and l r res :: decNumber and mem :: "nat \<Rightarrow> bool"
  assume a: "widest_context ctx" "candidate l" "candidate r" "length (lsu res) = DECNUMUNITS"
  obtain z where "decCompareOp mem res l r ctx COMPMIN 0 = Some (z, 0)" "candidate z" "encode z = encode (picked True l r)"
    using decCompareOp_picked [OF a, of COMPMIN True mem 0] by auto
  then show "\<exists>z. decNumberMin mem res l r ctx = Some (z, ctx) \<and> candidate z \<and>
      (encode z = encode l \<and> \<not> lex_less (encode r) (encode l) \<or> encode z = encode r \<and> \<not> lex_less (encode l) (encode r))"
    using picked_order [OF a(2,3), of True] by (auto simp: decNumberMin_def addStatus_none)
qed (auto dest: lex_less_negatively_transitive)

section \<open>Property\<close>

text \<open>
  C5. The extremes of a column are those of its bytes.  Let the rows of a group that are not NULL hold the encodings of numbers that are
  not NaN, infinities and zeros of both signs included.  In a context with the precision (39) and the exponent range (nine digits) of the format and no trapped condition pending, \<^verbatim>\<open>decMax\<close> and \<^verbatim>\<open>decMin\<close>, with the steps over the rows and the
  final call, return one of these blobs unchanged, the greatest and the least in the order of \<^verbatim>\<open>memcmp\<close> in which SQLite sorts and indexes the column, and leave
  the shared context as it is.
\<close>

theorem extremes_of_column:
  assumes "widest_context ctx" "env_ok env" "env_mem env DECINF_MAXSIZE" "DECINF_MAXSIZE \<le> length r"
    and "\<forall>v\<in>set vs. \<not> is_null v \<longrightarrow> stored r v" "\<exists>v\<in>set vs. \<not> is_null v" "length vs < 2 ^ 32" "agg_count fresh = 0"
  shows "(\<exists>a. run_aggregate (decimalMaxStep env) (decimalMaxFinal env) ctx fresh vs = Some (ctx, result_blob a) \<and>
      best (\<lambda>a b. lex_less b a) a vs) \<and>
    (\<exists>a. run_aggregate (decimalMinStep env) (decimalMinFinal env) ctx fresh vs = Some (ctx, result_blob a) \<and> best lex_less a vs)"
  unfolding decimalMaxStep_def decimalMaxFinal_def decimalMinStep_def decimalMinFinal_def
  using greatest.best_of_column [OF assms] least.best_of_column [OF assms] by blast

text \<open>The column with \<open>-0\<close>, NULL, the infinity and \<open>4\<close>.\<close>

theorem extremes_of_column_witness:
  "\<exists>q. blob (replicate 24 0) value_b = Some q \<and>
    (let vs = [SQLITE_BLOB [0x60], SQLITE_NULL, SQLITE_BLOB [0xC0], SQLITE_BLOB q]; fresh = \<lparr>agg_value = localZero, agg_count = 0\<rparr> in
    (\<exists>a. run_aggregate (decimalMaxStep env0) (decimalMaxFinal env0) ctx0 fresh vs = Some (ctx0, result_blob a) \<and>
      best (\<lambda>a b. lex_less b a) a vs) \<and>
    (\<exists>a. run_aggregate (decimalMinStep env0) (decimalMinFinal env0) ctx0 fresh vs = Some (ctx0, result_blob a) \<and> best lex_less a vs))"
proof -
  have b: "encodable value_b" "\<not> decNumberIsNaN value_b" "blob (replicate 24 0) value_b = Some (encode value_b)"
    using finite_value_b blob_encode [of value_b "replicate 24 0"] special_kinds [of value_b] by (auto simp: finite_number_def)
  have z: "stored (replicate 24 0) (SQLITE_BLOB [0x60])" "stored (replicate 24 0) (SQLITE_BLOB [0xC0])" "stored (replicate 24 0) (SQLITE_BLOB (encode value_b))"
  proof -
    show "stored (replicate 24 0) (SQLITE_BLOB [0x60])" unfolding stored_def by (rule exI [of _ "localZero\<lparr>bits := DECNEG\<rparr>"], rule exI [of _ "[0x60]"]) code_simp
    show "stored (replicate 24 0) (SQLITE_BLOB [0xC0])" unfolding stored_def by (rule exI [of _ "localZero\<lparr>bits := DECINF\<rparr>"], rule exI [of _ "[0xC0]"]) code_simp
    show "stored (replicate 24 0) (SQLITE_BLOB (encode value_b))" unfolding stored_def using b by blast
  qed
  have c: "widest_context ctx0" unfolding widest_context_def context_fits_def settled_def by code_simp
  have e: "env_ok env0" "env_mem env0 DECINF_MAXSIZE" by (simp_all add: env_ok_def env0_def localZero_def)
  show ?thesis unfolding Let_def
    using extremes_of_column [OF c e, of "replicate 24 0" "[SQLITE_BLOB [0x60], SQLITE_NULL, SQLITE_BLOB [0xC0], SQLITE_BLOB (encode value_b)]"
        "\<lparr>agg_value = localZero, agg_count = 0\<rparr>"] z b(3) by (simp add: is_null_def)
qed

end
