(* ===== verification/Spec2Isabelle.thy ===== *)
theory Spec2Isabelle
  imports VTab Printing UnitShift SqlRegister MathSpec SqlMean SqlExtremes
begin

text \<open>
  A verification of an SQLite extension for decimal arithmetic.  The extension stores decimal numbers as blobs in the decimalInfinite
  format, an encoding whose byte order is the order of the numbers, and computes on them with the decNumber library.

  \<^bold>\<open>The program.\<close>  Files are relative to \<^verbatim>\<open>src/src\<close>.

  \<^item> \<^verbatim>\<open>decInfinite.c\<close> encodes a \<^verbatim>\<open>decNumber\<close> as bytes and decodes it.
  \<^item> \<^verbatim>\<open>decNumber/decNumber.c\<close> and \<^verbatim>\<open>decNumber/decContext.c\<close> compute with numbers of up to 39 digits, kept as an array of units of three
    digits each, under a context that has the precision, the exponent limits, the rounding mode, the conditions raised (status) and
    the conditions that are errors (traps).
  \<^item> \<^verbatim>\<open>impl_decinfinite.c\<close> has the SQL functions: each decodes its arguments, calls decNumber with the one shared context, turns trapped
    conditions into SQL errors, and encodes the result.
  \<^item> \<^verbatim>\<open>decimal.c\<close> registers the functions and aggregates, and shows the shared context as three virtual tables with transactions.

  \<^bold>\<open>The model.\<close>  An array is a list, and an access outside it makes the result \<open>None\<close>: a theorem that an operation gives
  \<open>Some\<close> value says also that it stays inside its arrays.  Units, bytes and status words are machine words of 16, 8 and 32 bits;
  \<^verbatim>\<open>Int\<close> values are integers, wrapped to 32 bits where the source can overflow.  State is passed explicitly: the number a function writes
  to is an argument and part of the result, and the accumulated status and the context are threaded through in the order of the code.
  \<open>mem\<close> tells for which sizes \<^verbatim>\<open>malloc\<close> succeeds, so each branch for missing memory is there.  Local buffers and their sizes are those of a
  build with \<^verbatim>\<open>DECDPUN\<close> 3 and \<^verbatim>\<open>DECBUFFER\<close> 36.  Where the source writes a result over an operand, the model reads the operand before it
  writes, as the code does.  Conditional code is taken as the build has it: no \<^verbatim>\<open>DECSUBSET\<close>, no \<^verbatim>\<open>DECCHECK\<close>.

  \<^bold>\<open>The theories.\<close>

  \<^item> \<open>Prelude\<close>: memory access, bit strings, lemmas on lists, options and words.
  \<^item> \<open>BitStream\<close>, \<open>Exponent\<close>, \<open>ExponentRead\<close>, \<open>Mantissa\<close>, \<open>DecInfinite\<close>, \<open>DecInfiniteRead\<close>, \<open>DecInfiniteOrder\<close>, \<open>Printing\<close>
    (\<^verbatim>\<open>decInfinite.c\<close>): the packing of bits, the coder and decoder of exponents and significands, the whole encoder and decoder, the
    order of encodings, and the two textual forms.  They show that the encoder writes the format inside its buffer, that on strings of up
    to 32 bytes the decoder accepts exactly those of a format stated without it (more liberal than the encoder: a first declet may have leading zeros) and
    gives the number they stand for, that decoding inverts encoding, and that byte order is numeric order.
  \<^item> \<open>DecNumber\<close>, \<open>DnValue\<close>: the number, its well-formedness and its value.  \<open>UnitArith\<close>, \<open>UnitSpec\<close>, \<open>UnitShift\<close>: arithmetic on
    arrays of units, exact with respect to the value.  \<open>DnCompare\<close>, \<open>DnCompareSpec\<close>: comparison, equal to the order of the values.
    \<open>DnRound\<close>, \<open>DnRoundSpec\<close>, \<open>DnFinishSpec\<close>, \<open>DnResultSpec\<close>: cutting a coefficient, rounding, subnormal and overflowing results; what the
    residue of a cut stands for, and that cutting and finishing an exact coefficient rounds its value once, in every rounding mode.
    \<open>DnAddSpec\<close>, \<open>DnMultiplySpec\<close>, \<open>DnDivideSpec\<close>, \<open>DnArith\<close>: addition, subtraction, multiplication and division return the exact result rounded to
    the precision.  \<open>DnCancel\<close>: sums that are zero.  \<open>DnInt\<close>: conversion from and to 32-bit integers.
    \<open>DnBasic\<close>, \<open>DnText\<close>, \<open>DnAdd\<close>, \<open>DnMultiply\<close>, \<open>DnDivide\<close>, \<open>DnOps\<close>, \<open>DnMath\<close>: the other operations of \<^verbatim>\<open>decNumber.c\<close>.
  \<^item> \<open>DecContext\<close> (\<^verbatim>\<open>decContext.c\<close>), \<open>SqlApi\<close> (the values and result codes of SQLite), \<open>SqlContext\<close> (the settings of the shared context),
    \<open>VTab\<close> (the virtual tables, with runs of transaction events over the three tables and their one context), \<open>SqlFuncs\<close> (functions, aggregates, registration).
  \<^item> \<open>SqlSpec\<close>, \<open>SqlAggregate\<close>, \<open>SqlRegister\<close>, \<open>MathSpec\<close>, \<open>BlobSpec\<close>: what holds of calls: conditions are reported by the call that raised
    them, aggregates are folds of the n-ary functions, registration is complete or fails with an error, and \<^verbatim>\<open>memcmp\<close> on stored blobs is the
    numeric comparison.  \<open>SqlArith\<close>: sums, differences, products and quotients from blob to blob are the exact ones of the encoded numbers, rounded once.
    \<open>SqlSum\<close>, \<open>SqlMean\<close>: the sum of a column is exact while the partial sums fit the precision, and its mean is rounded once.
    \<open>SqlExtremes\<close>: the greatest and the least number of a column are its greatest and least blob.

  \<^bold>\<open>Interfaces.\<close>  The locales \<open>unary_op\<close> and \<open>binary_op\<close> of \<open>SqlSpec\<close> state what the SQL layer relies on from an operator of
  decNumber, that it may only set bits of the status; every operator is shown to keep it.  The locale of \<open>DecInfiniteOrder\<close> states an
  order-preserving code, with the encoder as its instance.  The locale \<open>rounded_operation\<close> of \<open>DnArith\<close> states that an operation returns its exact
  value rounded once, and has the laws that follow, monotonicity and exactness; addition, subtraction, multiplication and division are its instances.
  \<open>sql_operation\<close> of \<open>SqlArith\<close> extends it with what a call adds: the status is applied to the context, and only the values of the operands count.
  \<open>selection\<close> of \<open>SqlExtremes\<close> states that an operation returns the better of two numbers in an order of blobs; maximum and minimum are its instances.
  \<open>flag_register\<close> of \<open>SqlContext\<close> states what setting, clearing and listing flags by name do to a word of flags, for the status and for the traps;
  \<open>row_cursor\<close> of \<open>VTab\<close> states what a scan relies on, for the three virtual tables.

  \<^bold>\<open>Loops.\<close>  Loops over arrays are structural recursions or have a measure.  The long division, the power series, Newton's iteration for
  logarithms and the doubling of the precision for square roots are partial functions in the option type; \<open>None\<close> is then also a
  loop that does not end.  That the long division of a quotient ends is proved, with its result, for operands and precisions of up to 39 digits.

  \<^bold>\<open>Not modelled.\<close>  SQLite itself, the stub that reports that there is no implementation (\<^verbatim>\<open>impl_stub.c\<close>), the fixed-size formats of the
  decNumber distribution and its examples, which are not linked, and the build tools.  Registration takes the answer of SQLite as an
  argument, and the virtual tables the calls SQLite makes.

  \<^bold>\<open>Limits of the theorems.\<close>  The theorems on arithmetic are about results in the normal range of the context; subnormal and overflowing results
  are modelled (\<open>decSetSubnormal\<close>, \<open>decSetOverflow\<close>) and have no theorem.  Exponents of operands are below \<open>2 ^ 30\<close>, so that the sum and the
  difference of two is an \<^verbatim>\<open>Int\<close>; the encoding allows less.  Operands of a sum are no longer than the precision, and \<open>subtract_misrounds\<close> shows
  why.  Integer division, remainders, the mathematical functions and the conversion from and to text are modelled and have no theorem on values.
\<close>

end
